(* ===== verification/Prelude.thy ===== *)
theory Prelude
  imports Main "HOL-Library.Word"
begin

text \<open>
  Shared vocabulary of the development: the Rust integer types as words, the outcome of code
  that may panic, the association lists that stand for the source's \<open>Vec\<close>s of pairs, and
  the arithmetic facts on masks and page offsets that several components need.

  Rust's release profile of the kernel does not enable overflow checks, so \<open>+\<close>, \<open>-\<close>
  and \<open>*\<close> on the unsigned types are the wrapping operations of \<open>'w word\<close>.
  Lengths and indices of \<open>Vec\<close>s, which the allocator bounds, are \<open>nat\<close>.
\<close>

unbundle bit_operations_syntax

section \<open>Machine integers\<close>

type_synonym u8 = "8 word"
type_synonym u16 = "16 word"
type_synonym u32 = "32 word"
type_synonym u64 = "64 word"

section \<open>Panics and results\<close>

text \<open>
  \<open>Ret x\<close> is a normal return, \<open>Panic msg\<close> the kernel's panic handler being entered.
  \<open>Result<a, e>\<close> is the sum \<open>'e + 'a\<close> with \<open>Inl\<close> for \<open>Err\<close>.
\<close>

datatype 'a outcome = Ret 'a | Panic string

fun bind_outcome :: "'a outcome \<Rightarrow> ('a \<Rightarrow> 'b outcome) \<Rightarrow> 'b outcome" where
  "bind_outcome (Ret x) f = f x"
| "bind_outcome (Panic e) f = Panic e"

fun returns :: "'a outcome \<Rightarrow> bool" where
  "returns (Ret _) = True"
| "returns (Panic _) = False"

lemma bind_outcome_Ret_iff [simp]:
  "bind_outcome c f = Ret y \<longleftrightarrow> (\<exists>x. c = Ret x \<and> f x = Ret y)"
  by (cases c) auto

lemma bind_outcome_Panic_iff:
  "bind_outcome c f = Panic e \<longleftrightarrow> c = Panic e \<or> (\<exists>x. c = Ret x \<and> f x = Panic e)"
  by (cases c) auto

lemma returns_iff: "returns c \<longleftrightarrow> (\<exists>x. c = Ret x)"
  by (cases c) auto

section \<open>Vectors of pairs searched from the front\<close>

text \<open>
  The registries of the source are \<open>Vec<(key, value)>\<close>. \<open>vec_put\<close> is
  "\<open>iter_mut().find\<close> the entry and overwrite it, else \<open>push\<close>"; \<open>vec_del\<close> is
  \<open>retain(|(p, _)| *p != key)\<close>; \<open>iter().find\<close> is the library's \<open>map_of\<close>.
\<close>

fun vec_put :: "('k \<times> 'v) list \<Rightarrow> 'k \<Rightarrow> 'v \<Rightarrow> ('k \<times> 'v) list" where
  "vec_put [] k v = [(k, v)]"
| "vec_put ((k', v') # xs) k v = (if k' = k then (k, v) # xs else (k', v') # vec_put xs k v)"

definition vec_del :: "('k \<times> 'v) list \<Rightarrow> 'k \<Rightarrow> ('k \<times> 'v) list" where
  "vec_del xs k = filter (\<lambda>(k', _). k' \<noteq> k) xs"

lemma map_of_vec_put [simp]:
  "map_of (vec_put xs k v) q = (if q = k then Some v else map_of xs q)"
  by (induction xs k v rule: vec_put.induct) auto

lemma map_of_vec_del [simp]:
  "map_of (vec_del xs k) q = (if q = k then None else map_of xs q)"
  by (induction xs) (auto simp: vec_del_def)

lemma keys_vec_put: "fst ` set (vec_put xs k v) = insert k (fst ` set xs)"
  by (induction xs k v rule: vec_put.induct) auto

lemma distinct_vec_put: "distinct (map fst xs) \<Longrightarrow> distinct (map fst (vec_put xs k v))"
proof (induction xs k v rule: vec_put.induct)
  case (2 k' v' xs k v)
  then show ?case
    using keys_vec_put [of xs k v] by (auto simp: image_iff)
qed simp

section \<open>Lists\<close>

lemma map_of_append_left [simp]: "map_of xs k = Some v \<Longrightarrow> map_of (xs @ ys) k = Some v"
  by (simp add: map_add_Some_iff)

lemma last_in_butlast_split: "xs \<noteq> [] \<Longrightarrow> set xs = insert (last xs) (set (butlast xs))"
  by (metis append_butlast_last_id list.set_intros(1) list.simps(15) rotate1.simps(2) set_rotate1)

lemma distinct_last_notin_butlast: "distinct xs \<Longrightarrow> xs \<noteq> [] \<Longrightarrow> last xs \<notin> set (butlast xs)"
  by (metis append_butlast_last_id distinct.simps(2) distinct1_rotate rotate1.simps(2))

lemma sum_list_bound:
  fixes f :: "'a \<Rightarrow> nat"
  shows "(\<And>x. x \<in> set xs \<Longrightarrow> f x \<le> b) \<Longrightarrow> sum_list (map f xs) \<le> length xs * b"
proof (induction xs)
  case (Cons x xs)
  have "f x \<le> b" using Cons.prems by simp
  moreover have "sum_list (map f xs) \<le> length xs * b" using Cons by simp
  ultimately show ?case by simp
qed simp

section \<open>Words: masks and page offsets\<close>

lemma unat_and_mask: "unat (x AND mask n) = unat x mod 2 ^ n"
  for x :: "'a::len word"
  by (simp only: take_bit_eq_mask [symmetric] unsigned_take_bit_eq) (rule take_bit_eq_mod)

lemma unat_sub_le:
  "b \<le> a \<Longrightarrow> unat (a - b) = unat a - unat b"
  for a b :: "'a::len word"
  by (simp add: unat_sub)

lemma unat_add_no_wrap:
  "unat a + unat b < 2 ^ LENGTH('a) \<Longrightarrow> unat (a + b) = unat a + unat b"
  for a b :: "'a::len word"
  by (simp add: unat_word_ariths)

end
