(* ===== verification/Machine.thy ===== *)
theory Machine
  imports Prelude
begin

text \<open>
  Physical memory as the kernel sees it through the higher-half direct map: a byte per physical
  address. The source reaches a physical address \<open>p\<close> through \<open>phys_to_virt(p)\<close>, which the
  direct map sends back to \<open>p\<close>, so the model indexes memory by the physical address. Page
  arithmetic, little-endian encoding, and the loads and stores of bytes and 64-bit entries are
  here, with the facts that say which accesses do not interfere.
\<close>

type_synonym memory = "u64 \<Rightarrow> u8"

lemma unat_u64_less: "unat (x :: u64) < 18446744073709551616"
  using unsigned_less [of x, where 'a = nat] by simp

lemma unat_u64_diff:
  "unat (y - x) = (if unat x \<le> unat y then unat y - unat x
                   else 18446744073709551616 + unat y - unat x)"
  for x y :: u64
  using unat_sub_if_size [of y x] by (auto simp: word_size)

lemma unat_u64_of_nat: "n < 18446744073709551616 \<Longrightarrow> unat (of_nat n :: u64) = n"
  by (simp only: unat_of_nat) simp

section \<open>Pages\<close>

definition page_base :: "u64 \<Rightarrow> u64" where
  "page_base x = x AND NOT 0xFFF"

definition page_off :: "u64 \<Rightarrow> u64" where
  "page_off x = x AND 0xFFF"

definition page_aligned :: "u64 \<Rightarrow> bool" where
  "page_aligned a \<longleftrightarrow> page_off a = 0"

lemma mask_12: "(0xFFF :: u64) = mask 12"
  by (simp add: mask_eq_exp_minus_1)

lemma page_split: "page_base x + page_off x = x"
proof -
  have "page_base x + page_off x = page_base x OR page_off x"
    by (rule disjunctive_add_eq_or) (simp add: page_base_def page_off_def bit_eq_iff bit_simps)
  also have "\<dots> = x"
    by (auto simp: page_base_def page_off_def bit_eq_iff bit_simps)
  finally show ?thesis .
qed

lemma unat_page_off: "unat (page_off x) = unat x mod 4096"
  by (simp add: page_off_def mask_12 unat_and_mask)

lemma page_off_less: "page_off x < 4096"
  by (simp add: word_less_nat_alt unat_page_off)

lemma unat_page_base: "unat (page_base x) = 4096 * (unat x div 4096)"
proof -
  have "unat (page_base x) = unat (x - page_off x)"
    by (metis page_split add_diff_cancel_right')
  also have "\<dots> = unat x - unat (page_off x)"
    by (rule unat_sub_le) (simp add: word_le_nat_alt unat_page_off)
  also have "\<dots> = 4096 * (unat x div 4096)"
    by (simp add: unat_page_off minus_mod_eq_mult_div)
  finally show ?thesis .
qed

lemma page_aligned_dvd: "page_aligned a \<longleftrightarrow> 4096 dvd unat a"
proof -
  have "page_aligned a \<longleftrightarrow> unat (page_off a) = 0"
    by (simp add: page_aligned_def unat_eq_0)
  then show ?thesis by (simp add: unat_page_off dvd_eq_mod_eq_0)
qed

lemma page_aligned_base: "page_aligned a \<longleftrightarrow> page_base a = a"
  using page_split [of a] by (auto simp: page_aligned_def algebra_simps)

lemma page_aligned_page_base [simp]: "page_aligned (page_base x)"
  by (simp add: page_aligned_dvd unat_page_base)

lemma page_base_idem [simp]: "page_base (page_base x) = page_base x"
  using page_aligned_base [of "page_base x"] by simp

lemma in_page_iff:
  assumes "page_aligned a"
  shows "x - a < 4096 \<longleftrightarrow> page_base x = a"
proof
  assume lt: "x - a < 4096"
  obtain k where k: "unat a = 4096 * k"
    using assms by (auto simp: page_aligned_dvd)
  have "unat a + unat (x - a) < 2 ^ LENGTH(64)"
  proof -
    have "k < 2 ^ 52" using unat_u64_less [of a] k by simp
    then show ?thesis using lt k by (simp add: word_less_nat_alt)
  qed
  then have "unat x = unat a + unat (x - a)"
    using unat_add_no_wrap [of a "x - a"] by simp
  then have "unat (page_base x) = unat a"
    using lt k by (simp add: unat_page_base word_less_nat_alt)
  then show "page_base x = a" by (simp add: word_unat_eq_iff)
next
  assume "page_base x = a"
  then have "x - a = page_off x"
    using page_split [of x] by (simp add: algebra_simps)
  then show "x - a < 4096" by (simp add: page_off_less)
qed

lemma page_aligned_add:
  "page_aligned a \<Longrightarrow> page_aligned b \<Longrightarrow> page_aligned (a + b)"
proof -
  assume "page_aligned a" "page_aligned b"
  then have "4096 dvd (unat a + unat b)" by (simp add: page_aligned_dvd)
  then have "4096 dvd (unat a + unat b) mod (2 ^ 64)"
    by (simp add: dvd_mod)
  then show ?thesis by (simp add: page_aligned_dvd unat_word_ariths)
qed

section \<open>Little-endian encoding\<close>

definition le_bytes :: "nat \<Rightarrow> 'a::len word \<Rightarrow> u8 list" where
  "le_bytes n w = map (\<lambda>i. ucast (drop_bit (8 * i) w)) [0..<n]"

fun from_le :: "u8 list \<Rightarrow> 'a::len word" where
  "from_le [] = 0"
| "from_le (b # bs) = ucast b OR push_bit 8 (from_le bs)"

lemma length_le_bytes [simp]: "length (le_bytes n w) = n"
  by (simp add: le_bytes_def)

lemma nth_le_bytes [simp]: "i < n \<Longrightarrow> le_bytes n w ! i = ucast (drop_bit (8 * i) w)"
  by (simp add: le_bytes_def)

lemma bit_from_le:
  "bit (from_le bs :: 'a::len word) k \<longleftrightarrow>
     k < LENGTH('a) \<and> k div 8 < length bs \<and> bit (bs ! (k div 8)) (k mod 8)"
proof (induction bs arbitrary: k)
  case Nil
  then show ?case by simp
next
  case (Cons b bs)
  show ?case
  proof (cases "k < 8")
    case True
    then show ?thesis by (auto simp: bit_simps)
  next
    case False
    then obtain j where j: "k = j + 8" by (metis add.commute le_Suc_ex not_less)
    show ?thesis
      unfolding j using Cons.IH [of j]
      by (auto simp: bit_simps nth_Cons' div_add_self2 dest: bit_imp_le_length)
  qed
qed

lemma from_le_le_bytes:
  fixes w :: "'a::len word"
  assumes "LENGTH('a) \<le> 8 * n"
  shows "from_le (le_bytes n w) = w"
proof (rule bit_word_eqI)
  fix k assume "k < LENGTH('a)"
  then have "k div 8 < n" using assms by linarith
  then show "bit (from_le (le_bytes n w) :: 'a word) k \<longleftrightarrow> bit w k"
    using \<open>k < LENGTH('a)\<close> by (simp add: bit_from_le bit_simps)
qed

section \<open>Reading and writing bytes\<close>

definition read_bytes :: "memory \<Rightarrow> u64 \<Rightarrow> nat \<Rightarrow> u8 list" where
  "read_bytes m a n = map (\<lambda>i. m (a + of_nat i)) [0..<n]"

definition write_bytes :: "memory \<Rightarrow> u64 \<Rightarrow> u8 list \<Rightarrow> memory" where
  "write_bytes m a bs = (\<lambda>x. if unat (x - a) < length bs then bs ! unat (x - a) else m x)"

text \<open>\<open>core::ptr::write_bytes(p, 0, n)\<close>.\<close>

definition zero_bytes :: "memory \<Rightarrow> u64 \<Rightarrow> nat \<Rightarrow> memory" where
  "zero_bytes m a n = (\<lambda>x. if unat (x - a) < n then 0 else m x)"

definition load64 :: "memory \<Rightarrow> u64 \<Rightarrow> u64" where
  "load64 m a = from_le (read_bytes m a 8)"

definition store64 :: "memory \<Rightarrow> u64 \<Rightarrow> u64 \<Rightarrow> memory" where
  "store64 m a v = write_bytes m a (le_bytes 8 v)"

text \<open>Two ranges of \<open>n\<close> and \<open>k\<close> bytes do not meet, in arithmetic modulo the address space.\<close>

definition apart :: "u64 \<Rightarrow> nat \<Rightarrow> u64 \<Rightarrow> nat \<Rightarrow> bool" where
  "apart a n b k \<longleftrightarrow> n \<le> unat (b - a) \<and> k \<le> unat (a - b)"

lemma length_read_bytes [simp]: "length (read_bytes m a n) = n"
  by (simp add: read_bytes_def)

lemma nth_read_bytes [simp]: "i < n \<Longrightarrow> read_bytes m a n ! i = m (a + of_nat i)"
  by (simp add: read_bytes_def)

lemma read_write_same:
  assumes "length bs \<le> 2 ^ 64"
  shows "read_bytes (write_bytes m a bs) a (length bs) = bs"
proof (rule nth_equalityI)
  fix i assume "i < length (read_bytes (write_bytes m a bs) a (length bs))"
  then have "i < length bs" and "i < 2 ^ 64" using assms by auto
  then show "read_bytes (write_bytes m a bs) a (length bs) ! i = bs ! i"
    by (simp add: write_bytes_def unat_of_nat)
qed simp

lemma not_in_apart:
  assumes "apart a n b k" and "i < n" and "n \<le> 2 ^ 64"
  shows "k \<le> unat (a + of_nat i - b)"
proof -
  let ?d = "unat (a - b)"
  have n: "n \<le> unat (b - a)" and k: "k \<le> ?d" using assms(1) by (auto simp: apart_def)
  show ?thesis
  proof (cases "a = b")
    case True
    then show ?thesis using n assms(2) by simp
  next
    case False
    have "unat a \<noteq> unat b" using False by (metis word_unat_eq_iff)
    then have "unat (b - a) = 18446744073709551616 - ?d"
      unfolding unat_u64_diff using unat_u64_less [of a] unat_u64_less [of b] by auto
    then have "?d + i < 2 ^ 64" using n assms(2) unat_u64_less [of "a - b"] by simp
    then have "unat (a - b + of_nat i) = ?d + i"
      by (subst unat_add_no_wrap) (simp_all add: unat_of_nat)
    moreover have "a + of_nat i - b = a - b + of_nat i" by (simp add: algebra_simps)
    ultimately show ?thesis using k by (metis trans_le_add1)
  qed
qed

lemma read_write_apart:
  assumes "apart a n b (length bs)" and "n \<le> 2 ^ 64"
  shows "read_bytes (write_bytes m b bs) a n = read_bytes m a n"
  using not_in_apart [OF assms(1) _ assms(2)]
  by (fastforce simp: read_bytes_def write_bytes_def dest: leD)

lemma load_store_same [simp]: "load64 (store64 m a v) a = v"
proof -
  have "read_bytes (write_bytes m a (le_bytes 8 v)) a 8 = le_bytes 8 v"
    using read_write_same [of "le_bytes 8 v" m a] by simp
  then show ?thesis by (simp add: load64_def store64_def from_le_le_bytes)
qed

lemma load_store_apart: "apart a 8 b 8 \<Longrightarrow> load64 (store64 m b v) a = load64 m a"
  by (simp add: load64_def store64_def read_write_apart)

text \<open>Table entries: the 512 eight-byte slots of a page.\<close>

definition entry_addr :: "u64 \<Rightarrow> nat \<Rightarrow> u64" where
  "entry_addr t i = t + of_nat (8 * i)"

lemma entry_addr_0 [simp]: "entry_addr t 0 = t"
  by (simp add: entry_addr_def)

lemma unat_entry_addr:
  assumes "page_aligned t" and "i < 512"
  shows "unat (entry_addr t i) = unat t + 8 * i"
proof -
  obtain k where k: "unat t = 4096 * k" using assms(1) by (auto simp: page_aligned_dvd)
  have "k < 2 ^ 52" using unat_u64_less [of t] k by simp
  then have "unat t + 8 * i < 2 ^ 64" using assms(2) k by simp
  then show ?thesis
    using unat_add_no_wrap [of t "of_nat (8 * i)"] unat_u64_of_nat [of "8 * i"] assms(2)
    by (simp add: entry_addr_def del: of_nat_mult)
qed

lemma page_base_entry_addr:
  assumes "page_aligned t" and "i < 512" and "j < 8"
  shows "page_base (entry_addr t i + of_nat j) = t"
proof -
  have "unat (of_nat (8 * i + j) :: u64) = 8 * i + j"
    by (rule unat_u64_of_nat) (use assms(2,3) in simp)
  then have "(of_nat (8 * i + j) :: u64) < 4096"
    using assms(2,3) by (simp only: word_less_nat_alt) simp
  moreover have "(of_nat (8 * i + j) :: u64) = entry_addr t i + of_nat j - t"
    by (simp add: entry_addr_def)
  ultimately have "entry_addr t i + of_nat j - t < 4096" by metis
  then show ?thesis using in_page_iff [OF assms(1)] by blast
qed

lemma entry_distance:
  fixes x y :: u64
  assumes "unat x = 8 * p" "unat y = 8 * q" "p < q"
  shows "8 \<le> unat (y - x)" and "8 \<le> unat (x - y)"
proof -
  have q: "q < 2305843009213693952" using unat_u64_less [of y] assms(2) by linarith
  have "unat (y - x) = 8 * q - 8 * p" unfolding unat_u64_diff assms(1,2) using assms(3) by simp
  then show "8 \<le> unat (y - x)" using assms(3) by linarith
  have "unat (x - y) = 18446744073709551616 + 8 * p - 8 * q"
    unfolding unat_u64_diff assms(1,2) using assms(3) by simp
  then show "8 \<le> unat (x - y)" using assms(3) q by linarith
qed

lemma apart_entries:
  assumes "page_aligned t" "page_aligned u" "i < 512" "j < 512" "(t, i) \<noteq> (u, j)"
  shows "apart (entry_addr t i) 8 (entry_addr u j) 8"
proof -
  obtain k where k: "unat t = 4096 * k" using assms(1) by (auto simp: page_aligned_dvd)
  obtain l where l: "unat u = 4096 * l" using assms(2) by (auto simp: page_aligned_dvd)
  have t: "unat (entry_addr t i) = 8 * (512 * k + i)"
    using unat_entry_addr [OF assms(1,3)] k by simp
  have u: "unat (entry_addr u j) = 8 * (512 * l + j)"
    using unat_entry_addr [OF assms(2,4)] l by simp
  have "k \<noteq> l \<or> i \<noteq> j"
    using assms(5) k l by (metis word_unat_eq_iff)
  moreover have "(512 * k + i) div 512 = k" "(512 * k + i) mod 512 = i"
    "(512 * l + j) div 512 = l" "(512 * l + j) mod 512 = j"
    using assms(3,4) by simp_all
  ultimately have "512 * k + i \<noteq> 512 * l + j" by metis
  then consider "512 * k + i < 512 * l + j" | "512 * l + j < 512 * k + i" by linarith
  then show ?thesis
    by cases (simp_all add: apart_def entry_distance [OF t u] entry_distance [OF u t])
qed

text \<open>A store to a table entry is seen at that entry only.\<close>

lemma load_store_entry:
  assumes "page_aligned t" "page_aligned u" "i < 512" "j < 512"
  shows "load64 (store64 m (entry_addr u j) v) (entry_addr t i) =
    (if t = u \<and> i = j then v else load64 m (entry_addr t i))"
  using load_store_apart [OF apart_entries [OF assms]] by auto

lemma store_entry_outside:
  assumes "page_aligned u" "j < 512" "page_base x \<noteq> u"
  shows "store64 m (entry_addr u j) v x = m x"
proof (cases "unat (x - entry_addr u j) < 8")
  case True
  have "x = entry_addr u j + of_nat (unat (x - entry_addr u j))" by simp
  then have "page_base x = u"
    using page_base_entry_addr [OF assms(1,2) True] by simp
  then show ?thesis using assms(3) by simp
next
  case False
  then show ?thesis by (simp add: store64_def write_bytes_def)
qed

text \<open>An entry is read from its page only.\<close>

lemma load_entry_cong:
  assumes "page_aligned t" "i < 512" "\<And>x. page_base x = t \<Longrightarrow> m' x = m x"
  shows "load64 m' (entry_addr t i) = load64 m (entry_addr t i)"
proof -
  have "m' (entry_addr t i + of_nat j) = m (entry_addr t i + of_nat j)" if "j < 8" for j
    using assms(3) page_base_entry_addr [OF assms(1,2) that] by simp
  then have "read_bytes m' (entry_addr t i) 8 = read_bytes m (entry_addr t i) 8"
    by (auto simp: list_eq_iff_nth_eq)
  then show ?thesis by (simp add: load64_def)
qed

section \<open>Scrubbed pages\<close>

definition page_zero :: "memory \<Rightarrow> u64 \<Rightarrow> bool" where
  "page_zero m a \<longleftrightarrow> (\<forall>x. page_base x = a \<longrightarrow> m x = 0)"

lemma zero_bytes_page:
  assumes "page_aligned a"
  shows "zero_bytes m a 4096 = (\<lambda>x. if page_base x = a then 0 else m x)"
  using in_page_iff [OF assms] by (simp add: zero_bytes_def fun_eq_iff word_less_nat_alt)

lemma page_zero_zero_bytes: "page_aligned a \<Longrightarrow> page_zero (zero_bytes m a 4096) a"
  by (simp add: page_zero_def zero_bytes_page)

lemma load_page_zero:
  assumes "page_aligned t" "i < 512" "page_zero m t"
  shows "load64 m (entry_addr t i) = 0"
proof -
  have "m (entry_addr t i + of_nat j) = 0" if "j < 8" for j
    using assms page_base_entry_addr [OF assms(1,2) that] by (auto simp: page_zero_def)
  then have "read_bytes m (entry_addr t i) 8 = replicate 8 0"
    by (auto simp: list_eq_iff_nth_eq)
  then have "\<not> bit (load64 m (entry_addr t i)) k" for k
    by (auto simp: load64_def bit_from_le)
  then show ?thesis by (auto intro: bit_word_eqI)
qed

lemma load_zero_bytes_other:
  assumes "page_aligned t" "i < 512" "page_aligned a" "t \<noteq> a"
  shows "load64 (zero_bytes m a 4096) (entry_addr t i) = load64 m (entry_addr t i)"
proof -
  have "zero_bytes m a 4096 (entry_addr t i + of_nat j) = m (entry_addr t i + of_nat j)" if "j < 8" for j
    using page_base_entry_addr [OF assms(1,2) that] assms(4)
    by (simp add: zero_bytes_page [OF assms(3)])
  then have "read_bytes (zero_bytes m a 4096) (entry_addr t i) 8 = read_bytes m (entry_addr t i) 8"
    by (auto simp: list_eq_iff_nth_eq)
  then show ?thesis by (simp add: load64_def)
qed

section \<open>Ranges of pages\<close>

text \<open>
  The addresses that \<open>while a < e { ...; a += step }\<close> visits. The lemma shows that the list
  unfolds as the loop does when the bounds are multiples of the step.
\<close>

definition step_range :: "nat \<Rightarrow> u64 \<Rightarrow> u64 \<Rightarrow> u64 list" where
  "step_range step a e =
     (if a < e then map (\<lambda>i. a + of_nat (step * i)) [0..<(unat e - unat a) div step] else [])"

definition page_range :: "u64 \<Rightarrow> u64 \<Rightarrow> u64 list" where
  "page_range a e = step_range 4096 a e"

lemma step_range_empty [simp]: "\<not> a < e \<Longrightarrow> step_range k a e = []"
  by (simp add: step_range_def)

lemma step_range_unfold:
  assumes "a < e" and "k dvd unat a" and "k dvd unat e" and "0 < k"
  shows "step_range k a e = a # step_range k (a + of_nat k) e"
proof -
  obtain p q where p: "unat a = k * p" and q: "unat e = k * q" using assms(2,3) by (metis dvdE)
  have lt: "k * p < k * q" using assms(1) p q by (simp add: word_less_nat_alt)
  then have pq: "p < q" by simp
  have "k * Suc p \<le> k * q" using pq by (intro mult_le_mono2) simp
  then have le: "k * p + k \<le> k * q" by simp
  have kq: "k * q < 18446744073709551616" using unat_u64_less [of e] q by simp
  have uk: "unat (of_nat k :: u64) = k" by (rule unat_u64_of_nat) (use le kq in linarith)
  have "unat a + unat (of_nat k :: u64) < 2 ^ LENGTH(64)" using le kq p uk by simp
  then have up: "unat (a + of_nat k) = k * p + k" using p uk by (simp add: unat_add_no_wrap)
  have n: "(unat e - unat a) div k = Suc (q - Suc p)"
    unfolding p q diff_mult_distrib2 [symmetric] using pq assms(4) by simp
  have upt: "[0..<Suc (q - Suc p)] = 0 # map Suc [0..<q - Suc p]" using upt_conv_Cons [of 0 "Suc (q - Suc p)"] by (simp only: map_Suc_upt)
  show ?thesis
  proof (cases "a + of_nat k < e")
    case True
    have "(unat e - unat (a + of_nat k)) div k = q - Suc p"
    proof -
      have "k * q - (k * p + k) = k * (q - Suc p)" by (simp add: diff_mult_distrib2)
      then show ?thesis unfolding up q using assms(4) by simp
    qed
    then show ?thesis
      unfolding step_range_def n upt using assms(1) True by (simp add: o_def algebra_simps)
  next
    case False
    then have "k * q \<le> k * p + k" using up q by (simp add: word_less_nat_alt not_less)
    then have "k * q \<le> k * Suc p" by simp
    then have "q \<le> Suc p" using assms(4) by (simp only: mult_le_cancel1)
    then show ?thesis unfolding step_range_def n upt using assms(1) False by simp
  qed
qed

lemma page_range_unfold:
  "page_aligned a \<Longrightarrow> page_aligned e \<Longrightarrow>
     page_range a e = (if a < e then a # page_range (a + 4096) e else [])"
  using step_range_unfold [of a e 4096] by (simp add: page_range_def page_aligned_dvd)

end
