(* ===== verification/Interfaces.thy ===== *)
theory Interfaces
  imports Prelude
begin

text \<open>
  The contracts that several components share, as locales. \<open>pid_table\<close> is what the
  security registries promise (capabilities, seccomp profiles, MAC labels): the last
  registration of a process wins and deregistration removes it. \<open>fifo\<close> and
  \<open>batch_fifo\<close> are what the ring buffers promise (keyboard, IPC): bytes come out in the
  order they were accepted, none invented, lost or repeated; \<open>frame_alloc\<close> is what the
  physical frame allocator promises its clients. Each is interpreted in the theory
  of the component that provides it.
\<close>

section \<open>Tables keyed by process\<close>

datatype ('k, 'v) table_op = Put 'k 'v | Del 'k

fun op_key :: "('k, 'v) table_op \<Rightarrow> 'k" where
  "op_key (Put k _) = k"
| "op_key (Del k) = k"

fun op_result :: "('k, 'v) table_op \<Rightarrow> 'v option" where
  "op_result (Put _ v) = Some v"
| "op_result (Del _) = None"

locale pid_table =
  fixes lookup :: "'t \<Rightarrow> 'k \<Rightarrow> 'v option"
    and put :: "'k \<Rightarrow> 'v \<Rightarrow> 't \<Rightarrow> 't"
    and del :: "'k \<Rightarrow> 't \<Rightarrow> 't"
  assumes lookup_put: "lookup (put k v t) q = (if q = k then Some v else lookup t q)"
    and lookup_del: "lookup (del k t) q = (if q = k then None else lookup t q)"
begin

fun apply_op :: "('k, 'v) table_op \<Rightarrow> 't \<Rightarrow> 't" where
  "apply_op (Put k v) t = put k v t"
| "apply_op (Del k) t = del k t"

lemma lookup_apply_op:
  "lookup (apply_op c t) q = (if op_key c = q then op_result c else lookup t q)"
  by (cases c) (auto simp: lookup_put lookup_del)

text \<open>After a run of operations an entry is what the last operation on its key left.\<close>

lemma lookup_fold:
  "lookup (fold apply_op cs t) q =
     (case filter (\<lambda>c. op_key c = q) (rev cs) of [] \<Rightarrow> lookup t q | c # _ \<Rightarrow> op_result c)"
proof (induction cs rule: rev_induct)
  case Nil
  then show ?case by simp
next
  case (snoc c cs)
  then show ?case by (simp add: lookup_apply_op)
qed

lemma lookup_fold_other:
  "\<forall>c \<in> set cs. op_key c \<noteq> q \<Longrightarrow> lookup (fold apply_op cs t) q = lookup t q"
  by (induction cs arbitrary: t) (auto simp: lookup_apply_op)

end

section \<open>Bounded queues\<close>

datatype 'a queue_op = Enq 'a | Deq

text \<open>
  \<open>contents\<close> is the abstraction of the buffer, \<open>capacity\<close> what it can hold;
  \<open>enq\<close> drops its argument when the buffer is full.
\<close>

locale fifo =
  fixes contents :: "'q \<Rightarrow> 'a list"
    and capacity :: nat
    and inv :: "'q \<Rightarrow> bool"
    and enq :: "'q \<Rightarrow> 'a \<Rightarrow> 'q"
    and deq :: "'q \<Rightarrow> 'q \<times> 'a option"
  assumes contents_enq:
      "inv q \<Longrightarrow> contents (enq q x) =
         (if length (contents q) < capacity then contents q @ [x] else contents q)"
    and contents_deq: "inv q \<Longrightarrow> contents (fst (deq q)) = tl (contents q)"
    and result_deq:
      "inv q \<Longrightarrow> snd (deq q) = (case contents q of [] \<Rightarrow> None | x # _ \<Rightarrow> Some x)"
    and inv_enq: "inv q \<Longrightarrow> inv (enq q x)"
    and inv_deq: "inv q \<Longrightarrow> inv (fst (deq q))"
    and within_capacity: "inv q \<Longrightarrow> length (contents q) \<le> capacity"
begin

text \<open>
  A run of operations: the final buffer, the items it accepted and the items it delivered,
  each in order.
\<close>

fun run :: "'a queue_op list \<Rightarrow> 'q \<Rightarrow> 'q \<times> 'a list \<times> 'a list" where
  "run [] q = (q, [], [])"
| "run (Enq x # cs) q =
     (let (q', acc, out) = run cs (enq q x)
      in (q', (if length (contents q) < capacity then x # acc else acc), out))"
| "run (Deq # cs) q =
     (let (q', acc, out) = run cs (fst (deq q))
      in (q', acc, (case snd (deq q) of None \<Rightarrow> out | Some x \<Rightarrow> x # out)))"

lemma run_inv: "inv q \<Longrightarrow> inv (fst (run cs q))"
proof (induction cs q rule: run.induct)
  case (2 x cs q)
  then show ?case by (auto simp: inv_enq split: prod.splits)
next
  case (3 cs q)
  then show ?case by (auto simp: inv_deq split: prod.splits)
qed simp

text \<open>
  First in, first out: what was in the buffer followed by what was accepted is what was
  delivered followed by what is left.
\<close>

lemma run_fifo:
  "inv q \<Longrightarrow> run cs q = (q', acc, out) \<Longrightarrow> contents q @ acc = out @ contents q'"
proof (induction cs q arbitrary: q' acc out rule: run.induct)
  case (1 q)
  then show ?case by simp
next
  case (2 x cs q)
  obtain q1 a1 o1 where r: "run cs (enq q x) = (q1, a1, o1)"
    by (cases "run cs (enq q x)") auto
  have IH: "contents (enq q x) @ a1 = o1 @ contents q1"
    by (rule "2.IH") (simp_all add: r inv_enq "2.prems")
  from IH show ?case
    using "2.prems" r by (auto simp: contents_enq split: if_splits)
next
  case (3 cs q)
  obtain q1 a1 o1 where r: "run cs (fst (deq q)) = (q1, a1, o1)"
    by (cases "run cs (fst (deq q))") auto
  have IH: "contents (fst (deq q)) @ a1 = o1 @ contents q1"
    by (rule "3.IH") (simp_all add: r inv_deq "3.prems")
  from IH show ?case
    using "3.prems" r by (auto simp: contents_deq result_deq split: list.splits option.splits)
qed

end

text \<open>
  The same contract for a buffer that is written and read in batches: a batch is accepted up to
  the free space and a read returns at most what is there. A batch buffer used with single
  items is a \<open>fifo\<close>.
\<close>

locale batch_fifo =
  fixes bcontents :: "'q \<Rightarrow> 'a list"
    and bcapacity :: nat
    and binv :: "'q \<Rightarrow> bool"
    and push :: "'q \<Rightarrow> 'a list \<Rightarrow> 'q \<times> nat"
    and pop :: "'q \<Rightarrow> nat \<Rightarrow> 'q \<times> 'a list"
  assumes contents_push:
      "binv q \<Longrightarrow> bcontents (fst (push q xs)) =
         bcontents q @ take (bcapacity - length (bcontents q)) xs"
    and count_push:
      "binv q \<Longrightarrow> snd (push q xs) = min (length xs) (bcapacity - length (bcontents q))"
    and contents_pop: "binv q \<Longrightarrow> bcontents (fst (pop q n)) = drop n (bcontents q)"
    and result_pop: "binv q \<Longrightarrow> snd (pop q n) = take n (bcontents q)"
    and inv_push: "binv q \<Longrightarrow> binv (fst (push q xs))"
    and inv_pop: "binv q \<Longrightarrow> binv (fst (pop q n))"
    and bounded: "binv q \<Longrightarrow> length (bcontents q) \<le> bcapacity"
begin

text \<open>A batch that fits is accepted whole and is read back after what was there before.\<close>

lemma push_all_accepted:
  assumes "binv q" and "length (bcontents q) + length xs \<le> bcapacity"
  shows "snd (push q xs) = length xs" and "bcontents (fst (push q xs)) = bcontents q @ xs"
  using assms by (auto simp: count_push contents_push)

text \<open>A run of batches: the final buffer, the items accepted and the items delivered, in order.\<close>

fun brun :: "('a list + nat) list \<Rightarrow> 'q \<Rightarrow> 'q \<times> 'a list \<times> 'a list" where
  "brun [] q = (q, [], [])"
| "brun (Inl xs # cs) q =
     (case push q xs of (q1, n) \<Rightarrow> case brun cs q1 of (q', acc, out) \<Rightarrow> (q', take n xs @ acc, out))"
| "brun (Inr n # cs) q =
     (case pop q n of (q1, xs) \<Rightarrow> case brun cs q1 of (q', acc, out) \<Rightarrow> (q', acc, xs @ out))"

lemma brun_fifo:
  "binv q \<Longrightarrow> brun cs q = (q', acc, out) \<Longrightarrow> bcontents q @ acc = out @ bcontents q' \<and> binv q'"
proof (induction cs q arbitrary: q' acc out rule: brun.induct)
  case (2 xs cs q)
  obtain q1 n where p: "push q xs = (q1, n)" by fastforce
  obtain q2 a o2 where r: "brun cs q1 = (q2, a, o2)" by (cases "brun cs q1") auto
  have "bcontents q1 = bcontents q @ take n xs"
    using contents_push [OF 2(2), of xs] count_push [OF 2(2), of xs] p
    by (cases "length xs \<le> bcapacity - length (bcontents q)") (simp_all add: min_def)
  moreover have "binv q1" using inv_push [OF 2(2), of xs] p by simp
  ultimately show ?case using 2(1) [OF p [symmetric] _ r] 2(3) p r by auto
next
  case (3 n cs q)
  obtain q1 xs where p: "pop q n = (q1, xs)" by fastforce
  obtain q2 a o2 where r: "brun cs q1 = (q2, a, o2)" by (cases "brun cs q1") auto
  have "bcontents q = xs @ bcontents q1"
    using contents_pop [OF 3(2), of n] result_pop [OF 3(2), of n] p by simp
  moreover have "binv q1" using inv_pop [OF 3(2), of n] p by simp
  ultimately show ?case using 3(1) [OF p [symmetric] _ r] 3(3) p r by auto
qed simp

lemma push_then_pop_all:
  assumes "binv q" and "length (bcontents q) + length xs \<le> bcapacity"
  shows "snd (pop (fst (push q xs)) (length (bcontents q) + length xs)) = bcontents q @ xs"
  using assms by (simp add: result_pop inv_push contents_push)

end

sublocale batch_fifo \<subseteq> single: fifo bcontents bcapacity binv
  "\<lambda>q x. fst (push q [x])"
  "\<lambda>q. (case pop q 1 of (q', xs) \<Rightarrow> (q', (case xs of [] \<Rightarrow> None | x # _ \<Rightarrow> Some x)))"
proof (unfold_locales, goal_cases)
  case (1 q x)
  then show ?case by (auto simp: contents_push)
next
  case (2 q)
  then show ?case using contents_pop [of q 1] by (auto simp: drop_Suc split: prod.splits)
next
  case (3 q)
  then show ?case
    using result_pop [of q 1] by (cases "bcontents q") (auto split: prod.splits list.splits)
next
  case (4 q x)
  then show ?case by (rule inv_push)
next
  case (5 q)
  then show ?case using inv_pop [of q 1] by (auto split: prod.splits)
next
  case (6 q)
  then show ?case by (rule bounded)
qed

section \<open>Allocators\<close>

datatype 'f frame_op = AllocF | FreeF 'f

text \<open>
  \<open>owns s F\<close>: the frames \<open>F\<close> are handed out in state \<open>s\<close>; \<open>avail s\<close>: how many more
  can be. An allocation fails only when nothing is available, otherwise it returns a frame that
  nobody owns; returning an owned frame never fails and makes one more available.
\<close>

locale frame_alloc =
  fixes alloc :: "'s \<Rightarrow> 'f option \<times> 's"
    and free :: "'f \<Rightarrow> 's \<Rightarrow> 's outcome"
    and owns :: "'s \<Rightarrow> 'f set \<Rightarrow> bool"
    and avail :: "'s \<Rightarrow> nat"
  assumes alloc_fresh: "owns s F \<Longrightarrow> alloc s = (Some f, s') \<Longrightarrow> f \<notin> F"
    and alloc_owned: "owns s F \<Longrightarrow> alloc s = (Some f, s') \<Longrightarrow> owns s' (insert f F)"
    and alloc_none: "owns s F \<Longrightarrow> alloc s = (None, s') \<Longrightarrow> owns s' F"
    and free_owned: "owns s F \<Longrightarrow> f \<in> F \<Longrightarrow> \<exists>s'. free f s = Ret s' \<and> owns s' (F - {f})"
    and avail_none: "owns s F \<Longrightarrow> alloc s = (None, s') \<Longrightarrow> avail s = 0 \<and> avail s' = 0"
    and avail_alloc: "owns s F \<Longrightarrow> alloc s = (Some f, s') \<Longrightarrow> avail s = Suc (avail s')"
    and avail_free: "free f s = Ret s' \<Longrightarrow> avail s' = Suc (avail s)"
    and owned_finite: "owns s F \<Longrightarrow> finite F"
begin

text \<open>
  A client that returns only frames it holds; \<open>L\<close> are the frames it holds. The run stops at
  a panic of the allocator.
\<close>

fun client :: "'f frame_op list \<Rightarrow> 's \<Rightarrow> 'f set \<Rightarrow> ('s \<times> 'f set) outcome" where
  "client [] s L = Ret (s, L)"
| "client (AllocF # cs) s L =
     (case alloc s of
        (None, s') \<Rightarrow> client cs s' L
      | (Some f, s') \<Rightarrow> client cs s' (insert f L))"
| "client (FreeF f # cs) s L =
     (if f \<in> L then bind_outcome (free f s) (\<lambda>s'. client cs s' (L - {f})) else client cs s L)"

text \<open>
  No run of a client panics the allocator, none is ever handed a frame \<open>R\<close> that somebody
  else holds, and no frame is lost or made up.
\<close>

lemma client_disjoint:
  "owns s (L \<union> R) \<Longrightarrow> L \<inter> R = {} \<Longrightarrow>
     \<exists>s' L'. client cs s L = Ret (s', L') \<and> owns s' (L' \<union> R) \<and> L' \<inter> R = {} \<and>
       avail s' + card L' = avail s + card L"
proof (induction cs s L rule: client.induct)
  case (1 s L)
  then show ?case by auto
next
  case (2 cs s L)
  show ?case
  proof (cases "alloc s")
    case (Pair r s')
    show ?thesis
    proof (cases r)
      case None
      then have "owns s' (L \<union> R)" "avail s' = avail s"
        using 2(3) Pair alloc_none avail_none by metis+
      then show ?thesis using 2(1) [OF Pair [symmetric] None] 2(4) Pair None by simp
    next
      case (Some f)
      then have f: "f \<notin> L \<union> R" "owns s' (insert f L \<union> R)" "avail s = Suc (avail s')"
        using alloc_fresh alloc_owned avail_alloc 2(3) Pair by auto
      have "card (insert f L) = Suc (card L)"
        using f(1) owned_finite [OF 2(3)] by simp
      then show ?thesis using 2(2) [OF Pair [symmetric] Some f(2)] 2(4) Pair Some f by simp
    qed
  qed
next
  case (3 f cs s L)
  show ?case
  proof (cases "f \<in> L")
    case True
    then obtain s' where s': "free f s = Ret s'" "owns s' (L \<union> R - {f})"
      using free_owned [OF "3.prems"(1)] by auto
    have "L \<union> R - {f} = (L - {f}) \<union> R" using True "3.prems"(2) by auto
    with s'(2) have "owns s' ((L - {f}) \<union> R)" by simp
    moreover have "(L - {f}) \<inter> R = {}" using "3.prems"(2) by auto
    moreover have "card L = Suc (card (L - {f}))"
      using True owned_finite [OF "3.prems"(1)] by (intro card.remove) auto
    moreover have "avail s' = Suc (avail s)" by (rule avail_free [OF s'(1)])
    ultimately obtain s2 L' where "client cs s' (L - {f}) = Ret (s2, L')" "owns s2 (L' \<union> R)"
      "L' \<inter> R = {}" "avail s2 + card L' = avail s + card L"
      using 3(1) [OF True] by force
    then show ?thesis using s'(1) True by simp
  next
    case False
    then show ?thesis using 3 by simp
  qed
qed

end

section \<open>Filesystems\<close>

text \<open>
  The \<open>Filesystem\<close> trait behind the mount table. \<open>rd s p n\<close> is a read into a buffer of \<open>n\<close>
  bytes, \<open>wr s p bs u g\<close> a whole-file write under the identity \<open>(u, g)\<close>, and \<open>who s p\<close> the mode and
  owner that \<open>stat\<close> reports. A read delivers a prefix of a content that does not depend on the
  buffer; a failed write changes nothing; a successful one replaces the content of that file only,
  keeps its mode and owner, and stamps a new file with the writer's identity.
\<close>

locale filesystem =
  fixes rd :: "'s \<Rightarrow> string \<Rightarrow> nat \<Rightarrow> 'e + 'b list"
    and wr :: "'s \<Rightarrow> string \<Rightarrow> 'b list \<Rightarrow> 'i \<Rightarrow> ('e + nat) \<times> 's"
    and who :: "'s \<Rightarrow> string \<Rightarrow> 'e + 'o"
    and new_owner :: "'i \<Rightarrow> 'o"
  assumes rd_bound: "rd s p n = Inr bs \<Longrightarrow> length bs \<le> n"
    and rd_prefix: "rd s p n = Inr bs \<Longrightarrow> m \<le> n \<Longrightarrow> rd s p m = Inr (take m bs)"
    and rd_error: "rd s p n = Inl e \<Longrightarrow> rd s p m = Inl e"
    and wr_error: "wr s p bs i = (Inl e, s') \<Longrightarrow> s' = s"
    and wr_count: "wr s p bs i = (Inr k, s') \<Longrightarrow> k = length bs"
    and wr_content: "wr s p bs i = (Inr k, s') \<Longrightarrow> rd s' p n = Inr (take n bs)"
    and wr_frame: "wr s p bs i = (Inr k, s') \<Longrightarrow> q \<noteq> p \<Longrightarrow> rd s' q n = rd s q n \<and> who s' q = who s q"
    and wr_owner: "wr s p bs i = (Inr k, s') \<Longrightarrow> who s p = Inr w \<Longrightarrow> who s' p = Inr w"
    and wr_create: "wr s p bs i = (Inr k, s') \<Longrightarrow> who s p = Inl e \<Longrightarrow> who s' p = Inr (new_owner i)"
begin

text \<open>Any sequence of writes by anybody.\<close>

fun writes :: "(string \<times> 'b list \<times> 'i) list \<Rightarrow> 's \<Rightarrow> 's" where
  "writes [] s = s"
| "writes ((p, bs, i) # ws) s = writes ws (snd (wr s p bs i))"

lemma wr_cases:
  obtains (failed) e where "wr s p bs i = (Inl e, s)"
  | (written) s' where "wr s p bs i = (Inr (length bs), s')"
  by (metis obj_sumE prod.collapse wr_count wr_error)

lemma owner_stable: "who s p = Inr w \<Longrightarrow> who (writes ws s) p = Inr w"
proof (induction ws s rule: writes.induct)
  case (2 q bs i ws s)
  have "who (snd (wr s q bs i)) p = Inr w"
    using 2(2) by (cases rule: wr_cases [of s q bs i]; cases "p = q") (simp_all add: wr_owner wr_frame)
  then show ?case using 2(1) by simp
qed simp

lemma untouched: "p \<notin> fst ` set ws \<Longrightarrow> rd (writes ws s) p n = rd s p n"
proof (induction ws s rule: writes.induct)
  case (2 q bs i ws s)
  have "rd (snd (wr s q bs i)) p n = rd s p n"
    using 2(2) by (cases rule: wr_cases [of s q bs i]) (auto simp: wr_frame)
  then show ?case using 2 by simp
qed simp

lemma last_write:
  assumes "p \<notin> fst ` set ws" and "wr s p bs i = (Inr k, s')"
  shows "rd (writes ws s') p n = Inr (take n bs)"
  using untouched [OF assms(1)] wr_content [OF assms(2)] by simp

end

end
