(* ===== verification/Pmm.thy ===== *)
theory Pmm
  imports Machine Interfaces
begin

text \<open>
  The physical frame allocator (\<open>kernel/src/memory/pmm.rs\<close>): a bump pointer over the usable
  regions of the boot memory map, and a LIFO free list of scrubbed frames. The array of
  \<open>MAX_REGIONS\<close> slots with its count is the list of its first \<open>count\<close> entries.
  \<open>owns s F\<close> is the allocator's contract with its clients: \<open>F\<close> is the set of frames
  handed out and not yet returned. It is stated over the locale \<open>frame_alloc\<close>, which the
  page tables, the loader and the scheduler use.
\<close>

section \<open>State\<close>

record region =
  r_base :: u64
  r_end :: u64

record pmm =
  p_regions :: "region list"
  p_cur :: nat
  p_next :: u64
  p_free :: u64
  p_free_list :: "u64 list"

record machine =
  m_mem :: memory
  m_pmm :: pmm

definition PAGE_SIZE :: u64 where
  "PAGE_SIZE = 4096"

definition MAX_REGIONS :: nat where
  "MAX_REGIONS = 32"

definition pmm_empty :: pmm where
  "pmm_empty = \<lparr>p_regions = [], p_cur = 0, p_next = 0, p_free = 0, p_free_list = []\<rparr>"

section \<open>Operations\<close>

definition add_region :: "u64 \<Rightarrow> u64 \<Rightarrow> pmm \<Rightarrow> pmm" where
  "add_region base len p =
     (if MAX_REGIONS \<le> length (p_regions p) then p
      else
        let aligned_base = (base + PAGE_SIZE - 1) AND NOT (PAGE_SIZE - 1);
            aligned_end = (base + len) AND NOT (PAGE_SIZE - 1)
        in if aligned_end \<le> aligned_base then p
           else p\<lparr>p_free := p_free p + (aligned_end - aligned_base) div PAGE_SIZE,
                  p_regions := p_regions p @ [\<lparr>r_base = aligned_base, r_end = aligned_end\<rparr>]\<rparr>)"

text \<open>\<open>init\<close>'s \<open>for i in 0..count\<close> with its early return.\<close>

fun init_scan :: "nat \<Rightarrow> region list \<Rightarrow> pmm \<Rightarrow> pmm" where
  "init_scan i [] p = p"
| "init_scan i (r # rs) p =
     (if 0x100000 < r_end r then p\<lparr>p_cur := i, p_next := max (r_base r) 0x300000\<rparr>
      else init_scan (Suc i) rs p)"

definition pmm_init :: "pmm \<Rightarrow> pmm" where
  "pmm_init p = init_scan 0 (p_regions p) p"

text \<open>The bump loop that \<open>alloc_frame\<close> and \<open>alloc_contiguous_frames\<close> share.\<close>

function bump_loop :: "u64 \<Rightarrow> pmm \<Rightarrow> u64 option \<times> pmm" where
  "bump_loop need p =
     (if length (p_regions p) \<le> p_cur p then (None, p)
      else
        let ed = r_end (p_regions p ! p_cur p); start = p_next p
        in if start + need \<le> ed then (Some start, p\<lparr>p_next := start + need\<rparr>)
           else
             let cur = Suc (p_cur p)
             in bump_loop need
                  (if cur < length (p_regions p)
                   then p\<lparr>p_cur := cur, p_next := r_base (p_regions p ! cur)\<rparr>
                   else p\<lparr>p_cur := cur\<rparr>))"
  by pat_completeness auto

termination
  by (relation "measure (\<lambda>(need, p). length (p_regions p) - p_cur p)") (auto simp: Let_def)

declare bump_loop.simps [simp del]

definition pmm_alloc_frame :: "pmm \<Rightarrow> u64 option \<times> pmm" where
  "pmm_alloc_frame p =
     (if p_free_list p \<noteq> []
      then (Some (last (p_free_list p)),
            p\<lparr>p_free_list := butlast (p_free_list p), p_free := p_free p - 1\<rparr>)
      else
        case bump_loop PAGE_SIZE p of
          (None, p') \<Rightarrow> (None, p')
        | (Some f, p') \<Rightarrow> (Some f, if 0 < p_free p' then p'\<lparr>p_free := p_free p' - 1\<rparr> else p'))"

definition pmm_alloc_contiguous :: "nat \<Rightarrow> pmm \<Rightarrow> u64 option \<times> pmm" where
  "pmm_alloc_contiguous n p =
     (case bump_loop (of_nat n * PAGE_SIZE) p of
        (None, p') \<Rightarrow> (None, p')
      | (Some f, p') \<Rightarrow>
          (Some f, p'\<lparr>p_free := (if of_nat n \<le> p_free p' then p_free p' - of_nat n else 0)\<rparr>))"

definition alloc_frame :: "machine \<Rightarrow> u64 option \<times> machine" where
  "alloc_frame s = (case pmm_alloc_frame (m_pmm s) of (f, p) \<Rightarrow> (f, s\<lparr>m_pmm := p\<rparr>))"

definition alloc_contiguous_frames :: "nat \<Rightarrow> machine \<Rightarrow> u64 option \<times> machine" where
  "alloc_contiguous_frames n s =
     (case pmm_alloc_contiguous n (m_pmm s) of (f, p) \<Rightarrow> (f, s\<lparr>m_pmm := p\<rparr>))"

definition free_frame :: "u64 \<Rightarrow> machine \<Rightarrow> machine outcome" where
  "free_frame addr s =
     (let s1 = s\<lparr>m_mem := zero_bytes (m_mem s) addr 4096\<rparr>; p = m_pmm s1
      in if addr \<in> set (p_free_list p) then Panic ''PMM double-free''
         else Ret (s1\<lparr>m_pmm := p\<lparr>p_free_list := p_free_list p @ [addr], p_free := p_free p + 1\<rparr>\<rparr>))"

definition free_frames :: "pmm \<Rightarrow> u64" where
  "free_frames p = p_free p"


section \<open>Well-formed allocator states\<close>

definition in_region :: "region \<Rightarrow> u64 \<Rightarrow> bool" where
  "in_region r f \<longleftrightarrow> r_base r \<le> f \<and> f < r_end r"

definition region_pages :: "region \<Rightarrow> nat" where
  "region_pages r = (unat (r_end r) - unat (r_base r)) div 4096"

definition region_ok :: "region \<Rightarrow> bool" where
  "region_ok r \<longleftrightarrow> page_aligned (r_base r) \<and> page_aligned (r_end r) \<and>
     r_base r < r_end r \<and> unat (r_end r) \<le> 2 ^ 47"

definition regions_apart :: "region \<Rightarrow> region \<Rightarrow> bool" where
  "regions_apart r q \<longleftrightarrow> r_end r \<le> r_base q \<or> r_end q \<le> r_base r"

definition pmm_wf :: "pmm \<Rightarrow> bool" where
  "pmm_wf p \<longleftrightarrow> length (p_regions p) \<le> MAX_REGIONS \<and>
     (\<forall>r \<in> set (p_regions p). region_ok r) \<and>
     sorted_wrt regions_apart (p_regions p) \<and>
     (p_cur p < length (p_regions p) \<longrightarrow>
        page_aligned (p_next p) \<and> r_base (p_regions p ! p_cur p) \<le> p_next p \<and>
        unat (p_next p) \<le> 2 ^ 52)"

text \<open>Frames that the bump pointer has not reached yet, and how many there are.\<close>

definition in_reserve :: "pmm \<Rightarrow> u64 \<Rightarrow> bool" where
  "in_reserve p f \<longleftrightarrow> (\<exists>i. p_cur p \<le> i \<and> i < length (p_regions p) \<and>
     in_region (p_regions p ! i) f \<and> (i = p_cur p \<longrightarrow> p_next p \<le> f))"

definition reserve_pages :: "pmm \<Rightarrow> nat" where
  "reserve_pages p =
     (if p_cur p < length (p_regions p)
      then (unat (r_end (p_regions p ! p_cur p)) - unat (p_next p)) div 4096 +
           sum_list (map region_pages (drop (Suc (p_cur p)) (p_regions p)))
      else 0)"

definition total_pages :: "pmm \<Rightarrow> nat" where
  "total_pages p = sum_list (map region_pages (p_regions p))"

text \<open>
  The ownership invariant: \<open>F\<close> are the frames handed out and not returned. Owned and free
  frames are page aligned, inside a usable region, disjoint, and behind the bump pointer; the
  counter \<open>free\<close> is exactly the number of pages of the memory map that nobody owns.
\<close>

definition pmm_owns :: "pmm \<Rightarrow> u64 set \<Rightarrow> bool" where
  "pmm_owns p F \<longleftrightarrow> pmm_wf p \<and> finite F \<and> distinct (p_free_list p) \<and>
     set (p_free_list p) \<inter> F = {} \<and>
     (\<forall>f \<in> F \<union> set (p_free_list p).
        page_aligned f \<and> (\<exists>r \<in> set (p_regions p). in_region r f) \<and> \<not> in_reserve p f) \<and>
     length (p_free_list p) + reserve_pages p \<le> unat (p_free p) \<and>
     unat (p_free p) + card F = total_pages p"

definition owns :: "machine \<Rightarrow> u64 set \<Rightarrow> bool" where
  "owns s F \<longleftrightarrow> pmm_owns (m_pmm s) F \<and>
     (\<forall>f \<in> set (p_free_list (m_pmm s)). page_zero (m_mem s) f)"

lemma total_pages_bound:
  assumes "pmm_wf p"
  shows "total_pages p \<le> 32 * 2 ^ 40"
proof -
  have "region_pages r \<le> 2 ^ 40" if "r \<in> set (p_regions p)" for r
  proof -
    have "unat (r_end r) - unat (r_base r) \<le> 2 ^ 52"
      using assms that by (auto simp: pmm_wf_def region_ok_def)
    then show ?thesis by (simp add: region_pages_def)
  qed
  then have "sum_list (map region_pages (p_regions p)) \<le> length (p_regions p) * 2 ^ 40"
    by (rule sum_list_bound)
  also have "\<dots> \<le> 32 * 2 ^ 40" using assms by (simp add: pmm_wf_def MAX_REGIONS_def)
  finally show ?thesis by (simp add: total_pages_def)
qed

text \<open>The \<open>n\<close> page addresses from \<open>f\<close> on.\<close>

definition frames_from :: "u64 \<Rightarrow> nat \<Rightarrow> u64 set" where
  "frames_from f n = (\<lambda>i. f + of_nat (4096 * i)) ` {..<n}"

lemma frames_from_1 [simp]: "frames_from f 1 = {f}"
  by (simp add: frames_from_def lessThan_Suc)

lemma unat_frames_from:
  fixes f :: u64
  assumes "unat f + 4096 * n \<le> 2 ^ 52" "i < n"
  shows "unat (f + of_nat (4096 * i)) = unat f + 4096 * i"
proof -
  have "unat (of_nat (4096 * i) :: u64) = 4096 * i"
    by (rule unat_u64_of_nat) (use assms in simp)
  then show ?thesis using unat_add_no_wrap [of f "of_nat (4096 * i)"] assms
    by (simp del: of_nat_mult)
qed

lemma frames_from_nat:
  assumes "unat f + 4096 * n \<le> 2 ^ 52"
  shows "x \<in> frames_from f n \<longleftrightarrow> (\<exists>i < n. unat x = unat f + 4096 * i)"
proof
  assume "x \<in> frames_from f n"
  then obtain i where "i < n" "x = f + of_nat (4096 * i)" by (auto simp: frames_from_def)
  then show "\<exists>i < n. unat x = unat f + 4096 * i" using unat_frames_from [OF assms] by blast
next
  assume "\<exists>i < n. unat x = unat f + 4096 * i"
  then obtain i where i: "i < n" "unat x = unat f + 4096 * i" by blast
  then have "x = f + of_nat (4096 * i)"
    using unat_frames_from [OF assms i(1)] by (metis word_unat_eq_iff)
  then show "x \<in> frames_from f n" using i(1) by (auto simp: frames_from_def)
qed

lemma card_frames_from:
  assumes "unat f + 4096 * n \<le> 2 ^ 52"
  shows "card (frames_from f n) = n"
proof -
  have "inj_on (\<lambda>i. f + of_nat (4096 * i)) {..<n}"
  proof (rule inj_onI)
    fix i j assume ij: "i \<in> {..<n}" "j \<in> {..<n}" "f + of_nat (4096 * i) = f + of_nat (4096 * j)"
    then have "unat f + 4096 * i = unat f + 4096 * j"
      using unat_frames_from [OF assms] by (metis lessThan_iff)
    then show "i = j" by simp
  qed
  then show ?thesis by (simp add: frames_from_def card_image)
qed

section \<open>The bump pointer\<close>

text \<open>One turn of the loop that leaves an exhausted region.\<close>

definition bump_skip :: "pmm \<Rightarrow> pmm" where
  "bump_skip p =
     (let cur = Suc (p_cur p)
      in if cur < length (p_regions p) then p\<lparr>p_cur := cur, p_next := r_base (p_regions p ! cur)\<rparr>
         else p\<lparr>p_cur := cur\<rparr>)"

lemma bump_loop_unfold:
  "bump_loop need p =
     (if length (p_regions p) \<le> p_cur p then (None, p)
      else if p_next p + need \<le> r_end (p_regions p ! p_cur p)
      then (Some (p_next p), p\<lparr>p_next := p_next p + need\<rparr>)
      else bump_loop need (bump_skip p))"
  by (subst bump_loop.simps) (simp add: Let_def bump_skip_def)

lemma bump_skip_fields [simp]:
  "p_regions (bump_skip p) = p_regions p" "p_cur (bump_skip p) = Suc (p_cur p)"
  "p_free (bump_skip p) = p_free p" "p_free_list (bump_skip p) = p_free_list p"
  by (simp_all add: bump_skip_def Let_def)

lemma in_reserve_skip: "in_reserve (bump_skip p) f \<Longrightarrow> in_reserve p f"
  unfolding in_reserve_def by (metis Suc_leD Suc_n_not_le_n bump_skip_fields(1,2))

lemma reserve_pages_skip: "reserve_pages (bump_skip p) \<le> reserve_pages p"
proof (cases "Suc (p_cur p) < length (p_regions p)")
  case True
  then have "drop (Suc (p_cur p)) (p_regions p) =
      p_regions p ! Suc (p_cur p) # drop (Suc (Suc (p_cur p))) (p_regions p)"
    by (rule Cons_nth_drop_Suc [symmetric])
  with True show ?thesis
    by (simp add: reserve_pages_def bump_skip_def region_pages_def)
qed (simp add: reserve_pages_def)

text \<open>Single pages never skip a page: the region is left only when it is exhausted.\<close>

lemma reserve_pages_skip_full:
  assumes "p_cur p < length (p_regions p)" "unat (r_end (p_regions p ! p_cur p)) \<le> unat (p_next p)"
  shows "reserve_pages (bump_skip p) = reserve_pages p"
proof (cases "Suc (p_cur p) < length (p_regions p)")
  case True
  then have "drop (Suc (p_cur p)) (p_regions p) =
      p_regions p ! Suc (p_cur p) # drop (Suc (Suc (p_cur p))) (p_regions p)"
    by (rule Cons_nth_drop_Suc [symmetric])
  with True assms show ?thesis
    by (simp add: reserve_pages_def bump_skip_def region_pages_def)
qed (use assms in \<open>simp add: reserve_pages_def bump_skip_def\<close>)

lemma pmm_wf_region: "pmm_wf p \<Longrightarrow> i < length (p_regions p) \<Longrightarrow> region_ok (p_regions p ! i)"
  by (simp add: pmm_wf_def)

lemma region_ok_base: "region_ok r \<Longrightarrow> unat (r_base r) \<le> 2 ^ 52"
  by (auto simp: region_ok_def word_less_nat_alt)

lemma pmm_wf_skip:
  assumes "pmm_wf p"
  shows "pmm_wf (bump_skip p)"
proof (cases "Suc (p_cur p) < length (p_regions p)")
  case True
  then have "region_ok (p_regions p ! Suc (p_cur p))" using assms by (rule pmm_wf_region [rotated])
  then show ?thesis
    using assms True region_ok_base [of "p_regions p ! Suc (p_cur p)"]
    by (auto simp: pmm_wf_def bump_skip_def region_ok_def)
next
  case False
  then show ?thesis using assms by (auto simp: pmm_wf_def bump_skip_def)
qed

lemma total_pages_skip [simp]: "total_pages (bump_skip p) = total_pages p"
  by (simp add: total_pages_def)

lemma pmm_owns_skip: "pmm_owns p F \<Longrightarrow> pmm_owns (bump_skip p) F"
  using pmm_wf_skip [of p] in_reserve_skip [of p] reserve_pages_skip [of p]
  by (auto simp: pmm_owns_def)

text \<open>What taking \<open>n\<close> pages at the bump pointer leaves.\<close>

definition bump_take :: "nat \<Rightarrow> pmm \<Rightarrow> pmm" where
  "bump_take n p = p\<lparr>p_next := p_next p + of_nat n * PAGE_SIZE, p_free := p_free p - of_nat n\<rparr>"

lemma bump_take_fields:
  "p_regions (bump_take n p) = p_regions p" "p_cur (bump_take n p) = p_cur p"
  "p_free (bump_take n p) = p_free p - of_nat n" "p_free_list (bump_take n p) = p_free_list p"
  by (simp_all add: bump_take_def)

definition can_take :: "nat \<Rightarrow> pmm \<Rightarrow> bool" where
  "can_take n p \<longleftrightarrow> p_cur p < length (p_regions p) \<and>
     unat (p_next p) + 4096 * n \<le> unat (r_end (p_regions p ! p_cur p))"

lemma unat_need: "n < 2 ^ 40 \<Longrightarrow> unat (of_nat n * PAGE_SIZE) = 4096 * n"
proof -
  assume n: "n < 2 ^ 40"
  have "of_nat n * PAGE_SIZE = (of_nat (4096 * n) :: u64)" by (simp add: PAGE_SIZE_def)
  then show ?thesis using unat_u64_of_nat [of "4096 * n"] n by (simp del: of_nat_mult)
qed

lemma unat_next_need:
  assumes "pmm_wf p" "p_cur p < length (p_regions p)" "n < 2 ^ 40"
  shows "unat (p_next p + of_nat n * PAGE_SIZE) = unat (p_next p) + 4096 * n"
proof -
  have "unat (p_next p) \<le> 2 ^ 52" using assms(1,2) by (simp add: pmm_wf_def)
  then have "unat (p_next p) + unat (of_nat n * PAGE_SIZE :: u64) < 2 ^ LENGTH(64)"
    using assms(3) by (simp only: unat_need) simp
  then show ?thesis using assms(3) by (simp add: unat_add_no_wrap unat_need)
qed

lemma can_take_iff:
  assumes "pmm_wf p" "p_cur p < length (p_regions p)" "n < 2 ^ 40"
  shows "p_next p + of_nat n * PAGE_SIZE \<le> r_end (p_regions p ! p_cur p) \<longleftrightarrow> can_take n p"
  using unat_next_need [OF assms] assms(2) by (simp add: word_le_nat_alt can_take_def)

lemma can_take_bound: "pmm_wf p \<Longrightarrow> can_take n p \<Longrightarrow> unat (p_next p) + 4096 * n \<le> 2 ^ 52"
  using pmm_wf_region [of p "p_cur p"] by (auto simp: can_take_def region_ok_def)

lemma reserve_pages_skip_one:
  assumes "pmm_wf p" "p_cur p < length (p_regions p)" "\<not> can_take 1 p"
  shows "reserve_pages (bump_skip p) = reserve_pages p"
proof (rule reserve_pages_skip_full [OF assms(2)])
  have "4096 dvd unat (p_next p)" "4096 dvd unat (r_end (p_regions p ! p_cur p))"
    using assms(1,2) pmm_wf_region [OF assms(1,2)]
    by (simp_all add: pmm_wf_def region_ok_def page_aligned_dvd)
  then obtain a b where "unat (p_next p) = 4096 * a" "unat (r_end (p_regions p ! p_cur p)) = 4096 * b"
    by (metis dvdE)
  then show "unat (r_end (p_regions p ! p_cur p)) \<le> unat (p_next p)"
    using assms(2,3) by (simp add: can_take_def)
qed

lemma next_frames:
  assumes wf: "pmm_wf p" and take: "can_take n p" and "f \<in> frames_from (p_next p) n"
  shows "page_aligned f" "in_region (p_regions p ! p_cur p) f" "unat f < unat (p_next p) + 4096 * n"
    "in_reserve p f"
proof -
  have cur: "p_cur p < length (p_regions p)" using take by (simp add: can_take_def)
  obtain i where i: "i < n" "unat f = unat (p_next p) + 4096 * i"
    using assms(3) frames_from_nat [OF can_take_bound [OF wf take]] by blast
  show "page_aligned f" using wf cur i by (auto simp: page_aligned_dvd pmm_wf_def)
  show lt: "unat f < unat (p_next p) + 4096 * n" using i by simp
  have "r_base (p_regions p ! p_cur p) \<le> p_next p" using wf cur by (simp add: pmm_wf_def)
  then show reg: "in_region (p_regions p ! p_cur p) f"
    using i take by (auto simp: in_region_def word_le_nat_alt word_less_nat_alt can_take_def)
  show "in_reserve p f"
    unfolding in_reserve_def using cur reg i
    by (intro exI [of _ "p_cur p"]) (simp add: word_le_nat_alt)
qed

lemma pmm_wf_take:
  assumes "pmm_wf p" "can_take n p" "n < 2 ^ 40"
  shows "pmm_wf (bump_take n p)"
proof -
  have cur: "p_cur p < length (p_regions p)" using assms(2) by (simp add: can_take_def)
  have nx: "unat (p_next p + of_nat n * PAGE_SIZE) = unat (p_next p) + 4096 * n"
    by (rule unat_next_need [OF assms(1) cur assms(3)])
  have "page_aligned (p_next p + of_nat n * PAGE_SIZE)"
    "r_base (p_regions p ! p_cur p) \<le> p_next p + of_nat n * PAGE_SIZE"
    "unat (p_next p + of_nat n * PAGE_SIZE) \<le> 2 ^ 52"
    using assms(1) cur can_take_bound [OF assms(1,2)]
    by (auto simp: page_aligned_dvd word_le_nat_alt pmm_wf_def nx)
  then show ?thesis using assms(1) by (simp add: pmm_wf_def bump_take_def)
qed

lemma in_reserve_take:
  assumes wf: "pmm_wf p" and take: "can_take n p" and n: "n < 2 ^ 40"
    and f: "in_reserve (bump_take n p) f"
  shows "in_reserve p f" "f \<notin> frames_from (p_next p) n"
proof -
  have cur: "p_cur p < length (p_regions p)" using take by (simp add: can_take_def)
  have nx: "unat (p_next p + of_nat n * PAGE_SIZE) = unat (p_next p) + 4096 * n"
    by (rule unat_next_need [OF wf cur n])
  obtain i where i: "p_cur p \<le> i" "i < length (p_regions p)" "in_region (p_regions p ! i) f"
    "i = p_cur p \<longrightarrow> unat (p_next p) + 4096 * n \<le> unat f"
    using f by (auto simp: in_reserve_def bump_take_def word_le_nat_alt nx)
  then show "in_reserve p f" by (auto simp: in_reserve_def word_le_nat_alt)
  show "f \<notin> frames_from (p_next p) n"
  proof
    assume in_f: "f \<in> frames_from (p_next p) n"
    note fr = next_frames [OF wf take in_f]
    have "i \<noteq> p_cur p" using i(4) fr(3) by auto
    then have "p_cur p < i" using i(1) by simp
    then have "regions_apart (p_regions p ! p_cur p) (p_regions p ! i)"
      using wf i(2) by (simp add: pmm_wf_def sorted_wrt_iff_nth_less)
    then show False using fr(2) i(3) by (auto simp: regions_apart_def in_region_def)
  qed
qed

lemma reserve_pages_take:
  assumes "pmm_wf p" "can_take n p" "n < 2 ^ 40"
  shows "reserve_pages (bump_take n p) + n = reserve_pages p"
proof -
  have cur: "p_cur p < length (p_regions p)" using assms(2) by (simp add: can_take_def)
  have nx: "unat (p_next p + of_nat n * PAGE_SIZE) = unat (p_next p) + 4096 * n"
    by (rule unat_next_need [OF assms(1) cur assms(3)])
  have "unat (p_next p) + 4096 * n \<le> unat (r_end (p_regions p ! p_cur p))"
    using assms(2) by (simp add: can_take_def)
  then obtain d where "unat (r_end (p_regions p ! p_cur p)) = unat (p_next p) + 4096 * n + d"
    by (metis le_Suc_ex)
  then show ?thesis using cur nx by (simp add: reserve_pages_def bump_take_def)
qed

text \<open>Taking pages at the bump pointer hands out frames that nobody owned.\<close>

lemma pmm_owns_take:
  assumes own: "pmm_owns p F" and take: "can_take n p" and n: "n < 2 ^ 40"
  shows "pmm_owns (bump_take n p) (F \<union> frames_from (p_next p) n)"
    and "frames_from (p_next p) n \<inter> (F \<union> set (p_free_list p)) = {}"
    and "n \<le> unat (p_free p)"
proof -
  let ?N = "frames_from (p_next p) n"
  have wf: "pmm_wf p" using own by (simp add: pmm_owns_def)
  have cur: "p_cur p < length (p_regions p)" using take by (simp add: can_take_def)
  have res: "reserve_pages (bump_take n p) + n = reserve_pages p"
    by (rule reserve_pages_take [OF wf take n])
  show free: "n \<le> unat (p_free p)" using own res by (simp add: pmm_owns_def)
  show disj: "?N \<inter> (F \<union> set (p_free_list p)) = {}"
    using own next_frames(4) [OF wf take] by (auto simp: pmm_owns_def)
  have card: "card (F \<union> ?N) = card F + n"
    using disj own card_frames_from [OF can_take_bound [OF wf take]]
    by (subst card_Un_disjoint) (auto simp: pmm_owns_def frames_from_def)
  have "n < 18446744073709551616" using n by simp
  then have "unat (of_nat n :: u64) = n" by (rule unat_u64_of_nat)
  then have fr: "unat (p_free p - of_nat n) = unat (p_free p) - n"
    using free by (subst unat_sub_le) (simp_all add: word_le_nat_alt)
  have old: "page_aligned f \<and> (\<exists>r \<in> set (p_regions p). in_region r f) \<and>
      \<not> in_reserve (bump_take n p) f" if "f \<in> F \<union> set (p_free_list p)" for f
    using own that in_reserve_take(1) [OF wf take n] by (auto simp: pmm_owns_def)
  have new: "page_aligned f \<and> (\<exists>r \<in> set (p_regions p). in_region r f) \<and>
      \<not> in_reserve (bump_take n p) f" if "f \<in> ?N" for f
    using next_frames [OF wf take that] in_reserve_take(2) [OF wf take n] cur that by auto
  show "pmm_owns (bump_take n p) (F \<union> ?N)"
    unfolding pmm_owns_def
  proof (intro conjI)
    show "pmm_wf (bump_take n p)" by (rule pmm_wf_take [OF wf take n])
    show "finite (F \<union> ?N)" using own by (simp add: pmm_owns_def frames_from_def)
    show "distinct (p_free_list (bump_take n p))"
      using own by (simp add: pmm_owns_def bump_take_def)
    show "set (p_free_list (bump_take n p)) \<inter> (F \<union> ?N) = {}"
      using own disj by (auto simp: pmm_owns_def bump_take_def)
    show "\<forall>f \<in> F \<union> ?N \<union> set (p_free_list (bump_take n p)).
        page_aligned f \<and> (\<exists>r \<in> set (p_regions (bump_take n p)). in_region r f) \<and>
        \<not> in_reserve (bump_take n p) f"
    proof
      fix f assume "f \<in> F \<union> ?N \<union> set (p_free_list (bump_take n p))"
      then have "f \<in> F \<union> set (p_free_list p) \<or> f \<in> ?N" by (auto simp: bump_take_def)
      then have "page_aligned f \<and> (\<exists>r \<in> set (p_regions p). in_region r f) \<and>
          \<not> in_reserve (bump_take n p) f" using old new by blast
      then show "page_aligned f \<and> (\<exists>r \<in> set (p_regions (bump_take n p)). in_region r f) \<and>
          \<not> in_reserve (bump_take n p) f" by (simp add: bump_take_def)
    qed
    show "length (p_free_list (bump_take n p)) + reserve_pages (bump_take n p)
        \<le> unat (p_free (bump_take n p))"
    proof -
      have "length (p_free_list p) + reserve_pages p \<le> unat (p_free p)"
        using own by (simp add: pmm_owns_def)
      then have "length (p_free_list p) + reserve_pages (bump_take n p) \<le> unat (p_free p) - n"
        using res by linarith
      then show ?thesis by (simp only: bump_take_fields fr)
    qed
    show "unat (p_free (bump_take n p)) + card (F \<union> ?N) = total_pages (bump_take n p)"
      using own card fr free by (simp add: pmm_owns_def bump_take_def total_pages_def)
  qed
qed

text \<open>The loop returns nothing, or takes at the bump pointer of a later region.\<close>

definition bumped :: "nat \<Rightarrow> u64 set \<Rightarrow> pmm \<Rightarrow> pmm \<Rightarrow> bool" where
  "bumped n F p q \<longleftrightarrow> pmm_owns q F \<and> p_free q = p_free p \<and> p_free_list q = p_free_list p \<and>
     p_regions q = p_regions p \<and> (\<forall>f. in_reserve q f \<longrightarrow> in_reserve p f) \<and>
     (n = 1 \<longrightarrow> reserve_pages q = reserve_pages p)"

lemma bumped_refl: "pmm_owns p F \<Longrightarrow> bumped n F p p"
  by (simp add: bumped_def)

lemma bumped_skip:
  assumes "bumped n F (bump_skip p) q" "pmm_wf p" "p_cur p < length (p_regions p)" "\<not> can_take n p"
  shows "bumped n F p q"
  using assms(1) in_reserve_skip [of p] reserve_pages_skip_one [OF assms(2,3)] assms(4)
  by (auto simp: bumped_def)

lemma bump_loop_owns:
  assumes "pmm_owns p F" and "n < 2 ^ 40"
  shows "\<exists>q. bumped n F p q \<and>
     (bump_loop (of_nat n * PAGE_SIZE) p = (None, q) \<and> reserve_pages q = 0 \<or>
      bump_loop (of_nat n * PAGE_SIZE) p =
        (Some (p_next q), (bump_take n q)\<lparr>p_free := p_free p\<rparr>) \<and> can_take n q)"
  using assms(1)
proof (induction "of_nat n * PAGE_SIZE" p rule: bump_loop.induct)
  case (1 p)
  have wf: "pmm_wf p" using "1.prems" by (simp add: pmm_owns_def)
  consider "length (p_regions p) \<le> p_cur p" | "p_cur p < length (p_regions p)" "can_take n p"
    | "p_cur p < length (p_regions p)" "\<not> can_take n p" by linarith
  then show ?case
  proof cases
    case 1
    then show ?thesis using bumped_refl [OF "1.prems"]
      by (intro exI [of _ p]) (simp add: bump_loop_unfold reserve_pages_def)
  next
    case 2
    then show ?thesis using bumped_refl [OF "1.prems"] can_take_iff [OF wf 2(1) assms(2)]
      by (intro exI [of _ p]) (simp add: bump_loop_unfold [of _ p] bump_take_def)
  next
    case 3
    have loop: "bump_loop (of_nat n * PAGE_SIZE) p =
        bump_loop (of_nat n * PAGE_SIZE) (bump_skip p)"
      using 3 can_take_iff [OF wf 3(1) assms(2)] by (simp add: bump_loop_unfold [of _ p])
    have "\<not> length (p_regions p) \<le> p_cur p"
      "\<not> p_next p + of_nat n * PAGE_SIZE \<le> r_end (p_regions p ! p_cur p)"
      using 3 can_take_iff [OF wf 3(1) assms(2)] by auto
    from "1.hyps" [OF this(1) refl refl this(2) refl, folded bump_skip_def [unfolded Let_def]]
    show ?thesis
      using pmm_owns_skip [OF "1.prems"] bumped_skip [OF _ wf 3] unfolding loop by auto
  qed
qed

section \<open>The operations keep ownership\<close>

lemma owns_pmm: "owns s F \<Longrightarrow> pmm_owns (m_pmm s) F"
  by (simp add: owns_def)

lemma pmm_owns_pop:
  assumes own: "pmm_owns p F" and ne: "p_free_list p \<noteq> []"
  shows "pmm_owns (p\<lparr>p_free_list := butlast (p_free_list p), p_free := p_free p - 1\<rparr>)
           (insert (last (p_free_list p)) F)"
    and "last (p_free_list p) \<notin> F"
proof -
  let ?l = "last (p_free_list p)"
  let ?p' = "p\<lparr>p_free_list := butlast (p_free_list p), p_free := p_free p - 1\<rparr>"
  have split: "set (p_free_list p) = insert ?l (set (butlast (p_free_list p)))"
    by (rule last_in_butlast_split [OF ne])
  have dist: "distinct (p_free_list p)" using own by (simp add: pmm_owns_def)
  have notin: "?l \<notin> set (butlast (p_free_list p))" by (rule distinct_last_notin_butlast [OF dist ne])
  show l: "?l \<notin> F" using own split by (auto simp: pmm_owns_def)
  have len: "0 < length (p_free_list p)" using ne by simp
  moreover have "length (p_free_list p) + reserve_pages p \<le> unat (p_free p)"
    using own by (simp add: pmm_owns_def)
  ultimately have pos: "1 \<le> unat (p_free p)" by linarith
  then have fr: "unat (p_free p - 1) = unat (p_free p) - 1"
    by (subst unat_sub_le) (simp_all add: word_le_nat_alt)
  have same: "in_reserve ?p' = in_reserve p" "reserve_pages ?p' = reserve_pages p"
    "pmm_wf ?p' = pmm_wf p" "total_pages ?p' = total_pages p"
    by (simp_all add: fun_eq_iff in_reserve_def reserve_pages_def pmm_wf_def total_pages_def)
  have card: "card (insert ?l F) = Suc (card F)" using own l by (simp add: pmm_owns_def)
  show "pmm_owns ?p' (insert ?l F)"
    unfolding pmm_owns_def same card
  proof (intro conjI)
    show "length (p_free_list ?p') + reserve_pages p \<le> unat (p_free ?p')"
    proof -
      have "length (p_free_list p) - 1 + reserve_pages p \<le> unat (p_free p) - 1"
        using \<open>length (p_free_list p) + reserve_pages p \<le> unat (p_free p)\<close> len by linarith
      then show ?thesis using fr by simp
    qed
    show "unat (p_free ?p') + Suc (card F) = total_pages p"
      using own fr pos by (simp add: pmm_owns_def)
  qed (use own split notin dist in \<open>auto simp: pmm_owns_def distinct_butlast\<close>)
qed

lemma pmm_owns_push:
  assumes own: "pmm_owns p F" and f: "f \<in> F"
  shows "pmm_owns (p\<lparr>p_free_list := p_free_list p @ [f], p_free := p_free p + 1\<rparr>) (F - {f})"
    and "f \<notin> set (p_free_list p)"
proof -
  let ?p' = "p\<lparr>p_free_list := p_free_list p @ [f], p_free := p_free p + 1\<rparr>"
  show nf: "f \<notin> set (p_free_list p)" using own f by (auto simp: pmm_owns_def)
  have same: "in_reserve ?p' = in_reserve p" "reserve_pages ?p' = reserve_pages p"
    "pmm_wf ?p' = pmm_wf p" "total_pages ?p' = total_pages p"
    by (simp_all add: fun_eq_iff in_reserve_def reserve_pages_def pmm_wf_def total_pages_def)
  have card: "card F = Suc (card (F - {f}))"
    by (rule card.remove) (use own f in \<open>simp_all add: pmm_owns_def\<close>)
  have wf: "pmm_wf p" and tot: "unat (p_free p) + card F = total_pages p"
    using own by (simp_all add: pmm_owns_def)
  have "unat (p_free p) + 1 \<le> total_pages p" using tot card by linarith
  also have "total_pages p \<le> 32 * 2 ^ 40"
    by (rule total_pages_bound [OF wf])
  finally have "unat (p_free p) + unat (1 :: u64) < 2 ^ LENGTH(64)" by simp
  then have fr: "unat (p_free p + 1) = unat (p_free p) + 1"
    using unat_add_no_wrap [of "p_free p" 1] by simp
  show "pmm_owns ?p' (F - {f})"
    unfolding pmm_owns_def same
  proof (intro conjI)
    show "length (p_free_list ?p') + reserve_pages p \<le> unat (p_free ?p')"
      using own fr by (simp add: pmm_owns_def)
    have "unat (p_free ?p') = unat (p_free p) + 1" using fr by simp
    then show "unat (p_free ?p') + card (F - {f}) = total_pages p"
      using tot card by linarith
  qed (use own f nf in \<open>auto simp: pmm_owns_def\<close>)
qed

text \<open>How many single frames can still be granted, and which.\<close>

definition pmm_avail :: "pmm \<Rightarrow> nat" where
  "pmm_avail p = length (p_free_list p) + reserve_pages p"

definition avail :: "machine \<Rightarrow> nat" where
  "avail s = pmm_avail (m_pmm s)"

definition grantable :: "pmm \<Rightarrow> u64 \<Rightarrow> bool" where
  "grantable p f \<longleftrightarrow> f \<in> set (p_free_list p) \<or> in_reserve p f"

lemma pmm_owns_alloc:
  assumes own: "pmm_owns p F" and a: "pmm_alloc_frame p = (r, p')"
  shows "case r of
      None \<Rightarrow> pmm_owns p' F \<and> p_free_list p = [] \<and> p_free_list p' = [] \<and>
        pmm_avail p = 0 \<and> pmm_avail p' = 0
    | Some f \<Rightarrow> f \<notin> F \<and> pmm_owns p' (insert f F) \<and> pmm_avail p = Suc (pmm_avail p') \<and>
        grantable p f \<and> (\<forall>g. grantable p' g \<longrightarrow> grantable p g) \<and>
        (p_free_list p \<noteq> [] \<and> f = last (p_free_list p) \<and> p_free_list p' = butlast (p_free_list p) \<or>
         p_free_list p = [] \<and> p_free_list p' = [])"
proof (cases "p_free_list p = []")
  case False
  have "reserve_pages (p\<lparr>p_free_list := butlast (p_free_list p), p_free := p_free p - 1\<rparr>) = reserve_pages p"
    "in_reserve (p\<lparr>p_free_list := butlast (p_free_list p), p_free := p_free p - 1\<rparr>) = in_reserve p"
    by (simp_all add: reserve_pages_def in_reserve_def fun_eq_iff)
  with False show ?thesis using a pmm_owns_pop [OF own False]
    by (auto simp: pmm_alloc_frame_def pmm_avail_def grantable_def dest: in_set_butlastD)
next
  case True
  have one: "of_nat 1 * PAGE_SIZE = PAGE_SIZE" by simp
  obtain q where bq: "bumped 1 F p q"
    and cs: "bump_loop PAGE_SIZE p = (None, q) \<and> reserve_pages q = 0 \<or>
       bump_loop PAGE_SIZE p = (Some (p_next q), (bump_take 1 q)\<lparr>p_free := p_free p\<rparr>) \<and> can_take 1 q"
    using bump_loop_owns [OF own, of 1] unfolding one by auto
  note q = bq [unfolded bumped_def, THEN conjunct1]
    bq [unfolded bumped_def, THEN conjunct2, THEN conjunct1]
    bq [unfolded bumped_def, THEN conjunct2, THEN conjunct2, THEN conjunct1]
  from cs show ?thesis
  proof
    assume "bump_loop PAGE_SIZE p = (None, q) \<and> reserve_pages q = 0"
    then show ?thesis using a True q bq by (auto simp: pmm_alloc_frame_def pmm_avail_def bumped_def)
  next
    assume b: "bump_loop PAGE_SIZE p = (Some (p_next q), (bump_take 1 q)\<lparr>p_free := p_free p\<rparr>) \<and> can_take 1 q"
    note tk = pmm_owns_take [OF q(1) conjunct2 [OF b], unfolded frames_from_1]
    have "0 < p_free p" using tk(3) q(2) by (simp add: word_less_nat_alt)
    then have r: "r = Some (p_next q)" and p': "p' = bump_take 1 q"
      using a True b q(2) by (auto simp: pmm_alloc_frame_def bump_take_def)
    have wf: "pmm_wf q" using q(1) by (simp add: pmm_owns_def)
    have "reserve_pages (bump_take 1 q) + 1 = reserve_pages p"
      using reserve_pages_take [OF wf conjunct2 [OF b]] bq by (simp add: bumped_def)
    moreover have "in_reserve p (p_next q)"
      using next_frames(4) [OF wf conjunct2 [OF b]] bq unfolding frames_from_1 by (simp add: bumped_def)
    moreover have "in_reserve p g" if "in_reserve (bump_take 1 q) g" for g
      using in_reserve_take(1) [OF wf conjunct2 [OF b] _ that] bq by (simp add: bumped_def)
    ultimately show ?thesis using tk(1,2) q(3) True
      by (simp add: r p' bump_take_fields pmm_avail_def grantable_def)
  qed
qed

lemma pmm_owns_contiguous:
  assumes own: "pmm_owns p F" and n: "n < 2 ^ 40" and a: "pmm_alloc_contiguous n p = (r, p')"
  shows "p_free_list p' = p_free_list p \<and>
    (case r of None \<Rightarrow> pmm_owns p' F
     | Some f \<Rightarrow> frames_from f n \<inter> (F \<union> set (p_free_list p)) = {} \<and>
         card (frames_from f n) = n \<and> page_aligned f \<and> unat f + 4096 * n \<le> 2 ^ 52 \<and>
         pmm_owns p' (F \<union> frames_from f n))"
proof -
  obtain q where bq: "bumped n F p q"
    and cs: "bump_loop (of_nat n * PAGE_SIZE) p = (None, q) \<and> reserve_pages q = 0 \<or>
       bump_loop (of_nat n * PAGE_SIZE) p =
         (Some (p_next q), (bump_take n q)\<lparr>p_free := p_free p\<rparr>) \<and> can_take n q"
    using bump_loop_owns [OF own n] by auto
  note q = bq [unfolded bumped_def, THEN conjunct1]
    bq [unfolded bumped_def, THEN conjunct2, THEN conjunct1]
    bq [unfolded bumped_def, THEN conjunct2, THEN conjunct2, THEN conjunct1]
  from cs show ?thesis
  proof
    assume "bump_loop (of_nat n * PAGE_SIZE) p = (None, q) \<and> reserve_pages q = 0"
    then show ?thesis using a q by (auto simp: pmm_alloc_contiguous_def)
  next
    assume b: "bump_loop (of_nat n * PAGE_SIZE) p =
         (Some (p_next q), (bump_take n q)\<lparr>p_free := p_free p\<rparr>) \<and> can_take n q"
    note ct = conjunct2 [OF b]
    note tk = pmm_owns_take [OF q(1) ct n]
    have wf: "pmm_wf q" using q(1) by (simp add: pmm_owns_def)
    have al: "page_aligned (p_next q)" using wf ct by (auto simp: pmm_wf_def can_take_def)
    have "n < 18446744073709551616" using n by simp
    then have "of_nat n \<le> p_free p"
      using tk(3) q(2) by (simp add: word_le_nat_alt unat_u64_of_nat)
    then have r: "r = Some (p_next q)" and p': "p' = bump_take n q"
      using a b q(2) by (auto simp: pmm_alloc_contiguous_def bump_take_def)
    show ?thesis
      using tk(1,2) q(3) al can_take_bound [OF wf ct] card_frames_from [OF can_take_bound [OF wf ct]]
      by (simp add: r p' bump_take_fields)
  qed
qed

text \<open>The pages left in the region the pointer is in; contiguous requests up to it succeed.\<close>

definition spare :: "machine \<Rightarrow> nat" where
  "spare s = (let p = m_pmm s in
     if p_cur p < length (p_regions p)
     then (unat (r_end (p_regions p ! p_cur p)) - unat (p_next p)) div 4096 else 0)"

lemma can_take_spare:
  assumes "0 < n"
  shows "can_take n (m_pmm s) \<longleftrightarrow> n \<le> spare s"
proof (cases "p_cur (m_pmm s) < length (p_regions (m_pmm s))")
  case True
  then show ?thesis
    using assms by (simp add: can_take_def spare_def Let_def less_eq_div_iff_mult_less_eq) linarith
next
  case False
  then show ?thesis using assms by (simp add: can_take_def spare_def)
qed

lemma spare_alloc_frame:
  assumes "owns s F" and "alloc_frame s = (r, s')"
  shows "spare s \<le> Suc (spare s')"
proof (cases "p_free_list (m_pmm s) = []")
  case False
  then show ?thesis using assms(2)
    by (auto simp: alloc_frame_def pmm_alloc_frame_def spare_def Let_def)
next
  case True
  have wf: "pmm_wf (m_pmm s)" using assms(1) by (simp add: owns_def pmm_owns_def)
  show ?thesis
  proof (cases "can_take 1 (m_pmm s)")
    case False
    then show ?thesis using can_take_spare [of 1 s] by simp
  next
    case ct: True
    then have cur: "p_cur (m_pmm s) < length (p_regions (m_pmm s))" by (simp add: can_take_def)
    have nx: "unat (p_next (m_pmm s) + PAGE_SIZE) = unat (p_next (m_pmm s)) + 4096"
      using unat_next_need [OF wf cur, of 1] by simp
    have "p_next (m_pmm s) + PAGE_SIZE \<le> r_end (p_regions (m_pmm s) ! p_cur (m_pmm s))"
      using can_take_iff [OF wf cur, of 1] ct by simp
    then have "bump_loop PAGE_SIZE (m_pmm s) =
        (Some (p_next (m_pmm s)), (m_pmm s)\<lparr>p_next := p_next (m_pmm s) + PAGE_SIZE\<rparr>)"
      using cur by (simp add: bump_loop_unfold)
    then have f: "p_cur (m_pmm s') = p_cur (m_pmm s)" "p_regions (m_pmm s') = p_regions (m_pmm s)"
      "p_next (m_pmm s') = p_next (m_pmm s) + PAGE_SIZE"
      using assms(2) True by (auto simp: alloc_frame_def pmm_alloc_frame_def)
    let ?e = "unat (r_end (p_regions (m_pmm s) ! p_cur (m_pmm s)))" and ?n = "unat (p_next (m_pmm s))"
    have "spare s' = (?e - (?n + 4096)) div 4096" using cur nx by (simp add: spare_def Let_def f)
    moreover have "spare s = (?e - ?n) div 4096" using cur by (simp add: spare_def Let_def)
    moreover have "(?e - ?n) div 4096 \<le> Suc ((?e - (?n + 4096)) div 4096)" by linarith
    ultimately show ?thesis by simp
  qed
qed

text \<open>\<open>s'\<close> was reached from \<open>s\<close> by handing out at most \<open>n\<close> single frames.\<close>

definition took :: "nat \<Rightarrow> machine \<Rightarrow> machine \<Rightarrow> bool" where
  "took n s s' \<longleftrightarrow> avail s \<le> avail s' + n \<and> spare s \<le> spare s' + n \<and>
     (\<forall>g. grantable (m_pmm s') g \<longrightarrow> grantable (m_pmm s) g)"

lemma took_refl [simp]: "took n s s"
  by (simp add: took_def)

lemma took_trans: "took n s t \<Longrightarrow> took m t u \<Longrightarrow> took (n + m) s u"
  by (auto simp: took_def)

lemma took_mono: "took n s t \<Longrightarrow> n \<le> m \<Longrightarrow> took m s t"
  by (auto simp: took_def)

lemma took_mem [simp]:
  "took n (s\<lparr>m_mem := m\<rparr>) t = took n s t" "took n s (t\<lparr>m_mem := m\<rparr>) = took n s t"
  by (simp_all add: took_def avail_def spare_def)

text \<open>The three operations on the machine.\<close>

lemma alloc_frame_owns:
  assumes "owns s F" and "alloc_frame s = (r, s')"
  shows "m_mem s' = m_mem s"
    and "r = None \<Longrightarrow> owns s' F"
    and "r = Some f \<Longrightarrow> f \<notin> F" and "r = Some f \<Longrightarrow> owns s' (insert f F)"
    and "r = Some f \<Longrightarrow> p_free_list (m_pmm s) \<noteq> [] \<Longrightarrow> page_zero (m_mem s') f"
    and "r = None \<Longrightarrow> avail s = 0 \<and> avail s' = 0"
    and "r = Some f \<Longrightarrow> avail s = Suc (avail s')"
    and "r = Some f \<Longrightarrow> grantable (m_pmm s) f"
    and "grantable (m_pmm s') g \<Longrightarrow> r = Some f \<Longrightarrow> grantable (m_pmm s) g"
proof -
  obtain p' where p': "pmm_alloc_frame (m_pmm s) = (r, p')" and s': "s' = s\<lparr>m_pmm := p'\<rparr>"
    using assms(2) by (auto simp: alloc_frame_def split: prod.splits)
  note a = pmm_owns_alloc [OF owns_pmm [OF assms(1)] p']
  show "m_mem s' = m_mem s" by (simp add: s')
  show "r = None \<Longrightarrow> owns s' F" using a assms(1) by (simp add: owns_def s')
  show "r = Some f \<Longrightarrow> f \<notin> F" using a by simp
  show "r = Some f \<Longrightarrow> owns s' (insert f F)"
    using a assms(1) in_set_butlastD [of _ "p_free_list (m_pmm s)"] by (fastforce simp: owns_def s')
  show "r = Some f \<Longrightarrow> p_free_list (m_pmm s) \<noteq> [] \<Longrightarrow> page_zero (m_mem s') f"
    using a assms(1) by (auto simp: owns_def s')
  show "r = None \<Longrightarrow> avail s = 0 \<and> avail s' = 0" using a by (simp add: avail_def s')
  show "r = Some f \<Longrightarrow> avail s = Suc (avail s')" using a by (simp add: avail_def s')
  show "r = Some f \<Longrightarrow> grantable (m_pmm s) f" using a by simp
  show "grantable (m_pmm s') g \<Longrightarrow> r = Some f \<Longrightarrow> grantable (m_pmm s) g" using a by (simp add: s')
qed

lemma took_alloc:
  assumes "owns s F" and "alloc_frame s = (Some f, s')"
  shows "took 1 s s'"
  using alloc_frame_owns(7,9) [OF assms] spare_alloc_frame [OF assms] by (auto simp: took_def)

text \<open>A contiguous request within the current region succeeds.\<close>

lemma alloc_contiguous_spare:
  assumes "owns s F" and "0 < n" and "n \<le> spare s" and "n < 2 ^ 40"
  shows "\<exists>f s'. alloc_contiguous_frames n s = (Some f, s')"
proof -
  have wf: "pmm_wf (m_pmm s)" using assms(1) by (simp add: owns_def pmm_owns_def)
  have ct: "can_take n (m_pmm s)" using can_take_spare assms(2,3) by simp
  then have cur: "p_cur (m_pmm s) < length (p_regions (m_pmm s))" by (simp add: can_take_def)
  have "p_next (m_pmm s) + of_nat n * PAGE_SIZE \<le> r_end (p_regions (m_pmm s) ! p_cur (m_pmm s))"
    using can_take_iff [OF wf cur assms(4)] ct by simp
  then have "bump_loop (of_nat n * PAGE_SIZE) (m_pmm s) =
      (Some (p_next (m_pmm s)), (m_pmm s)\<lparr>p_next := p_next (m_pmm s) + of_nat n * PAGE_SIZE\<rparr>)"
    using cur by (simp add: bump_loop_unfold)
  then show ?thesis by (simp add: alloc_contiguous_frames_def pmm_alloc_contiguous_def)
qed

lemma alloc_contiguous_owns:
  assumes "owns s F" and "n < 2 ^ 40" and "alloc_contiguous_frames n s = (r, s')"
  shows "m_mem s' = m_mem s"
    and "r = None \<Longrightarrow> owns s' F"
    and "r = Some f \<Longrightarrow> frames_from f n \<inter> F = {}"
    and "r = Some f \<Longrightarrow> owns s' (F \<union> frames_from f n)"
    and "r = Some f \<Longrightarrow> page_aligned f \<and> unat f + 4096 * n \<le> 2 ^ 52"
proof -
  obtain p' where p': "pmm_alloc_contiguous n (m_pmm s) = (r, p')" and s': "s' = s\<lparr>m_pmm := p'\<rparr>"
    using assms(3) by (auto simp: alloc_contiguous_frames_def split: prod.splits)
  note a = pmm_owns_contiguous [OF owns_pmm [OF assms(1)] assms(2) p']
  show "m_mem s' = m_mem s" by (simp add: s')
  show "r = None \<Longrightarrow> owns s' F" using a assms(1) by (auto simp: owns_def s')
  show "r = Some f \<Longrightarrow> frames_from f n \<inter> F = {}" using a by auto
  show "r = Some f \<Longrightarrow> owns s' (F \<union> frames_from f n)" using a assms(1) by (auto simp: owns_def s')
  show "r = Some f \<Longrightarrow> page_aligned f \<and> unat f + 4096 * n \<le> 2 ^ 52" using a by auto
qed

lemma free_frame_owns:
  assumes own: "owns s F" and f: "f \<in> F"
  shows "\<exists>s'. free_frame f s = Ret s' \<and> owns s' (F - {f}) \<and> page_zero (m_mem s') f \<and>
    p_free_list (m_pmm s') = p_free_list (m_pmm s) @ [f] \<and>
    m_mem s' = zero_bytes (m_mem s) f 4096"
proof -
  have al: "page_aligned f" using own f by (auto simp: owns_def pmm_owns_def)
  note push = pmm_owns_push [OF owns_pmm [OF own] f]
  have "page_zero (zero_bytes (m_mem s) f 4096) g" if "g \<in> set (p_free_list (m_pmm s)) \<or> g = f" for g
    using that own by (auto simp: owns_def page_zero_def zero_bytes_page [OF al])
  then show ?thesis
    using push by (auto simp: free_frame_def Let_def owns_def)
qed

text \<open>Code that writes only to memory it owns keeps the free list scrubbed.\<close>

lemma owns_mem_update:
  assumes "owns s F" and "\<And>x. page_base x \<notin> F \<Longrightarrow> m x = m_mem s x"
  shows "owns (s\<lparr>m_mem := m\<rparr>) F"
proof -
  have "page_zero m f" if f: "f \<in> set (p_free_list (m_pmm s))" for f
  proof -
    have "f \<notin> F" using assms(1) f by (auto simp: owns_def pmm_owns_def)
    then show ?thesis using assms f by (auto simp: page_zero_def owns_def)
  qed
  then show ?thesis using assms(1) by (simp add: owns_def)
qed

lemma owns_aligned: "owns s F \<Longrightarrow> f \<in> F \<Longrightarrow> page_aligned f"
  by (auto simp: owns_def pmm_owns_def)

section \<open>Boot: regions and the first frame\<close>

text \<open>
  The boot memory map as the loader passes it: usable entries of base and length that do not
  overlap and lie below 128 TiB, the size of the lower half (the kernel maps user stacks at their physical address).
\<close>

definition entries_apart :: "u64 \<times> u64 \<Rightarrow> u64 \<times> u64 \<Rightarrow> bool" where
  "entries_apart e d \<longleftrightarrow> unat (fst e) + unat (snd e) \<le> unat (fst d) \<or>
     unat (fst d) + unat (snd d) \<le> unat (fst e)"

definition boot_map_ok :: "(u64 \<times> u64) list \<Rightarrow> bool" where
  "boot_map_ok es \<longleftrightarrow> sorted_wrt entries_apart es \<and>
     (\<forall>e \<in> set es. unat (fst e) + unat (snd e) \<le> 2 ^ 47)"

definition add_regions :: "(u64 \<times> u64) list \<Rightarrow> pmm \<Rightarrow> pmm" where
  "add_regions es p = fold (\<lambda>(base, len) p. add_region base len p) es p"

definition region_within :: "region \<Rightarrow> u64 \<times> u64 \<Rightarrow> bool" where
  "region_within r e \<longleftrightarrow> unat (fst e) \<le> unat (r_base r) \<and>
     unat (r_end r) \<le> unat (fst e) + unat (snd e)"

definition pmm_loading :: "pmm \<Rightarrow> bool" where
  "pmm_loading p \<longleftrightarrow> length (p_regions p) \<le> MAX_REGIONS \<and> (\<forall>r \<in> set (p_regions p). region_ok r) \<and>
     sorted_wrt regions_apart (p_regions p) \<and> p_free_list p = [] \<and> p_cur p = 0 \<and>
     unat (p_free p) = total_pages p"

lemma page_mask_eq: "x AND NOT (PAGE_SIZE - 1) = page_base x"
  by (simp add: PAGE_SIZE_def page_base_def)

lemma add_region_unfold:
  "add_region base len p =
     (if MAX_REGIONS \<le> length (p_regions p) \<or> page_base (base + len) \<le> page_base (base + 4095) then p
      else p\<lparr>p_free := p_free p + (page_base (base + len) - page_base (base + 4095)) div 4096,
             p_regions := p_regions p @
               [\<lparr>r_base = page_base (base + 4095), r_end = page_base (base + len)\<rparr>]\<rparr>)"
  by (simp add: add_region_def Let_def page_mask_eq) (simp add: PAGE_SIZE_def algebra_simps)

lemma aligned_entry:
  fixes base len :: u64
  assumes "unat base + unat len \<le> 2 ^ 47" and "\<not> page_base (base + len) \<le> page_base (base + 4095)"
  defines "r \<equiv> \<lparr>r_base = page_base (base + 4095), r_end = page_base (base + len)\<rparr>"
  shows "region_ok r" and "region_within r (base, len)"
    and "unat ((page_base (base + len) - page_base (base + 4095)) div 4096) = region_pages r"
proof -
  have "unat base + unat (4095 :: u64) < 2 ^ LENGTH(64)" using assms(1) by simp
  then have up: "unat (base + 4095) = unat base + 4095" by (simp add: unat_add_no_wrap)
  have "unat base + unat len < 2 ^ LENGTH(64)" using assms(1) by simp
  then have en: "unat (base + len) = unat base + unat len" by (simp add: unat_add_no_wrap)
  have b: "unat base \<le> unat (r_base r)" unfolding r_def region.simps unat_page_base up by linarith
  have e: "unat (r_end r) \<le> unat base + unat len" unfolding r_def region.simps unat_page_base en by linarith
  show "region_ok r" using assms(2) e assms(1) by (auto simp: region_ok_def r_def)
  show "region_within r (base, len)" using b e by (simp add: region_within_def)
  have "unat (r_end r - r_base r) = unat (r_end r) - unat (r_base r)"
    by (rule unat_sub_le) (use assms(2) in \<open>simp add: r_def\<close>)
  then show "unat ((page_base (base + len) - page_base (base + 4095)) div 4096) = region_pages r"
    by (simp add: unat_div region_pages_def r_def)
qed

lemma pmm_loading_bound: "pmm_loading p \<Longrightarrow> total_pages p \<le> 32 * 2 ^ 40"
  using total_pages_bound [of "p\<lparr>p_cur := length (p_regions p)\<rparr>"]
  by (auto simp: pmm_loading_def pmm_wf_def total_pages_def)

lemma pmm_loading_add:
  assumes ld: "pmm_loading p" and sz: "unat base + unat len \<le> 2 ^ 47"
    and ap: "\<forall>r \<in> set (p_regions p). \<forall>q. region_within q (base, len) \<longrightarrow> regions_apart r q"
  shows "pmm_loading (add_region base len p)"
    and "\<forall>r \<in> set (p_regions (add_region base len p)).
           r \<in> set (p_regions p) \<or> region_within r (base, len)"
proof -
  let ?r = "\<lparr>r_base = page_base (base + 4095), r_end = page_base (base + len)\<rparr>"
  let ?n = "(page_base (base + len) - page_base (base + 4095)) div 4096"
  have "pmm_loading (add_region base len p) \<and>
    (\<forall>r \<in> set (p_regions (add_region base len p)).
       r \<in> set (p_regions p) \<or> region_within r (base, len))"
  proof (cases "MAX_REGIONS \<le> length (p_regions p) \<or> page_base (base + len) \<le> page_base (base + 4095)")
    case True
    then show ?thesis using ld by (simp add: add_region_unfold)
  next
    case False
    then have new: "\<not> page_base (base + len) \<le> page_base (base + 4095)"
      and room: "length (p_regions p) < MAX_REGIONS" by auto
    note al = aligned_entry [OF sz new]
    have ok: "region_ok ?r" and win: "region_within ?r (base, len)" and pg: "unat ?n = region_pages ?r"
      using al by auto
    have eq: "add_region base len p =
        p\<lparr>p_free := p_free p + ?n, p_regions := p_regions p @ [?r]\<rparr>"
      using False by (simp add: add_region_unfold)
    have "region_pages ?r \<le> 2 ^ 40" using ok by (auto simp: region_pages_def region_ok_def)
    then have "unat (p_free p) + unat ?n < 2 ^ LENGTH(64)"
      unfolding pg using pmm_loading_bound [OF ld] ld by (simp add: pmm_loading_def)
    then have fr: "unat (p_free p + ?n) = unat (p_free p) + region_pages ?r"
      using pg by (simp add: unat_add_no_wrap)
    have "sorted_wrt regions_apart (p_regions p @ [?r])"
      using ld ap win by (simp add: pmm_loading_def sorted_wrt_append)
    then have "pmm_loading (add_region base len p)"
      using ld ok room fr unfolding eq by (simp add: pmm_loading_def total_pages_def)
    moreover have "\<forall>r \<in> set (p_regions (add_region base len p)).
        r \<in> set (p_regions p) \<or> region_within r (base, len)"
      unfolding eq using win by simp
    ultimately show ?thesis by blast
  qed
  then show "pmm_loading (add_region base len p)"
    "\<forall>r \<in> set (p_regions (add_region base len p)).
       r \<in> set (p_regions p) \<or> region_within r (base, len)" by blast+
qed

lemma within_apart: "region_within r e \<Longrightarrow> region_within q d \<Longrightarrow> entries_apart e d \<Longrightarrow> regions_apart r q"
  by (auto simp: region_within_def entries_apart_def regions_apart_def word_le_nat_alt)

lemma pmm_loading_add_regions:
  assumes "boot_map_ok es" and "pmm_loading p"
    and "\<forall>r \<in> set (p_regions p). \<forall>e \<in> set es. \<forall>q. region_within q e \<longrightarrow> regions_apart r q"
  shows "pmm_loading (add_regions es p)"
  using assms
proof (induction es arbitrary: p)
  case Nil
  then show ?case by (simp add: add_regions_def)
next
  case (Cons e es)
  obtain base len where e: "e = (base, len)" by (cases e)
  have sz: "unat base + unat len \<le> 2 ^ 47" and es: "boot_map_ok es"
    and ap: "\<forall>d \<in> set es. entries_apart (base, len) d"
    using Cons.prems(1) by (auto simp: boot_map_ok_def e)
  have "\<forall>r \<in> set (p_regions p). \<forall>q. region_within q (base, len) \<longrightarrow> regions_apart r q"
    using Cons.prems(3) by (simp add: e)
  note add = pmm_loading_add [OF Cons.prems(2) sz this]
  have "\<forall>r \<in> set (p_regions (add_region base len p)). \<forall>d \<in> set es. \<forall>q.
      region_within q d \<longrightarrow> regions_apart r q"
    using add(2) ap Cons.prems(3) within_apart by (metis list.set_intros(2))
  from Cons.IH [OF es add(1) this] show ?case by (simp add: add_regions_def e)
qed

text \<open>\<open>init\<close> leaves the pointer in the first region that ends above 1 MiB.\<close>

lemma init_scan_spec:
  assumes "\<exists>r \<in> set rs. 0x100000 < r_end r"
  shows "\<exists>j < length rs. 0x100000 < r_end (rs ! j) \<and> (\<forall>k < j. r_end (rs ! k) \<le> 0x100000) \<and>
    init_scan i rs p = p\<lparr>p_cur := i + j, p_next := max (r_base (rs ! j)) 0x300000\<rparr>"
  using assms
proof (induction i rs p rule: init_scan.induct)
  case (1 i p)
  then show ?case by simp
next
  case (2 i r rs p)
  show ?case
  proof (cases "0x100000 < r_end r")
    case True
    then show ?thesis by (intro exI [of _ 0]) simp
  next
    case False
    then obtain j where j: "j < length rs" "0x100000 < r_end (rs ! j)"
      "\<forall>k < j. r_end (rs ! k) \<le> 0x100000"
      "init_scan (Suc i) rs p = p\<lparr>p_cur := Suc i + j, p_next := max (r_base (rs ! j)) 0x300000\<rparr>"
      using "2.IH" "2.prems" by auto
    have "\<forall>k < Suc j. r_end ((r # rs) ! k) \<le> 0x100000"
      using j(3) False by (auto simp: less_Suc_eq_0_disj not_less)
    then show ?thesis using j(1,2,4) False by (intro exI [of _ "Suc j"]) simp
  qed
qed

lemma reserve_pages_le_total:
  assumes "pmm_wf p"
  shows "reserve_pages p \<le> total_pages p"
proof (cases "p_cur p < length (p_regions p)")
  case True
  have sum: "sum_list (map region_pages (p_regions p)) =
      sum_list (map region_pages (take (p_cur p) (p_regions p))) +
      (region_pages (p_regions p ! p_cur p) + sum_list (map region_pages (drop (Suc (p_cur p)) (p_regions p))))"
    using id_take_nth_drop [OF True] by (metis map_append list.simps(9) sum_list.Cons sum_list.append)
  have "unat (r_base (p_regions p ! p_cur p)) \<le> unat (p_next p)"
    using assms True by (simp add: pmm_wf_def word_le_nat_alt)
  then have "(unat (r_end (p_regions p ! p_cur p)) - unat (p_next p)) div 4096
      \<le> region_pages (p_regions p ! p_cur p)"
    unfolding region_pages_def by (intro div_le_mono) simp
  then show ?thesis unfolding reserve_pages_def total_pages_def sum using True by simp
qed (simp add: reserve_pages_def)

lemma boot_owns:
  assumes "boot_map_ok es" and "\<exists>r \<in> set (p_regions (add_regions es pmm_empty)). 0x100000 < r_end r"
  shows "pmm_owns (pmm_init (add_regions es pmm_empty)) {}"
proof -
  let ?p = "add_regions es pmm_empty"
  have ld: "pmm_loading ?p"
    by (rule pmm_loading_add_regions [OF assms(1)])
      (simp_all add: pmm_loading_def pmm_empty_def total_pages_def)
  obtain j where j: "j < length (p_regions ?p)" and
    eq: "pmm_init ?p = ?p\<lparr>p_cur := j, p_next := max (r_base (p_regions ?p ! j)) 0x300000\<rparr>"
    using init_scan_spec [OF assms(2), of 0 ?p] by (auto simp: pmm_init_def)
  have "region_ok (p_regions ?p ! j)" using ld j by (simp add: pmm_loading_def)
  then have wf: "pmm_wf (pmm_init ?p)"
    using ld region_ok_base [of "p_regions ?p ! j"] unfolding eq
    by (auto simp: pmm_wf_def pmm_loading_def region_ok_def max_def page_aligned_dvd)
  have "total_pages (pmm_init ?p) = total_pages ?p" by (simp add: eq total_pages_def)
  then show ?thesis
    using reserve_pages_le_total [OF wf] wf ld
    by (auto simp: pmm_owns_def pmm_loading_def eq)
qed

section \<open>The contract of the allocator\<close>

lemma free_frame_avail: "free_frame f s = Ret s' \<Longrightarrow> avail s' = Suc (avail s)"
  by (auto simp: free_frame_def Let_def avail_def pmm_avail_def reserve_pages_def split: if_splits)

interpretation frames: frame_alloc alloc_frame free_frame owns avail
proof
  fix s :: machine and F f s'
  show "free_frame f s = Ret s' \<Longrightarrow> avail s' = Suc (avail s)" by (rule free_frame_avail)
  assume own: "owns s F"
  show "finite F" using own by (simp add: owns_def pmm_owns_def)
  show "alloc_frame s = (Some f, s') \<Longrightarrow> f \<notin> F" by (rule alloc_frame_owns(3) [OF own]) auto
  show "alloc_frame s = (Some f, s') \<Longrightarrow> owns s' (insert f F)" by (rule alloc_frame_owns(4) [OF own]) auto
  show "alloc_frame s = (None, s') \<Longrightarrow> owns s' F" by (rule alloc_frame_owns(2) [OF own]) auto
  show "alloc_frame s = (None, s') \<Longrightarrow> avail s = 0 \<and> avail s' = 0"
    by (rule alloc_frame_owns(6) [OF own]) auto
  show "alloc_frame s = (Some f, s') \<Longrightarrow> avail s = Suc (avail s')"
    by (rule alloc_frame_owns(7) [OF own]) auto
  show "f \<in> F \<Longrightarrow> \<exists>s'. free_frame f s = Ret s' \<and> owns s' (F - {f})"
    using free_frame_owns [OF own] by blast
qed

text \<open>\<open>for frame in frames { pmm::free_frame(frame) }\<close>.\<close>

fun free_all :: "u64 list \<Rightarrow> machine \<Rightarrow> machine outcome" where
  "free_all [] s = Ret s"
| "free_all (f # fs) s = bind_outcome (free_frame f s) (free_all fs)"

lemma free_all_owns:
  "owns s F \<Longrightarrow> distinct fs \<Longrightarrow> set fs \<subseteq> F \<Longrightarrow>
     \<exists>s'. free_all fs s = Ret s' \<and> owns s' (F - set fs) \<and> (\<forall>f \<in> set fs. page_zero (m_mem s') f) \<and>
       (\<forall>x. page_base x \<notin> set fs \<longrightarrow> m_mem s' x = m_mem s x)"
proof (induction fs arbitrary: s F)
  case Nil
  then show ?case by simp
next
  case (Cons f fs)
  obtain s1 where s1: "free_frame f s = Ret s1" "owns s1 (F - {f})" "page_zero (m_mem s1) f"
    "m_mem s1 = zero_bytes (m_mem s) f 4096"
    using free_frame_owns [OF Cons.prems(1), of f] Cons.prems(3) by (meson list.set_intros(1) subset_iff)
  have al: "page_aligned f" using owns_aligned Cons.prems(1,3) by auto
  obtain s2 where s2: "free_all fs s1 = Ret s2" "owns s2 (F - {f} - set fs)"
    "\<forall>f \<in> set fs. page_zero (m_mem s2) f"
    "\<forall>x. page_base x \<notin> set fs \<longrightarrow> m_mem s2 x = m_mem s1 x"
    using Cons.IH [OF s1(2)] Cons.prems by auto
  have "page_zero (m_mem s2) f" using s1(3) s2(4) Cons.prems(2) by (auto simp: page_zero_def)
  moreover have "F - {f} - set fs = F - set (f # fs)" by auto
  moreover have "\<forall>x. page_base x \<notin> set (f # fs) \<longrightarrow> m_mem s2 x = m_mem s x"
    using s2(4) by (simp add: s1(4) zero_bytes_page [OF al])
  ultimately show ?case using s1(1) s2(1,2,3) by auto
qed

lemma free_all_avail: "free_all fs s = Ret s' \<Longrightarrow> avail s' = avail s + length fs"
  by (induction fs arbitrary: s) (auto dest: free_frame_avail)

section \<open>Properties\<close>

text \<open>
  C4. No physical frame has two owners: from any state in which the frames \<open>L\<close> of a client and
  the frames \<open>R\<close> of everybody else are handed out, whatever sequence of \<open>alloc_frame\<close> and
  \<open>free_frame\<close> the client makes (freeing only what it holds), the allocator never panics, the
  client is never given a frame of \<open>R\<close>, the ownership invariant holds at the end, and the
  frames it holds plus those still available are as many as before: none is lost or made up.
\<close>

theorem pmm_exclusive_ownership:
  assumes "owns s (L \<union> R)" and "L \<inter> R = {}"
  shows "\<exists>s' L'. frames.client cs s L = Ret (s', L') \<and> owns s' (L' \<union> R) \<and> L' \<inter> R = {} \<and>
    avail s' + card L' = avail s + card L"
  by (rule frames.client_disjoint [OF assms])

text \<open>A machine at boot with one usable region of 4 MiB at 4 MiB.\<close>

definition boot_machine :: "(u64 \<times> u64) list \<Rightarrow> machine" where
  "boot_machine es = \<lparr>m_mem = (\<lambda>_. 0xAA), m_pmm = pmm_init (add_regions es pmm_empty)\<rparr>"

definition demo_machine :: machine where
  "demo_machine = boot_machine [(0x400000, 0x400000)]"

lemma demo_map: "boot_map_ok [(0x400000, 0x400000)]"
  by (simp add: boot_map_ok_def)

lemma demo_regions:
  "p_regions (add_regions [(0x400000, 0x400000)] pmm_empty) = [\<lparr>r_base = 0x400000, r_end = 0x800000\<rparr>]"
  by code_simp

lemma demo_pmm: "m_pmm demo_machine =
    \<lparr>p_regions = [\<lparr>r_base = 0x400000, r_end = 0x800000\<rparr>], p_cur = 0,
     p_next = 0x400000, p_free = 1024, p_free_list = []\<rparr>"
  by code_simp

lemma demo_owns: "owns demo_machine {}"
proof -
  have "pmm_owns (pmm_init (add_regions [(0x400000, 0x400000)] pmm_empty)) {}"
    by (rule boot_owns [OF demo_map]) (simp add: demo_regions)
  moreover have "p_free_list (pmm_init (add_regions [(0x400000, 0x400000)] pmm_empty)) = []"
    by code_simp
  ultimately show ?thesis by (simp add: demo_machine_def boot_machine_def owns_def)
qed

lemma pmm_exclusive_ownership_witness:
  "\<exists>s' L'. frames.client [AllocF, AllocF, FreeF 0x400000, AllocF] demo_machine {} = Ret (s', L') \<and>
     owns s' (L' \<union> {}) \<and> L' \<inter> {} = {} \<and>
     avail s' + card L' = avail demo_machine + card ({} :: u64 set)"
  by (rule pmm_exclusive_ownership) (simp_all add: demo_owns)

text \<open>
  Boot establishes the allocator's invariant: from a memory map of non-overlapping usable
  entries below 128 TiB, registering the entries (unaligned ones shrunk to whole
  pages, entries past the 32nd dropped) and initialising the pointer gives a state that owns
  nothing and whose counter is exactly the number of pages of the registered regions.
\<close>

theorem pmm_boot_invariant:
  assumes "boot_map_ok es" and "\<exists>r \<in> set (p_regions (add_regions es pmm_empty)). 0x100000 < r_end r"
  shows "pmm_owns (pmm_init (add_regions es pmm_empty)) {} \<and>
    unat (free_frames (pmm_init (add_regions es pmm_empty))) =
      total_pages (pmm_init (add_regions es pmm_empty))"
  using boot_owns [OF assms] by (simp add: pmm_owns_def free_frames_def)

lemma pmm_boot_invariant_witness:
  "pmm_owns (pmm_init (add_regions [(0x400000, 0x400000)] pmm_empty)) {} \<and>
    unat (free_frames (pmm_init (add_regions [(0x400000, 0x400000)] pmm_empty))) =
      total_pages (pmm_init (add_regions [(0x400000, 0x400000)] pmm_empty))"
  by (rule pmm_boot_invariant [OF demo_map]) (simp add: demo_regions)

text \<open>
  C5. Reuse never leaks: freeing an owned frame zeroes all of it, and the next
  \<open>alloc_frame\<close> returns that very frame (the list is LIFO) with every byte zero and every other
  page of memory untouched.
\<close>

theorem pmm_reuse_scrubbed:
  assumes "owns s F" and "f \<in> F"
  shows "\<exists>s1 s2. free_frame f s = Ret s1 \<and> alloc_frame s1 = (Some f, s2) \<and>
    page_zero (m_mem s2) f \<and> (\<forall>x. page_base x \<noteq> f \<longrightarrow> m_mem s2 x = m_mem s x) \<and> owns s2 F"
proof -
  obtain s1 where s1: "free_frame f s = Ret s1" "owns s1 (F - {f})" "page_zero (m_mem s1) f"
    "p_free_list (m_pmm s1) = p_free_list (m_pmm s) @ [f]" "m_mem s1 = zero_bytes (m_mem s) f 4096"
    using free_frame_owns [OF assms] by blast
  obtain s2 where s2: "alloc_frame s1 = (Some f, s2)"
    by (simp add: alloc_frame_def pmm_alloc_frame_def s1(4))
  have "owns s2 (insert f (F - {f}))" by (rule alloc_frame_owns(4) [OF s1(2) s2 refl])
  moreover have "m_mem s2 = m_mem s1" by (rule alloc_frame_owns(1) [OF s1(2) s2])
  ultimately show ?thesis
    using s1 s2 assms(2) owns_aligned [OF assms] by (auto simp: zero_bytes_page insert_absorb)
qed

lemma demo_owns_one: "owns (snd (alloc_frame demo_machine)) {0x400000}"
proof -
  have "fst (alloc_frame demo_machine) = Some 0x400000" by code_simp
  then show ?thesis
    using alloc_frame_owns(4) [OF demo_owns, of "Some 0x400000" "snd (alloc_frame demo_machine)" "0x400000"]
    by (simp add: prod_eq_iff)
qed

lemma pmm_reuse_scrubbed_witness:
  "\<exists>s1 s2. free_frame 0x400000 (snd (alloc_frame demo_machine)) = Ret s1 \<and>
    alloc_frame s1 = (Some 0x400000, s2) \<and> page_zero (m_mem s2) 0x400000 \<and>
    (\<forall>x. page_base x \<noteq> 0x400000 \<longrightarrow> m_mem s2 x = m_mem (snd (alloc_frame demo_machine)) x) \<and>
    owns s2 {0x400000}"
  by (rule pmm_reuse_scrubbed [OF demo_owns_one]) simp

text \<open>
  A contiguous allocation is contiguous and exclusive: \<open>alloc_contiguous_frames n\<close> bypasses
  the free list and returns, when it returns a frame, the base of \<open>n\<close> distinct page-aligned
  frames of one usable range that nobody owned and none of which is on the free list.
\<close>

theorem pmm_contiguous_exclusive:
  assumes "owns s F" and "n < 2 ^ 40" and "alloc_contiguous_frames n s = (Some f, s')"
  shows "owns s' (F \<union> frames_from f n) \<and> frames_from f n \<inter> F = {} \<and>
    frames_from f n \<inter> set (p_free_list (m_pmm s')) = {} \<and> card (frames_from f n) = n \<and>
    p_free_list (m_pmm s') = p_free_list (m_pmm s) \<and> m_mem s' = m_mem s"
proof -
  obtain p' where p': "pmm_alloc_contiguous n (m_pmm s) = (Some f, p')" and s': "s' = s\<lparr>m_pmm := p'\<rparr>"
    using assms(3) by (auto simp: alloc_contiguous_frames_def split: prod.splits)
  show ?thesis
    using pmm_owns_contiguous [OF owns_pmm [OF assms(1)] assms(2) p']
      alloc_contiguous_owns [OF assms] by (auto simp: s')
qed

lemma pmm_contiguous_exclusive_witness:
  "\<exists>s'. alloc_contiguous_frames 4 demo_machine = (Some 0x400000, s') \<and>
    owns s' ({} \<union> frames_from 0x400000 4) \<and> frames_from 0x400000 4 \<inter> {} = {} \<and>
    frames_from 0x400000 4 \<inter> set (p_free_list (m_pmm s')) = {} \<and> card (frames_from 0x400000 4) = 4 \<and>
    p_free_list (m_pmm s') = p_free_list (m_pmm demo_machine) \<and> m_mem s' = m_mem demo_machine"
proof -
  have "fst (alloc_contiguous_frames 4 demo_machine) = Some 0x400000" by code_simp
  then obtain s' where s': "alloc_contiguous_frames 4 demo_machine = (Some 0x400000, s')"
    by (metis prod.collapse)
  have "4 < (2 :: nat) ^ 40" by simp
  from pmm_contiguous_exclusive [OF demo_owns this s'] s' show ?thesis by blast
qed

text \<open>
  A double free is caught at the second free: once a frame has been returned, returning it
  again before it is reallocated panics, whatever was done to the rest of the state's memory.
\<close>

theorem pmm_double_free_panics:
  "free_frame f s = Ret s1 \<Longrightarrow> free_frame f (s1\<lparr>m_mem := m\<rparr>) = Panic ''PMM double-free''"
  by (auto simp: free_frame_def Let_def split: if_splits)

lemma pmm_double_free_panics_witness:
  "\<exists>s1. free_frame 0x400000 demo_machine = Ret s1 \<and>
    free_frame 0x400000 (s1\<lparr>m_mem := (\<lambda>_. 1)\<rparr>) = Panic ''PMM double-free''"
proof -
  have "p_free_list (m_pmm demo_machine) = []" by code_simp
  then obtain s1 where "free_frame 0x400000 demo_machine = Ret s1"
    by (simp add: free_frame_def Let_def)
  then show ?thesis using pmm_double_free_panics by blast
qed

end
