(* ===== verification/Paging.thy ===== *)
theory Paging
  imports Pmm
begin

text \<open>
  The page tables (\<open>kernel/src/memory/paging.rs\<close>): the isolated address spaces of user
  processes, the walk that reads a leaf entry back, the MMIO and identity mappings of the kernel,
  and the teardown of a process. Tables live in physical memory, so every entry is a 64-bit
  little-endian load or store at \<open>entry_addr table index\<close>. A table tree is described by a ghost
  map from index paths to the frames that hold the tables; \<open>pt_ok\<close> ties it to memory, and
  \<open>leaf\<close> is the view of the leaf entries that the mapping functions update one at a time.
\<close>

section \<open>Flags and indices\<close>

definition PAGE_PRESENT :: u64 where "PAGE_PRESENT = 0x1"
definition PAGE_WRITABLE :: u64 where "PAGE_WRITABLE = 0x2"
definition PAGE_USER :: u64 where "PAGE_USER = 0x4"
definition PAGE_PCD :: u64 where "PAGE_PCD = 0x10"
definition PAGE_HUGE :: u64 where "PAGE_HUGE = 0x80"
definition NO_EXECUTE :: u64 where "NO_EXECUTE = 0x8000000000000000"
definition ADDR_MASK :: u64 where "ADDR_MASK = 0x000FFFFFFFFFF000"

lemmas page_flag_defs = PAGE_PRESENT_def PAGE_WRITABLE_def PAGE_USER_def PAGE_PCD_def PAGE_HUGE_def
  NO_EXECUTE_def ADDR_MASK_def

definition phys_to_virt :: "u64 \<Rightarrow> u64 \<Rightarrow> u64" where
  "phys_to_virt hhdm phys = phys + hhdm"

definition virt_to_phys :: "u64 \<Rightarrow> u64 \<Rightarrow> u64" where
  "virt_to_phys hhdm virt = virt - hhdm"

definition pml4_idx :: "u64 \<Rightarrow> nat" where
  "pml4_idx v = unat (drop_bit 39 v AND 0x1FF)"

definition pdpt_idx :: "u64 \<Rightarrow> nat" where
  "pdpt_idx v = unat (drop_bit 30 v AND 0x1FF)"

definition pd_idx :: "u64 \<Rightarrow> nat" where
  "pd_idx v = unat (drop_bit 21 v AND 0x1FF)"

definition pt_idx :: "u64 \<Rightarrow> nat" where
  "pt_idx v = unat (drop_bit 12 v AND 0x1FF)"

definition indices :: "u64 \<Rightarrow> nat list" where
  "indices v = [pml4_idx v, pdpt_idx v, pd_idx v, pt_idx v]"

section \<open>User address spaces\<close>

text \<open>
  One level of \<open>map_user_page\<close>: take the entry at \<open>a\<close>, creating a zeroed table when it is
  not present and adding the user bit when it is; the result is the next table.
\<close>

definition user_table ::
  "string \<Rightarrow> u64 \<Rightarrow> machine \<Rightarrow> u64 list \<Rightarrow> (u64 \<times> machine \<times> u64 list) outcome" where
  "user_table msg a s table_frames =
     (if load64 (m_mem s) a AND PAGE_PRESENT = 0 then
        case alloc_frame s of
          (None, s1) \<Rightarrow> Panic msg
        | (Some new, s1) \<Rightarrow>
            (let m1 = zero_bytes (m_mem s1) new 4096;
                 m2 = store64 m1 a (new OR PAGE_PRESENT OR PAGE_WRITABLE OR PAGE_USER)
             in Ret (load64 m2 a AND ADDR_MASK, s1\<lparr>m_mem := m2\<rparr>, table_frames @ [new]))
      else
        (let m1 = store64 (m_mem s) a (load64 (m_mem s) a OR PAGE_USER)
         in Ret (load64 m1 a AND ADDR_MASK, s\<lparr>m_mem := m1\<rparr>, table_frames)))"

definition leaf_flags :: "bool \<Rightarrow> bool \<Rightarrow> u64" where
  "leaf_flags writable executable =
     (let flags = PAGE_PRESENT OR PAGE_USER;
          flags = (if writable then flags OR PAGE_WRITABLE else flags)
      in if \<not> executable then flags OR NO_EXECUTE else flags)"

definition map_user_page_split ::
  "u64 \<Rightarrow> u64 \<Rightarrow> u64 \<Rightarrow> bool \<Rightarrow> bool \<Rightarrow> machine \<Rightarrow> u64 list \<Rightarrow> (machine \<times> u64 list) outcome" where
  "map_user_page_split new_pml4 vaddr paddr writable executable s tf =
     bind_outcome (user_table ''out of memory (PDPT, isolated table)'' (entry_addr new_pml4 (pml4_idx vaddr)) s tf)
       (\<lambda>(pdpt, s1, tf1).
     bind_outcome (user_table ''out of memory (PD, isolated table)'' (entry_addr pdpt (pdpt_idx vaddr)) s1 tf1)
       (\<lambda>(pd, s2, tf2).
     bind_outcome (user_table ''out of memory (PT, isolated table)'' (entry_addr pd (pd_idx vaddr)) s2 tf2)
       (\<lambda>(pt, s3, tf3).
     let phys_page = paddr AND ADDR_MASK;
         m = store64 (m_mem s3) (entry_addr pt (pt_idx vaddr)) (phys_page OR leaf_flags writable executable)
     in Ret (s3\<lparr>m_mem := m\<rparr>, tf3))))"

text \<open>\<open>map_user_page\<close> is the same walk with one address for both.\<close>

definition map_user_page ::
  "u64 \<Rightarrow> u64 \<Rightarrow> bool \<Rightarrow> bool \<Rightarrow> machine \<Rightarrow> u64 list \<Rightarrow> (machine \<times> u64 list) outcome" where
  "map_user_page new_pml4 virt_phys writable executable s tf =
     map_user_page_split new_pml4 virt_phys virt_phys writable executable s tf"

text \<open>\<open>for i in 256..512\<close>: share the kernel half.\<close>

definition copy_kernel_half :: "u64 \<Rightarrow> u64 \<Rightarrow> memory \<Rightarrow> memory" where
  "copy_kernel_half kernel_pml4 new_pml4 m =
     fold (\<lambda>i m. store64 m (entry_addr new_pml4 i) (load64 m (entry_addr kernel_pml4 i))) [256..<512] m"

fun map_pages :: "u64 \<Rightarrow> (u64 \<times> u64 \<times> bool \<times> bool) list \<Rightarrow> machine \<Rightarrow> u64 list \<Rightarrow>
    (machine \<times> u64 list) outcome" where
  "map_pages new_pml4 [] s tf = Ret (s, tf)"
| "map_pages new_pml4 ((vaddr, paddr, writable, executable) # pages) s tf =
     bind_outcome (map_user_page_split new_pml4 vaddr paddr writable executable s tf)
       (\<lambda>(s1, tf1). map_pages new_pml4 pages s1 tf1)"

definition new_pml4_table :: "u64 \<Rightarrow> machine \<Rightarrow> (u64 \<times> machine \<times> u64 list) outcome" where
  "new_pml4_table cr3 s =
     (case alloc_frame s of
        (None, s1) \<Rightarrow> Panic ''out of memory building isolated PML4''
      | (Some new_pml4, s1) \<Rightarrow>
          (let m = copy_kernel_half (cr3 AND ADDR_MASK) new_pml4 (zero_bytes (m_mem s1) new_pml4 4096)
           in Ret (new_pml4, s1\<lparr>m_mem := m\<rparr>, [new_pml4])))"

definition create_isolated_user_table_fresh ::
  "u64 \<Rightarrow> (u64 \<times> u64 \<times> bool \<times> bool) list \<Rightarrow> u64 \<Rightarrow> machine \<Rightarrow> (u64 \<times> u64 list \<times> machine) outcome" where
  "create_isolated_user_table_fresh cr3 pages stack_phys s =
     bind_outcome (new_pml4_table cr3 s) (\<lambda>(new_pml4, s1, tf1).
     bind_outcome (map_pages new_pml4 pages s1 tf1) (\<lambda>(s2, tf2).
     bind_outcome (map_user_page_split new_pml4 stack_phys stack_phys True False s2 tf2) (\<lambda>(s3, tf3).
     Ret (new_pml4, tf3, s3))))"

fun map_identity_pages :: "u64 \<Rightarrow> u64 list \<Rightarrow> machine \<Rightarrow> u64 list \<Rightarrow> (machine \<times> u64 list) outcome" where
  "map_identity_pages new_pml4 [] s tf = Ret (s, tf)"
| "map_identity_pages new_pml4 (page # pages) s tf =
     bind_outcome (map_user_page new_pml4 page False True s tf)
       (\<lambda>(s1, tf1). map_identity_pages new_pml4 pages s1 tf1)"

definition create_isolated_user_table ::
  "u64 \<Rightarrow> u64 list \<Rightarrow> u64 \<Rightarrow> machine \<Rightarrow> (u64 \<times> u64 list \<times> machine) outcome" where
  "create_isolated_user_table cr3 user_pages stack_phys s =
     bind_outcome (new_pml4_table cr3 s) (\<lambda>(new_pml4, s1, tf1).
     bind_outcome (map_identity_pages new_pml4 user_pages s1 tf1) (\<lambda>(s2, tf2).
     bind_outcome (map_user_page new_pml4 stack_phys True False s2 tf2) (\<lambda>(s3, tf3).
     Ret (new_pml4, tf3, s3))))"

definition teardown_isolated_process :: "u64 list \<Rightarrow> u64 \<Rightarrow> machine \<Rightarrow> machine outcome" where
  "teardown_isolated_process table_frames stack_phys s =
     bind_outcome (free_all table_frames s) (free_frame stack_phys)"

section \<open>Mappings in the kernel's own table\<close>

text \<open>
  One level of the kernel mappings: create a zeroed table when the entry is not present, leave
  it alone otherwise.
\<close>

definition kernel_table :: "string \<Rightarrow> u64 \<Rightarrow> machine \<Rightarrow> (u64 \<times> machine) outcome" where
  "kernel_table msg a s =
     (if load64 (m_mem s) a AND PAGE_PRESENT = 0 then
        case alloc_frame s of
          (None, s1) \<Rightarrow> Panic msg
        | (Some new, s1) \<Rightarrow>
            (let m1 = zero_bytes (m_mem s1) new 4096;
                 m2 = store64 m1 a (new OR PAGE_PRESENT OR PAGE_WRITABLE)
             in Ret (load64 m2 a AND ADDR_MASK, s1\<lparr>m_mem := m2\<rparr>))
      else Ret (load64 (m_mem s) a AND ADDR_MASK, s))"

definition huge_check :: "string \<Rightarrow> u64 \<Rightarrow> machine \<Rightarrow> unit outcome" where
  "huge_check msg a s =
     (if load64 (m_mem s) a AND PAGE_PRESENT \<noteq> 0 \<and> load64 (m_mem s) a AND PAGE_HUGE \<noteq> 0
      then Panic msg else Ret ())"

definition map_mmio_page :: "u64 \<Rightarrow> u64 \<Rightarrow> u64 \<Rightarrow> machine \<Rightarrow> machine outcome" where
  "map_mmio_page pml4 offset phys s =
     (let virt = offset + phys in
      bind_outcome (kernel_table ''out of memory mapping MMIO region (PDPT)'' (entry_addr pml4 (pml4_idx virt)) s)
        (\<lambda>(pdpt, s1).
      let pdpte = entry_addr pdpt (pdpt_idx virt) in
      bind_outcome (huge_check ''map_mmio: PDPT entry is a 1GiB huge page, cannot split'' pdpte s1) (\<lambda>_.
      bind_outcome (kernel_table ''out of memory mapping MMIO region (PD)'' pdpte s1) (\<lambda>(pd, s2).
      let pde = entry_addr pd (pd_idx virt) in
      bind_outcome (huge_check ''map_mmio: PD entry is a 2MiB huge page, cannot split'' pde s2) (\<lambda>_.
      bind_outcome (kernel_table ''out of memory mapping MMIO region (PT)'' pde s2) (\<lambda>(pt, s3).
      Ret (s3\<lparr>m_mem := store64 (m_mem s3) (entry_addr pt (pt_idx virt))
                 (phys OR PAGE_PRESENT OR PAGE_WRITABLE OR PAGE_PCD OR NO_EXECUTE)\<rparr>)))))))"

text \<open>\<open>while addr < end\<close>, with the state threaded through.\<close>

fun for_each :: "('a \<Rightarrow> machine \<Rightarrow> machine outcome) \<Rightarrow> 'a list \<Rightarrow> machine \<Rightarrow> machine outcome" where
  "for_each f [] s = Ret s"
| "for_each f (a # as) s = bind_outcome (f a s) (for_each f as)"

definition map_mmio :: "u64 \<Rightarrow> u64 \<Rightarrow> u64 \<Rightarrow> u64 \<Rightarrow> machine \<Rightarrow> (u64 \<times> machine) outcome" where
  "map_mmio hhdm cr3 phys_start len s =
     (let page_start = phys_start AND NOT 0xFFF;
          page_end = (phys_start + len + 0xFFF) AND NOT 0xFFF;
          pml4 = cr3 AND ADDR_MASK
      in bind_outcome (for_each (map_mmio_page pml4 hhdm) (page_range page_start page_end) s)
           (\<lambda>s1. Ret (hhdm + page_start, s1)))"

definition identity_map_page :: "u64 \<Rightarrow> u64 \<Rightarrow> machine \<Rightarrow> machine outcome" where
  "identity_map_page pml4 addr s =
     bind_outcome (kernel_table ''out of memory mapping framebuffer (PDPT)'' (entry_addr pml4 (pml4_idx addr)) s)
       (\<lambda>(pdpt, s1).
     bind_outcome (kernel_table ''out of memory mapping framebuffer (PD)'' (entry_addr pdpt (pdpt_idx addr)) s1)
       (\<lambda>(pd, s2).
     Ret (s2\<lparr>m_mem := store64 (m_mem s2) (entry_addr pd (pd_idx addr))
                (addr OR PAGE_PRESENT OR PAGE_WRITABLE OR PAGE_HUGE)\<rparr>)))"

definition identity_map_region :: "u64 \<Rightarrow> u64 \<Rightarrow> u64 \<Rightarrow> machine \<Rightarrow> machine outcome" where
  "identity_map_region cr3 phys_start len s =
     (let start = phys_start AND NOT 0x1FFFFF;
          last = (phys_start + len + 0x1FFFFF) AND NOT 0x1FFFFF;
          pml4 = cr3 AND ADDR_MASK
      in for_each (identity_map_page pml4) (step_range 0x200000 start last) s)"

section \<open>Walks\<close>

definition debug_read_pte_flags :: "memory \<Rightarrow> u64 \<Rightarrow> u64 \<Rightarrow> (bool \<times> bool) option" where
  "debug_read_pte_flags m pml4_phys vaddr =
     (let pml4 = pml4_phys AND ADDR_MASK; pml4e = load64 m (entry_addr pml4 (pml4_idx vaddr))
      in if pml4e AND PAGE_PRESENT = 0 then None
      else let pdpt = pml4e AND ADDR_MASK; pdpte = load64 m (entry_addr pdpt (pdpt_idx vaddr))
      in if pdpte AND PAGE_PRESENT = 0 then None
      else let pd = pdpte AND ADDR_MASK; pde = load64 m (entry_addr pd (pd_idx vaddr))
      in if pde AND PAGE_PRESENT = 0 then None
      else let pt = pde AND ADDR_MASK; pte = load64 m (entry_addr pt (pt_idx vaddr))
      in if pte AND PAGE_PRESENT = 0 then None
      else Some (pte AND PAGE_WRITABLE \<noteq> 0, pte AND NO_EXECUTE = 0))"

text \<open>
  What the processor does with the tables on a user-mode access: every level must be present
  and have the user bit, a write needs the writable bit at every level, and an instruction fetch
  needs the no-execute bit clear at every level. The result is the physical page and whether it
  may be written and executed. Huge entries end the walk at their level.
\<close>

definition mmu_step :: "memory \<Rightarrow> u64 \<Rightarrow> nat \<Rightarrow> u64 option" where
  "mmu_step m table i =
     (let e = load64 m (entry_addr table i)
      in if e AND PAGE_PRESENT = 0 \<or> e AND PAGE_USER = 0 then None else Some e)"

definition user_walk :: "memory \<Rightarrow> u64 \<Rightarrow> u64 \<Rightarrow> (u64 \<times> bool \<times> bool) option" where
  "user_walk m root v =
     (case mmu_step m root (pml4_idx v) of None \<Rightarrow> None | Some e1 \<Rightarrow>
      case mmu_step m (e1 AND ADDR_MASK) (pdpt_idx v) of None \<Rightarrow> None | Some e2 \<Rightarrow>
      if e2 AND PAGE_HUGE \<noteq> 0 then None else
      case mmu_step m (e2 AND ADDR_MASK) (pd_idx v) of None \<Rightarrow> None | Some e3 \<Rightarrow>
      if e3 AND PAGE_HUGE \<noteq> 0 then None else
      case mmu_step m (e3 AND ADDR_MASK) (pt_idx v) of None \<Rightarrow> None | Some e4 \<Rightarrow>
      Some (e4 AND ADDR_MASK,
            \<forall>e \<in> set [e1, e2, e3, e4]. e AND PAGE_WRITABLE \<noteq> 0,
            \<forall>e \<in> set [e1, e2, e3, e4]. e AND NO_EXECUTE = 0))"

section \<open>Entries as words\<close>

lemma or_and_distrib: "(a OR b) AND c = (a AND c) OR (b AND c)" for a b c :: u64
  by (rule bit.conj_disj_distrib2)

lemma masked_and: "(a AND ADDR_MASK) AND c = a AND (ADDR_MASK AND c)"
  by (simp add: ac_simps)

lemma idx_bound: "unat (x AND 0x1FF) < 512" for x :: u64
proof -
  have "(0x1FF :: u64) = mask 9" by (simp add: mask_eq_exp_minus_1)
  then have "unat (x AND 0x1FF) = unat x mod 512" using unat_and_mask [of x 9] by simp
  then show ?thesis by simp
qed

lemma indices_bound [simp]:
  "pml4_idx v < 512" "pdpt_idx v < 512" "pd_idx v < 512" "pt_idx v < 512"
  by (simp_all add: pml4_idx_def pdpt_idx_def pd_idx_def pt_idx_def idx_bound)

lemma leaf_entry:
  fixes p :: u64
  defines "e w x \<equiv> (p AND ADDR_MASK) OR leaf_flags w x"
  shows "e w x AND PAGE_PRESENT \<noteq> 0" "e w x AND PAGE_USER \<noteq> 0"
    "e w x AND ADDR_MASK = p AND ADDR_MASK"
    "e w x AND PAGE_WRITABLE \<noteq> 0 \<longleftrightarrow> w" "e w x AND NO_EXECUTE = 0 \<longleftrightarrow> x"
  by (cases w; cases x; simp add: e_def leaf_flags_def Let_def or_and_distrib masked_and,
      simp add: page_flag_defs)+

lemma frame_and_mask:
  assumes "page_aligned f" "unat f < 2 ^ 52"
  shows "f AND ADDR_MASK = f"
proof -
  have "ADDR_MASK = mask 52 AND NOT 0xFFF" by (simp add: page_flag_defs mask_eq_exp_minus_1)
  then have "f AND ADDR_MASK = take_bit 52 (page_base f)"
    by (simp add: page_base_def take_bit_eq_mask ac_simps)
  also have "\<dots> = take_bit 52 f" using assms(1) by (simp add: page_aligned_base)
  also have "\<dots> = f"
    using assms(2) by (simp only: word_unat_eq_iff unsigned_take_bit_eq take_bit_nat_eq_self)
  finally show ?thesis .
qed

lemma new_entry:
  assumes "f AND ADDR_MASK = f"
  defines "v \<equiv> f OR PAGE_PRESENT OR PAGE_WRITABLE OR PAGE_USER"
  shows "v AND PAGE_PRESENT \<noteq> 0" "v AND ADDR_MASK = f" "v AND PAGE_USER \<noteq> 0"
    "v AND PAGE_WRITABLE \<noteq> 0" "v AND PAGE_HUGE = 0" "v AND NO_EXECUTE = 0"
proof -
  have v: "v = (f AND ADDR_MASK) OR (PAGE_PRESENT OR PAGE_WRITABLE OR PAGE_USER)"
    by (simp add: v_def assms(1) or.assoc)
  show "v AND PAGE_PRESENT \<noteq> 0" "v AND PAGE_USER \<noteq> 0" "v AND PAGE_WRITABLE \<noteq> 0"
    "v AND PAGE_HUGE = 0" "v AND NO_EXECUTE = 0"
    unfolding v or_and_distrib masked_and by (simp_all add: page_flag_defs)
  have "v AND ADDR_MASK = (f AND ADDR_MASK) OR ((PAGE_PRESENT OR PAGE_WRITABLE OR PAGE_USER) AND ADDR_MASK)"
    unfolding v or_and_distrib masked_and by simp
  also have "(PAGE_PRESENT OR PAGE_WRITABLE OR PAGE_USER) AND ADDR_MASK = 0"
    by (simp add: page_flag_defs)
  finally show "v AND ADDR_MASK = f" using assms(1) by simp
qed

lemma owns_frame_mask:
  assumes "owns s F" "f \<in> F"
  shows "f AND ADDR_MASK = f"
proof (rule frame_and_mask [OF owns_aligned [OF assms]])
  obtain r where r: "r \<in> set (p_regions (m_pmm s))" "in_region r f"
    using assms unfolding owns_def pmm_owns_def by blast
  moreover have "region_ok r" using assms(1) r(1) by (simp add: owns_def pmm_owns_def pmm_wf_def)
  ultimately have "in_region r f" "region_ok r" by blast+
  then show "unat f < 2 ^ 52" by (auto simp: in_region_def region_ok_def word_less_nat_alt)
qed

section \<open>Table trees\<close>

text \<open>
  \<open>P \<pi> = Some t\<close>: the table reached by the index path \<open>\<pi>\<close> is the frame \<open>t\<close>. \<open>H\<close> are the slots that the
  tree does not describe (the shared kernel half).
\<close>

type_synonym tables = "nat list \<Rightarrow> u64 option"

fun slot_ok :: "u64 \<Rightarrow> u64 option \<Rightarrow> bool" where
  "slot_ok e None \<longleftrightarrow> e AND PAGE_PRESENT = 0"
| "slot_ok e (Some u) \<longleftrightarrow> e AND PAGE_PRESENT \<noteq> 0 \<and> e AND ADDR_MASK = u \<and> e AND PAGE_USER \<noteq> 0 \<and>
     e AND PAGE_WRITABLE \<noteq> 0 \<and> e AND PAGE_HUGE = 0 \<and> e AND NO_EXECUTE = 0"

definition pt_frames_ok :: "tables \<Rightarrow> bool" where
  "pt_frames_ok P \<longleftrightarrow>
     (\<forall>\<pi> t. P \<pi> = Some t \<longrightarrow> length \<pi> \<le> 3 \<and> page_aligned t \<and> t AND ADDR_MASK = t) \<and>
     (\<forall>\<pi> \<rho> t. P \<pi> = Some t \<longrightarrow> P \<rho> = Some t \<longrightarrow> \<pi> = \<rho>)"

definition pt_closed :: "(nat list \<times> nat) set \<Rightarrow> tables \<Rightarrow> bool" where
  "pt_closed H P \<longleftrightarrow>
     (\<forall>\<pi> i t. P (\<pi> @ [i]) = Some t \<longrightarrow> (\<exists>u. P \<pi> = Some u) \<and> i < 512 \<and> (\<pi>, i) \<notin> H)"

definition pt_ok :: "(nat list \<times> nat) set \<Rightarrow> memory \<Rightarrow> tables \<Rightarrow> bool" where
  "pt_ok H m P \<longleftrightarrow> pt_frames_ok P \<and>
     (\<forall>\<pi> t i. P \<pi> = Some t \<longrightarrow> length \<pi> < 3 \<longrightarrow> i < 512 \<longrightarrow> (\<pi>, i) \<notin> H \<longrightarrow>
        slot_ok (load64 m (entry_addr t i)) (P (\<pi> @ [i]))) \<and>
     pt_closed H P"

definition leaf :: "memory \<Rightarrow> tables \<Rightarrow> nat list \<Rightarrow> nat \<Rightarrow> u64" where
  "leaf m P \<pi> i = (case P \<pi> of None \<Rightarrow> 0 | Some t \<Rightarrow> load64 m (entry_addr t i))"

lemma pt_okD:
  assumes "pt_ok H m P" "P \<pi> = Some t"
  shows "length \<pi> \<le> 3" "page_aligned t" "t AND ADDR_MASK = t"
    "P \<rho> = Some t \<Longrightarrow> \<rho> = \<pi>"
    "length \<pi> < 3 \<Longrightarrow> i < 512 \<Longrightarrow> (\<pi>, i) \<notin> H \<Longrightarrow> slot_ok (load64 m (entry_addr t i)) (P (\<pi> @ [i]))"
  using assms by (auto simp: pt_ok_def pt_frames_ok_def)

lemma pt_ok_parent: "pt_ok H m P \<Longrightarrow> P \<pi> = None \<Longrightarrow> P (\<pi> @ [i]) = None"
  unfolding pt_ok_def pt_closed_def by (metis not_Some_eq)

text \<open>A store to one slot of the tree is seen at that slot only.\<close>

lemma load_store_tree:
  assumes "pt_frames_ok P" "P \<pi> = Some t" "P \<rho> = Some u" "i < 512" "j < 512"
  shows "load64 (store64 m (entry_addr t i) v) (entry_addr u j) =
    (if \<rho> = \<pi> \<and> j = i then v else load64 m (entry_addr u j))"
proof -
  have "page_aligned t" "page_aligned u" "u = t \<longleftrightarrow> \<rho> = \<pi>"
    using assms(1-3) by (auto simp: pt_frames_ok_def)
  then show ?thesis using load_store_entry [of u t j i m v] assms(4,5) by simp
qed

lemma pt_ok_store_slot:
  assumes ok: "pt_ok H m P" and t: "P \<pi> = Some t" and i: "i < 512" and len: "length \<pi> < 3"
    and new: "(\<pi>, i) \<notin> H \<Longrightarrow> slot_ok v (P (\<pi> @ [i]))"
  shows "pt_ok H (store64 m (entry_addr t i) v) P"
    and "length \<rho> = 3 \<Longrightarrow> j < 512 \<Longrightarrow> leaf (store64 m (entry_addr t i) v) P \<rho> j = leaf m P \<rho> j"
proof -
  have fr: "pt_frames_ok P" using ok by (simp add: pt_ok_def)
  show "pt_ok H (store64 m (entry_addr t i) v) P"
    unfolding pt_ok_def
  proof (intro conjI allI impI)
    fix \<rho> u j assume \<rho>: "P \<rho> = Some u" "length \<rho> < 3" "j < 512" "(\<rho>, j) \<notin> H"
    show "slot_ok (load64 (store64 m (entry_addr t i) v) (entry_addr u j)) (P (\<rho> @ [j]))"
      unfolding load_store_tree [OF fr t \<rho>(1) i \<rho>(3)]
      using new \<rho> pt_okD(5) [OF ok \<rho>(1,2,3,4)] by auto
  qed (use ok in \<open>auto simp: pt_ok_def\<close>)
  show "length \<rho> = 3 \<Longrightarrow> j < 512 \<Longrightarrow> leaf (store64 m (entry_addr t i) v) P \<rho> j = leaf m P \<rho> j"
    using load_store_tree [OF fr t _ i, of \<rho> _ j m v] len by (auto simp: leaf_def split: option.splits)
qed

text \<open>A store to a leaf slot updates the view at that slot.\<close>

lemma pt_ok_store_leaf:
  assumes ok: "pt_ok H m P" and t: "P \<pi> = Some t" and i: "i < 512" and len: "length \<pi> = 3"
  shows "pt_ok H (store64 m (entry_addr t i) v) P"
    and "j < 512 \<Longrightarrow> leaf (store64 m (entry_addr t i) v) P \<rho> j =
           (if \<rho> = \<pi> \<and> j = i then v else leaf m P \<rho> j)"
proof -
  have fr: "pt_frames_ok P" using ok by (simp add: pt_ok_def)
  show "pt_ok H (store64 m (entry_addr t i) v) P"
    unfolding pt_ok_def
  proof (intro conjI allI impI)
    fix \<rho> u j assume \<rho>: "P \<rho> = Some u" "length \<rho> < 3" "j < 512" "(\<rho>, j) \<notin> H"
    show "slot_ok (load64 (store64 m (entry_addr t i) v) (entry_addr u j)) (P (\<rho> @ [j]))"
      unfolding load_store_tree [OF fr t \<rho>(1) i \<rho>(3)]
      using len \<rho> pt_okD(5) [OF ok \<rho>(1,2,3,4)] by auto
  qed (use ok in \<open>auto simp: pt_ok_def\<close>)
  show "j < 512 \<Longrightarrow> leaf (store64 m (entry_addr t i) v) P \<rho> j =
      (if \<rho> = \<pi> \<and> j = i then v else leaf m P \<rho> j)"
    using load_store_tree [OF fr t _ i, of \<rho> _ j m v] t by (auto simp: leaf_def split: option.splits)
qed

text \<open>A zeroed fresh frame becomes a table.\<close>

lemma pt_ok_new_table:
  assumes ok: "pt_ok H m P" and t: "P \<pi> = Some t" and i: "i < 512" and len: "length \<pi> < 3"
    and H: "(\<pi>, i) \<notin> H" "\<forall>\<rho> j. (\<rho>, j) \<in> H \<longrightarrow> \<rho> = []" and none: "P (\<pi> @ [i]) = None"
    and f: "page_aligned f" "f AND ADDR_MASK = f" "f \<notin> ran P" and v: "slot_ok v (Some f)"
  defines "m' \<equiv> store64 (zero_bytes m f 4096) (entry_addr t i) v"
  shows "pt_ok H m' (P(\<pi> @ [i] \<mapsto> f))"
    and "length \<rho> = 3 \<Longrightarrow> j < 512 \<Longrightarrow> leaf m' (P(\<pi> @ [i] \<mapsto> f)) \<rho> j = leaf m P \<rho> j"
    and "P \<rho> = Some u \<Longrightarrow> (\<rho>, j) \<noteq> (\<pi>, i) \<Longrightarrow> j < 512 \<Longrightarrow>
           load64 m' (entry_addr u j) = load64 m (entry_addr u j)"
proof -
  let ?P = "P(\<pi> @ [i] \<mapsto> f)"
  have fr: "pt_frames_ok P" using ok by (simp add: pt_ok_def)
  have fr': "pt_frames_ok ?P"
    using fr f len by (auto simp: pt_frames_ok_def ran_def)
  have t': "?P \<pi> = Some t" using t by simp
  have old: "load64 (zero_bytes m f 4096) (entry_addr u j) = load64 m (entry_addr u j)"
    if "P \<rho> = Some u" "j < 512" for \<rho> u j
    using that fr f(1,3) by (intro load_zero_bytes_other) (auto simp: pt_frames_ok_def ran_def)
  have new: "load64 (zero_bytes m f 4096) (entry_addr f j) = 0" if "j < 512" for j
    by (rule load_page_zero [OF f(1) that page_zero_zero_bytes [OF f(1)]])
  have child: "P (\<pi> @ [i, j]) = None" for j
    using pt_ok_parent [OF ok none, of j] by simp
  show "pt_ok H m' ?P"
    unfolding pt_ok_def
  proof (intro conjI allI impI)
    fix \<rho> u j assume \<rho>: "?P \<rho> = Some u" "length \<rho> < 3" "j < 512" "(\<rho>, j) \<notin> H"
    have ld: "load64 m' (entry_addr u j) =
        (if \<rho> = \<pi> \<and> j = i then v else load64 (zero_bytes m f 4096) (entry_addr u j))"
      unfolding m'_def by (rule load_store_tree [OF fr' t' \<rho>(1) i \<rho>(3)])
    show "slot_ok (load64 m' (entry_addr u j)) (?P (\<rho> @ [j]))"
    proof (cases "\<rho> = \<pi> @ [i]")
      case True
      then show ?thesis using ld new [OF \<rho>(3)] \<rho>(1) child by simp
    next
      case False
      then have P\<rho>: "P \<rho> = Some u" using \<rho>(1) by simp
      show ?thesis
        using ld old [OF P\<rho> \<rho>(3)] v pt_okD(5) [OF ok P\<rho> \<rho>(2,3,4)] by auto
    qed
  next
    have cl: "pt_closed H P" using ok by (simp add: pt_ok_def)
    show "pt_closed H ?P"
      unfolding pt_closed_def
    proof (intro allI impI)
      fix \<rho> j u assume "?P (\<rho> @ [j]) = Some u"
      then have "\<rho> = \<pi> \<and> j = i \<or> P (\<rho> @ [j]) = Some u" by (auto split: if_splits)
      then show "(\<exists>w. ?P \<rho> = Some w) \<and> j < 512 \<and> (\<rho>, j) \<notin> H"
      proof
        assume "\<rho> = \<pi> \<and> j = i"
        then show ?thesis using t i H(1) by simp
      next
        assume "P (\<rho> @ [j]) = Some u"
        then show ?thesis using cl unfolding pt_closed_def by (auto split: if_splits)
      qed
    qed
  qed (rule fr')
  show "length \<rho> = 3 \<Longrightarrow> j < 512 \<Longrightarrow> leaf m' ?P \<rho> j = leaf m P \<rho> j"
  proof -
    assume \<rho>: "length \<rho> = 3" "j < 512"
    show ?thesis
    proof (cases "?P \<rho>")
      case None
      then show ?thesis by (auto simp: leaf_def split: if_splits)
    next
      case (Some u)
      have ne: "\<rho> \<noteq> \<pi>" using len \<rho>(1) by auto
      have ld: "load64 m' (entry_addr u j) = load64 (zero_bytes m f 4096) (entry_addr u j)"
        unfolding m'_def using load_store_tree [OF fr' t' Some i \<rho>(2)] ne by simp
      show ?thesis using Some ld old [of \<rho> u j] new [OF \<rho>(2)] none \<rho>(2)
        by (auto simp: leaf_def split: if_splits)
    qed
  qed
  show "P \<rho> = Some u \<Longrightarrow> (\<rho>, j) \<noteq> (\<pi>, i) \<Longrightarrow> j < 512 \<Longrightarrow>
      load64 m' (entry_addr u j) = load64 m (entry_addr u j)"
  proof -
    assume \<rho>: "P \<rho> = Some u" "(\<rho>, j) \<noteq> (\<pi>, i)" "j < 512"
    then have "?P \<rho> = Some u" using none by auto
    from load_store_tree [OF fr' t' this i \<rho>(3)] show ?thesis
      using old [OF \<rho>(1,3)] \<rho>(2) unfolding m'_def by (metis (full_types))
  qed
qed

section \<open>The mapping operations build the tree\<close>

text \<open>
  \<open>space H G s tf P\<close>: in state \<open>s\<close> the tree \<open>P\<close> is made of exactly the frames \<open>tf\<close>, each once; \<open>G\<close>
  are the frames handed out to everybody else.
\<close>

definition space :: "(nat list \<times> nat) set \<Rightarrow> u64 set \<Rightarrow> machine \<Rightarrow> u64 list \<Rightarrow> tables \<Rightarrow> bool" where
  "space H G s tf P \<longleftrightarrow> owns s (G \<union> set tf) \<and> G \<inter> set tf = {} \<and> distinct tf \<and> ran P = set tf \<and>
     pt_ok H (m_mem s) P \<and> (\<forall>\<rho> j. (\<rho>, j) \<in> H \<longrightarrow> \<rho> = [])"

text \<open>
  \<open>evolves\<close>: the tree grew by frames that were still grantable, nothing outside its frames was written, and the
  slots \<open>H\<close> and all leaf entries are as before.
\<close>

definition evolves ::
  "(nat list \<times> nat) set \<Rightarrow> machine \<Rightarrow> u64 list \<Rightarrow> tables \<Rightarrow> machine \<Rightarrow> u64 list \<Rightarrow> tables \<Rightarrow> bool" where
  "evolves H s tf P s' tf' P' \<longleftrightarrow> P \<subseteq>\<^sub>m P' \<and> set tf \<subseteq> set tf' \<and>
     (\<forall>x. page_base x \<notin> set tf' \<longrightarrow> m_mem s' x = m_mem s x) \<and>
     (\<forall>\<rho> j t. (\<rho>, j) \<in> H \<longrightarrow> P \<rho> = Some t \<longrightarrow> j < 512 \<longrightarrow>
        load64 (m_mem s') (entry_addr t j) = load64 (m_mem s) (entry_addr t j)) \<and>
     avail s' + length tf' = avail s + length tf \<and> spare s + length tf \<le> spare s' + length tf' \<and>
     (\<forall>f \<in> set tf'. f \<in> set tf \<or> grantable (m_pmm s) f) \<and>
     (\<forall>f. grantable (m_pmm s') f \<longrightarrow> grantable (m_pmm s) f)"

lemma evolves_refl: "evolves H s tf P s tf P"
  by (simp add: evolves_def)

lemma evolves_trans:
  assumes 1: "evolves H s tf P s1 tf1 P1" and 2: "evolves H s1 tf1 P1 s2 tf2 P2"
  shows "evolves H s tf P s2 tf2 P2"
  unfolding evolves_def
proof (intro conjI allI impI ballI)
  show "P \<subseteq>\<^sub>m P2" using 1 2 map_le_trans unfolding evolves_def by blast
  show "set tf \<subseteq> set tf2" using 1 2 unfolding evolves_def by blast
  show "m_mem s2 x = m_mem s x" if "page_base x \<notin> set tf2" for x
    using that 1 2 unfolding evolves_def by (metis subsetD)
  show "load64 (m_mem s2) (entry_addr t j) = load64 (m_mem s) (entry_addr t j)"
    if "(\<rho>, j) \<in> H" "P \<rho> = Some t" "j < 512" for \<rho> j t
  proof -
    have "P1 \<rho> = Some t" using 1 that(2) unfolding evolves_def map_le_def by (metis domI)
    then show ?thesis using 1 2 that unfolding evolves_def by metis
  qed
  show "avail s2 + length tf2 = avail s + length tf" using 1 2 unfolding evolves_def by linarith
  show "spare s + length tf \<le> spare s2 + length tf2" using 1 2 unfolding evolves_def by linarith
  show "f \<in> set tf \<or> grantable (m_pmm s) f" if "f \<in> set tf2" for f
    using that 1 2 unfolding evolves_def by blast
  show "grantable (m_pmm s) f" if "grantable (m_pmm s2) f" for f
    using that 1 2 unfolding evolves_def by blast
qed

text \<open>One level.\<close>

lemma user_table_creates:
  assumes sp: "space H G s tf P" and t: "P \<pi> = Some t" and i: "i < 512" and len: "length \<pi> < 3"
    and H: "(\<pi>, i) \<notin> H" and none: "P (\<pi> @ [i]) = None" and av: "1 \<le> avail s"
  shows "\<exists>u s' P'. user_table msg (entry_addr t i) s tf = Ret (u, s', tf @ [u]) \<and>
     space H G s' (tf @ [u]) P' \<and> evolves H s tf P s' (tf @ [u]) P' \<and> P' (\<pi> @ [i]) = Some u \<and>
     (\<forall>\<rho> j. length \<rho> = 3 \<longrightarrow> j < 512 \<longrightarrow> leaf (m_mem s') P' \<rho> j = leaf (m_mem s) P \<rho> j)"
proof -
  have own: "owns s (G \<union> set tf)" and ok: "pt_ok H (m_mem s) P" and ran: "ran P = set tf"
    and Hroot: "\<forall>\<rho> j. (\<rho>, j) \<in> H \<longrightarrow> \<rho> = []"
    using sp by (auto simp: space_def)
  have absent: "load64 (m_mem s) (entry_addr t i) AND PAGE_PRESENT = 0"
    using pt_okD(5) [OF ok t len i H] none by simp
  obtain f s1 where f: "alloc_frame s = (Some f, s1)"
    using alloc_frame_owns(6) [OF own] av by (cases "alloc_frame s"; cases "fst (alloc_frame s)") auto
  note al = alloc_frame_owns [OF own f]
  have own1: "owns s1 (insert f (G \<union> set tf))" and fresh: "f \<notin> G \<union> set tf" and mem: "m_mem s1 = m_mem s"
    using al by auto
  have fa: "page_aligned f" using owns_aligned [OF own1] by simp
  have fm: "f AND ADDR_MASK = f" using owns_frame_mask [OF own1] by simp
  let ?v = "f OR PAGE_PRESENT OR PAGE_WRITABLE OR PAGE_USER"
  let ?m = "store64 (zero_bytes (m_mem s1) f 4096) (entry_addr t i) ?v"
  let ?P = "P(\<pi> @ [i] \<mapsto> f)"
  let ?s = "s1\<lparr>m_mem := ?m\<rparr>"
  have v: "slot_ok ?v (Some f)"
    using new_entry [OF fm] by simp
  have step: "user_table msg (entry_addr t i) s tf = Ret (f, ?s, tf @ [f])"
    using absent f v by (simp add: user_table_def Let_def mem)
  have fP: "f \<notin> ran P" using ran fresh by simp
  note nt = pt_ok_new_table [OF ok t i len H Hroot none fa fm fP v]
  have ta: "page_aligned t" and tF: "t \<in> set tf"
    using pt_okD(2) [OF ok t] ran ranI [of P, OF t] by auto
  have outside: "?m x = m_mem s x" if "page_base x \<noteq> f" "page_base x \<noteq> t" for x
    using store_entry_outside [OF ta i that(2)] that(1) by (simp add: mem zero_bytes_page [OF fa])
  have own': "owns ?s (insert f (G \<union> set tf))"
    by (rule owns_mem_update [OF own1]) (use outside tF in \<open>auto simp: mem\<close>)
  have ran': "ran ?P = set (tf @ [f])" using ran none by auto
  have "space H G ?s (tf @ [f]) ?P"
    using sp own' fresh ran' nt(1) by (auto simp: space_def mem)
  moreover have "evolves H s tf P ?s (tf @ [f]) ?P"
    unfolding evolves_def
  proof (intro conjI allI impI ballI)
    show "P \<subseteq>\<^sub>m ?P" using none by (auto simp: map_le_def)
    show "m_mem ?s x = m_mem s x" if "page_base x \<notin> set (tf @ [f])" for x
      using outside [of x] that tF by auto
    show "load64 (m_mem ?s) (entry_addr w j) = load64 (m_mem s) (entry_addr w j)"
      if "(\<rho>, j) \<in> H" "P \<rho> = Some w" "j < 512" for \<rho> j w
      using nt(3) [OF that(2) _ that(3)] that(1) H by (auto simp: mem)
    show "avail ?s + length (tf @ [f]) = avail s + length tf"
      using al(7) by (simp add: avail_def)
    show "spare s + length tf \<le> spare ?s + length (tf @ [f])"
      using spare_alloc_frame [OF own f] by (simp add: spare_def)
    show "g \<in> set tf \<or> grantable (m_pmm s) g" if "g \<in> set (tf @ [f])" for g
      using that al(8) by auto
    show "grantable (m_pmm s) g" if "grantable (m_pmm ?s) g" for g
      using al(9) that by auto
  qed auto
  ultimately show ?thesis
    using step nt(2) by (intro exI [of _ f] exI [of _ ?s] exI [of _ ?P]) (auto simp: mem)
qed

lemma user_table_descends:
  assumes sp: "space H G s tf P" and t: "P \<pi> = Some t" and i: "i < 512" and len: "length \<pi> < 3"
    and H: "(\<pi>, i) \<notin> H" and u: "P (\<pi> @ [i]) = Some u"
  shows "\<exists>s'. user_table msg (entry_addr t i) s tf = Ret (u, s', tf) \<and>
     space H G s' tf P \<and> evolves H s tf P s' tf P \<and>
     (\<forall>\<rho> j. length \<rho> = 3 \<longrightarrow> j < 512 \<longrightarrow> leaf (m_mem s') P \<rho> j = leaf (m_mem s) P \<rho> j)"
proof -
  have own: "owns s (G \<union> set tf)" and ok: "pt_ok H (m_mem s) P" and ran: "ran P = set tf"
    and fr: "pt_frames_ok P"
    using sp by (auto simp: space_def pt_ok_def)
  let ?e = "load64 (m_mem s) (entry_addr t i)"
  have e: "slot_ok ?e (Some u)" using pt_okD(5) [OF ok t len i H] u by simp
  have "PAGE_USER AND PAGE_PRESENT = 0" "PAGE_USER AND ADDR_MASK = 0" "PAGE_USER AND PAGE_WRITABLE = 0"
    "PAGE_USER AND PAGE_HUGE = 0" "PAGE_USER AND NO_EXECUTE = 0" "PAGE_USER AND PAGE_USER \<noteq> 0"
    by (simp_all add: page_flag_defs)
  then have v: "slot_ok (?e OR PAGE_USER) (Some u)"
    using e by (simp add: or_and_distrib)
  let ?m = "store64 (m_mem s) (entry_addr t i) (?e OR PAGE_USER)"
  have step: "user_table msg (entry_addr t i) s tf = Ret (u, s\<lparr>m_mem := ?m\<rparr>, tf)"
    using e v by (simp add: user_table_def Let_def)
  have "slot_ok (?e OR PAGE_USER) (P (\<pi> @ [i]))" using v u by simp
  note st = pt_ok_store_slot [OF ok t i len this]
  have ta: "page_aligned t" and tF: "t \<in> set tf"
    using pt_okD(2) [OF ok t] ran ranI [of P, OF t] by auto
  have outside: "?m x = m_mem s x" if "page_base x \<noteq> t" for x
    by (rule store_entry_outside [OF ta i that])
  have own': "owns (s\<lparr>m_mem := ?m\<rparr>) (G \<union> set tf)"
  proof (rule owns_mem_update [OF own])
    show "?m x = m_mem s x" if "page_base x \<notin> G \<union> set tf" for x
      using outside [of x] that tF by auto
  qed
  have "space H G (s\<lparr>m_mem := ?m\<rparr>) tf P" using sp own' st(1) by (simp add: space_def)
  moreover have "evolves H s tf P (s\<lparr>m_mem := ?m\<rparr>) tf P"
    unfolding evolves_def
  proof (intro conjI allI impI ballI)
    show "m_mem (s\<lparr>m_mem := ?m\<rparr>) x = m_mem s x" if "page_base x \<notin> set tf" for x
      using outside [of x] that tF by auto
    show "load64 (m_mem (s\<lparr>m_mem := ?m\<rparr>)) (entry_addr w j) = load64 (m_mem s) (entry_addr w j)"
      if "(\<rho>, j) \<in> H" "P \<rho> = Some w" "j < 512" for \<rho> j w
      using load_store_tree [OF fr t that(2) i that(3), of "m_mem s" "?e OR PAGE_USER"] that(1) H by auto
    show "avail (s\<lparr>m_mem := ?m\<rparr>) + length tf = avail s + length tf" by (simp add: avail_def)
    show "spare s + length tf \<le> spare (s\<lparr>m_mem := ?m\<rparr>) + length tf" by (simp add: spare_def)
  qed auto
  ultimately show ?thesis using step st(2) by (intro exI [of _ "s\<lparr>m_mem := ?m\<rparr>"]) simp
qed

lemma user_table_step:
  assumes sp: "space H G s tf P" and t: "P \<pi> = Some t" and i: "i < 512" and len: "length \<pi> < 3"
    and H: "(\<pi>, i) \<notin> H" and av: "1 \<le> avail s"
  shows "\<exists>u s' tf' P'. user_table msg (entry_addr t i) s tf = Ret (u, s', tf') \<and>
     space H G s' tf' P' \<and> evolves H s tf P s' tf' P' \<and> P' (\<pi> @ [i]) = Some u \<and>
     length tf' \<le> Suc (length tf) \<and> hd (tf @ [u]) = hd tf' \<and>
     (\<forall>\<rho> j. length \<rho> = 3 \<longrightarrow> j < 512 \<longrightarrow> leaf (m_mem s') P' \<rho> j = leaf (m_mem s) P \<rho> j)"
proof (cases "P (\<pi> @ [i])")
  case None
  obtain u s' P' where u: "user_table msg (entry_addr t i) s tf = Ret (u, s', tf @ [u])"
     "space H G s' (tf @ [u]) P'" "evolves H s tf P s' (tf @ [u]) P'" "P' (\<pi> @ [i]) = Some u"
     "\<forall>\<rho> j. length \<rho> = 3 \<longrightarrow> j < 512 \<longrightarrow> leaf (m_mem s') P' \<rho> j = leaf (m_mem s) P \<rho> j"
    using user_table_creates [OF sp t i len H None av, of msg] by blast
  then show ?thesis by (intro exI [of _ u] exI [of _ s'] exI [of _ "tf @ [u]"] exI [of _ P']) simp
next
  case (Some u)
  obtain s' where s': "user_table msg (entry_addr t i) s tf = Ret (u, s', tf)"
     "space H G s' tf P" "evolves H s tf P s' tf P"
     "\<forall>\<rho> j. length \<rho> = 3 \<longrightarrow> j < 512 \<longrightarrow> leaf (m_mem s') P \<rho> j = leaf (m_mem s) P \<rho> j"
    using user_table_descends [OF sp t i len H Some, of msg] by blast
  have "tf \<noteq> []" using sp ranI [of P, OF t] by (auto simp: space_def)
  then show ?thesis using s' Some
    by (intro exI [of _ u] exI [of _ s'] exI [of _ tf] exI [of _ P]) simp
qed

lemma store_leaf_space:
  fixes v :: u64
  assumes sp: "space H G s tf P" and t: "P \<pi> = Some t" and i: "i < 512" and len: "length \<pi> = 3"
  defines "s' \<equiv> s\<lparr>m_mem := store64 (m_mem s) (entry_addr t i) v\<rparr>"
  shows "space H G s' tf P \<and> evolves H s tf P s' tf P \<and>
     (\<forall>\<rho> j. j < 512 \<longrightarrow> leaf (m_mem s') P \<rho> j =
        (if \<rho> = \<pi> \<and> j = i then v else leaf (m_mem s) P \<rho> j))"
proof -
  have own: "owns s (G \<union> set tf)" and ok: "pt_ok H (m_mem s) P" and ran: "ran P = set tf"
    and fr: "pt_frames_ok P" and Hroot: "\<forall>\<rho> j. (\<rho>, j) \<in> H \<longrightarrow> \<rho> = []"
    using sp by (auto simp: space_def pt_ok_def)
  note st = pt_ok_store_leaf [OF ok t i len]
  have ta: "page_aligned t" and tF: "t \<in> set tf"
    using pt_okD(2) [OF ok t] ran ranI [of P, OF t] by auto
  have outside: "m_mem s' x = m_mem s x" if "page_base x \<noteq> t" for x
    using store_entry_outside [OF ta i that] by (simp add: s'_def)
  have own': "owns s' (G \<union> set tf)"
    unfolding s'_def
  proof (rule owns_mem_update [OF own])
    show "store64 (m_mem s) (entry_addr t i) v x = m_mem s x" if "page_base x \<notin> G \<union> set tf" for x
      using outside [of x] that tF by (auto simp: s'_def)
  qed
  have "space H G s' tf P" using sp own' st(1) by (simp add: space_def s'_def)
  moreover have "evolves H s tf P s' tf P"
    unfolding evolves_def
  proof (intro conjI allI impI ballI)
    show "m_mem s' x = m_mem s x" if "page_base x \<notin> set tf" for x
      using outside [of x] that tF by auto
    show "load64 (m_mem s') (entry_addr w j) = load64 (m_mem s) (entry_addr w j)"
      if "(\<rho>, j) \<in> H" "P \<rho> = Some w" "j < 512" for \<rho> j w
      using load_store_tree [OF fr t that(2) i that(3), of "m_mem s" v] that(1) Hroot len
      by (auto simp: s'_def)
  qed (auto simp: s'_def avail_def spare_def)
  ultimately show ?thesis using st(2) by (simp add: s'_def)
qed

text \<open>A whole mapping: three levels, then the leaf.\<close>

definition path3 :: "u64 \<Rightarrow> nat list" where
  "path3 v = [pml4_idx v, pdpt_idx v, pd_idx v]"

lemma map_user_page_split_spec:
  assumes sp: "space H G s tf P" and root: "P [] = Some root" and H: "([], pml4_idx v) \<notin> H"
    and av: "3 \<le> avail s"
  shows "\<exists>s' tf' P'. map_user_page_split root v p w x s tf = Ret (s', tf') \<and>
     space H G s' tf' P' \<and> evolves H s tf P s' tf' P' \<and> length tf' \<le> length tf + 3 \<and> hd tf' = hd tf \<and>
     (\<forall>\<rho> j. length \<rho> = 3 \<longrightarrow> j < 512 \<longrightarrow> leaf (m_mem s') P' \<rho> j =
        (if \<rho> = path3 v \<and> j = pt_idx v then (p AND ADDR_MASK) OR leaf_flags w x
         else leaf (m_mem s) P \<rho> j))"
proof -
  have Hroot: "\<forall>\<rho> j. (\<rho>, j) \<in> H \<longrightarrow> \<rho> = []" using sp by (simp add: space_def)
  have ne: "tf \<noteq> []" using sp ranI [of P, OF root] by (auto simp: space_def)
  have "\<exists>u s' tf' P'. user_table ''out of memory (PDPT, isolated table)'' (entry_addr root (pml4_idx v)) s tf = Ret (u, s', tf') \<and>
     space H G s' tf' P' \<and> evolves H s tf P s' tf' P' \<and> P' ([] @ [pml4_idx v]) = Some u \<and>
     length tf' \<le> Suc (length tf) \<and> hd (tf @ [u]) = hd tf' \<and>
     (\<forall>\<rho> j. length \<rho> = 3 \<longrightarrow> j < 512 \<longrightarrow> leaf (m_mem s') P' \<rho> j = leaf (m_mem s) P \<rho> j)"
    by (rule user_table_step [OF sp root]) (use H av in simp_all)
  then obtain t1 s1 tf1 P1 where
    1: "user_table ''out of memory (PDPT, isolated table)'' (entry_addr root (pml4_idx v)) s tf = Ret (t1, s1, tf1)"
    "space H G s1 tf1 P1" "evolves H s tf P s1 tf1 P1" "P1 [pml4_idx v] = Some t1"
    "length tf1 \<le> Suc (length tf)" "hd (tf @ [t1]) = hd tf1"
    "\<And>\<rho> j. length \<rho> = 3 \<Longrightarrow> j < 512 \<Longrightarrow> leaf (m_mem s1) P1 \<rho> j = leaf (m_mem s) P \<rho> j"
    by auto
  have av1: "2 \<le> avail s1" using 1(3,5) av unfolding evolves_def by linarith
  have "\<exists>u s' tf' P'. user_table ''out of memory (PD, isolated table)'' (entry_addr t1 (pdpt_idx v)) s1 tf1 = Ret (u, s', tf') \<and>
     space H G s' tf' P' \<and> evolves H s1 tf1 P1 s' tf' P' \<and> P' ([pml4_idx v] @ [pdpt_idx v]) = Some u \<and>
     length tf' \<le> Suc (length tf1) \<and> hd (tf1 @ [u]) = hd tf' \<and>
     (\<forall>\<rho> j. length \<rho> = 3 \<longrightarrow> j < 512 \<longrightarrow> leaf (m_mem s') P' \<rho> j = leaf (m_mem s1) P1 \<rho> j)"
    by (rule user_table_step [OF 1(2,4)]) (use Hroot av1 in auto)
  then obtain t2 s2 tf2 P2 where
    2: "user_table ''out of memory (PD, isolated table)'' (entry_addr t1 (pdpt_idx v)) s1 tf1 = Ret (t2, s2, tf2)"
    "space H G s2 tf2 P2" "evolves H s1 tf1 P1 s2 tf2 P2" "P2 [pml4_idx v, pdpt_idx v] = Some t2"
    "length tf2 \<le> Suc (length tf1)" "hd (tf1 @ [t2]) = hd tf2"
    "\<And>\<rho> j. length \<rho> = 3 \<Longrightarrow> j < 512 \<Longrightarrow> leaf (m_mem s2) P2 \<rho> j = leaf (m_mem s1) P1 \<rho> j"
    by auto
  have av2: "1 \<le> avail s2" using 2(3,5) av1 unfolding evolves_def by linarith
  have "\<exists>u s' tf' P'. user_table ''out of memory (PT, isolated table)'' (entry_addr t2 (pd_idx v)) s2 tf2 = Ret (u, s', tf') \<and>
     space H G s' tf' P' \<and> evolves H s2 tf2 P2 s' tf' P' \<and> P' ([pml4_idx v, pdpt_idx v] @ [pd_idx v]) = Some u \<and>
     length tf' \<le> Suc (length tf2) \<and> hd (tf2 @ [u]) = hd tf' \<and>
     (\<forall>\<rho> j. length \<rho> = 3 \<longrightarrow> j < 512 \<longrightarrow> leaf (m_mem s') P' \<rho> j = leaf (m_mem s2) P2 \<rho> j)"
    by (rule user_table_step [OF 2(2,4)]) (use Hroot av2 in auto)
  then obtain t3 s3 tf3 P3 where
    3: "user_table ''out of memory (PT, isolated table)'' (entry_addr t2 (pd_idx v)) s2 tf2 = Ret (t3, s3, tf3)"
    "space H G s3 tf3 P3" "evolves H s2 tf2 P2 s3 tf3 P3" "P3 (path3 v) = Some t3"
    "length tf3 \<le> Suc (length tf2)" "hd (tf2 @ [t3]) = hd tf3"
    "\<And>\<rho> j. length \<rho> = 3 \<Longrightarrow> j < 512 \<Longrightarrow> leaf (m_mem s3) P3 \<rho> j = leaf (m_mem s2) P2 \<rho> j"
    by (auto simp: path3_def)
  let ?pte = "(p AND ADDR_MASK) OR leaf_flags w x"
  let ?s = "s3\<lparr>m_mem := store64 (m_mem s3) (entry_addr t3 (pt_idx v)) ?pte\<rparr>"
  have step: "map_user_page_split root v p w x s tf = Ret (?s, tf3)"
    by (simp add: map_user_page_split_def 1(1) 2(1) 3(1))
  have leaf_step: "space H G ?s tf3 P3 \<and> evolves H s3 tf3 P3 ?s tf3 P3 \<and>
     (\<forall>\<rho> j. j < 512 \<longrightarrow> leaf (m_mem ?s) P3 \<rho> j =
        (if \<rho> = path3 v \<and> j = pt_idx v then ?pte else leaf (m_mem s3) P3 \<rho> j))"
    by (rule store_leaf_space [OF 3(2,4)]) (simp_all add: path3_def)
  have "evolves H s tf P ?s tf3 P3"
    using evolves_trans [OF evolves_trans [OF evolves_trans [OF 1(3) 2(3)] 3(3)]] leaf_step by blast
  moreover have "length tf3 \<le> length tf + 3" using 1(5) 2(5) 3(5) by linarith
  moreover have "hd tf3 = hd tf"
  proof -
    have "tf1 \<noteq> []" "tf2 \<noteq> []" using 1(2,4) 2(2,4) ranI by (fastforce simp: space_def)+
    then show ?thesis using 1(6) 2(6) 3(6) ne by simp
  qed
  ultimately show ?thesis using step leaf_step 1(7) 2(7) 3(7)
    by (intro exI [of _ ?s] exI [of _ tf3] exI [of _ P3]) simp
qed

section \<open>Whole address spaces\<close>

text \<open>The slots of the shared kernel half of a top-level table.\<close>

definition kernel_half :: "(nat list \<times> nat) set" where
  "kernel_half = {([], i) | i. 256 \<le> i}"

lemma kernel_half_iff [simp]: "(\<pi>, i) \<in> kernel_half \<longleftrightarrow> \<pi> = [] \<and> 256 \<le> i"
  by (auto simp: kernel_half_def)

type_synonym mapping_request = "u64 \<times> u64 \<times> bool \<times> bool"

definition request_entry :: "mapping_request \<Rightarrow> u64" where
  "request_entry = (\<lambda>(v, p, w, x). (p AND ADDR_MASK) OR leaf_flags w x)"

definition hits :: "nat list \<Rightarrow> nat \<Rightarrow> mapping_request \<Rightarrow> bool" where
  "hits \<rho> j = (\<lambda>(v, p, w, x). \<rho> = path3 v \<and> j = pt_idx v)"

definition lower_half :: "mapping_request \<Rightarrow> bool" where
  "lower_half = (\<lambda>(v, p, w, x). pml4_idx v < 256)"

text \<open>A sequence of mappings leaves, in each slot, the last one that hits it.\<close>

lemma map_pages_spec:
  assumes "space kernel_half G s tf P" and "P [] = Some root"
    and "\<forall>r \<in> set pages. lower_half r" and "3 * length pages \<le> avail s"
  shows "\<exists>s' tf' P'. map_pages root pages s tf = Ret (s', tf') \<and>
     space kernel_half G s' tf' P' \<and> evolves kernel_half s tf P s' tf' P' \<and>
     length tf' \<le> length tf + 3 * length pages \<and> hd tf' = hd tf \<and>
     (\<forall>\<rho> j. length \<rho> = 3 \<longrightarrow> j < 512 \<longrightarrow> leaf (m_mem s') P' \<rho> j =
        fold (\<lambda>r e. if hits \<rho> j r then request_entry r else e) pages (leaf (m_mem s) P \<rho> j))"
  using assms
proof (induction pages arbitrary: s tf P)
  case Nil
  then show ?case by (intro exI [of _ s] exI [of _ tf] exI [of _ P]) (simp add: evolves_refl)
next
  case (Cons r pages)
  obtain v p w x where r: "r = (v, p, w, x)" by (cases r)
  have H: "([], pml4_idx v) \<notin> kernel_half" using Cons.prems(3) by (auto simp: r lower_half_def)
  have "3 \<le> avail s" using Cons.prems(4) by simp
  from map_user_page_split_spec [OF Cons.prems(1,2) H this, of p w x]
  obtain s1 tf1 P1 where
    1: "map_user_page_split root v p w x s tf = Ret (s1, tf1)" "space kernel_half G s1 tf1 P1"
    "evolves kernel_half s tf P s1 tf1 P1" "length tf1 \<le> length tf + 3" "hd tf1 = hd tf"
    "\<And>\<rho> j. length \<rho> = 3 \<Longrightarrow> j < 512 \<Longrightarrow> leaf (m_mem s1) P1 \<rho> j =
        (if hits \<rho> j r then request_entry r else leaf (m_mem s) P \<rho> j)"
    by (auto simp: r hits_def request_entry_def)
  have root1: "P1 [] = Some root"
    using 1(3) Cons.prems(2) unfolding evolves_def map_le_def by (metis domI)
  have "3 * length pages \<le> avail s1" using 1(3,4) Cons.prems(4) unfolding evolves_def by simp
  from Cons.IH [OF 1(2) root1 _ this]
  obtain s2 tf2 P2 where
    2: "map_pages root pages s1 tf1 = Ret (s2, tf2)" "space kernel_half G s2 tf2 P2"
    "evolves kernel_half s1 tf1 P1 s2 tf2 P2" "length tf2 \<le> length tf1 + 3 * length pages" "hd tf2 = hd tf1"
    "\<And>\<rho> j. length \<rho> = 3 \<Longrightarrow> j < 512 \<Longrightarrow> leaf (m_mem s2) P2 \<rho> j =
       fold (\<lambda>r e. if hits \<rho> j r then request_entry r else e) pages (leaf (m_mem s1) P1 \<rho> j)"
    using Cons.prems(3) by auto
  have "map_pages root (r # pages) s tf = Ret (s2, tf2)" by (simp add: r 1(1) 2(1))
  then show ?case
    using 2(2) evolves_trans [OF 1(3) 2(3)] 1(4,5,6) 2(4,5,6)
    by (intro exI [of _ s2] exI [of _ tf2] exI [of _ P2]) simp
qed

lemma map_pages_append:
  "map_pages root (ps @ qs) s tf = bind_outcome (map_pages root ps s tf) (\<lambda>(s1, tf1). map_pages root qs s1 tf1)"
proof (induction ps arbitrary: s tf)
  case Nil
  then show ?case by simp
next
  case (Cons r ps)
  obtain v p w x where "r = (v, p, w, x)" by (cases r)
  then show ?case using Cons by (cases "map_user_page_split root v p w x s tf") (auto split: prod.splits)
qed

lemma fold_last_hit:
  "fold (\<lambda>r e. if Q r then f r else e) rs e0 =
     (case filter Q (rev rs) of [] \<Rightarrow> e0 | r # _ \<Rightarrow> f r)"
  by (induction rs rule: rev_induct) auto

subsection \<open>The top-level table\<close>

lemma copy_kernel_half_prefix:
  fixes K N :: u64
  assumes K: "page_aligned K" and N: "page_aligned N" and ne: "K \<noteq> N" and n: "n \<le> 512"
  defines "c \<equiv> \<lambda>m. fold (\<lambda>i m. store64 m (entry_addr N i) (load64 m (entry_addr K i))) [256..<n] m"
  shows "i < 512 \<Longrightarrow> load64 (c m) (entry_addr K i) = load64 m (entry_addr K i)"
    and "i < 512 \<Longrightarrow> load64 (c m) (entry_addr N i) =
           (if 256 \<le> i \<and> i < n then load64 m (entry_addr K i) else load64 m (entry_addr N i))"
    and "page_base x \<noteq> N \<Longrightarrow> c m x = m x"
proof -
  have "(\<forall>i < 512. load64 (c m) (entry_addr K i) = load64 m (entry_addr K i)) \<and>
    (\<forall>i < 512. load64 (c m) (entry_addr N i) =
       (if 256 \<le> i \<and> i < n then load64 m (entry_addr K i) else load64 m (entry_addr N i))) \<and>
    (\<forall>x. page_base x \<noteq> N \<longrightarrow> c m x = m x)"
    unfolding c_def using n
  proof (induction n)
    case 0
    then show ?case by simp
  next
    case (Suc n)
    show ?case
    proof (cases "256 \<le> n")
      case True
      have n: "n < 512" using Suc.prems by simp
      show ?thesis
        using Suc.IH n True ne
        by (auto simp: load_store_entry [OF K N _ n] load_store_entry [OF N N _ n]
            store_entry_outside [OF N n] less_Suc_eq)
    next
      case False
      then show ?thesis by auto
    qed
  qed
  then show "i < 512 \<Longrightarrow> load64 (c m) (entry_addr K i) = load64 m (entry_addr K i)"
    "i < 512 \<Longrightarrow> load64 (c m) (entry_addr N i) =
           (if 256 \<le> i \<and> i < n then load64 m (entry_addr K i) else load64 m (entry_addr N i))"
    "page_base x \<noteq> N \<Longrightarrow> c m x = m x" by blast+
qed

lemmas copy_kernel_half_spec =
  copy_kernel_half_prefix [where n = 512, folded copy_kernel_half_def, simplified]

lemma new_pml4_spec:
  assumes own: "owns s G" and K: "\<not> grantable (m_pmm s) (cr3 AND ADDR_MASK)" and av: "1 \<le> avail s"
  shows "\<exists>N s'. new_pml4_table cr3 s = Ret (N, s', [N]) \<and> space kernel_half G s' [N] [[] \<mapsto> N] \<and>
    avail s = Suc (avail s') \<and> took 1 s s' \<and> grantable (m_pmm s) N \<and>
    (\<forall>i. 256 \<le> i \<longrightarrow> i < 512 \<longrightarrow> load64 (m_mem s') (entry_addr N i) =
       load64 (m_mem s) (entry_addr (cr3 AND ADDR_MASK) i)) \<and>
    (\<forall>x. page_base x \<noteq> N \<longrightarrow> m_mem s' x = m_mem s x) \<and> N AND ADDR_MASK = N \<and>
    (\<forall>\<rho> j. length \<rho> = 3 \<longrightarrow> leaf (m_mem s') [[] \<mapsto> N] \<rho> j = 0)"
proof -
  let ?K = "cr3 AND ADDR_MASK"
  obtain N s1 where f: "alloc_frame s = (Some N, s1)"
    using alloc_frame_owns(6) [OF own] av by (cases "alloc_frame s"; cases "fst (alloc_frame s)") auto
  note al = alloc_frame_owns [OF own f]
  have own1: "owns s1 (insert N G)" and fresh: "N \<notin> G" and mem: "m_mem s1 = m_mem s"
    and gr: "grantable (m_pmm s) N"
    using al by auto
  have Na: "page_aligned N" using owns_aligned [OF own1] by simp
  have Nm: "N AND ADDR_MASK = N" using owns_frame_mask [OF own1] by simp
  have Ka: "page_aligned ?K"
  proof -
    have "page_off ?K = cr3 AND (ADDR_MASK AND 0xFFF)" by (simp add: page_off_def ac_simps)
    then show ?thesis by (simp add: page_aligned_def page_flag_defs)
  qed
  have ne: "?K \<noteq> N" using K gr by auto
  let ?z = "zero_bytes (m_mem s1) N 4096"
  let ?m = "copy_kernel_half ?K N ?z"
  let ?s = "s1\<lparr>m_mem := ?m\<rparr>"
  note cp = copy_kernel_half_spec [OF Ka Na ne, of _ ?z]
  have outside: "?m x = m_mem s x" if "page_base x \<noteq> N" for x
    using cp(3) [OF that] that by (simp add: zero_bytes_page [OF Na] mem)
  have own': "owns ?s (insert N G)"
  proof (rule owns_mem_update [OF own1])
    show "?m x = m_mem s1 x" if "page_base x \<notin> insert N G" for x
      using outside [of x] that by (simp add: mem)
  qed
  have zero: "load64 ?z (entry_addr N i) = 0" if "i < 512" for i
    by (rule load_page_zero [OF Na that page_zero_zero_bytes [OF Na]])
  have "pt_ok kernel_half ?m [[] \<mapsto> N]"
    unfolding pt_ok_def
  proof (intro conjI allI impI)
    show "pt_frames_ok [[] \<mapsto> N]" using Na Nm by (auto simp: pt_frames_ok_def split: if_splits)
    show "pt_closed kernel_half [[] \<mapsto> N]" by (simp add: pt_closed_def)
    fix \<pi> t i assume a: "[[] \<mapsto> N] \<pi> = Some t" "i < 512" "(\<pi>, i) \<notin> kernel_half"
    then have "\<pi> = []" "t = N" "i < 256" by (auto split: if_splits)
    then show "slot_ok (load64 ?m (entry_addr t i)) ([[] \<mapsto> N] (\<pi> @ [i]))"
      using cp(2) [OF a(2)] zero [OF a(2)] by simp
  qed
  then have sp: "space kernel_half G ?s [N] [[] \<mapsto> N]"
    using own' fresh by (auto simp: space_def ran_def)
  have keep: "load64 ?z (entry_addr ?K i) = load64 (m_mem s) (entry_addr ?K i)" if "i < 512" for i
    using load_zero_bytes_other [OF Ka that Na ne] by (simp add: mem)
  show ?thesis
    using f sp al(7) took_alloc [OF own f] gr outside Nm cp(2) keep
    by (intro exI [of _ N] exI [of _ ?s]) (auto simp: new_pml4_table_def avail_def leaf_def)
qed

subsection \<open>What the processor sees\<close>

lemma user_walk_leaf:
  assumes ok: "pt_ok kernel_half m P" and root: "P [] = Some root" and v: "pml4_idx v < 256"
  shows "user_walk m root v =
    (let e = leaf m P (path3 v) (pt_idx v)
     in if e AND PAGE_PRESENT = 0 \<or> e AND PAGE_USER = 0 then None
        else Some (e AND ADDR_MASK, e AND PAGE_WRITABLE \<noteq> 0, e AND NO_EXECUTE = 0))"
proof -
  have s1: "slot_ok (load64 m (entry_addr root (pml4_idx v))) (P [pml4_idx v])"
    using pt_okD(5) [OF ok root _ indices_bound(1)] v by simp
  show ?thesis
  proof (cases "P [pml4_idx v]")
    case None
    then have "P [pml4_idx v, pdpt_idx v] = None" using pt_ok_parent [OF ok, of "[pml4_idx v]"] by simp
    then have "P (path3 v) = None"
      using pt_ok_parent [OF ok, of "[pml4_idx v, pdpt_idx v]"] by (simp add: path3_def)
    then show ?thesis using None s1 by (simp add: user_walk_def mmu_step_def leaf_def)
  next
    case 1: (Some t1)
    have s2: "slot_ok (load64 m (entry_addr t1 (pdpt_idx v))) (P [pml4_idx v, pdpt_idx v])"
      using pt_okD(5) [OF ok 1 _ indices_bound(2)] by simp
    show ?thesis
    proof (cases "P [pml4_idx v, pdpt_idx v]")
      case None
      then have "P (path3 v) = None"
        using pt_ok_parent [OF ok, of "[pml4_idx v, pdpt_idx v]"] by (simp add: path3_def)
      then show ?thesis using None 1 s1 s2 by (simp add: user_walk_def mmu_step_def leaf_def)
    next
      case 2: (Some t2)
      have s3: "slot_ok (load64 m (entry_addr t2 (pd_idx v))) (P (path3 v))"
        using pt_okD(5) [OF ok 2 _ indices_bound(3)] by (simp add: path3_def)
      show ?thesis
        using 1 2 s1 s2 s3
        by (cases "P (path3 v)") (auto simp: user_walk_def mmu_step_def leaf_def Let_def)
    qed
  qed
qed

text \<open>The kernel's own walk agrees with the leaf.\<close>

lemma debug_read_leaf:
  assumes ok: "pt_ok kernel_half m P" and root: "P [] = Some root" and v: "pml4_idx v < 256"
  shows "debug_read_pte_flags m root v =
    (let e = leaf m P (path3 v) (pt_idx v)
     in if e AND PAGE_PRESENT = 0 then None else Some (e AND PAGE_WRITABLE \<noteq> 0, e AND NO_EXECUTE = 0))"
proof -
  have rm: "root AND ADDR_MASK = root" by (rule pt_okD(3) [OF ok root])
  have s1: "slot_ok (load64 m (entry_addr root (pml4_idx v))) (P [pml4_idx v])"
    using pt_okD(5) [OF ok root _ indices_bound(1)] v by simp
  show ?thesis
  proof (cases "P [pml4_idx v]")
    case None
    then have "P [pml4_idx v, pdpt_idx v] = None" using pt_ok_parent [OF ok, of "[pml4_idx v]"] by simp
    then have "P (path3 v) = None"
      using pt_ok_parent [OF ok, of "[pml4_idx v, pdpt_idx v]"] by (simp add: path3_def)
    then show ?thesis using None s1 by (simp add: debug_read_pte_flags_def leaf_def rm)
  next
    case 1: (Some t1)
    have s2: "slot_ok (load64 m (entry_addr t1 (pdpt_idx v))) (P [pml4_idx v, pdpt_idx v])"
      using pt_okD(5) [OF ok 1 _ indices_bound(2)] by simp
    show ?thesis
    proof (cases "P [pml4_idx v, pdpt_idx v]")
      case None
      then have "P (path3 v) = None"
        using pt_ok_parent [OF ok, of "[pml4_idx v, pdpt_idx v]"] by (simp add: path3_def)
      then show ?thesis using None 1 s1 s2 by (simp add: debug_read_pte_flags_def leaf_def rm)
    next
      case 2: (Some t2)
      have s3: "slot_ok (load64 m (entry_addr t2 (pd_idx v))) (P (path3 v))"
        using pt_okD(5) [OF ok 2 _ indices_bound(3)] by (simp add: path3_def)
      show ?thesis
        using 1 2 s1 s2 s3
        by (cases "P (path3 v)") (auto simp: debug_read_pte_flags_def leaf_def Let_def rm)
    qed
  qed
qed

text \<open>The specification of an address space: the last request for the page of \<open>v\<close>.\<close>

definition requested :: "mapping_request list \<Rightarrow> u64 \<Rightarrow> (u64 \<times> bool \<times> bool) option" where
  "requested rs v =
     (case filter (\<lambda>(v', _). indices v' = indices v) (rev rs) of
        [] \<Rightarrow> None
      | (_, p, w, x) # _ \<Rightarrow> Some (p AND ADDR_MASK, w, x))"

definition stack_request :: "u64 \<Rightarrow> mapping_request" where
  "stack_request stack = (stack, stack, True, False)"

lemma requested_SomeE:
  assumes "requested rs v = Some (p, w, x)"
  obtains v' p' where "(v', p', w, x) \<in> set rs" "p = p' AND ADDR_MASK"
proof -
  let ?Q = "\<lambda>(v', _). indices v' = indices v"
  obtain r rest where f: "filter ?Q (rev rs) = r # rest"
    using assms by (cases "filter ?Q (rev rs)") (auto simp: requested_def)
  then have "r \<in> set (filter ?Q (rev rs))" by simp
  then have "r \<in> set rs" by simp
  moreover obtain v' p' w' x' where r: "r = (v', p', w', x')" by (cases r)
  moreover have "requested rs v = Some (p' AND ADDR_MASK, w', x')"
    unfolding requested_def f r by simp
  ultimately show thesis using that assms by simp
qed

lemma hits_indices: "hits (path3 v) (pt_idx v) r \<longleftrightarrow> (case r of (v', _) \<Rightarrow> indices v' = indices v)"
  by (cases r) (auto simp: hits_def path3_def indices_def)

lemma walk_of_requests:
  assumes "pt_ok kernel_half m P" "P [] = Some root" "pml4_idx v < 256"
    and "leaf m P (path3 v) (pt_idx v) =
      fold (\<lambda>r e. if hits (path3 v) (pt_idx v) r then request_entry r else e) rs 0"
  shows "user_walk m root v = requested rs v"
    and "debug_read_pte_flags m root v = map_option snd (requested rs v)"
  unfolding user_walk_leaf [OF assms(1-3)] debug_read_leaf [OF assms(1-3)] assms(4) fold_last_hit
    hits_indices requested_def
  by (auto simp: Let_def request_entry_def leaf_entry split: list.splits prod.splits)

text \<open>The tree and its leaves depend only on the pages of the tables.\<close>

lemma pt_ok_cong:
  assumes ok: "pt_ok H m P" and same: "\<And>x. page_base x \<in> ran P \<Longrightarrow> m' x = m x"
  shows "pt_ok H m' P" and "j < 512 \<Longrightarrow> leaf m' P \<rho> j = leaf m P \<rho> j"
proof -
  have ld: "load64 m' (entry_addr t i) = load64 m (entry_addr t i)" if "P \<pi> = Some t" "i < 512" for \<pi> t i
    by (rule load_entry_cong [OF pt_okD(2) [OF ok that(1)] that(2)])
      (use same ranI [of P, OF that(1)] in blast)
  show "pt_ok H m' P" using ok ld unfolding pt_ok_def by simp
  show "j < 512 \<Longrightarrow> leaf m' P \<rho> j = leaf m P \<rho> j" using ld by (auto simp: leaf_def split: option.splits)
qed

text \<open>
  The result of building an address space; the walks hold in every memory that agrees with the
  result on the tables.
\<close>

definition built ::
  "u64 \<Rightarrow> u64 set \<Rightarrow> mapping_request list \<Rightarrow> machine \<Rightarrow> u64 \<Rightarrow> u64 list \<Rightarrow> machine \<Rightarrow> bool" where
  "built cr3 F rs s root tf s' \<longleftrightarrow>
     owns s' (F \<union> set tf) \<and> F \<inter> set tf = {} \<and> distinct tf \<and> root \<in> set tf \<and>
     avail s' + length tf = avail s \<and> length tf \<le> 3 * length rs + 1 \<and> took (length tf) s s' \<and>
     (\<forall>m v. (\<forall>x. page_base x \<in> set tf \<longrightarrow> m x = m_mem s' x) \<longrightarrow> pml4_idx v < 256 \<longrightarrow>
        user_walk m root v = requested rs v \<and>
        debug_read_pte_flags m root v = map_option snd (requested rs v)) \<and>
     (\<forall>i. 256 \<le> i \<longrightarrow> i < 512 \<longrightarrow> load64 (m_mem s') (entry_addr root i) =
        load64 (m_mem s) (entry_addr (cr3 AND ADDR_MASK) i)) \<and>
     (\<forall>x. page_base x \<notin> set tf \<longrightarrow> m_mem s' x = m_mem s x)"

lemma create_fresh_built:
  assumes own: "owns s F" and K: "\<not> grantable (m_pmm s) (cr3 AND ADDR_MASK)"
    and lower: "\<forall>r \<in> set (pages @ [stack_request stack]). lower_half r"
    and av: "3 * length pages + 4 \<le> avail s"
  shows "\<exists>root tf s'. create_isolated_user_table_fresh cr3 pages stack s = Ret (root, tf, s') \<and>
     built cr3 F (pages @ [stack_request stack]) s root tf s'"
proof -
  have "1 \<le> avail s" using av by simp
  from new_pml4_spec [OF own K this] obtain N s1 where
    1: "new_pml4_table cr3 s = Ret (N, s1, [N])" "space kernel_half F s1 [N] [[] \<mapsto> N]"
    "avail s = Suc (avail s1)" "took 1 s s1"
    "\<And>i. 256 \<le> i \<Longrightarrow> i < 512 \<Longrightarrow> load64 (m_mem s1) (entry_addr N i) =
       load64 (m_mem s) (entry_addr (cr3 AND ADDR_MASK) i)"
    "\<And>x. page_base x \<noteq> N \<Longrightarrow> m_mem s1 x = m_mem s x"
    "\<And>\<rho> j. length \<rho> = 3 \<Longrightarrow> leaf (m_mem s1) [[] \<mapsto> N] \<rho> j = 0"
    by auto
  have "3 * length (pages @ [stack_request stack]) \<le> avail s1" using av 1(3) by simp
  from map_pages_spec [OF 1(2) _ lower this, of N] obtain s3 tf3 P3 where
    3: "map_pages N (pages @ [stack_request stack]) s1 [N] = Ret (s3, tf3)"
    "space kernel_half F s3 tf3 P3" "evolves kernel_half s1 [N] [[] \<mapsto> N] s3 tf3 P3"
    "length tf3 \<le> length [N] + 3 * length (pages @ [stack_request stack])"
    "\<And>\<rho> j. length \<rho> = 3 \<Longrightarrow> j < 512 \<Longrightarrow> leaf (m_mem s3) P3 \<rho> j =
        fold (\<lambda>r e. if hits \<rho> j r then request_entry r else e) (pages @ [stack_request stack])
          (leaf (m_mem s1) [[] \<mapsto> N] \<rho> j)"
    by auto
  have ok: "pt_ok kernel_half (m_mem s3) P3" using 3(2) by (simp add: space_def)
  have root: "P3 [] = Some N" using 3(3) unfolding evolves_def map_le_def by force
  have "create_isolated_user_table_fresh cr3 pages stack s = Ret (N, tf3, s3)"
    using 3(1) by (auto simp: create_isolated_user_table_fresh_def 1(1) map_pages_append
        stack_request_def split: prod.splits)
  moreover have "built cr3 F (pages @ [stack_request stack]) s N tf3 s3"
    unfolding built_def
  proof (intro conjI allI impI)
    show "owns s3 (F \<union> set tf3)" "F \<inter> set tf3 = {}" "distinct tf3"
      using 3(2) by (auto simp: space_def)
    show "N \<in> set tf3" using 3(2) ranI [of P3, OF root] by (simp add: space_def)
    show "avail s3 + length tf3 = avail s" using 3(3) 1(3) by (simp add: evolves_def)
    show "length tf3 \<le> 3 * length (pages @ [stack_request stack]) + 1" using 3(4) by simp
    have "took (length tf3 - 1) s1 s3" using 3(3) by (auto simp: evolves_def took_def)
    then have "took (1 + (length tf3 - 1)) s s3" by (rule took_trans [OF 1(4)])
    moreover have "1 + (length tf3 - 1) = length tf3"
      using 3(2,3) by (cases tf3) (auto simp: evolves_def)
    ultimately show "took (length tf3) s s3" by simp
    fix m v assume m: "\<forall>x. page_base x \<in> set tf3 \<longrightarrow> m x = m_mem s3 x" and v: "pml4_idx v < 256"
    have "ran P3 = set tf3" using 3(2) by (simp add: space_def)
    then have same: "page_base x \<in> ran P3 \<Longrightarrow> m x = m_mem s3 x" for x using m by simp
    note okm = pt_ok_cong [OF ok same]
    have lf0: "leaf (m_mem s3) P3 (path3 v) (pt_idx v) =
        fold (\<lambda>r e. if hits (path3 v) (pt_idx v) r then request_entry r else e)
          (pages @ [stack_request stack]) 0"
      using 3(5) [of "path3 v" "pt_idx v"] 1(7) [of "path3 v"] by (simp add: path3_def)
    have lf: "leaf m P3 (path3 v) (pt_idx v) =
        fold (\<lambda>r e. if hits (path3 v) (pt_idx v) r then request_entry r else e)
          (pages @ [stack_request stack]) 0"
      using okm(2) [OF _ indices_bound(4)] lf0 by simp
    show "user_walk m N v = requested (pages @ [stack_request stack]) v"
      "debug_read_pte_flags m N v = map_option snd (requested (pages @ [stack_request stack]) v)"
      by (rule walk_of_requests [OF okm(1) root v lf], assumption)+
  next
    fix i :: nat assume i: "256 \<le> i" "i < 512"
    have "load64 (m_mem s3) (entry_addr N i) = load64 (m_mem s1) (entry_addr N i)"
      using 3(3) i unfolding evolves_def by (metis fun_upd_same kernel_half_iff)
    then show "load64 (m_mem s3) (entry_addr N i) = load64 (m_mem s) (entry_addr (cr3 AND ADDR_MASK) i)"
      using 1(5) i by simp
  next
    fix x assume x: "page_base x \<notin> set tf3"
    have "N \<in> set tf3" using 3(3) by (simp add: evolves_def)
    then have "page_base x \<noteq> N" using x by auto
    then show "m_mem s3 x = m_mem s x" using 1(6) x 3(3) by (simp add: evolves_def)
  qed
  ultimately show ?thesis by blast
qed

text \<open>The identity-mapped variant is the same construction on pages that map to themselves.\<close>

definition identity_request :: "u64 \<Rightarrow> mapping_request" where
  "identity_request p = (p, p, False, True)"

lemma map_identity_pages_eq:
  "map_identity_pages root ps s tf = map_pages root (map identity_request ps) s tf"
proof (induction ps arbitrary: s tf)
  case Nil
  then show ?case by simp
next
  case (Cons p ps)
  then have "map_identity_pages root ps = map_pages root (map identity_request ps)" by (simp add: fun_eq_iff)
  then show ?case by (simp add: map_user_page_def) (simp add: identity_request_def)
qed

lemma create_isolated_eq:
  "create_isolated_user_table cr3 ps stack s =
     create_isolated_user_table_fresh cr3 (map identity_request ps) stack s"
  by (simp add: create_isolated_user_table_def create_isolated_user_table_fresh_def
      map_identity_pages_eq map_user_page_def)

section \<open>Properties\<close>


definition demo_pages :: "mapping_request list" where
  "demo_pages = [(0x400000, 0x7FE000, False, True), (0x401000, 0x7FF000, True, False)]"

lemma demo_avail: "avail demo_machine = 1024"
  by (simp add: avail_def pmm_avail_def reserve_pages_def demo_pmm)

lemma demo_cr3: "\<not> grantable (m_pmm demo_machine) (0x1000 AND ADDR_MASK)"
  by (auto simp: grantable_def in_reserve_def in_region_def page_flag_defs less_Suc_eq demo_pmm)

lemma demo_lower: "\<forall>r \<in> set (demo_pages @ [stack_request 0x7FD000]). lower_half r"
  by code_simp


text \<open>
  C2. No user page is both writable and executable, and no user page is the kernel's: if no
  requested page asks for both, and the kernel half of the current top-level table is not
  user-accessible, then whatever address user code uses in the new address space, it reaches
  only a requested frame or its stack, never with write and execute rights together.
\<close>

theorem user_space_wxorx:
  assumes "owns s F" and "\<not> grantable (m_pmm s) (cr3 AND ADDR_MASK)"
    and "\<forall>r \<in> set (pages @ [stack_request stack]). lower_half r"
    and "3 * length pages + 4 \<le> avail s"
    and "\<forall>(v, p, w, x) \<in> set pages. \<not> (w \<and> x)"
    and "\<forall>i. 256 \<le> i \<longrightarrow> i < 512 \<longrightarrow>
      load64 (m_mem s) (entry_addr (cr3 AND ADDR_MASK) i) AND PAGE_USER = 0"
  shows "\<exists>root tf s'. create_isolated_user_table_fresh cr3 pages stack s = Ret (root, tf, s') \<and>
    (\<forall>v p w x. user_walk (m_mem s') root v = Some (p, w, x) \<longrightarrow>
       \<not> (w \<and> x) \<and> p \<in> insert (stack AND ADDR_MASK) ((\<lambda>(v, p, w, x). p AND ADDR_MASK) ` set pages))"
proof -
  let ?rs = "pages @ [stack_request stack]"
  obtain root tf s' where c: "create_isolated_user_table_fresh cr3 pages stack s = Ret (root, tf, s')"
    and b: "built cr3 F ?rs s root tf s'"
    using create_fresh_built [OF assms(1-4)] by blast
  have "\<not> (w \<and> x) \<and> p \<in> insert (stack AND ADDR_MASK) ((\<lambda>(v, p, w, x). p AND ADDR_MASK) ` set pages)"
    if walk: "user_walk (m_mem s') root v = Some (p, w, x)" for v p w x
  proof (cases "pml4_idx v < 256")
    case True
    then have "requested ?rs v = Some (p, w, x)" using b walk by (simp add: built_def)
    then obtain v' p' where r: "(v', p', w, x) \<in> set ?rs" "p = p' AND ADDR_MASK"
      by (rule requested_SomeE)
    then show ?thesis using assms(5) by (force simp: stack_request_def)
  next
    case False
    then have "load64 (m_mem s') (entry_addr root (pml4_idx v)) AND PAGE_USER = 0"
      using b assms(6) indices_bound(1) [of v] unfolding built_def by (metis not_less)
    then show ?thesis using walk by (simp add: user_walk_def mmu_step_def)
  qed
  then show ?thesis using c by blast
qed

lemma demo_kernel_half:
  "\<forall>i. 256 \<le> i \<longrightarrow> i < 512 \<longrightarrow>
     load64 (m_mem demo_machine) (entry_addr (0x1000 AND ADDR_MASK) i) AND PAGE_USER = 0"
proof -
  have "load64 (m_mem demo_machine) a = from_le (replicate 8 0xAA)" for a
    by (simp add: load64_def read_bytes_def demo_machine_def boot_machine_def map_replicate_const)
  moreover have "(from_le (replicate 8 0xAA) :: u64) AND PAGE_USER = 0" by code_simp
  ultimately show ?thesis by simp
qed

lemma user_space_wxorx_witness:
  "\<exists>root tf s'. create_isolated_user_table_fresh 0x1000 demo_pages 0x7FD000 demo_machine = Ret (root, tf, s') \<and>
    (\<forall>v p w x. user_walk (m_mem s') root v = Some (p, w, x) \<longrightarrow>
       \<not> (w \<and> x) \<and> p \<in> insert (0x7FD000 AND ADDR_MASK) ((\<lambda>(v, p, w, x). p AND ADDR_MASK) ` set demo_pages))"
  by (rule user_space_wxorx [OF demo_owns demo_cr3 demo_lower _ _ demo_kernel_half])
    (simp_all add: demo_avail demo_pages_def)

text \<open>
  C3. Teardown gives everything back. Building an address space of identity-mapped pages and a stack
  frame the caller owns maps exactly these; tearing it down again returns without a double-free panic, leaves
  every frame that was allocated and the stack scrubbed and every other byte of memory as it was before
  the building, releases exactly the stack from the caller's frames, and makes one more frame available than
  before.
\<close>

theorem isolated_teardown_roundtrip:
  assumes "owns s F" and "stack \<in> F" and "\<not> grantable (m_pmm s) (cr3 AND ADDR_MASK)"
    and "pml4_idx stack < 256" and "\<forall>p \<in> set user_pages. pml4_idx p < 256"
    and "3 * length user_pages + 4 \<le> avail s"
  shows "\<exists>root tf s1 s2. create_isolated_user_table cr3 user_pages stack s = Ret (root, tf, s1) \<and>
    (\<forall>v. pml4_idx v < 256 \<longrightarrow>
       user_walk (m_mem s1) root v = requested (map identity_request user_pages @ [stack_request stack]) v) \<and>
    teardown_isolated_process tf stack s1 = Ret s2 \<and> owns s2 (F - {stack}) \<and>
    (\<forall>f \<in> insert stack (set tf). page_zero (m_mem s2) f) \<and>
    (\<forall>x. page_base x \<notin> insert stack (set tf) \<longrightarrow> m_mem s2 x = m_mem s x) \<and> avail s2 = Suc (avail s)"
proof -
  have "\<forall>r \<in> set (map identity_request user_pages @ [stack_request stack]). lower_half r"
    using assms(4,5) by (auto simp: lower_half_def identity_request_def stack_request_def)
  from create_fresh_built [OF assms(1,3) this] assms(6)
  obtain root tf s1 where c: "create_isolated_user_table cr3 user_pages stack s = Ret (root, tf, s1)"
    and b: "built cr3 F (map identity_request user_pages @ [stack_request stack]) s root tf s1"
    by (auto simp: create_isolated_eq)
  have own: "owns s1 (F \<union> set tf)" and disj: "F \<inter> set tf = {}" and dist: "distinct tf"
    and av: "avail s1 + length tf = avail s"
    using b by (auto simp: built_def)
  have walk: "\<forall>v. pml4_idx v < 256 \<longrightarrow>
      user_walk (m_mem s1) root v = requested (map identity_request user_pages @ [stack_request stack]) v"
    and m1: "\<forall>x. page_base x \<notin> set tf \<longrightarrow> m_mem s1 x = m_mem s x"
    using b unfolding built_def by blast+
  obtain s2 where s2: "free_all tf s1 = Ret s2" "owns s2 (F \<union> set tf - set tf)"
    "\<forall>f \<in> set tf. page_zero (m_mem s2) f" "\<forall>x. page_base x \<notin> set tf \<longrightarrow> m_mem s2 x = m_mem s1 x"
    using free_all_owns [OF own dist] by auto
  have "F \<union> set tf - set tf = F" using disj by auto
  then have own2: "owns s2 F" using s2(2) by simp
  obtain s3 where s3: "free_frame stack s2 = Ret s3" "owns s3 (F - {stack})" "page_zero (m_mem s3) stack"
    "m_mem s3 = zero_bytes (m_mem s2) stack 4096"
    using free_frame_owns [OF own2 assms(2)] by blast
  have "page_zero (m_mem s3) f" if "f \<in> set tf" for f
    using s2(3) that owns_aligned [OF own2 assms(2)]
    by (auto simp: s3(4) page_zero_def zero_bytes_page)
  moreover have "\<forall>x. page_base x \<notin> insert stack (set tf) \<longrightarrow> m_mem s3 x = m_mem s x"
    using s2(4) m1 owns_aligned [OF own2 assms(2)] by (simp add: s3(4) zero_bytes_page)
  moreover have "avail s3 = Suc (avail s)"
    using free_frame_avail [OF s3(1)] free_all_avail [OF s2(1)] av by simp
  ultimately show ?thesis
    using c walk s2(1) s3(1,2,3) by (intro exI [of _ root] exI [of _ tf] exI [of _ s1] exI [of _ s3])
      (auto simp: teardown_isolated_process_def)
qed

lemma isolated_teardown_roundtrip_witness:
  "\<exists>root tf s1 s2. create_isolated_user_table 0x1000 [0x401000] 0x400000 (snd (alloc_frame demo_machine))
      = Ret (root, tf, s1) \<and>
    (\<forall>v. pml4_idx v < 256 \<longrightarrow>
       user_walk (m_mem s1) root v = requested (map identity_request [0x401000] @ [stack_request 0x400000]) v) \<and>
    teardown_isolated_process tf 0x400000 s1 = Ret s2 \<and> owns s2 ({0x400000} - {0x400000}) \<and>
    (\<forall>f \<in> insert 0x400000 (set tf). page_zero (m_mem s2) f) \<and>
    (\<forall>x. page_base x \<notin> insert 0x400000 (set tf) \<longrightarrow> m_mem s2 x = m_mem (snd (alloc_frame demo_machine)) x) \<and>
    avail s2 = Suc (avail (snd (alloc_frame demo_machine)))"
proof (rule isolated_teardown_roundtrip [OF demo_owns_one])
  have f: "alloc_frame demo_machine = (Some 0x400000, snd (alloc_frame demo_machine))"
    by (simp add: prod_eq_iff) code_simp
  show "\<not> grantable (m_pmm (snd (alloc_frame demo_machine))) (0x1000 AND ADDR_MASK)"
    using alloc_frame_owns(9) [OF demo_owns f _ refl] demo_cr3 by blast
  show "3 * length [0x401000 :: u64] + 4 \<le> avail (snd (alloc_frame demo_machine))"
    using alloc_frame_owns(7) [OF demo_owns f refl] demo_avail by simp
qed (simp, code_simp, code_simp)

end
