(* ===== verification/AuditLog.thy ===== *)
theory AuditLog
  imports Prelude
begin

text \<open>
  The audit log (\<open>kernel/src/audit.rs\<close>) and the timer ticks that stamp it
  (\<open>kernel/src/drivers/pit.rs\<close>). The log is a \<open>VecDeque\<close> of at most 256 events
  that drops the oldest. The lemmas show that it never exceeds its capacity and that a snapshot
  is exactly the most recent events, in order, denials included.
\<close>

section \<open>Ticks\<close>

definition tick :: "u64 \<Rightarrow> u64" where
  "tick t = t + 1"

definition ms :: "u64 \<Rightarrow> u64" where
  "ms t = t * 10"

section \<open>The log\<close>

record audit_event =
  ev_tick :: u64
  ev_subsystem :: string
  ev_action :: string
  ev_uid :: u32
  ev_allowed :: bool
  ev_detail :: string

type_synonym audit_ring = "audit_event list"

definition LOG_CAPACITY :: nat where
  "LOG_CAPACITY = 256"

definition audit_push :: "audit_ring \<Rightarrow> audit_event \<Rightarrow> audit_ring" where
  "audit_push log event =
     (let log1 = (if LOG_CAPACITY \<le> length log then tl log else log) in log1 @ [event])"

definition audit_log ::
  "u64 \<Rightarrow> string \<Rightarrow> string \<Rightarrow> u32 \<Rightarrow> bool \<Rightarrow> string \<Rightarrow> audit_ring \<Rightarrow> audit_ring" where
  "audit_log ticks subsystem action uid allowed detail log =
     audit_push log
       \<lparr>ev_tick = ticks, ev_subsystem = subsystem, ev_action = action, ev_uid = uid,
        ev_allowed = allowed, ev_detail = detail\<rparr>"

definition audit_snapshot :: "audit_ring \<Rightarrow> audit_event list" where
  "audit_snapshot log = log"

definition audit_count :: "audit_ring \<Rightarrow> nat" where
  "audit_count log = length log"

section \<open>What the log holds\<close>

definition audit_ok :: "audit_ring \<Rightarrow> bool" where
  "audit_ok log \<longleftrightarrow> length log \<le> LOG_CAPACITY"

definition most_recent :: "nat \<Rightarrow> 'a list \<Rightarrow> 'a list" where
  "most_recent n xs = drop (length xs - n) xs"

lemma audit_ok_Nil [simp]: "audit_ok []"
  by (simp add: audit_ok_def)

lemma audit_ok_push [simp]: "audit_ok log \<Longrightarrow> audit_ok (audit_push log ev)"
  by (auto simp: audit_ok_def audit_push_def LOG_CAPACITY_def Let_def)

lemma audit_ok_log [simp]: "audit_ok log \<Longrightarrow> audit_ok (audit_log t s a u b d log)"
  by (simp add: audit_log_def)

lemma audit_push_most_recent:
  assumes "audit_ok log"
  shows "audit_push log ev = most_recent LOG_CAPACITY (log @ [ev])"
proof (cases "length log = LOG_CAPACITY")
  case True
  then have "log \<noteq> []" by (auto simp: LOG_CAPACITY_def)
  then show ?thesis using True
    by (simp add: audit_push_def most_recent_def Let_def drop_Suc LOG_CAPACITY_def)
next
  case False
  then show ?thesis using assms
    by (simp add: audit_push_def most_recent_def audit_ok_def Let_def)
qed

lemma most_recent_append:
  "most_recent n (most_recent n xs @ ys) = most_recent n (xs @ ys)"
  by (cases "n \<le> length xs") (auto simp: most_recent_def add.commute)

lemma most_recent_fits: "length xs \<le> n \<Longrightarrow> most_recent n xs = xs"
  by (simp add: most_recent_def)

lemma audit_ok_fold: "audit_ok log \<Longrightarrow> audit_ok (fold (\<lambda>e l. audit_push l e) evs log)"
  by (induction evs arbitrary: log) simp_all

lemma audit_fold_most_recent:
  "audit_ok log \<Longrightarrow>
     fold (\<lambda>e l. audit_push l e) evs log = most_recent LOG_CAPACITY (log @ evs)"
proof (induction evs arbitrary: log)
  case Nil
  then show ?case by (simp add: most_recent_fits audit_ok_def)
next
  case (Cons e evs)
  have "fold (\<lambda>e l. audit_push l e) (e # evs) log = most_recent LOG_CAPACITY (audit_push log e @ evs)"
    using Cons by simp
  also have "\<dots> = most_recent LOG_CAPACITY ((log @ [e]) @ evs)"
    by (simp only: audit_push_most_recent [OF Cons.prems] most_recent_append)
  finally show ?case by simp
qed

lemma audit_log_records:
  "last (audit_log t s a u b d log) =
     \<lparr>ev_tick = t, ev_subsystem = s, ev_action = a, ev_uid = u, ev_allowed = b, ev_detail = d\<rparr>"
  by (simp add: audit_log_def audit_push_def Let_def)

lemma audit_log_keeps:
  "audit_ok log \<Longrightarrow> length log < LOG_CAPACITY \<Longrightarrow> set log \<subseteq> set (audit_log t s a u b d log)"
  by (auto simp: audit_log_def audit_push_def Let_def)

end
