(* ===== verification/Elf.thy ===== *)
theory Elf
  imports Paging
begin

text \<open>
  The ELF64 loader (\<open>kernel/src/fs/elf.rs\<close>): header validation, loading in place, and loading
  into fresh frames for an isolated process. Fields are read little-endian at their packed offsets.
  Offsets are \<open>usize\<close>, so they are 64-bit words and wrap; a byte read past the slice is what the
  argument \<open>around\<close> says is there. The lemmas show that a loaded image is byte for byte the one
  the program headers describe, in frames nobody else owns.
\<close>

section \<open>Headers\<close>

record elf64_header =
  h_magic :: "u8 list"
  h_class :: u8
  h_type :: u16
  h_machine :: u16
  h_entry :: u64
  h_phoff :: u64
  h_phentsize :: u16
  h_phnum :: u16

record elf64_phdr =
  p_type :: u32
  p_flags :: u32
  p_offset :: u64
  p_vaddr :: u64
  p_filesz :: u64
  p_memsz :: u64

datatype elf_error = TooSmall | BadMagic | Not64Bit | NotExecutable | NotX86_64 | SegmentOutOfBounds

type_synonym around = "u64 \<Rightarrow> u8"

definition byte_at :: "u8 list \<Rightarrow> around \<Rightarrow> u64 \<Rightarrow> u8" where
  "byte_at data around off = (if unat off < length data then data ! unat off else around off)"

definition bytes_at :: "u8 list \<Rightarrow> around \<Rightarrow> u64 \<Rightarrow> nat \<Rightarrow> u8 list" where
  "bytes_at data around off n = map (\<lambda>k. byte_at data around (off + of_nat k)) [0..<n]"

definition read_header :: "u8 list \<Rightarrow> around \<Rightarrow> elf64_header" where
  "read_header data around =
     \<lparr>h_magic = bytes_at data around 0 4,
      h_class = byte_at data around 4,
      h_type = from_le (bytes_at data around 16 2),
      h_machine = from_le (bytes_at data around 18 2),
      h_entry = from_le (bytes_at data around 24 8),
      h_phoff = from_le (bytes_at data around 32 8),
      h_phentsize = from_le (bytes_at data around 54 2),
      h_phnum = from_le (bytes_at data around 56 2)\<rparr>"

definition read_phdr :: "u8 list \<Rightarrow> around \<Rightarrow> u64 \<Rightarrow> elf64_phdr" where
  "read_phdr data around off =
     \<lparr>p_type = from_le (bytes_at data around off 4),
      p_flags = from_le (bytes_at data around (off + 4) 4),
      p_offset = from_le (bytes_at data around (off + 8) 8),
      p_vaddr = from_le (bytes_at data around (off + 16) 8),
      p_filesz = from_le (bytes_at data around (off + 32) 8),
      p_memsz = from_le (bytes_at data around (off + 40) 8)\<rparr>"

definition check_header :: "u8 list \<Rightarrow> around \<Rightarrow> elf_error + elf64_header" where
  "check_header data around =
     (if length data < 64 then Inl TooSmall
      else let hdr = read_header data around
      in if h_magic hdr \<noteq> [0x7F, 0x45, 0x4C, 0x46] then Inl BadMagic
      else if h_class hdr \<noteq> 2 then Inl Not64Bit
      else if h_type hdr \<noteq> 2 then Inl NotExecutable
      else if h_machine hdr \<noteq> 0x3E then Inl NotX86_64
      else Inr hdr)"

definition validate :: "u8 list \<Rightarrow> around \<Rightarrow> elf_error + u64" where
  "validate data around =
     (case check_header data around of Inl e \<Rightarrow> Inl e | Inr hdr \<Rightarrow> Inr (h_entry hdr))"

section \<open>Loading in place\<close>

text \<open>
  \<open>load\<close> writes through virtual addresses of the current address space, here a byte memory of its
  own; segments before a bad one have been written when the error is returned.
\<close>

definition copy_bytes :: "u8 list \<Rightarrow> around \<Rightarrow> u64 \<Rightarrow> u64 \<Rightarrow> nat \<Rightarrow> memory \<Rightarrow> memory" where
  "copy_bytes data around src dst n m = write_bytes m dst (bytes_at data around src n)"

definition data_len :: "u8 list \<Rightarrow> u64" where
  "data_len data = of_nat (length data)"

definition load_segment :: "u8 list \<Rightarrow> around \<Rightarrow> elf64_phdr \<Rightarrow> memory \<Rightarrow> (elf_error + unit) \<times> memory" where
  "load_segment data around ph m =
     (let file_off = p_offset ph; filesz = p_filesz ph; memsz = p_memsz ph; vaddr = p_vaddr ph
      in if file_off + filesz > data_len data then (Inl SegmentOutOfBounds, m)
      else let m1 = copy_bytes data around file_off vaddr (unat filesz) m;
               m2 = (if memsz > filesz then zero_bytes m1 (vaddr + filesz) (unat (memsz - filesz)) else m1)
           in (Inr (), m2))"

fun load_segments :: "u8 list \<Rightarrow> around \<Rightarrow> u64 \<Rightarrow> u64 \<Rightarrow> nat list \<Rightarrow> memory \<Rightarrow> (elf_error + unit) \<times> memory" where
  "load_segments data around phoff phentsz [] m = (Inr (), m)"
| "load_segments data around phoff phentsz (i # is) m =
     (let ph_off = phoff + of_nat i * phentsz
      in if ph_off + phentsz > data_len data then (Inl SegmentOutOfBounds, m)
      else let ph = read_phdr data around ph_off
      in if p_type ph \<noteq> 1 then load_segments data around phoff phentsz is m
      else case load_segment data around ph m of
             (Inl e, m1) \<Rightarrow> (Inl e, m1)
           | (Inr _, m1) \<Rightarrow> load_segments data around phoff phentsz is m1)"

definition load :: "u8 list \<Rightarrow> around \<Rightarrow> memory \<Rightarrow> (elf_error + u64) \<times> memory" where
  "load data around m =
     (case check_header data around of
        Inl e \<Rightarrow> (Inl e, m)
      | Inr hdr \<Rightarrow>
          (case load_segments data around (h_phoff hdr) (ucast (h_phentsize hdr)) [0..<unat (h_phnum hdr)] m of
             (Inl e, m1) \<Rightarrow> (Inl e, m1)
           | (Inr _, m1) \<Rightarrow> (Inr (h_entry hdr), m1)))"

section \<open>Loading into fresh frames\<close>

text \<open>\<open>pages: Vec<(vaddr_page, frame, writable, executable)>\<close>.\<close>

definition has_page :: "mapping_request list \<Rightarrow> u64 \<Rightarrow> bool" where
  "has_page pages v = list_ex (\<lambda>(v', _). v' = v) pages"

definition page_frame :: "mapping_request list \<Rightarrow> u64 \<Rightarrow> u64 option" where
  "page_frame pages v = map_option (\<lambda>(_, f, _). f) (find (\<lambda>(v', _). v' = v) pages)"

text \<open>The \<open>while page_vaddr < seg_end\<close> loop; \<open>None\<close> is \<open>alloc_frame\<close> failing.\<close>

fun fresh_pages :: "bool \<Rightarrow> bool \<Rightarrow> u64 list \<Rightarrow> mapping_request list \<Rightarrow> machine \<Rightarrow>
    mapping_request list option \<times> machine" where
  "fresh_pages w x [] pages s = (Some pages, s)"
| "fresh_pages w x (v # vs) pages s =
     (if has_page pages v then fresh_pages w x vs pages s
      else case alloc_frame s of
        (None, s1) \<Rightarrow> (None, s1)
      | (Some frame, s1) \<Rightarrow>
          fresh_pages w x vs (pages @ [(v, frame, w, x)])
            (s1\<lparr>m_mem := zero_bytes (m_mem s1) frame 4096\<rparr>))"

lemma page_base_off: "x - page_base x = page_off x"
  by (metis add_diff_cancel_left' page_split)

lemma unat_page_off_less: "unat (x - page_base x) < 4096"
  by (simp add: page_base_off unat_page_off)

text \<open>The copy loop, a chunk per page; \<open>find(..).unwrap()\<close> panics on a page that is not there.\<close>

function copy_chunks :: "u8 list \<Rightarrow> around \<Rightarrow> mapping_request list \<Rightarrow> u64 \<Rightarrow> u64 \<Rightarrow> nat \<Rightarrow> nat \<Rightarrow>
    memory \<Rightarrow> memory outcome" where
  "copy_chunks data around pages vaddr file_off filesz copied m =
     (if copied < filesz then
        let cur_vaddr = vaddr + of_nat copied;
            base = page_base cur_vaddr;
            off = cur_vaddr - base
        in case page_frame pages base of
             None \<Rightarrow> Panic ''unwrap on None''
           | Some frame \<Rightarrow>
               let chunk = min (filesz - copied) (4096 - unat off)
               in copy_chunks data around pages vaddr file_off filesz (copied + chunk)
                    (copy_bytes data around (file_off + of_nat copied) (frame + off) chunk m)
      else Ret m)"
  by pat_completeness auto

termination
proof (relation "measure (\<lambda>(data, around, pages, vaddr, file_off, filesz, copied, m). filesz - copied)", goal_cases)
  case 1
  then show ?case by simp
next
  case (2 data around pages vaddr file_off filesz copied m c b o' f ch)
  have "unat o' < 4096" using 2 unat_page_off_less by simp
  then show ?case using 2 by simp
qed

declare copy_chunks.simps [simp del]

definition load_fresh_segment :: "u8 list \<Rightarrow> around \<Rightarrow> elf64_phdr \<Rightarrow> mapping_request list \<Rightarrow> machine \<Rightarrow>
    ((elf_error + mapping_request list) \<times> machine) outcome" where
  "load_fresh_segment data around ph pages s =
     (let file_off = p_offset ph; filesz = p_filesz ph; memsz = p_memsz ph; vaddr = p_vaddr ph;
          seg_writable = (p_flags ph AND 0x2 \<noteq> 0); seg_executable = (p_flags ph AND 0x1 \<noteq> 0)
      in if file_off + filesz > data_len data then Ret (Inl SegmentOutOfBounds, s)
      else let seg_start = page_base vaddr;
               seg_end = page_base (vaddr + memsz + PAGE_SIZE - 1)
      in case fresh_pages seg_writable seg_executable (page_range seg_start seg_end) pages s of
           (None, s1) \<Rightarrow> Ret (Inl SegmentOutOfBounds, s1)
         | (Some pages1, s1) \<Rightarrow>
             bind_outcome (copy_chunks data around pages1 vaddr file_off (unat filesz) 0 (m_mem s1))
               (\<lambda>m. Ret (Inr pages1, s1\<lparr>m_mem := m\<rparr>)))"

fun load_fresh_segments :: "u8 list \<Rightarrow> around \<Rightarrow> u64 \<Rightarrow> u64 \<Rightarrow> nat list \<Rightarrow> mapping_request list \<Rightarrow> machine \<Rightarrow>
    ((elf_error + mapping_request list) \<times> machine) outcome" where
  "load_fresh_segments data around phoff phentsz [] pages s = Ret (Inr pages, s)"
| "load_fresh_segments data around phoff phentsz (i # is) pages s =
     (let ph_off = phoff + of_nat i * phentsz
      in if ph_off + phentsz > data_len data then Ret (Inl SegmentOutOfBounds, s)
      else let ph = read_phdr data around ph_off
      in if p_type ph \<noteq> 1 then load_fresh_segments data around phoff phentsz is pages s
      else bind_outcome (load_fresh_segment data around ph pages s) (\<lambda>r.
             case r of
               (Inl e, s1) \<Rightarrow> Ret (Inl e, s1)
             | (Inr pages1, s1) \<Rightarrow> load_fresh_segments data around phoff phentsz is pages1 s1))"

definition load_fresh :: "u8 list \<Rightarrow> around \<Rightarrow> machine \<Rightarrow>
    ((elf_error + (u64 \<times> mapping_request list)) \<times> machine) outcome" where
  "load_fresh data around s =
     (case check_header data around of
        Inl e \<Rightarrow> Ret (Inl e, s)
      | Inr hdr \<Rightarrow>
          bind_outcome (load_fresh_segments data around (h_phoff hdr) (ucast (h_phentsize hdr))
              [0..<unat (h_phnum hdr)] [] s) (\<lambda>r.
            case r of
              (Inl e, s1) \<Rightarrow> Ret (Inl e, s1)
            | (Inr pages, s1) \<Rightarrow> Ret (Inr (h_entry hdr, pages), s1)))"

section \<open>The memory behind a list of pages\<close>

text \<open>
  \<open>view pages m a\<close> is the byte that virtual address \<open>a\<close> denotes when the pages are mapped, and 0
  where there is none. \<open>pages_ok\<close>: no page twice, no frame twice, all page aligned.
\<close>

definition page_frames :: "mapping_request list \<Rightarrow> u64 set" where
  "page_frames pages = (\<lambda>(_, f, _). f) ` set pages"

definition page_addrs :: "mapping_request list \<Rightarrow> u64 set" where
  "page_addrs pages = fst ` set pages"

definition view :: "mapping_request list \<Rightarrow> memory \<Rightarrow> u64 \<Rightarrow> u8" where
  "view pages m a = (case page_frame pages (page_base a) of None \<Rightarrow> 0 | Some f \<Rightarrow> m (f + page_off a))"

definition pages_ok :: "mapping_request list \<Rightarrow> bool" where
  "pages_ok pages \<longleftrightarrow> distinct (map fst pages) \<and> distinct (map (\<lambda>(_, f, _). f) pages) \<and>
     (\<forall>(v, f, _) \<in> set pages. page_aligned v \<and> page_aligned f)"

definition holds_image :: "u64 set \<Rightarrow> machine \<Rightarrow> mapping_request list \<Rightarrow> (u64 \<Rightarrow> u8) \<Rightarrow> bool" where
  "holds_image G s pages img \<longleftrightarrow> owns s (G \<union> page_frames pages) \<and> G \<inter> page_frames pages = {} \<and>
     pages_ok pages \<and> view pages (m_mem s) = img"

lemma has_page_iff: "has_page pages v \<longleftrightarrow> v \<in> page_addrs pages"
  by (force simp: has_page_def page_addrs_def list_ex_iff)

lemma page_frame_None: "page_frame pages v = None \<longleftrightarrow> v \<notin> page_addrs pages"
  by (force simp: page_frame_def page_addrs_def find_None_iff)

lemma page_frame_Some:
  assumes "page_frame pages v = Some f"
  shows "\<exists>w x. (v, f, w, x) \<in> set pages" and "f \<in> page_frames pages" and "v \<in> page_addrs pages"
  using assms by (force simp: page_frame_def page_frames_def page_addrs_def find_Some_iff dest: nth_mem)+

lemma page_frame_inj:
  assumes "pages_ok pages" "page_frame pages v = Some f" "page_frame pages u = Some f"
  shows "u = v"
proof -
  obtain w x w' x' where "(v, f, w, x) \<in> set pages" "(u, f, w', x') \<in> set pages"
    using page_frame_Some(1) assms(2,3) by meson
  moreover have "inj_on (\<lambda>(_, f, _). f) (set pages)"
    using assms(1) by (simp add: pages_ok_def distinct_map)
  ultimately have "(u, f, w', x') = (v, f, w, x)"
    using inj_onD [of "\<lambda>(_, f, _). f" "set pages" "(u, f, w', x')" "(v, f, w, x)"] by simp
  then show ?thesis by simp
qed

lemma page_frame_append:
  "page_frame (pages @ [(v, f, w, x)]) u =
     (case page_frame pages u of Some g \<Rightarrow> Some g | None \<Rightarrow> if u = v then Some f else None)"
  by (induction pages) (auto simp: page_frame_def)

lemma page_frames_append [simp]: "page_frames (ps @ qs) = page_frames ps \<union> page_frames qs"
  by (simp add: page_frames_def image_Un)

lemma page_addrs_append [simp]: "page_addrs (ps @ qs) = page_addrs ps \<union> page_addrs qs"
  by (simp add: page_addrs_def image_Un)

lemma in_page_offset:
  assumes "page_aligned f" and "unat d < 4096"
  shows "page_base (f + d) = f" and "page_off (f + d) = d"
proof -
  have "f + d - f < 4096" using assms(2) by (simp add: word_less_nat_alt)
  then show "page_base (f + d) = f" using in_page_iff [OF assms(1)] by blast
  then show "page_off (f + d) = d" using page_split [of "f + d"] by (metis add_left_cancel)
qed

lemma view_add_zero_page:
  assumes ok: "pages_ok pages" and v: "v \<notin> page_addrs pages" and f: "page_aligned f" "f \<notin> page_frames pages"
  shows "view (pages @ [(v, f, w, x)]) (zero_bytes m f 4096) = view pages m"
proof
  fix a
  show "view (pages @ [(v, f, w, x)]) (zero_bytes m f 4096) a = view pages m a"
  proof (cases "page_frame pages (page_base a)")
    case None
    have "page_base (f + page_off a) = f"
      by (rule in_page_offset [OF f(1)]) (simp add: unat_page_off)
    then show ?thesis using None by (simp add: view_def page_frame_append zero_bytes_page [OF f(1)])
  next
    case (Some g)
    have "page_aligned g" using ok page_frame_Some(1) [OF Some] by (auto simp: pages_ok_def)
    then have "page_base (g + page_off a) = g"
      by (rule in_page_offset) (simp add: unat_page_off)
    moreover have "g \<noteq> f" using page_frame_Some(2) [OF Some] f(2) by auto
    ultimately show ?thesis using Some by (simp add: view_def page_frame_append zero_bytes_page [OF f(1)])
  qed
qed

text \<open>A write inside one frame changes the view at the corresponding addresses only.\<close>

lemma view_write:
  fixes base off f :: u64
  assumes ok: "pages_ok pages" and f: "page_frame pages base = Some f"
    and len: "unat off + length bs \<le> 4096"
  shows "view pages (write_bytes m (f + off) bs) a =
    (if unat (a - (base + off)) < length bs then bs ! unat (a - (base + off)) else view pages m a)"
proof -
  have fa: "page_aligned f" and ba: "page_aligned base"
    using ok page_frame_Some(1) [OF f] by (auto simp: pages_ok_def)
  have reach: "page_base x = g" if g: "page_aligned g" and lt: "unat (x - (g + off)) < length bs" for x g
  proof -
    have "unat off + unat (x - (g + off)) < 2 ^ LENGTH(64)" using lt len by simp
    then have "unat (off + (x - (g + off))) < 4096"
      using lt len by (simp only: unat_add_no_wrap)
    then have "page_base (g + (off + (x - (g + off)))) = g" by (rule in_page_offset [OF g])
    then show ?thesis by (simp add: algebra_simps)
  qed
  show ?thesis
  proof (cases "page_base a = base")
    case True
    then have "a = base + page_off a" using page_split [of a] by simp
    then have eq: "a - (base + off) = page_off a - off" by (metis add_diff_cancel_left)
    have "f + page_off a - (f + off) = page_off a - off" by simp
    then show ?thesis unfolding eq view_def True f option.case write_bytes_def by simp
  next
    case False
    then have na: "\<not> unat (a - (base + off)) < length bs" using reach [OF ba] by blast
    have "view pages (write_bytes m (f + off) bs) a = view pages m a"
    proof (cases "page_frame pages (page_base a)")
      case None
      then show ?thesis by (simp add: view_def)
    next
      case (Some g)
      then have "g \<noteq> f" using page_frame_inj [OF ok f] False by auto
      moreover have "page_aligned g" using ok page_frame_Some(1) [OF Some] by (auto simp: pages_ok_def)
      then have "page_base (g + page_off a) = g"
        by (rule in_page_offset) (simp add: unat_page_off)
      ultimately have "\<not> unat (g + page_off a - (f + off)) < length bs"
        using reach [OF fa] by metis
      then show ?thesis using Some by (simp add: view_def write_bytes_def)
    qed
    then show ?thesis using na by simp
  qed
qed

lemma write_inside:
  fixes off f :: u64
  assumes "page_aligned f" "unat off + length bs \<le> 4096" "page_base x \<noteq> f"
  shows "write_bytes m (f + off) bs x = m x"
proof (rule ccontr)
  assume "write_bytes m (f + off) bs x \<noteq> m x"
  then have lt: "unat (x - (f + off)) < length bs" by (auto simp: write_bytes_def split: if_splits)
  have "unat off + unat (x - (f + off)) < 2 ^ LENGTH(64)" using lt assms(2) by simp
  then have "unat (off + (x - (f + off))) < 4096"
    using lt assms(2) by (simp only: unat_add_no_wrap)
  then have "page_base (f + (off + (x - (f + off)))) = f" by (rule in_page_offset [OF assms(1)])
  then show False using assms(3) by (simp add: algebra_simps)
qed

section \<open>Fresh pages\<close>

lemma holds_image_owned:
  assumes "holds_image G s pages img"
  shows "owns s (G \<union> page_frames pages)" "G \<inter> page_frames pages = {}" "pages_ok pages"
    "view pages (m_mem s) = img"
  using assms by (auto simp: holds_image_def)

lemma fresh_pages_spec:
  assumes "holds_image G s pages img" and "\<forall>v \<in> set vs. page_aligned v" and "length vs \<le> avail s"
  shows "\<exists>new s'. fresh_pages w x vs pages s = (Some (pages @ new), s') \<and>
    holds_image G s' (pages @ new) img \<and> page_addrs (pages @ new) = page_addrs pages \<union> set vs \<and>
    (\<forall>(v, f, w', x') \<in> set new. v \<in> set vs \<and> w' = w \<and> x' = x) \<and>
    length new \<le> length vs \<and> took (length vs) s s' \<and>
    (\<forall>y. page_base y \<notin> page_frames (pages @ new) \<longrightarrow> m_mem s' y = m_mem s y)"
  using assms
proof (induction vs arbitrary: pages s)
  case Nil
  then show ?case by (intro exI [of _ "[]"] exI [of _ s]) simp
next
  case (Cons v vs)
  note h = holds_image_owned [OF Cons.prems(1)]
  show ?case
  proof (cases "has_page pages v")
    case True
    have "length vs \<le> avail s" using Cons.prems(3) by simp
    from Cons.IH [OF Cons.prems(1) _ this] Cons.prems(2)
    obtain new s' where "fresh_pages w x vs pages s = (Some (pages @ new), s')"
      "holds_image G s' (pages @ new) img" "page_addrs (pages @ new) = page_addrs pages \<union> set vs"
      "\<forall>(v, f, w', x') \<in> set new. v \<in> set vs \<and> w' = w \<and> x' = x"
      "length new \<le> length vs" "took (length vs) s s'"
      "\<forall>y. page_base y \<notin> page_frames (pages @ new) \<longrightarrow> m_mem s' y = m_mem s y"
      by auto
    then show ?thesis using True took_mono [of "length vs" s s' "length (v # vs)"]
      by (intro exI [of _ new] exI [of _ s']) (auto simp: has_page_iff)
  next
    case False
    obtain f s1 where al: "alloc_frame s = (Some f, s1)"
      using alloc_frame_owns(6) [OF h(1)] Cons.prems(3)
      by (cases "alloc_frame s"; cases "fst (alloc_frame s)") auto
    note a = alloc_frame_owns [OF h(1) al]
    have own1: "owns s1 (insert f (G \<union> page_frames pages))" and fresh: "f \<notin> G \<union> page_frames pages"
      and mem: "m_mem s1 = m_mem s"
      using a by auto
    have fa: "page_aligned f" using owns_aligned [OF own1] by simp
    have va: "page_aligned v" using Cons.prems(2) by simp
    let ?s = "s1\<lparr>m_mem := zero_bytes (m_mem s1) f 4096\<rparr>"
    let ?p = "pages @ [(v, f, w, x)]"
    have own': "owns ?s (insert f (G \<union> page_frames pages))"
    proof (rule owns_mem_update [OF own1])
      show "zero_bytes (m_mem s1) f 4096 y = m_mem s1 y"
        if "page_base y \<notin> insert f (G \<union> page_frames pages)" for y
        using that by (simp add: zero_bytes_page [OF fa])
    qed
    have "pages_ok ?p"
      using h(3) fa va False fresh
      by (auto simp: pages_ok_def has_page_iff page_addrs_def page_frames_def)
    moreover have "view ?p (m_mem ?s) = img"
      using view_add_zero_page [OF h(3) _ fa] False fresh h(4) by (simp add: has_page_iff mem)
    ultimately have hi: "holds_image G ?s ?p img"
      using own' h(2) fresh by (auto simp: holds_image_def page_frames_def)
    have "avail s = Suc (avail ?s)" using a(7) by (simp add: avail_def)
    then have av: "length vs \<le> avail ?s" "avail s = Suc (avail ?s)" using Cons.prems(3) by simp_all
    from Cons.IH [OF hi _ av(1)] Cons.prems(2)
    obtain new s' where n: "fresh_pages w x vs ?p ?s = (Some (?p @ new), s')"
      "holds_image G s' (?p @ new) img" "page_addrs (?p @ new) = page_addrs ?p \<union> set vs"
      "\<forall>(v, f, w', x') \<in> set new. v \<in> set vs \<and> w' = w \<and> x' = x"
      "length new \<le> length vs" "took (length vs) ?s s'"
      "\<forall>y. page_base y \<notin> page_frames (?p @ new) \<longrightarrow> m_mem s' y = m_mem ?s y"
      by auto
    have "\<forall>y. page_base y \<notin> page_frames (?p @ new) \<longrightarrow> m_mem s' y = m_mem s y"
      using n(7) by (auto simp: mem zero_bytes_page [OF fa] page_frames_def)
    moreover have "took (length (v # vs)) s s'"
      using took_trans [OF took_alloc [OF h(1) al], of "length vs" s'] n(6) by simp
    ultimately show ?thesis using n(1-5) False al
      by (intro exI [of _ "(v, f, w, x) # new"] exI [of _ s']) (auto simp: page_addrs_def)
  qed
qed

section \<open>The copy loop\<close>

text \<open>A chunk that starts at offset \<open>copied\<close> covers the offsets from there on.\<close>

lemma chunk_range:
  fixes a vaddr :: u64
  assumes "copied + chunk \<le> filesz" and "filesz < 2 ^ 64"
  shows "(if unat (a - (vaddr + of_nat copied)) < chunk
          then bytes_at data around (file_off + of_nat copied) chunk ! unat (a - (vaddr + of_nat copied)) else z) =
    (if copied \<le> unat (a - vaddr) \<and> unat (a - vaddr) < copied + chunk
     then byte_at data around (file_off + (a - vaddr)) else z)"
proof -
  let ?d = "a - (vaddr + of_nat copied)"
  have small: "unat (of_nat copied :: u64) = copied" by (rule unat_u64_of_nat) (use assms in simp)
  have sum: "a - vaddr = ?d + of_nat copied" by simp
  show ?thesis
  proof (cases "unat ?d < chunk")
    case True
    have "unat ?d + unat (of_nat copied :: u64) < 2 ^ LENGTH(64)" using True assms small by simp
    then have u: "unat (a - vaddr) = unat ?d + copied"
      unfolding sum by (simp only: unat_add_no_wrap small)
    have "file_off + of_nat copied + of_nat (unat ?d) = file_off + (a - vaddr)"
      unfolding sum by simp
    then show ?thesis using True u by (simp add: bytes_at_def)
  next
    case False
    have "\<not> (copied \<le> unat (a - vaddr) \<and> unat (a - vaddr) < copied + chunk)"
    proof
      assume c: "copied \<le> unat (a - vaddr) \<and> unat (a - vaddr) < copied + chunk"
      have "?d = (a - vaddr) - of_nat copied" by (simp add: algebra_simps)
      also have "unat \<dots> = unat (a - vaddr) - unat (of_nat copied :: u64)"
        by (rule unat_sub_le) (use c small in \<open>simp add: word_le_nat_alt\<close>)
      finally have "unat ?d = unat (a - vaddr) - copied" using small by simp
      then show False using False c by linarith
    qed
    then show ?thesis using False by (simp only: if_False)
  qed
qed

lemma copy_chunks_spec:
  assumes "pages_ok pages" and "filesz < 2 ^ 64"
    and "\<forall>k. copied \<le> k \<and> k < filesz \<longrightarrow> page_base (vaddr + of_nat k) \<in> page_addrs pages"
  shows "\<exists>m'. copy_chunks data around pages vaddr file_off filesz copied m = Ret m' \<and>
    (\<forall>a. view pages m' a =
       (if copied \<le> unat (a - vaddr) \<and> unat (a - vaddr) < filesz
        then byte_at data around (file_off + (a - vaddr)) else view pages m a)) \<and>
    (\<forall>y. page_base y \<notin> page_frames pages \<longrightarrow> m' y = m y)"
  using assms
proof (induction data around pages vaddr file_off filesz copied m rule: copy_chunks.induct)
  case (1 data around pages vaddr file_off filesz copied m)
  show ?case
  proof (cases "copied < filesz")
    case False
    then show ?thesis by (subst copy_chunks.simps) auto
  next
    case True
    let ?cur = "vaddr + of_nat copied"
    let ?base = "page_base ?cur"
    let ?off = "?cur - ?base"
    let ?chunk = "min (filesz - copied) (4096 - unat ?off)"
    obtain f where f: "page_frame pages ?base = Some f"
      using "1.prems"(3) True page_frame_None by (metis not_Some_eq order_refl)
    let ?bs = "bytes_at data around (file_off + of_nat copied) ?chunk"
    let ?m = "copy_bytes data around (file_off + of_nat copied) (f + ?off) ?chunk m"
    have len: "length ?bs = ?chunk" by (simp add: bytes_at_def)
    have fit: "unat ?off + length ?bs \<le> 4096"
      unfolding len using unat_page_off_less [of ?cur] by linarith
    have step: "copy_chunks data around pages vaddr file_off filesz copied m =
        copy_chunks data around pages vaddr file_off filesz (copied + ?chunk) ?m"
      using True f by (subst copy_chunks.simps) (simp add: Let_def)
    have "\<forall>k. copied + ?chunk \<le> k \<and> k < filesz \<longrightarrow> page_base (vaddr + of_nat k) \<in> page_addrs pages"
      using "1.prems"(3) by auto
    from "1.IH" [OF True refl refl refl f refl "1.prems"(1,2) this]
    obtain m' where m': "copy_chunks data around pages vaddr file_off filesz (copied + ?chunk) ?m = Ret m'"
      "\<And>a. view pages m' a =
         (if copied + ?chunk \<le> unat (a - vaddr) \<and> unat (a - vaddr) < filesz
          then byte_at data around (file_off + (a - vaddr)) else view pages ?m a)"
      "\<And>y. page_base y \<notin> page_frames pages \<Longrightarrow> m' y = ?m y"
      by blast
    have vw: "view pages ?m a =
        (if copied \<le> unat (a - vaddr) \<and> unat (a - vaddr) < copied + ?chunk
         then byte_at data around (file_off + (a - vaddr)) else view pages m a)" for a
    proof -
      have "view pages ?m a =
          (if unat (a - (?base + ?off)) < ?chunk then ?bs ! unat (a - (?base + ?off)) else view pages m a)"
        unfolding copy_bytes_def using view_write [OF "1.prems"(1) f fit] unfolding len by blast
      also have "?base + ?off = ?cur" by simp
      also have "(if unat (a - ?cur) < ?chunk then ?bs ! unat (a - ?cur) else view pages m a) =
        (if copied \<le> unat (a - vaddr) \<and> unat (a - vaddr) < copied + ?chunk
         then byte_at data around (file_off + (a - vaddr)) else view pages m a)"
        by (rule chunk_range) (use "1.prems"(2) True in auto)
      finally show ?thesis .
    qed
    have "copied + ?chunk \<le> filesz" using True by simp
    then have "view pages m' a =
        (if copied \<le> unat (a - vaddr) \<and> unat (a - vaddr) < filesz
         then byte_at data around (file_off + (a - vaddr)) else view pages m a)" for a
      unfolding m'(2) vw by auto
    moreover have "m' y = m y" if "page_base y \<notin> page_frames pages" for y
    proof -
      have "page_aligned f" using "1.prems"(1) page_frame_Some(1) [OF f] by (auto simp: pages_ok_def)
      moreover have "page_base y \<noteq> f" using that page_frame_Some(2) [OF f] by auto
      ultimately show ?thesis
        using m'(3) [OF that] write_inside [OF _ fit] by (simp add: copy_bytes_def)
    qed
    ultimately show ?thesis using step m'(1) by auto
  qed
qed

section \<open>The image that the headers describe\<close>

definition loadable :: "elf64_phdr \<Rightarrow> bool" where
  "loadable ph \<longleftrightarrow> p_type ph = 1"

definition seg_pages :: "elf64_phdr \<Rightarrow> u64 list" where
  "seg_pages ph = page_range (page_base (p_vaddr ph)) (page_base (p_vaddr ph + p_memsz ph + PAGE_SIZE - 1))"

definition segment_image :: "u8 list \<Rightarrow> around \<Rightarrow> elf64_phdr \<Rightarrow> (u64 \<Rightarrow> u8) \<Rightarrow> u64 \<Rightarrow> u8" where
  "segment_image data around ph img a =
     (if unat (a - p_vaddr ph) < unat (p_filesz ph)
      then byte_at data around (p_offset ph + (a - p_vaddr ph)) else img a)"

definition elf_image :: "u8 list \<Rightarrow> around \<Rightarrow> elf64_phdr list \<Rightarrow> u64 \<Rightarrow> u8" where
  "elf_image data around phs = fold (segment_image data around) (filter loadable phs) (\<lambda>_. 0)"

text \<open>The segments a well-formed executable has: inside the file, no address wrap, no more file than memory.\<close>

definition segment_ok :: "u8 list \<Rightarrow> elf64_phdr \<Rightarrow> bool" where
  "segment_ok data ph \<longleftrightarrow> p_offset ph + p_filesz ph \<le> data_len data \<and> p_filesz ph \<le> p_memsz ph \<and>
     unat (p_vaddr ph) + unat (p_memsz ph) + 4095 < 2 ^ 64"

definition phdr_at :: "u8 list \<Rightarrow> around \<Rightarrow> u64 \<Rightarrow> u64 \<Rightarrow> nat \<Rightarrow> elf64_phdr" where
  "phdr_at data around phoff phentsz i = read_phdr data around (phoff + of_nat i * phentsz)"

definition headers_ok :: "u8 list \<Rightarrow> around \<Rightarrow> u64 \<Rightarrow> u64 \<Rightarrow> nat list \<Rightarrow> bool" where
  "headers_ok data around phoff phentsz is \<longleftrightarrow>
     (\<forall>i \<in> set is. phoff + of_nat i * phentsz + phentsz \<le> data_len data \<and>
        (loadable (phdr_at data around phoff phentsz i) \<longrightarrow>
           segment_ok data (phdr_at data around phoff phentsz i)))"

definition pages_needed :: "elf64_phdr list \<Rightarrow> nat" where
  "pages_needed phs = sum_list (map (\<lambda>ph. length (seg_pages ph)) (filter loadable phs))"

definition from_segment :: "elf64_phdr list \<Rightarrow> mapping_request \<Rightarrow> bool" where
  "from_segment phs = (\<lambda>(v, f, w, x). \<exists>ph \<in> set phs. loadable ph \<and> v \<in> set (seg_pages ph) \<and>
     w = (p_flags ph AND 2 \<noteq> 0) \<and> x = (p_flags ph AND 1 \<noteq> 0))"

lemma page_range_mem:
  assumes "page_aligned a" "page_aligned e" "page_aligned v" "a \<le> v" "v < e"
  shows "v \<in> set (page_range a e)"
proof -
  obtain p where p: "unat a = 4096 * p" using assms(1) by (auto simp: page_aligned_dvd)
  obtain q where q: "unat e = 4096 * q" using assms(2) by (auto simp: page_aligned_dvd)
  obtain r where r: "unat v = 4096 * r" using assms(3) by (auto simp: page_aligned_dvd)
  have pr: "p \<le> r" "r < q" using assms(4,5) p q r by (auto simp: word_le_nat_alt word_less_nat_alt)
  have "a < e" using assms(4,5) by simp
  moreover have "(unat e - unat a) div 4096 = q - p"
    unfolding p q diff_mult_distrib2 [symmetric] by simp
  moreover have "a + of_nat (4096 * (r - p)) = v"
  proof -
    have "of_nat (4096 * (r - p)) = v - a"
    proof -
      have "unat (v - a) = 4096 * (r - p)"
        using assms(4) p r by (simp add: unat_sub_le diff_mult_distrib2)
      then show ?thesis by (metis of_nat_unat ucast_id)
    qed
    then show ?thesis by simp
  qed
  ultimately show ?thesis
    unfolding page_range_def step_range_def using pr by (auto simp: image_iff intro!: bexI [of _ "r - p"])
qed

lemma page_range_aligned:
  assumes "page_aligned a" "v \<in> set (page_range a e)"
  shows "page_aligned v"
proof -
  obtain i where v: "v = a + of_nat (4096 * i)"
    using assms(2) by (auto simp: page_range_def step_range_def split: if_splits)
  have "page_aligned (of_nat (4096 * i))"
    unfolding page_aligned_dvd unat_of_nat by (rule dvd_mod) simp_all
  then show ?thesis unfolding v by (rule page_aligned_add [OF assms(1)])
qed

lemma seg_pages_cover:
  assumes ok: "segment_ok data ph" and k: "k < unat (p_filesz ph)"
  shows "page_base (p_vaddr ph + of_nat k) \<in> set (seg_pages ph)"
proof -
  let ?v = "p_vaddr ph" and ?n = "p_memsz ph"
  have sz: "unat ?v + unat ?n + 4095 < 18446744073709551616" "unat (p_filesz ph) \<le> unat ?n"
    using ok by (simp_all add: segment_ok_def word_le_nat_alt)
  have uk: "unat (of_nat k :: u64) = k" by (rule unat_u64_of_nat) (use k sz in linarith)
  have x: "unat (?v + of_nat k) = unat ?v + k"
    using unat_add_no_wrap [of ?v "of_nat k"] uk k sz by simp
  have s: "unat (?v + ?n) = unat ?v + unat ?n"
    using unat_add_no_wrap [of ?v ?n] sz by simp
  have e: "unat (?v + ?n + PAGE_SIZE - 1) = unat ?v + unat ?n + 4095"
  proof -
    have eq: "?v + ?n + PAGE_SIZE - 1 = (?v + ?n) + 4095" by (simp add: PAGE_SIZE_def)
    show ?thesis unfolding eq using unat_add_no_wrap [of "?v + ?n" 4095] s sz by simp
  qed
  have "page_base ?v \<le> page_base (?v + of_nat k)"
    unfolding word_le_nat_alt unat_page_base x by (intro mult_le_mono2 div_le_mono) simp
  moreover have "page_base (?v + of_nat k) < page_base (?v + ?n + PAGE_SIZE - 1)"
    unfolding word_less_nat_alt unat_page_base x e
  proof -
    have "unat ?v + k + 4096 \<le> unat ?v + unat ?n + 4095" using k sz(2) by linarith
    then have "(unat ?v + k + 4096) div 4096 \<le> (unat ?v + unat ?n + 4095) div 4096" by (rule div_le_mono)
    then show "4096 * ((unat ?v + k) div 4096) < 4096 * ((unat ?v + unat ?n + 4095) div 4096)" by simp
  qed
  ultimately show ?thesis
    unfolding seg_pages_def by (intro page_range_mem) simp_all
qed

lemma holds_image_mem:
  assumes "holds_image G s pages img" and "view pages m = img'"
    and "\<And>y. page_base y \<notin> page_frames pages \<Longrightarrow> m y = m_mem s y"
  shows "holds_image G (s\<lparr>m_mem := m\<rparr>) pages img'"
  using assms owns_mem_update [of s "G \<union> page_frames pages" m] by (simp add: holds_image_def)

lemma load_fresh_segment_spec:
  assumes h: "holds_image G s pages img" and ok: "segment_ok data ph" and ld: "loadable ph"
    and av: "length (seg_pages ph) \<le> avail s"
  shows "\<exists>pages' s'. load_fresh_segment data around ph pages s = Ret (Inr pages', s') \<and>
    holds_image G s' pages' (segment_image data around ph img) \<and>
    page_addrs pages' = page_addrs pages \<union> set (seg_pages ph) \<and>
    set pages \<subseteq> set pages' \<and> (\<forall>r \<in> set pages'. r \<in> set pages \<or> from_segment [ph] r) \<and>
    length pages' \<le> length pages + length (seg_pages ph) \<and> took (length (seg_pages ph)) s s' \<and>
    (\<forall>y. page_base y \<notin> page_frames pages' \<longrightarrow> m_mem s' y = m_mem s y)"
proof -
  let ?w = "p_flags ph AND 2 \<noteq> 0" and ?x = "p_flags ph AND 1 \<noteq> 0"
  have "\<forall>v \<in> set (seg_pages ph). page_aligned v"
    unfolding seg_pages_def using page_range_aligned page_aligned_page_base by blast
  from fresh_pages_spec [OF h this av, of ?w ?x]
  obtain new s1 where n: "fresh_pages ?w ?x (seg_pages ph) pages s = (Some (pages @ new), s1)"
    "holds_image G s1 (pages @ new) img" "page_addrs (pages @ new) = page_addrs pages \<union> set (seg_pages ph)"
    "\<forall>(v, f, w', x') \<in> set new. v \<in> set (seg_pages ph) \<and> w' = ?w \<and> x' = ?x"
    "length new \<le> length (seg_pages ph)" "took (length (seg_pages ph)) s s1"
    "\<forall>y. page_base y \<notin> page_frames (pages @ new) \<longrightarrow> m_mem s1 y = m_mem s y"
    by blast
  let ?p = "pages @ new"
  have pok: "pages_ok ?p" and vw: "view ?p (m_mem s1) = img"
    using n(2) by (auto simp: holds_image_def)
  have "unat (p_filesz ph) < 2 ^ 64" using unat_u64_less [of "p_filesz ph"] by simp
  moreover have "\<forall>k. 0 \<le> k \<and> k < unat (p_filesz ph) \<longrightarrow> page_base (p_vaddr ph + of_nat k) \<in> page_addrs ?p"
    using seg_pages_cover [OF ok] n(3) by auto
  ultimately obtain m' where m': "copy_chunks data around ?p (p_vaddr ph) (p_offset ph) (unat (p_filesz ph)) 0 (m_mem s1) = Ret m'"
    "\<And>a. view ?p m' a = (if unat (a - p_vaddr ph) < unat (p_filesz ph)
        then byte_at data around (p_offset ph + (a - p_vaddr ph)) else view ?p (m_mem s1) a)"
    "\<And>y. page_base y \<notin> page_frames ?p \<Longrightarrow> m' y = m_mem s1 y"
    using copy_chunks_spec [OF pok, of "unat (p_filesz ph)" 0 "p_vaddr ph" data around "p_offset ph" "m_mem s1"]
    by auto
  have "view ?p m' = segment_image data around ph img"
    using m'(2) vw by (auto simp: fun_eq_iff segment_image_def)
  then have hi: "holds_image G (s1\<lparr>m_mem := m'\<rparr>) ?p (segment_image data around ph img)"
    by (rule holds_image_mem [OF n(2)]) (rule m'(3))
  have "\<not> p_offset ph + p_filesz ph > data_len data"
    using ok by (simp add: segment_ok_def not_less)
  then have "load_fresh_segment data around ph pages s = Ret (Inr ?p, s1\<lparr>m_mem := m'\<rparr>)"
    using n(1) m'(1) by (simp add: load_fresh_segment_def Let_def seg_pages_def)
  moreover have "\<forall>r \<in> set ?p. r \<in> set pages \<or> from_segment [ph] r"
    using n(4) ld by (auto simp: from_segment_def)
  ultimately show ?thesis
    using hi n(3,5,6,7) m'(3) by (intro exI [of _ ?p] exI [of _ "s1\<lparr>m_mem := m'\<rparr>"]) auto
qed

lemma load_fresh_segments_spec:
  assumes "holds_image G s pages img" and "headers_ok data around phoff phentsz is"
    and "pages_needed (map (phdr_at data around phoff phentsz) is) \<le> avail s"
  shows "\<exists>pages' s'. load_fresh_segments data around phoff phentsz is pages s = Ret (Inr pages', s') \<and>
    holds_image G s' pages' (fold (segment_image data around)
      (filter loadable (map (phdr_at data around phoff phentsz) is)) img) \<and>
    page_addrs pages' = page_addrs pages \<union>
      \<Union> (set ` seg_pages ` set (filter loadable (map (phdr_at data around phoff phentsz) is))) \<and>
    set pages \<subseteq> set pages' \<and> (\<forall>r \<in> set pages'. r \<in> set pages \<or> from_segment (map (phdr_at data around phoff phentsz) is) r) \<and>
    length pages' \<le> length pages + pages_needed (map (phdr_at data around phoff phentsz) is) \<and>
    took (pages_needed (map (phdr_at data around phoff phentsz) is)) s s' \<and>
    (\<forall>y. page_base y \<notin> page_frames pages' \<longrightarrow> m_mem s' y = m_mem s y)"
  using assms
proof (induction "is" arbitrary: pages s img)
  case Nil
  then show ?case by (intro exI [of _ pages] exI [of _ s]) (simp add: pages_needed_def)
next
  case (Cons i "is")
  let ?ph = "phdr_at data around phoff phentsz i"
  have rd: "read_phdr data around (phoff + of_nat i * phentsz) = ?ph" by (simp add: phdr_at_def)
  have inb: "\<not> phoff + of_nat i * phentsz + phentsz > data_len data"
    and hs: "headers_ok data around phoff phentsz is"
    using Cons.prems(2) by (auto simp: headers_ok_def)
  show ?case
  proof (cases "loadable ?ph")
    case False
    then have "pages_needed (map (phdr_at data around phoff phentsz) is) \<le> avail s"
      using Cons.prems(3) by (simp add: pages_needed_def)
    from Cons.IH [OF Cons.prems(1) hs this] show ?thesis
      using False inb rd by (auto simp: loadable_def from_segment_def pages_needed_def)
  next
    case True
    have ok: "segment_ok data ?ph" using Cons.prems(2) True by (simp add: headers_ok_def)
    have "length (seg_pages ?ph) \<le> avail s" using Cons.prems(3) True by (simp add: pages_needed_def)
    from load_fresh_segment_spec [OF Cons.prems(1) ok True this, of around]
    obtain p1 s1 where 1: "load_fresh_segment data around ?ph pages s = Ret (Inr p1, s1)"
      "holds_image G s1 p1 (segment_image data around ?ph img)"
      "page_addrs p1 = page_addrs pages \<union> set (seg_pages ?ph)"
      "set pages \<subseteq> set p1" "\<forall>r \<in> set p1. r \<in> set pages \<or> from_segment [?ph] r"
      "length p1 \<le> length pages + length (seg_pages ?ph)" "took (length (seg_pages ?ph)) s s1"
      "\<forall>y. page_base y \<notin> page_frames p1 \<longrightarrow> m_mem s1 y = m_mem s y"
      by blast
    have "pages_needed (map (phdr_at data around phoff phentsz) is) \<le> avail s1"
      using 1(7) Cons.prems(3) True by (simp add: pages_needed_def took_def)
    from Cons.IH [OF 1(2) hs this]
    obtain p2 s2 where 2: "load_fresh_segments data around phoff phentsz is p1 s1 = Ret (Inr p2, s2)"
      "holds_image G s2 p2 (fold (segment_image data around)
        (filter loadable (map (phdr_at data around phoff phentsz) is)) (segment_image data around ?ph img))"
      "page_addrs p2 = page_addrs p1 \<union>
        \<Union> (set ` seg_pages ` set (filter loadable (map (phdr_at data around phoff phentsz) is)))"
      "set p1 \<subseteq> set p2" "\<forall>r \<in> set p2. r \<in> set p1 \<or> from_segment (map (phdr_at data around phoff phentsz) is) r"
      "length p2 \<le> length p1 + pages_needed (map (phdr_at data around phoff phentsz) is)"
      "took (pages_needed (map (phdr_at data around phoff phentsz) is)) s1 s2"
      "\<forall>y. page_base y \<notin> page_frames p2 \<longrightarrow> m_mem s2 y = m_mem s1 y"
      by blast
    have "load_fresh_segments data around phoff phentsz (i # is) pages s = Ret (Inr p2, s2)"
      using inb rd True 1(1) 2(1) by (simp add: loadable_def)
    moreover have "\<forall>r \<in> set p2. r \<in> set pages \<or> from_segment (map (phdr_at data around phoff phentsz) (i # is)) r"
      using 1(5) 2(5) by (fastforce simp: from_segment_def)
    moreover have "m_mem s2 y = m_mem s y" if "page_base y \<notin> page_frames p2" for y
    proof -
      have "page_frames p1 \<subseteq> page_frames p2" unfolding page_frames_def by (rule image_mono [OF 2(4)])
      then show ?thesis using that 1(8) 2(8) by (metis subsetD)
    qed
    moreover have "took (pages_needed (map (phdr_at data around phoff phentsz) (i # is))) s s2"
      using took_trans [OF 1(7) 2(7)] True by (simp add: pages_needed_def)
    moreover have "length p2 \<le> length pages + pages_needed (map (phdr_at data around phoff phentsz) (i # is))"
      using 1(6) 2(6) True by (simp add: pages_needed_def)
    ultimately show ?thesis
      using 1(3,4) 2(2,3,4) True by (intro exI [of _ p2] exI [of _ s2]) auto
  qed
qed

section \<open>Properties\<close>

lemma holds_image_empty: "owns s G \<Longrightarrow> holds_image G s [] (\<lambda>_. 0)"
  by (simp add: holds_image_def page_frames_def pages_ok_def view_def page_frame_def fun_eq_iff)

lemma load_fresh_spec:
  assumes "owns s G" and "check_header data around = Inr hdr"
    and "headers_ok data around (h_phoff hdr) (ucast (h_phentsize hdr)) [0..<unat (h_phnum hdr)]"
  defines "phs \<equiv> map (phdr_at data around (h_phoff hdr) (ucast (h_phentsize hdr))) [0..<unat (h_phnum hdr)]"
  assumes "pages_needed phs \<le> avail s"
  shows "\<exists>pages s'. load_fresh data around s = Ret (Inr (h_entry hdr, pages), s') \<and>
    pages_ok pages \<and> page_addrs pages = \<Union> (set ` seg_pages ` set (filter loadable phs)) \<and>
    owns s' (G \<union> page_frames pages) \<and> G \<inter> page_frames pages = {} \<and>
    (\<forall>r \<in> set pages. from_segment phs r) \<and> view pages (m_mem s') = elf_image data around phs \<and>
    length pages \<le> pages_needed phs \<and> took (pages_needed phs) s s' \<and>
    (\<forall>y. page_base y \<notin> page_frames pages \<longrightarrow> m_mem s' y = m_mem s y)"
proof -
  from load_fresh_segments_spec [OF holds_image_empty [OF assms(1)] assms(3)] assms(5)
  obtain pages s' where l: "load_fresh_segments data around (h_phoff hdr) (ucast (h_phentsize hdr))
      [0..<unat (h_phnum hdr)] [] s = Ret (Inr pages, s')"
    and h: "holds_image G s' pages (elf_image data around phs)"
    and a: "page_addrs pages = \<Union> (set ` seg_pages ` set (filter loadable phs))"
    and f: "\<forall>r \<in> set pages. from_segment phs r"
    and n: "length pages \<le> pages_needed phs" "took (pages_needed phs) s s'"
    and m: "\<forall>y. page_base y \<notin> page_frames pages \<longrightarrow> m_mem s' y = m_mem s y"
    unfolding phs_def elf_image_def by (auto simp: page_addrs_def)
  have "load_fresh data around s = Ret (Inr (h_entry hdr, pages), s')"
    using assms(2) l by (simp add: load_fresh_def)
  then show ?thesis using h a f m n by (auto simp: holds_image_def)
qed

text \<open>
  C6. Loading into fresh frames is correct. For a well-formed executable and enough free frames,
  \<open>load_fresh\<close> returns the entry point and one page per page that a loadable segment touches; no page
  and no frame occurs twice, the frames belonged to nobody and are now owned, every page carries the
  write and execute bits of a segment that contains it, every byte of the resulting address
  range is the byte that the program headers describe (file contents, zero beyond), and no
  other memory changed.
\<close>

theorem load_fresh_image:
  assumes "owns s G" and "check_header data around = Inr hdr"
    and "headers_ok data around (h_phoff hdr) (ucast (h_phentsize hdr)) [0..<unat (h_phnum hdr)]"
  defines "phs \<equiv> map (phdr_at data around (h_phoff hdr) (ucast (h_phentsize hdr))) [0..<unat (h_phnum hdr)]"
  assumes "pages_needed phs \<le> avail s"
  shows "\<exists>pages s'. load_fresh data around s = Ret (Inr (h_entry hdr, pages), s') \<and>
    pages_ok pages \<and> page_addrs pages = \<Union> (set ` seg_pages ` set (filter loadable phs)) \<and>
    owns s' (G \<union> page_frames pages) \<and> G \<inter> page_frames pages = {} \<and>
    (\<forall>r \<in> set pages. from_segment phs r) \<and> view pages (m_mem s') = elf_image data around phs \<and>
    (\<forall>y. page_base y \<notin> page_frames pages \<longrightarrow> m_mem s' y = m_mem s y)"
  using load_fresh_spec [OF assms(1-3)] assms(5) unfolding phs_def by blast

text \<open>
  A 128-byte executable with one loadable segment of 8 bytes at offset 120, placed across a
  page boundary with 16 bytes of memory.
\<close>

definition demo_elf :: "u8 list" where
  "demo_elf =
     [0x7F, 0x45, 0x4C, 0x46, 2, 1, 1, 0] @ replicate 8 0 @ [2, 0, 0x3E, 0, 1, 0, 0, 0] @
     le_bytes 8 (0x400FFC :: u64) @ le_bytes 8 (64 :: u64) @ replicate 14 0 @ [56, 0, 1, 0] @ replicate 6 0 @
     [1, 0, 0, 0, 5, 0, 0, 0] @ le_bytes 8 (120 :: u64) @ le_bytes 8 (0x400FFC :: u64) @ replicate 8 0 @
     le_bytes 8 (8 :: u64) @ le_bytes 8 (16 :: u64) @ replicate 8 0 @ [1, 2, 3, 4, 5, 6, 7, 8]"

definition demo_hdr :: elf64_header where
  "demo_hdr = \<lparr>h_magic = [0x7F, 0x45, 0x4C, 0x46], h_class = 2, h_type = 2, h_machine = 0x3E,
     h_entry = 0x400FFC, h_phoff = 64, h_phentsize = 56, h_phnum = 1\<rparr>"

definition demo_phdr :: elf64_phdr where
  "demo_phdr = \<lparr>p_type = 1, p_flags = 5, p_offset = 120, p_vaddr = 0x400FFC, p_filesz = 8, p_memsz = 16\<rparr>"

lemma demo_elf_header: "check_header demo_elf (\<lambda>_. 0) = Inr demo_hdr"
  by code_simp

lemma demo_elf_phdr: "phdr_at demo_elf (\<lambda>_. 0) 64 56 0 = demo_phdr"
  by code_simp

lemma demo_seg_pages: "seg_pages demo_phdr = [0x400000, 0x401000]"
proof -
  have "page_base 0x400FFC = (0x400000 :: u64)" "page_base 0x40200B = (0x402000 :: u64)"
    by (simp_all add: page_base_def)
  then show ?thesis
    by (simp add: seg_pages_def demo_phdr_def PAGE_SIZE_def page_range_def step_range_def upt_rec)
qed

lemma demo_loadable: "loadable demo_phdr"
  by (simp add: demo_phdr_def loadable_def)

lemma demo_entry: "h_entry demo_hdr = 0x400FFC"
  by (simp add: demo_hdr_def)

lemma demo_needed: "pages_needed [demo_phdr] = 2"
  by (simp add: pages_needed_def demo_seg_pages demo_loadable)

lemma demo_headers_ok: "headers_ok demo_elf (\<lambda>_. 0) (h_phoff demo_hdr) (ucast (h_phentsize demo_hdr)) [0..<unat (h_phnum demo_hdr)]"
proof -
  have "data_len demo_elf = 128" by (simp add: data_len_def demo_elf_def)
  moreover have "[0..<unat (h_phnum demo_hdr)] = [0]" by (simp add: demo_hdr_def upt_rec)
  ultimately show ?thesis
    by (simp add: headers_ok_def demo_hdr_def demo_elf_phdr) (simp add: demo_phdr_def segment_ok_def)
qed

lemma demo_phs: "map (phdr_at demo_elf (\<lambda>_. 0) (h_phoff demo_hdr) (ucast (h_phentsize demo_hdr))) [0..<unat (h_phnum demo_hdr)]
    = [demo_phdr]"
  by (simp add: demo_hdr_def upt_rec demo_elf_phdr)

lemma load_fresh_image_witness:
  "\<exists>pages s'. load_fresh demo_elf (\<lambda>_. 0) demo_machine = Ret (Inr (0x400FFC, pages), s') \<and>
    pages_ok pages \<and> page_addrs pages = {0x400000, 0x401000} \<and>
    owns s' ({} \<union> page_frames pages) \<and> {} \<inter> page_frames pages = {} \<and>
    (\<forall>r \<in> set pages. from_segment [demo_phdr] r) \<and>
    view pages (m_mem s') = elf_image demo_elf (\<lambda>_. 0) [demo_phdr] \<and>
    (\<forall>y. page_base y \<notin> page_frames pages \<longrightarrow> m_mem s' y = m_mem demo_machine y)"
  using load_fresh_image [OF demo_owns demo_elf_header demo_headers_ok, unfolded demo_phs]
  by (simp add: demo_needed demo_avail demo_seg_pages demo_loadable demo_entry)

text \<open>
  The three entry points agree on what an executable is: whatever \<open>validate\<close> rejects, \<open>load\<close> and
  \<open>load_fresh\<close> reject with the same error and without touching memory or allocating a frame, and
  \<open>validate\<close> returns the entry point that the other two return.
\<close>

theorem elf_validation_agrees:
  "(case validate data around of
      Inl e \<Rightarrow> load data around m = (Inl e, m) \<and> load_fresh data around s = Ret (Inl e, s)
    | Inr entry \<Rightarrow>
        (\<forall>e' m'. load data around m = (Inr e', m') \<longrightarrow> e' = entry) \<and>
        (\<forall>e' ps s'. load_fresh data around s = Ret (Inr (e', ps), s') \<longrightarrow> e' = entry))"
proof (cases "check_header data around")
  case (Inl e)
  then show ?thesis by (simp add: validate_def load_def load_fresh_def)
next
  case (Inr hdr)
  then show ?thesis
    by (auto simp: validate_def load_def load_fresh_def split: sum.split_asm prod.split_asm)
qed

lemma elf_validation_agrees_witness:
  "validate demo_elf (\<lambda>_. 0) = Inr 0x400FFC \<and>
   validate [] (\<lambda>_. 0) = Inl TooSmall \<and>
   load [] (\<lambda>_. 0) (\<lambda>_. 7) = (Inl TooSmall, \<lambda>_. 7) \<and>
   load_fresh [] (\<lambda>_. 0) demo_machine = Ret (Inl TooSmall, demo_machine)"
proof -
  have v: "validate demo_elf (\<lambda>_. 0) = Inr 0x400FFC"
    by (simp add: validate_def demo_elf_header) (simp add: demo_hdr_def)
  have "validate [] (\<lambda>_. 0) = Inl TooSmall" by (simp add: validate_def check_header_def)
  then show ?thesis
    using elf_validation_agrees [of "[]" "\<lambda>_. 0" "\<lambda>_. 7" demo_machine] v by simp
qed

text \<open>
  The file-bounds check of a segment is done in wrapping arithmetic, so it accepts a segment that
  starts one byte before the file image: the loader copies the byte in front of the buffer to the
  address the header names.
\<close>

theorem elf_bounds_check_wraps:
  "load_segment data around
     \<lparr>p_type = 1, p_flags = 4, p_offset = 0xFFFFFFFFFFFFFFFF, p_vaddr = v, p_filesz = 1, p_memsz = 1\<rparr> m =
     (Inr (), m(v := byte_at data around 0xFFFFFFFFFFFFFFFF))"
proof -
  have "(0xFFFFFFFFFFFFFFFF :: u64) + 1 = 0" by code_simp
  then have "\<not> (0xFFFFFFFFFFFFFFFF :: u64) + 1 > data_len data" by (simp only: word_not_simps(1)) simp
  then show ?thesis
    by (auto simp: load_segment_def copy_bytes_def write_bytes_def bytes_at_def fun_eq_iff unat_eq_0
        simp del: add_numeral_special)
qed

text \<open>
  A segment that claims more file than memory panics the loader instead of being rejected:
  with no page allocated for its first byte, the lookup of the page is unwrapped.
\<close>

theorem elf_filesz_beyond_memsz_panics:
  assumes "p_offset ph + p_filesz ph \<le> data_len data" and "p_memsz ph = 0" and "0 < p_filesz ph"
    and "page_aligned (p_vaddr ph)"
  shows "load_fresh_segment data around ph [] s = Panic ''unwrap on None''"
proof -
  have "unat (page_base (p_vaddr ph + 4095)) \<le> unat (p_vaddr ph)"
  proof (cases "unat (p_vaddr ph) + 4095 < 2 ^ 64")
    case True
    then have "unat (p_vaddr ph + 4095) = unat (p_vaddr ph) + 4095"
      using unat_add_no_wrap [of "p_vaddr ph" 4095] by simp
    then show ?thesis using assms(4) by (auto simp: unat_page_base page_aligned_dvd)
  next
    case False
    obtain k where k: "unat (p_vaddr ph) = 4096 * k" using assms(4) by (auto simp: page_aligned_dvd)
    then have "4096 * k < 4096 * 4503599627370496" using unat_u64_less [of "p_vaddr ph"] by simp
    then have "k \<le> 4503599627370495" by simp
    then have "4096 * k + 4095 < 2 ^ 64" by simp
    then show ?thesis using False k by simp
  qed
  moreover have "page_base (p_vaddr ph + p_memsz ph + PAGE_SIZE - 1) = page_base (p_vaddr ph + 4095)"
    by (simp add: assms(2) PAGE_SIZE_def add.commute)
  ultimately have "\<not> page_base (p_vaddr ph) < page_base (p_vaddr ph + p_memsz ph + PAGE_SIZE - 1)"
    using assms(4) by (simp add: word_less_nat_alt page_aligned_base not_less)
  then have none: "page_range (page_base (p_vaddr ph)) (page_base (p_vaddr ph + p_memsz ph + PAGE_SIZE - 1)) = []"
    by (simp add: page_range_def)
  have "0 < unat (p_filesz ph)" using assms(3) by (simp add: word_less_nat_alt)
  then have "copy_chunks data around [] (p_vaddr ph) (p_offset ph) (unat (p_filesz ph)) 0 (m_mem s) =
      Panic ''unwrap on None''"
    by (subst copy_chunks.simps) (simp add: Let_def page_frame_def)
  then show ?thesis
    using assms(1) by (simp add: load_fresh_segment_def Let_def none not_less)
qed

lemma elf_filesz_beyond_memsz_panics_witness:
  "load_fresh_segment [7] (\<lambda>_. 0)
     \<lparr>p_type = 1, p_flags = 4, p_offset = 0, p_vaddr = 0x400000, p_filesz = 1, p_memsz = 0\<rparr> [] demo_machine =
     Panic ''unwrap on None''"
  by (rule elf_filesz_beyond_memsz_panics) (simp_all add: data_len_def page_aligned_def page_off_def)

end
