(* ===== verification/Runqueue.thy ===== *)
theory Runqueue
  imports Prelude
begin

text \<open>
  The run queue of the scheduler (\<open>RunQueue\<close> in \<open>kernel/src/scheduler/mod.rs\<close>): eight FIFO queues
  and a bit mask of the non-empty ones. The lemmas show that the mask never disagrees with the
  queues, and that \<open>push\<close> and \<open>pop\<close> implement a stable priority queue: the flattened contents
  lose their head at a \<open>pop\<close>, and a \<open>push\<close> goes behind every pid of its own or a more urgent level.
\<close>

type_synonym pid = u32

definition NPRIO :: nat where "NPRIO = 8"
definition DEFAULT_PRIO :: u8 where "DEFAULT_PRIO = 4"

record run_queue =
  rq_q :: "pid list list"
  rq_mask :: u8

definition rq_new :: run_queue where
  "rq_new = \<lparr>rq_q = replicate NPRIO [], rq_mask = 0\<rparr>"

definition rq_level :: "u8 \<Rightarrow> nat" where
  "rq_level prio = min (unat prio) (NPRIO - 1)"

definition rq_push :: "run_queue \<Rightarrow> pid \<Rightarrow> u8 \<Rightarrow> run_queue" where
  "rq_push r pid prio =
     (let p = rq_level prio
      in r\<lparr>rq_q := (rq_q r)[p := rq_q r ! p @ [pid]], rq_mask := rq_mask r OR push_bit p 1\<rparr>)"

definition trailing_zeros :: "u8 \<Rightarrow> nat" where
  "trailing_zeros m = length (takeWhile (\<lambda>i. \<not> bit m i) [0..<8])"

definition rq_pop :: "run_queue \<Rightarrow> pid option \<times> run_queue" where
  "rq_pop r =
     (if rq_mask r = 0 then (None, r)
      else let p = trailing_zeros (rq_mask r)
      in case rq_q r ! p of
           [] \<Rightarrow> (None, r)
         | pid # rest \<Rightarrow>
             (let r1 = r\<lparr>rq_q := (rq_q r)[p := rest]\<rparr>
              in (Some pid,
                  if rest = [] then r1\<lparr>rq_mask := rq_mask r1 AND NOT (push_bit p 1)\<rparr> else r1)))"

section \<open>The mask agrees with the queues\<close>

definition rq_ok :: "run_queue \<Rightarrow> bool" where
  "rq_ok r \<longleftrightarrow> length (rq_q r) = NPRIO \<and> (\<forall>i < NPRIO. bit (rq_mask r) i \<longleftrightarrow> rq_q r ! i \<noteq> [])"

text \<open>The contents, most urgent first.\<close>

definition rq_pids :: "run_queue \<Rightarrow> pid list" where
  "rq_pids r = concat (rq_q r)"

lemma rq_level_bound [simp]: "rq_level prio < NPRIO"
  by (simp add: rq_level_def NPRIO_def)

lemma rq_ok_new [simp]: "rq_ok rq_new"
  by (simp add: rq_ok_def rq_new_def NPRIO_def)

lemma rq_pids_new [simp]: "rq_pids rq_new = []"
  by (simp add: rq_pids_def rq_new_def NPRIO_def)

lemma rq_level_8 [simp]: "rq_level prio < 8"
  using rq_level_bound [of prio] by (simp add: NPRIO_def)

lemma bit_set: "i < 8 \<Longrightarrow> bit (m OR 2 ^ p) i \<longleftrightarrow> bit m i \<or> i = p" for m :: u8
  by (auto simp: bit_simps)

lemma bit_clear: "i < 8 \<Longrightarrow> bit (m AND NOT (2 ^ p)) i \<longleftrightarrow> bit m i \<and> i \<noteq> p" for m :: u8
  by (auto simp: bit_simps)

lemma rq_ok_push [simp]: "rq_ok r \<Longrightarrow> rq_ok (rq_push r pid prio)"
  by (auto simp: rq_ok_def rq_push_def Let_def nth_list_update NPRIO_def bit_set)

lemma split_level:
  "p < length q \<Longrightarrow> concat q = concat (take p q) @ q ! p @ concat (drop (Suc p) q)"
  by (metis concat.simps(2) concat_append id_take_nth_drop)

lemma concat_update:
  "p < length q \<Longrightarrow> concat (q[p := x]) = concat (take p q) @ x @ concat (drop (Suc p) q)"
  by (simp add: upd_conv_take_nth_drop)

lemma rq_pids_push:
  assumes "rq_ok r"
  shows "rq_pids (rq_push r pid prio) =
    concat (take (Suc (rq_level prio)) (rq_q r)) @ pid # concat (drop (Suc (rq_level prio)) (rq_q r))"
proof -
  have p: "rq_level prio < length (rq_q r)" using assms by (simp add: rq_ok_def)
  show ?thesis
    unfolding rq_pids_def rq_push_def Let_def
    by (simp add: concat_update [OF p] take_Suc_conv_app_nth [OF p])
qed

lemma rq_pids_split:
  "rq_pids r = concat (take k (rq_q r)) @ concat (drop k (rq_q r))"
  unfolding rq_pids_def by (metis append_take_drop_id concat_append)

lemma set_rq_push: "rq_ok r \<Longrightarrow> set (rq_pids (rq_push r pid prio)) = insert pid (set (rq_pids r))"
  using rq_pids_split [of r "Suc (rq_level prio)"] by (simp add: rq_pids_push del: set_concat)

lemma distinct_rq_push:
  assumes "rq_ok r" "distinct (rq_pids r)" "pid \<notin> set (rq_pids r)"
  shows "distinct (rq_pids (rq_push r pid prio))"
  using assms rq_pids_split [of r "Suc (rq_level prio)"]
  by (simp add: rq_pids_push del: set_concat)

lemma trailing_zeros_least:
  assumes "m \<noteq> 0"
  shows "trailing_zeros m < 8" "bit m (trailing_zeros m)" "i < trailing_zeros m \<Longrightarrow> \<not> bit m i"
proof -
  let ?P = "\<lambda>i. \<not> bit m i"
  obtain k where k: "bit m k" using assms by (metis bit_eq_iff bit_0_eq bot_apply bot_bool_def)
  then have "k < 8" using bit_imp_le_length by force
  then have "takeWhile ?P [0..<8] \<noteq> [0..<8]"
    using k by (metis atLeastLessThan_iff set_takeWhileD set_upt zero_le)
  then have lt: "length (takeWhile ?P [0..<8]) < length [0..<8 :: nat]"
    by (metis antisym_conv1 length_takeWhile_le nat_neq_iff takeWhile_eq_take take_all)
  then show "trailing_zeros m < 8" by (simp add: trailing_zeros_def)
  have "\<not> ?P ([0..<8] ! trailing_zeros m)"
    unfolding trailing_zeros_def by (rule nth_length_takeWhile [OF lt])
  then show "bit m (trailing_zeros m)" using \<open>trailing_zeros m < 8\<close> by simp
  show "i < trailing_zeros m \<Longrightarrow> \<not> bit m i"
  proof -
    assume i: "i < trailing_zeros m"
    then have "takeWhile ?P [0..<8] ! i = [0..<8] ! i"
      unfolding trailing_zeros_def by (rule takeWhile_nth)
    moreover have "takeWhile ?P [0..<8] ! i \<in> set (takeWhile ?P [0..<8])"
      using i unfolding trailing_zeros_def by (rule nth_mem)
    moreover have "i < 8" using i \<open>trailing_zeros m < 8\<close> by simp
    ultimately show ?thesis by (auto dest: set_takeWhileD)
  qed
qed

text \<open>\<open>pop\<close> removes the head of the flattened queues.\<close>

lemma rq_pop_spec:
  assumes ok: "rq_ok r"
  shows "case rq_pids r of
      [] \<Rightarrow> rq_pop r = (None, r)
    | p # ps \<Rightarrow> \<exists>r'. rq_pop r = (Some p, r') \<and> rq_ok r' \<and> rq_pids r' = ps"
proof (cases "rq_mask r = 0")
  case True
  then have "\<forall>x \<in> set (rq_q r). x = []"
    using ok by (metis bit_0_eq bot_apply bot_bool_def in_set_conv_nth rq_ok_def)
  then have "rq_pids r = []" by (simp add: rq_pids_def)
  then show ?thesis using True by (simp add: rq_pop_def)
next
  case False
  let ?p = "trailing_zeros (rq_mask r)"
  note tz = trailing_zeros_least [OF False]
  have len: "?p < length (rq_q r)" "length (rq_q r) = 8" using ok tz(1) by (simp_all add: rq_ok_def NPRIO_def)
  obtain pid rest where q: "rq_q r ! ?p = pid # rest"
    using ok tz(1,2) by (metis NPRIO_def neq_Nil_conv rq_ok_def)
  have "rq_q r ! i = []" if "i < ?p" for i
    using ok tz(3) [OF that] that tz(1) by (simp add: rq_ok_def NPRIO_def)
  then have "\<forall>x \<in> set (take ?p (rq_q r)). x = []"
    using len(1) by (auto simp: in_set_conv_nth)
  then have empty: "concat (take ?p (rq_q r)) = []" by simp
  have pids: "rq_pids r = pid # rest @ concat (drop (Suc ?p) (rq_q r))"
    unfolding rq_pids_def split_level [OF len(1)] by (simp add: empty q)
  let ?r1 = "r\<lparr>rq_q := (rq_q r)[?p := rest]\<rparr>"
  let ?r = "if rest = [] then ?r1\<lparr>rq_mask := rq_mask ?r1 AND NOT (push_bit ?p 1)\<rparr> else ?r1"
  have "rq_pop r = (Some pid, ?r)" using False q by (simp add: rq_pop_def Let_def)
  moreover have "rq_pids ?r = rest @ concat (drop (Suc ?p) (rq_q r))"
    by (simp add: rq_pids_def concat_update [OF len(1)] empty)
  moreover have "rq_ok ?r"
    using ok len tz(1,2) by (auto simp: rq_ok_def NPRIO_def nth_list_update bit_clear)
  ultimately show ?thesis unfolding pids by simp
qed

lemma rq_pop_None: "rq_ok r \<Longrightarrow> rq_pop r = (None, r') \<Longrightarrow> r' = r \<and> rq_pids r = []"
  using rq_pop_spec [of r] by (auto split: list.splits)

lemma rq_pop_Some:
  "rq_ok r \<Longrightarrow> rq_pop r = (Some p, r') \<Longrightarrow> rq_ok r' \<and> rq_pids r = p # rq_pids r'"
  using rq_pop_spec [of r] by (auto split: list.splits)

section \<open>One level in use\<close>

text \<open>While every task has the default priority the queue is first in, first out.\<close>

definition default_only :: "run_queue \<Rightarrow> bool" where
  "default_only r \<longleftrightarrow> (\<forall>i < NPRIO. i \<noteq> 4 \<longrightarrow> rq_q r ! i = [])"

lemma rq_level_default: "rq_level DEFAULT_PRIO = 4"
  by (simp add: rq_level_def DEFAULT_PRIO_def NPRIO_def)

lemma default_only_new [simp]: "default_only rq_new"
  by (simp add: default_only_def rq_new_def NPRIO_def)

lemma default_only_push:
  assumes "rq_ok r" "default_only r"
  shows "default_only (rq_push r p DEFAULT_PRIO)"
    and "rq_pids (rq_push r p DEFAULT_PRIO) = rq_pids r @ [p]"
proof -
  have len: "length (rq_q r) = 8" using assms(1) by (simp add: rq_ok_def NPRIO_def)
  show "default_only (rq_push r p DEFAULT_PRIO)"
    using assms(2) len
    by (auto simp: default_only_def rq_push_def Let_def rq_level_default nth_list_update)
  have "\<forall>x \<in> set (drop 5 (rq_q r)). x = []"
    using assms(2) len by (auto simp: default_only_def in_set_conv_nth NPRIO_def)
  then have e: "concat (drop 5 (rq_q r)) = []" by simp
  show "rq_pids (rq_push r p DEFAULT_PRIO) = rq_pids r @ [p]"
  proof -
    have l: "Suc (rq_level DEFAULT_PRIO) = 5" by (simp add: rq_level_default)
    show ?thesis unfolding rq_pids_push [OF assms(1)] l rq_pids_split [of r 5] e by simp
  qed
qed

lemma default_only_pop:
  assumes "rq_ok r" "default_only r" "rq_pop r = (x, r')"
  shows "default_only r'"
proof (cases "rq_mask r = 0")
  case True
  then show ?thesis using assms by (simp add: rq_pop_def)
next
  case False
  have "trailing_zeros (rq_mask r) < length (rq_q r)"
    using trailing_zeros_least(1) [OF False] assms(1) by (simp add: rq_ok_def NPRIO_def)
  then show ?thesis
    using assms(2,3) False
    by (auto simp: rq_pop_def Let_def default_only_def nth_list_update split: list.splits if_splits)
qed

end
