(* ===== verification/Sched.thy ===== *)
theory Sched
  imports Runqueue Elf
begin

text \<open>
  The scheduler (\<open>kernel/src/scheduler/mod.rs\<close>): task control blocks, spawning kernel threads and
  isolated programs, the context switch, cooperative and timer switches, exit and reaping, and the
  per-task accessors. Locks are not modelled: the operations run one at a time on the single
  core the kernel uses, and the one interleaving that matters, the timer interrupt in the middle of
  a switch, is the explicit sequence of steps \<open>switch_commit\<close> and \<open>switch_finish\<close>.
\<close>

section \<open>State\<close>

datatype task_state = Runnable | Running | Blocked | Zombie

text \<open>\<open>State::load\<close> and \<open>State::store\<close> on the atomic byte.\<close>

definition state_of_byte :: "u8 \<Rightarrow> task_state" where
  "state_of_byte b = (if b = 0 then Runnable else if b = 1 then Running else if b = 2 then Blocked else Zombie)"

fun byte_of_state :: "task_state \<Rightarrow> u8" where
  "byte_of_state Runnable = 0"
| "byte_of_state Running = 1"
| "byte_of_state Blocked = 2"
| "byte_of_state Zombie = 3"

lemma state_byte_roundtrip: "state_of_byte (byte_of_state s) = s"
  by (cases s) (simp_all add: state_of_byte_def)

record cpu_ctx =
  c_r15 :: u64
  c_r14 :: u64
  c_r13 :: u64
  c_r12 :: u64
  c_rbp :: u64
  c_rbx :: u64
  c_rsp :: u64
  c_rip :: u64

record open_file =
  of_path :: string
  of_offset :: nat
  of_flags :: u8

record tcb =
  t_pid :: pid
  t_state :: task_state
  t_priority :: u8
  t_ctx :: cpu_ctx
  t_stack_phys :: u64
  t_stack_virt :: u64
  t_caps :: u64
  t_uid :: u32
  t_gid :: u32
  t_cr3 :: u64
  t_user_entry :: u64
  t_user_stack_top :: u64
  t_isolated_table_frames :: "u64 list option"
  t_isolated_user_stack_phys :: u64
  t_name :: string
  t_cwd :: string
  t_open_files :: "open_file option list"
  t_args :: "string list"

record sched =
  s_tasks :: "tcb option list"
  s_rq :: run_queue
  s_current :: u64
  s_next_pid :: u64

text \<open>The processor: the callee-saved registers, and the active top-level table.\<close>

record kernel =
  k_sched :: sched
  k_mach :: machine
  k_cpu :: cpu_ctx
  k_cr3 :: u64

definition sched_new :: sched where
  "sched_new = \<lparr>s_tasks = [], s_rq = rq_new, s_current = 0, s_next_pid = 1\<rparr>"

section \<open>The task table\<close>

text \<open>\<open>tasks.get(pid as usize).and_then(|s| s.as_deref())\<close>\<close>

definition task_at :: "tcb option list \<Rightarrow> nat \<Rightarrow> tcb option" where
  "task_at ts i = (if i < length ts then ts ! i else None)"

definition task :: "sched \<Rightarrow> pid \<Rightarrow> tcb option" where
  "task s p = task_at (s_tasks s) (unat p)"

text \<open>\<open>if let Some(Some(t)) = tasks.get_mut(pid as usize) { ... }\<close>\<close>

definition update_task :: "pid \<Rightarrow> (tcb \<Rightarrow> tcb) \<Rightarrow> sched \<Rightarrow> sched" where
  "update_task p f s =
     (case task s p of
        None \<Rightarrow> s
      | Some t \<Rightarrow> s\<lparr>s_tasks := (s_tasks s)[unat p := Some (f t)]\<rparr>)"

definition resize_tasks :: "nat \<Rightarrow> tcb option list \<Rightarrow> tcb option list" where
  "resize_tasks n ts = (if length ts \<le> n then ts @ replicate (Suc n - length ts) None else ts)"

definition current_pid :: "sched \<Rightarrow> pid" where
  "current_pid s = ucast (s_current s)"

section \<open>Spawning\<close>

definition init_stack :: "u64 \<Rightarrow> u64 \<Rightarrow> u64 \<Rightarrow> memory \<Rightarrow> u64 \<times> memory" where
  "init_stack hhdm stack_top entry m =
     (let rsp = (stack_top AND NOT 0xF) - 8
      in (rsp, store64 m (virt_to_phys hhdm rsp) entry))"

definition take_name :: "string \<Rightarrow> string" where
  "take_name name = take 31 name"

definition new_tcb :: "pid \<Rightarrow> u64 \<Rightarrow> u64 \<Rightarrow> u64 \<Rightarrow> u64 \<Rightarrow> u64 \<Rightarrow> string \<Rightarrow> tcb" where
  "new_tcb pid rsp entry stack_phys stack_virt cr3_now name =
     \<lparr>t_pid = pid, t_state = Runnable, t_priority = DEFAULT_PRIO,
      t_ctx = \<lparr>c_r15 = 0, c_r14 = 0, c_r13 = 0, c_r12 = 0, c_rbp = 0, c_rbx = 0, c_rsp = rsp, c_rip = entry\<rparr>,
      t_stack_phys = stack_phys, t_stack_virt = stack_virt,
      t_caps = 0, t_uid = 1000, t_gid = 1000, t_cr3 = cr3_now,
      t_user_entry = 0, t_user_stack_top = 0, t_isolated_table_frames = None,
      t_isolated_user_stack_phys = 0, t_name = take_name name, t_cwd = ''/'', t_open_files = [], t_args = []\<rparr>"

text \<open>The part of \<open>spawn\<close> that touches the scheduler's own state.\<close>

definition admit :: "tcb \<Rightarrow> sched \<Rightarrow> sched" where
  "admit t s =
     (let p = t_pid t; ts = (resize_tasks (unat p) (s_tasks s))[unat p := Some t]
      in s\<lparr>s_tasks := ts, s_rq := rq_push (s_rq s) p DEFAULT_PRIO\<rparr>)"

definition spawn :: "u64 \<Rightarrow> string \<Rightarrow> u64 \<Rightarrow> kernel \<Rightarrow> (pid \<times> kernel) outcome" where
  "spawn hhdm name entry k =
     (let s = k_sched k; pid = ucast (s_next_pid s); s1 = s\<lparr>s_next_pid := s_next_pid s + 1\<rparr>
      in case alloc_contiguous_frames 4 (k_mach k) of
           (None, _) \<Rightarrow> Panic ''OOM: kernel thread stack (contiguous)''
         | (Some stack_phys, m1) \<Rightarrow>
             (let stack_virt = stack_phys + hhdm;
                  stack_top = stack_virt + 4 * PAGE_SIZE;
                  (rsp, mem) = init_stack hhdm stack_top entry (m_mem m1);
                  t = new_tcb pid rsp entry stack_phys stack_virt (k_cr3 k) name
              in Ret (pid, k\<lparr>k_sched := admit t s1, k_mach := m1\<lparr>m_mem := mem\<rparr>\<rparr>)))"

definition spawn_isolated ::
  "u64 \<Rightarrow> u64 \<Rightarrow> string \<Rightarrow> u64 \<Rightarrow> u64 \<Rightarrow> u64 \<Rightarrow> u64 \<Rightarrow> u64 list \<Rightarrow> u64 \<Rightarrow> kernel \<Rightarrow> (pid \<times> kernel) outcome" where
  "spawn_isolated hhdm trampoline name cr3 user_entry user_stack_top caps table_frames user_stack_phys k =
     bind_outcome (spawn hhdm name trampoline k) (\<lambda>(pid, k1).
       Ret (pid, k1\<lparr>k_sched := update_task pid
         (\<lambda>t. t\<lparr>t_cr3 := cr3, t_user_entry := user_entry, t_user_stack_top := user_stack_top,
               t_caps := caps, t_isolated_table_frames := Some table_frames,
               t_isolated_user_stack_phys := user_stack_phys\<rparr>) (k_sched k1)\<rparr>))"

definition spawn_program ::
  "u64 \<Rightarrow> u64 \<Rightarrow> around \<Rightarrow> string \<Rightarrow> u8 list \<Rightarrow> u64 \<Rightarrow> kernel \<Rightarrow> ((string + pid) \<times> kernel) outcome" where
  "spawn_program hhdm trampoline around name elf_data caps k =
     bind_outcome (load_fresh elf_data around (k_mach k)) (\<lambda>r.
     case r of
       (Inl _, m1) \<Rightarrow> Ret (Inl ''elf load failed'', k\<lparr>k_mach := m1\<rparr>)
     | (Inr (entry, pages), m1) \<Rightarrow>
         (case alloc_frame m1 of
            (None, m2) \<Rightarrow> Ret (Inl ''out of memory allocating stack'', k\<lparr>k_mach := m2\<rparr>)
          | (Some stack_phys, m2) \<Rightarrow>
              let m3 = m2\<lparr>m_mem := zero_bytes (m_mem m2) stack_phys 4096\<rparr>;
                  stack_top = stack_phys + 4096
              in bind_outcome (create_isolated_user_table_fresh (k_cr3 k) pages stack_phys m3)
                   (\<lambda>(new_pml4, tf, m4).
                 let table_frames = tf @ map (\<lambda>(_, paddr, _, _). paddr) pages
                 in bind_outcome
                      (spawn_isolated hhdm trampoline name new_pml4 entry stack_top caps table_frames
                         stack_phys (k\<lparr>k_mach := m4\<rparr>))
                      (\<lambda>(pid, k1). Ret (Inr pid, k1)))))"

section \<open>Switching\<close>

text \<open>
  What \<open>switch_to\<close> does before the register swap: the outgoing task, if it was running, is made
  runnable and queued, the incoming one is marked running. The result is \<open>None\<close> when the source
  returns early, and otherwise the outgoing context (none for the first switch) and the incoming one.
\<close>

definition switch_commit :: "pid \<Rightarrow> sched \<Rightarrow> (pid option \<times> pid) option \<times> sched" where
  "switch_commit next_pid s =
     (let prev_pid = current_pid s; s1 = s\<lparr>s_current := ucast next_pid\<rparr>
      in if prev_pid = next_pid then (None, s1)
      else let (prev_ctx, s2) =
             (if prev_pid \<noteq> 0 then
                case task s1 prev_pid of
                  Some t \<Rightarrow>
                    (Some prev_pid,
                     if t_state t = Running
                     then (update_task prev_pid (\<lambda>t. t\<lparr>t_state := Runnable\<rparr>) s1)
                            \<lparr>s_rq := rq_push (s_rq s1) prev_pid (t_priority t)\<rparr>
                     else s1)
                | None \<Rightarrow> (None, s1)
              else (None, s1))
      in case task s2 next_pid of
           Some t \<Rightarrow> (Some (prev_ctx, next_pid), update_task next_pid (\<lambda>t. t\<lparr>t_state := Running\<rparr>) s2)
         | None \<Rightarrow> (None, s2))"

text \<open>
  The register swap. \<open>resume\<close> is the address of the label after the jump, where a saved task
  continues by popping \<open>rbx\<close> and \<open>rbp\<close> from its own stack. The first switch loads only the stack
  pointer and the program counter.
\<close>

definition context_save :: "u64 \<Rightarrow> u64 \<Rightarrow> cpu_ctx \<Rightarrow> memory \<Rightarrow> cpu_ctx \<times> memory" where
  "context_save hhdm resume cpu m =
     (let m1 = store64 m (virt_to_phys hhdm (c_rsp cpu - 8)) (c_rbp cpu);
          m2 = store64 m1 (virt_to_phys hhdm (c_rsp cpu - 16)) (c_rbx cpu)
      in (cpu\<lparr>c_rsp := c_rsp cpu - 16, c_rip := resume\<rparr>, m2))"

definition context_resume :: "u64 \<Rightarrow> cpu_ctx \<Rightarrow> memory \<Rightarrow> cpu_ctx" where
  "context_resume hhdm cpu m =
     cpu\<lparr>c_rbx := load64 m (virt_to_phys hhdm (c_rsp cpu)),
         c_rbp := load64 m (virt_to_phys hhdm (c_rsp cpu + 8)),
         c_rsp := c_rsp cpu + 16\<rparr>"

definition context_switch :: "u64 \<Rightarrow> u64 \<Rightarrow> pid option \<Rightarrow> pid \<Rightarrow> kernel \<Rightarrow> kernel" where
  "context_switch hhdm resume prev next_pid k =
     (case prev of
        None \<Rightarrow>
          (case task (k_sched k) next_pid of
             None \<Rightarrow> k
           | Some t \<Rightarrow> k\<lparr>k_cpu := (k_cpu k)\<lparr>c_rsp := c_rsp (t_ctx t), c_rip := c_rip (t_ctx t)\<rparr>\<rparr>)
      | Some p \<Rightarrow>
          (let (ctx, mem) = context_save hhdm resume (k_cpu k) (m_mem (k_mach k));
               s1 = update_task p (\<lambda>t. t\<lparr>t_ctx := ctx\<rparr>) (k_sched k);
               k1 = k\<lparr>k_sched := s1, k_mach := (k_mach k)\<lparr>m_mem := mem\<rparr>\<rparr>
           in case task s1 next_pid of
                None \<Rightarrow> k1
              | Some t \<Rightarrow> k1\<lparr>k_cpu := t_ctx t\<rparr>))"

definition switch_finish :: "u64 \<Rightarrow> u64 \<Rightarrow> (pid option \<times> pid) option \<Rightarrow> kernel \<Rightarrow> kernel" where
  "switch_finish hhdm resume sw k =
     (case sw of
        None \<Rightarrow> k
      | Some (prev, next_pid) \<Rightarrow>
          (case task (k_sched k) next_pid of
             None \<Rightarrow> k
           | Some t \<Rightarrow> context_switch hhdm resume prev next_pid (k\<lparr>k_cr3 := t_cr3 t\<rparr>)))"

definition switch_to :: "u64 \<Rightarrow> u64 \<Rightarrow> pid \<Rightarrow> kernel \<Rightarrow> kernel" where
  "switch_to hhdm resume next_pid k =
     (case switch_commit next_pid (k_sched k) of
        (sw, s1) \<Rightarrow> switch_finish hhdm resume sw (k\<lparr>k_sched := s1\<rparr>))"

text \<open>One turn of \<open>run\<close>, \<open>yield_now\<close> and an uncontended \<open>try_preempt\<close> are the same step.\<close>

definition sched_step :: "sched \<Rightarrow> (pid option \<times> pid) option \<times> sched" where
  "sched_step s =
     (case rq_pop (s_rq s) of
        (None, r) \<Rightarrow> (None, s\<lparr>s_rq := r\<rparr>)
      | (Some next_pid, r) \<Rightarrow> switch_commit next_pid (s\<lparr>s_rq := r\<rparr>))"

definition yield_now :: "u64 \<Rightarrow> u64 \<Rightarrow> kernel \<Rightarrow> kernel" where
  "yield_now hhdm resume k =
     (case rq_pop (s_rq (k_sched k)) of
        (None, r) \<Rightarrow> k\<lparr>k_sched := (k_sched k)\<lparr>s_rq := r\<rparr>\<rparr>
      | (Some next_pid, r) \<Rightarrow> switch_to hhdm resume next_pid (k\<lparr>k_sched := (k_sched k)\<lparr>s_rq := r\<rparr>\<rparr>))"

definition run_once :: "u64 \<Rightarrow> u64 \<Rightarrow> kernel \<Rightarrow> kernel" where
  "run_once hhdm resume k = yield_now hhdm resume k"

text \<open>The timer gives up the tick when a lock is held.\<close>

definition try_preempt :: "u64 \<Rightarrow> u64 \<Rightarrow> bool \<Rightarrow> bool \<Rightarrow> kernel \<Rightarrow> kernel" where
  "try_preempt hhdm resume tasks_free rq_free k =
     (if \<not> tasks_free then k else if \<not> rq_free then k else yield_now hhdm resume k)"

definition mark_zombie :: "sched \<Rightarrow> sched" where
  "mark_zombie s =
     (if current_pid s \<noteq> 0 then update_task (current_pid s) (\<lambda>t. t\<lparr>t_state := Zombie\<rparr>) s else s)"

definition exit_commit :: "sched \<Rightarrow> (pid \<times> sched) outcome" where
  "exit_commit s =
     (let s1 = mark_zombie s
      in case rq_pop (s_rq s1) of
           (None, _) \<Rightarrow> Panic ''exit_current: no runnable task left to switch to''
         | (Some next_pid, r) \<Rightarrow>
             (let s2 = s1\<lparr>s_rq := r, s_current := ucast next_pid\<rparr>
              in case task s2 next_pid of
                   None \<Rightarrow> Panic ''exit_current: next_pid popped from rq has no Tcb''
                 | Some t \<Rightarrow> Ret (next_pid, update_task next_pid (\<lambda>t. t\<lparr>t_state := Running\<rparr>) s2)))"

definition exit_current :: "u64 \<Rightarrow> u64 \<Rightarrow> kernel \<Rightarrow> kernel outcome" where
  "exit_current hhdm resume k =
     bind_outcome (exit_commit (k_sched k)) (\<lambda>(next_pid, s1).
       Ret (switch_finish hhdm resume (Some (None, next_pid)) (k\<lparr>k_sched := s1\<rparr>)))"

section \<open>Reaping\<close>

definition stack_frames :: "u64 \<Rightarrow> u64 list" where
  "stack_frames base = map (\<lambda>i. base + of_nat i * PAGE_SIZE) [0..<4]"

definition reap :: "pid \<Rightarrow> kernel \<Rightarrow> kernel outcome" where
  "reap p k =
     (case task (k_sched k) p of
        None \<Rightarrow> Panic ''reap: pid has no Tcb''
      | Some t \<Rightarrow>
          let s1 = (k_sched k)\<lparr>s_tasks := (s_tasks (k_sched k))[unat p := None]\<rparr>
          in if t_state t \<noteq> Zombie then Panic ''reap: pid is not Zombie''
          else bind_outcome
                 (case t_isolated_table_frames t of
                    None \<Rightarrow> Ret (k_mach k)
                  | Some tf \<Rightarrow> teardown_isolated_process tf (t_isolated_user_stack_phys t) (k_mach k))
                 (\<lambda>m1. bind_outcome (free_all (stack_frames (t_stack_phys t)) m1)
                    (\<lambda>m2. Ret (k\<lparr>k_sched := s1, k_mach := m2\<rparr>))))"

section \<open>The scheduler's invariant\<close>

text \<open>
  The queue holds exactly the runnable tasks, each once; the only running task is the current one;
  pids are slot numbers, 0 is never used, and the counter is ahead of every slot. The last
  conjunct is a fact of this kernel: no operation gives a task another priority than the default.
\<close>

definition sched_ok :: "sched \<Rightarrow> bool" where
  "sched_ok s \<longleftrightarrow> rq_ok (s_rq s) \<and> default_only (s_rq s) \<and> distinct (rq_pids (s_rq s)) \<and>
     (\<forall>p. p \<in> set (rq_pids (s_rq s)) \<longleftrightarrow> (\<exists>t. task s p = Some t \<and> t_state t = Runnable)) \<and>
     (\<forall>p t. task s p = Some t \<longrightarrow>
        t_pid t = p \<and> t_priority t = DEFAULT_PRIO \<and> (t_state t = Running \<longrightarrow> current_pid s = p)) \<and>
     (current_pid s \<noteq> 0 \<longrightarrow> (\<exists>t. task s (current_pid s) = Some t \<and> t_state t = Running)) \<and>
     task s 0 = None \<and> length (s_tasks s) \<le> unat (s_next_pid s) \<and> 1 \<le> s_next_pid s"

lemma task_update_task [simp]:
  "task (update_task p f s) q = (if q = p then map_option f (task s p) else task s q)"
  by (auto simp: task_def update_task_def task_at_def nth_list_update word_unat_eq_iff split: option.splits)

lemma update_task_fields [simp]:
  "s_rq (update_task p f s) = s_rq s" "s_current (update_task p f s) = s_current s"
  "s_next_pid (update_task p f s) = s_next_pid s" "length (s_tasks (update_task p f s)) = length (s_tasks s)"
  "current_pid (update_task p f s) = current_pid s"
  by (simp_all add: update_task_def current_pid_def split: option.splits)

lemma task_rq [simp]: "task (s\<lparr>s_rq := r\<rparr>) = task s"
  by (simp add: task_def fun_eq_iff)

lemma task_current [simp]: "task (s\<lparr>s_current := c\<rparr>) = task s"
  by (simp add: task_def fun_eq_iff)

lemma ucast_pid [simp]: "ucast (ucast p :: u64) = p" for p :: pid
  by (rule bit_word_eqI) (simp add: bit_simps)

lemma current_pid_set [simp]: "current_pid (s\<lparr>s_current := ucast p\<rparr>) = p" for p :: pid
  by (simp add: current_pid_def)

lemma current_pid_rq [simp]: "current_pid (s\<lparr>s_rq := r\<rparr>) = current_pid s"
  by (simp add: current_pid_def)

lemma sched_ok_new: "sched_ok sched_new"
  by (simp add: sched_ok_def sched_new_def task_def task_at_def current_pid_def)

text \<open>What one scheduling step does.\<close>

lemma sched_step_idle:
  assumes "sched_ok s" "rq_pids (s_rq s) = []"
  shows "sched_step s = (None, s)"
proof -
  have "rq_pop (s_rq s) = (None, s_rq s)"
    using assms rq_pop_spec [of "s_rq s"] by (simp add: sched_ok_def)
  then show ?thesis by (simp add: sched_step_def)
qed

lemma sched_step_busy:
  assumes ok: "sched_ok s" and q: "rq_pids (s_rq s) = p # ps"
  shows "\<exists>s'. sched_step s = (Some (if current_pid s = 0 then None else Some (current_pid s), p), s') \<and>
    current_pid s' = p \<and>
    rq_ok (s_rq s') \<and> default_only (s_rq s') \<and>
    rq_pids (s_rq s') = (if current_pid s = 0 then ps else ps @ [current_pid s]) \<and>
    (\<forall>x. task s' x = (if x = p then map_option (\<lambda>t. t\<lparr>t_state := Running\<rparr>) (task s p)
       else if x = current_pid s then map_option (\<lambda>t. t\<lparr>t_state := Runnable\<rparr>) (task s x)
       else task s x)) \<and>
    s_next_pid s' = s_next_pid s \<and> length (s_tasks s') = length (s_tasks s)"
proof -
  let ?c = "current_pid s"
  have rok: "rq_ok (s_rq s)" "default_only (s_rq s)" using ok by (simp_all add: sched_ok_def)
  obtain r where pop: "rq_pop (s_rq s) = (Some p, r)" "rq_ok r" "rq_pids r = ps"
    using rq_pop_spec [OF rok(1)] q by auto
  have dr: "default_only r" by (rule default_only_pop [OF rok pop(1)])
  obtain tp where tp: "task s p = Some tp" "t_state tp = Runnable"
    using ok q unfolding sched_ok_def by (metis list.set_intros(1))
  have ne: "?c \<noteq> p"
  proof
    assume "?c = p"
    moreover have "p \<noteq> 0" using ok tp(1) by (auto simp: sched_ok_def)
    ultimately obtain t where "task s p = Some t" "t_state t = Running"
      using ok unfolding sched_ok_def by metis
    then show False using tp by simp
  qed
  show ?thesis
  proof (cases "?c = 0")
    case True
    let ?s = "update_task p (\<lambda>t. t\<lparr>t_state := Running\<rparr>) (s\<lparr>s_rq := r, s_current := ucast p\<rparr>)"
    have "sched_step s = (Some (None, p), ?s)"
      using True ne tp(1) by (simp add: sched_step_def pop(1) switch_commit_def Let_def)
    then show ?thesis
      using True pop(2,3) dr ok by (intro exI [of _ ?s]) (auto simp: sched_ok_def)
  next
    case False
    obtain tc where tc: "task s ?c = Some tc" "t_state tc = Running" "t_priority tc = DEFAULT_PRIO"
      using ok False unfolding sched_ok_def by metis
    let ?s1 = "(update_task ?c (\<lambda>t. t\<lparr>t_state := Runnable\<rparr>) (s\<lparr>s_rq := r, s_current := ucast p\<rparr>))
                 \<lparr>s_rq := rq_push r ?c DEFAULT_PRIO\<rparr>"
    let ?s = "update_task p (\<lambda>t. t\<lparr>t_state := Running\<rparr>) ?s1"
    have "sched_step s = (Some (Some ?c, p), ?s)"
      using False ne tp(1) tc by (simp add: sched_step_def pop(1) switch_commit_def Let_def)
    then show ?thesis
      using False pop(2,3) dr ok ne tc(1) default_only_push [OF pop(2) dr]
      by (intro exI [of _ ?s]) auto
  qed
qed

lemma sched_ok_step:
  assumes ok: "sched_ok s"
  shows "sched_ok (snd (sched_step s))"
proof (cases "rq_pids (s_rq s)")
  case Nil
  then show ?thesis using sched_step_idle [OF ok] ok by simp
next
  case (Cons p ps)
  let ?c = "current_pid s"
  from sched_step_busy [OF ok Cons] obtain s' where
    st: "snd (sched_step s) = s'" and cur: "current_pid s' = p" and rq: "rq_ok (s_rq s')" "default_only (s_rq s')"
    and pids: "rq_pids (s_rq s') = (if ?c = 0 then ps else ps @ [?c])"
    and tsk: "\<And>x. task s' x = (if x = p then map_option (\<lambda>t. t\<lparr>t_state := Running\<rparr>) (task s p)
       else if x = ?c then map_option (\<lambda>t. t\<lparr>t_state := Runnable\<rparr>) (task s x) else task s x)"
    and len: "s_next_pid s' = s_next_pid s" "length (s_tasks s') = length (s_tasks s)"
    by auto
  have q: "\<And>x. x \<in> set (p # ps) \<longleftrightarrow> (\<exists>t. task s x = Some t \<and> t_state t = Runnable)"
    and dist: "distinct (p # ps)" and zero: "task s 0 = None"
    and facts: "\<And>x t. task s x = Some t \<Longrightarrow> t_pid t = x \<and> t_priority t = DEFAULT_PRIO \<and> (t_state t = Running \<longrightarrow> ?c = x)"
    and curr: "?c \<noteq> 0 \<Longrightarrow> \<exists>t. task s ?c = Some t \<and> t_state t = Running"
    using ok Cons unfolding sched_ok_def by auto
  have c_notin: "?c \<noteq> 0 \<Longrightarrow> ?c \<notin> set (p # ps)" using curr q by (metis option.inject task_state.distinct(1))
  obtain tp where tp: "task s p = Some tp" "t_state tp = Runnable" using q [of p] by auto
  have p0: "p \<noteq> 0" using tp zero by auto
  have cz: "?c = 0 \<Longrightarrow> task s ?c = None" using zero by simp
  have runq: "x \<in> set (rq_pids (s_rq s')) \<longleftrightarrow> (\<exists>t. task s' x = Some t \<and> t_state t = Runnable)" for x
  proof -
    consider "x = p" | "x \<noteq> p" "x = ?c" "?c = 0" | "x \<noteq> p" "x = ?c" "?c \<noteq> 0" | "x \<noteq> p" "x \<noteq> ?c" by blast
    then show ?thesis
    proof cases
      case 1
      have "p \<notin> set (rq_pids (s_rq s'))" using dist c_notin by (auto simp: pids)
      then show ?thesis using 1 tp by (simp add: tsk)
    next
      case 2
      then have "x \<notin> set ps" using q [of x] cz by simp
      then show ?thesis using 2 cz by (simp add: pids tsk)
    next
      case 3
      then show ?thesis using curr by (auto simp: pids tsk)
    next
      case 4
      then show ?thesis using q [of x] by (simp add: pids tsk)
    qed
  qed
  show ?thesis
    unfolding st sched_ok_def cur
  proof (intro conjI allI impI)
    show "rq_ok (s_rq s')" "default_only (s_rq s')" by (rule rq)+
    show "distinct (rq_pids (s_rq s'))" using dist c_notin by (auto simp: pids)
    show "x \<in> set (rq_pids (s_rq s')) \<longleftrightarrow> (\<exists>t. task s' x = Some t \<and> t_state t = Runnable)" for x
      by (rule runq)
    show "\<exists>t. task s' p = Some t \<and> t_state t = Running" using tp(1) by (simp add: tsk)
    show "task s' 0 = None" using p0 zero by (simp add: tsk)
    show "length (s_tasks s') \<le> unat (s_next_pid s')" "1 \<le> s_next_pid s'"
      using ok by (simp_all add: len sched_ok_def)
    fix x t assume x: "task s' x = Some t"
    consider "x = p" | "x \<noteq> p" "x = ?c" | "x \<noteq> p" "x \<noteq> ?c" by blast
    then have "t_pid t = x \<and> t_priority t = DEFAULT_PRIO \<and> (t_state t = Running \<longrightarrow> p = x)"
      by cases (use x facts [of x] in \<open>auto simp: tsk\<close>)
    then show "t_pid t = x" "t_priority t = DEFAULT_PRIO" "t_state t = Running \<Longrightarrow> p = x" by blast+
  qed
qed

text \<open>Admitting a new task, with a pid the counter has just left.\<close>

lemma task_admit:
  "task (admit t s) q = (if q = t_pid t then Some t else task s q)"
  by (auto simp: task_def admit_def Let_def task_at_def resize_tasks_def nth_list_update nth_append
      word_unat_eq_iff)

lemma length_admit:
  "length (s_tasks (admit t s)) = max (length (s_tasks s)) (Suc (unat (t_pid t)))"
  by (auto simp: admit_def Let_def resize_tasks_def)

lemma sched_ok_admit:
  assumes ok: "sched_ok s" and pid: "t_pid t = ucast (s_next_pid s)" and room: "unat (s_next_pid s) < 2 ^ 32"
    and t: "t_state t = Runnable" "t_priority t = DEFAULT_PRIO"
  shows "sched_ok (admit t (s\<lparr>s_next_pid := s_next_pid s + 1\<rparr>))"
proof -
  let ?s = "s\<lparr>s_next_pid := s_next_pid s + 1\<rparr>"
  have up: "unat (t_pid t) = unat (s_next_pid s)"
    using room by (simp add: pid unsigned_ucast_eq take_bit_nat_eq_self)
  have un: "unat (s_next_pid s + 1) = unat (s_next_pid s) + 1"
    using room unat_add_no_wrap [of "s_next_pid s" 1] by simp
  have old: "task ?s q = task s q" for q by (simp add: task_def)
  have len: "length (s_tasks s) \<le> unat (s_next_pid s)" and pos: "1 \<le> s_next_pid s"
    using ok by (simp_all add: sched_ok_def)
  have fresh: "task s (t_pid t) = None" using len up by (simp add: task_def task_at_def)
  have notin: "t_pid t \<notin> set (rq_pids (s_rq s))" using ok fresh unfolding sched_ok_def by (metis option.distinct(1))
  have p0: "t_pid t \<noteq> 0" using up pos by (auto simp: word_le_nat_alt)
  have tsk: "task (admit t ?s) q = (if q = t_pid t then Some t else task s q)" for q
    using task_admit [of t ?s q] old [of q] by simp
  have rok: "rq_ok (s_rq s)" "default_only (s_rq s)" using ok by (simp_all add: sched_ok_def)
  have rq: "s_rq (admit t ?s) = rq_push (s_rq s) (t_pid t) DEFAULT_PRIO" and cur: "current_pid (admit t ?s) = current_pid s"
    and nx: "s_next_pid (admit t ?s) = s_next_pid s + 1"
    by (simp_all add: admit_def Let_def current_pid_def)
  have cn: "current_pid s \<noteq> 0 \<Longrightarrow> current_pid s \<noteq> t_pid t"
    using ok fresh unfolding sched_ok_def by (metis option.distinct(1))
  show ?thesis
    unfolding sched_ok_def rq cur nx
  proof (intro conjI allI impI)
    show "rq_ok (rq_push (s_rq s) (t_pid t) DEFAULT_PRIO)" using rok by simp
    show "default_only (rq_push (s_rq s) (t_pid t) DEFAULT_PRIO)" using default_only_push(1) [OF rok] .
    show "distinct (rq_pids (rq_push (s_rq s) (t_pid t) DEFAULT_PRIO))"
      using ok notin by (intro distinct_rq_push) (auto simp: sched_ok_def)
    show "q \<in> set (rq_pids (rq_push (s_rq s) (t_pid t) DEFAULT_PRIO)) \<longleftrightarrow>
        (\<exists>ta. task (admit t ?s) q = Some ta \<and> t_state ta = Runnable)" for q
      using ok t(1) by (simp add: set_rq_push [OF rok(1)] tsk sched_ok_def)
    show "current_pid s \<noteq> 0 \<Longrightarrow> \<exists>ta. task (admit t ?s) (current_pid s) = Some ta \<and> t_state ta = Running"
      using ok cn by (simp add: tsk sched_ok_def)
    show "task (admit t ?s) 0 = None" using ok p0 by (simp add: tsk sched_ok_def)
    show "length (s_tasks (admit t ?s)) \<le> unat (s_next_pid s + 1)"
      using len up un by (simp add: length_admit)
    show "1 \<le> s_next_pid s + 1" using un by (simp add: word_le_nat_alt)
    fix q ta assume "task (admit t ?s) q = Some ta"
    then show "t_pid ta = q" "t_priority ta = DEFAULT_PRIO" "t_state ta = Running \<Longrightarrow> current_pid s = q"
      using ok t unfolding tsk sched_ok_def by (auto split: if_splits)
  qed
qed

text \<open>Changing fields that scheduling does not look at.\<close>

definition keeps_scheduling :: "(tcb \<Rightarrow> tcb) \<Rightarrow> bool" where
  "keeps_scheduling f \<longleftrightarrow> (\<forall>t. t_pid (f t) = t_pid t \<and> t_state (f t) = t_state t \<and> t_priority (f t) = t_priority t)"

lemma sched_ok_update:
  assumes ok: "sched_ok s" and f: "keeps_scheduling f"
  shows "sched_ok (update_task p f s)"
proof -
  have st: "(\<exists>t. task (update_task p f s) q = Some t \<and> t_state t = x) \<longleftrightarrow>
      (\<exists>t. task s q = Some t \<and> t_state t = x)" for q x
    using f by (cases "task s q") (auto simp: keeps_scheduling_def)
  have fs: "t_pid t = q \<and> t_priority t = DEFAULT_PRIO \<and> (t_state t = Running \<longrightarrow> current_pid s = q)"
    if h: "task (update_task p f s) q = Some t" for q t
  proof -
    obtain t0 where "task s q = Some t0" "t_pid t = t_pid t0" "t_priority t = t_priority t0" "t_state t = t_state t0"
      using h f by (cases "task s q") (auto simp: keeps_scheduling_def split: if_splits)
    then show ?thesis using ok unfolding sched_ok_def by metis
  qed
  have zero: "task (update_task p f s) 0 = None" using ok by (simp add: sched_ok_def)
  show ?thesis
    unfolding sched_ok_def st update_task_fields
    using ok fs zero unfolding sched_ok_def by (simp del: task_update_task)
qed

text \<open>Exit: the current task becomes a zombie and the head of the queue runs.\<close>

lemma exit_commit_ok:
  assumes ok: "sched_ok s" and q: "rq_pids (s_rq s) = p # ps"
  shows "\<exists>s'. exit_commit s = Ret (p, s') \<and> sched_ok s' \<and> current_pid s' = p \<and> rq_pids (s_rq s') = ps \<and>
    (\<forall>x. task s' x = (if x = p then map_option (\<lambda>t. t\<lparr>t_state := Running\<rparr>) (task s p)
       else if x = current_pid s then map_option (\<lambda>t. t\<lparr>t_state := Zombie\<rparr>) (task s x)
       else task s x))"
proof -
  let ?c = "current_pid s" and ?s1 = "mark_zombie s"
  have rok: "rq_ok (s_rq s)" "default_only (s_rq s)" using ok by (simp_all add: sched_ok_def)
  have rq1: "s_rq ?s1 = s_rq s" and nx1: "s_next_pid ?s1 = s_next_pid s"
    and ln1: "length (s_tasks ?s1) = length (s_tasks s)"
    by (simp_all add: mark_zombie_def)
  obtain r where pop: "rq_pop (s_rq s) = (Some p, r)" "rq_ok r" "rq_pids r = ps"
    using rq_pop_spec [OF rok(1)] q by auto
  have dr: "default_only r" by (rule default_only_pop [OF rok pop(1)])
  have qd: "\<And>x. x \<in> set (p # ps) \<longleftrightarrow> (\<exists>t. task s x = Some t \<and> t_state t = Runnable)"
    and dist: "distinct (p # ps)" and zero: "task s 0 = None"
    and facts: "\<And>x t. task s x = Some t \<Longrightarrow> t_pid t = x \<and> t_priority t = DEFAULT_PRIO \<and> (t_state t = Running \<longrightarrow> ?c = x)"
    and curr: "?c \<noteq> 0 \<Longrightarrow> \<exists>t. task s ?c = Some t \<and> t_state t = Running"
    using ok q unfolding sched_ok_def by auto
  have c_notin: "?c \<notin> set (p # ps)"
    using curr qd zero by (metis option.distinct(1) option.inject task_state.distinct(1))
  then have ne: "p \<noteq> ?c" by auto
  obtain tp where tp: "task s p = Some tp" "t_state tp = Runnable" using qd [of p] by auto
  have p0: "p \<noteq> 0" using tp zero by auto
  let ?s = "update_task p (\<lambda>t. t\<lparr>t_state := Running\<rparr>) (?s1\<lparr>s_rq := r, s_current := ucast p\<rparr>)"
  have tz: "task ?s1 x = (if x = ?c then map_option (\<lambda>t. t\<lparr>t_state := Zombie\<rparr>) (task s x) else task s x)" for x
    using zero by (auto simp: mark_zombie_def)
  have tsk: "task ?s x = (if x = p then map_option (\<lambda>t. t\<lparr>t_state := Running\<rparr>) (task s p)
       else if x = ?c then map_option (\<lambda>t. t\<lparr>t_state := Zombie\<rparr>) (task s x) else task s x)" for x
    using ne by (auto simp: tz)
  have ex: "exit_commit s = Ret (p, ?s)"
    using tp(1) ne by (simp add: exit_commit_def Let_def rq1 pop(1) tz)
  have "sched_ok ?s"
    unfolding sched_ok_def
  proof (intro conjI allI impI)
    show "rq_ok (s_rq ?s)" "default_only (s_rq ?s)" using pop(2) dr by simp_all
    show "distinct (rq_pids (s_rq ?s))" using dist pop(3) by simp
    show "x \<in> set (rq_pids (s_rq ?s)) \<longleftrightarrow> (\<exists>t. task ?s x = Some t \<and> t_state t = Runnable)" for x
    proof -
      consider "x = p" | "x \<noteq> p" "x = ?c" | "x \<noteq> p" "x \<noteq> ?c" by blast
      then show ?thesis
      proof cases
        case 1
        then show ?thesis unfolding tsk using dist pop(3) tp by simp
      next
        case 2
        then show ?thesis unfolding tsk using c_notin pop(3) by auto
      next
        case 3
        then show ?thesis unfolding tsk using qd [of x] pop(3) by simp
      qed
    qed
    have cp: "current_pid ?s = p" by (simp add: current_pid_def)
    show "\<exists>t. task ?s (current_pid ?s) = Some t \<and> t_state t = Running"
      unfolding cp tsk using tp(1) by simp
    show "task ?s 0 = None" unfolding tsk using p0 zero by simp
    show "length (s_tasks ?s) \<le> unat (s_next_pid ?s)" "1 \<le> s_next_pid ?s"
      using ok by (simp_all add: ln1 nx1 sched_ok_def)
    fix x t assume x: "task ?s x = Some t"
    consider "x = p" | "x \<noteq> p" "x = ?c" | "x \<noteq> p" "x \<noteq> ?c" by blast
    then have "t_pid t = x \<and> t_priority t = DEFAULT_PRIO \<and> (t_state t = Running \<longrightarrow> current_pid ?s = x)"
    proof cases
      case 1
      then show ?thesis using x facts [of p] tp(1) unfolding tsk by (auto simp: current_pid_def)
    next
      case 2
      then show ?thesis using x facts [of x] unfolding tsk by auto
    next
      case 3
      then show ?thesis using x facts [of x] unfolding tsk by auto
    qed
    then show "t_pid t = x" "t_priority t = DEFAULT_PRIO" "t_state t = Running \<Longrightarrow> current_pid ?s = x" by blast+
  qed
  moreover have "current_pid ?s = p" by (simp add: current_pid_def)
  moreover have "rq_pids (s_rq ?s) = ps" using pop(3) by simp
  ultimately show ?thesis using ex tsk by blast
qed

text \<open>Dropping the slot of a zombie.\<close>

lemma sched_ok_drop:
  assumes ok: "sched_ok s" and z: "task s p = Some t" "t_state t = Zombie"
  shows "sched_ok (s\<lparr>s_tasks := (s_tasks s)[unat p := None]\<rparr>)"
    and "task (s\<lparr>s_tasks := (s_tasks s)[unat p := None]\<rparr>) q = (if q = p then None else task s q)"
proof -
  let ?s = "s\<lparr>s_tasks := (s_tasks s)[unat p := None]\<rparr>"
  have tsk: "task ?s q = (if q = p then None else task s q)" for q
    by (auto simp: task_def task_at_def nth_list_update word_unat_eq_iff)
  then show "task ?s q = (if q = p then None else task s q)" .
  have cp: "current_pid ?s = current_pid s" by (simp add: current_pid_def)
  have "current_pid s \<noteq> 0 \<Longrightarrow> current_pid s \<noteq> p"
    using ok z unfolding sched_ok_def by (metis option.inject task_state.distinct(10))
  then show "sched_ok ?s"
    using ok z unfolding sched_ok_def cp tsk by auto
qed

section \<open>Reachable scheduler states\<close>

text \<open>
  The events of the scheduler, in any order: a spawn, a yield or timer switch, an exit, a reap of a
  zombie, an update of fields that scheduling does not look at.
\<close>

inductive sched_event :: "sched \<Rightarrow> sched \<Rightarrow> bool" where
  ev_spawn: "unat (s_next_pid s) < 2 ^ 32 \<Longrightarrow>
     sched_event s (admit (new_tcb (ucast (s_next_pid s)) rsp entry phys virt cr3 name)
       (s\<lparr>s_next_pid := s_next_pid s + 1\<rparr>))"
| ev_switch: "sched_event s (snd (sched_step s))"
| ev_exit: "exit_commit s = Ret (p, s') \<Longrightarrow> sched_event s s'"
| ev_reap: "task s p = Some t \<Longrightarrow> t_state t = Zombie \<Longrightarrow>
     sched_event s (s\<lparr>s_tasks := (s_tasks s)[unat p := None]\<rparr>)"
| ev_update: "keeps_scheduling f \<Longrightarrow> sched_event s (update_task p f s)"

inductive sched_reachable :: "sched \<Rightarrow> bool" where
  sr_init: "sched_reachable sched_new"
| sr_step: "sched_reachable s \<Longrightarrow> sched_event s s' \<Longrightarrow> sched_reachable s'"

inductive_cases sched_eventE: "sched_event s s'"

lemma sched_event_ok:
  assumes "sched_event s s'" and ok: "sched_ok s"
  shows "sched_ok s'"
  using assms(1)
proof cases
  case (ev_spawn rsp entry phys virt cr3 name)
  then show ?thesis using sched_ok_admit [OF ok, of "new_tcb (ucast (s_next_pid s)) rsp entry phys virt cr3 name"]
    by (simp add: new_tcb_def)
next
  case ev_switch
  then show ?thesis using sched_ok_step [OF ok] by simp
next
  case (ev_exit p)
  show ?thesis
  proof (cases "rq_pids (s_rq s)")
    case Nil
    have "rq_pop (s_rq s) = (None, s_rq s)"
      using Nil ok rq_pop_spec [of "s_rq s"] by (simp add: sched_ok_def)
    moreover have "s_rq (mark_zombie s) = s_rq s" by (simp add: mark_zombie_def)
    ultimately show ?thesis using ev_exit by (simp add: exit_commit_def Let_def)
  next
    case (Cons q qs)
    then show ?thesis using exit_commit_ok [OF ok Cons] ev_exit by auto
  qed
next
  case (ev_reap p t)
  then show ?thesis using sched_ok_drop(1) [OF ok] by simp
next
  case (ev_update f p)
  then show ?thesis using sched_ok_update [OF ok] by simp
qed

lemma reachable_sched_ok: "sched_reachable s \<Longrightarrow> sched_ok s"
  by (induction rule: sched_reachable.induct) (auto simp: sched_ok_new intro: sched_event_ok)

section \<open>Round robin\<close>

text \<open>A run of scheduling steps rotates the running task through the queue.\<close>

lemma round_robin_step:
  assumes "sched_ok s" "current_pid s \<noteq> 0" "rq_pids (s_rq s) = p # ps"
  shows "current_pid (snd (sched_step s)) = p \<and> rq_pids (s_rq (snd (sched_step s))) = ps @ [current_pid s]"
  using sched_step_busy [OF assms(1,3)] assms(2) by auto

lemma round_robin_run:
  assumes "sched_ok s" "current_pid s \<noteq> 0" "k < length (rq_pids (s_rq s))"
  shows "current_pid (((\<lambda>s. snd (sched_step s)) ^^ Suc k) s) = rq_pids (s_rq s) ! k"
  using assms
proof (induction k arbitrary: s)
  case 0
  then obtain p ps where q: "rq_pids (s_rq s) = p # ps" by (cases "rq_pids (s_rq s)") auto
  then show ?case using round_robin_step [OF 0(1,2) q] by simp
next
  case (Suc k)
  obtain p ps where q: "rq_pids (s_rq s) = p # ps" using Suc.prems(3) by (cases "rq_pids (s_rq s)") auto
  note st = round_robin_step [OF Suc.prems(1,2) q]
  have ok: "sched_ok (snd (sched_step s))" by (rule sched_ok_step [OF Suc.prems(1)])
  have "p \<in> set (rq_pids (s_rq s))" using q by simp
  then have p0: "p \<noteq> 0" using Suc.prems(1) unfolding sched_ok_def by (metis option.distinct(1))
  have k: "k < length ps" using Suc.prems(3) q by simp
  have "current_pid (((\<lambda>s. snd (sched_step s)) ^^ Suc k) (snd (sched_step s))) = (ps @ [current_pid s]) ! k"
    using Suc.IH [OF ok] st p0 k by simp
  then show ?case
    unfolding funpow_Suc_right [of "Suc k"] o_apply q using k by (simp add: nth_append)
qed

text \<open>A zombie stays one until it is reaped.\<close>

lemma zombie_step:
  assumes ok: "sched_ok s" and z: "task s p = Some t" "t_state t = Zombie"
  shows "\<exists>t'. task (snd (sched_step s)) p = Some t' \<and> t_state t' = Zombie"
proof (cases "rq_pids (s_rq s)")
  case Nil
  then show ?thesis using sched_step_idle [OF ok] z by simp
next
  case (Cons q qs)
  have "p \<noteq> q"
    using ok z Cons unfolding sched_ok_def by (metis list.set_intros(1) option.inject task_state.distinct(5))
  moreover have "p \<noteq> current_pid s"
    using ok z unfolding sched_ok_def by (metis option.distinct(1) option.inject task_state.distinct(9))
  ultimately show ?thesis using sched_step_busy [OF ok Cons] z by auto
qed

lemma zombie_event:
  assumes "sched_event s s'" and ok: "sched_ok s" and z: "task s p = Some t" "t_state t = Zombie"
  shows "task s' p = None \<or> (\<exists>t'. task s' p = Some t' \<and> t_state t' = Zombie)"
  using assms(1)
proof cases
  case (ev_spawn rsp entry phys virt cr3 name)
  have "length (s_tasks s) \<le> unat (s_next_pid s)" using ok by (simp add: sched_ok_def)
  moreover have "unat p < length (s_tasks s)" using z(1) by (auto simp: task_def task_at_def split: if_splits)
  moreover have "unat (ucast (s_next_pid s) :: pid) = unat (s_next_pid s)"
    using ev_spawn(2) by (simp add: unsigned_ucast_eq take_bit_nat_eq_self)
  ultimately have "p \<noteq> ucast (s_next_pid s)" by auto
  moreover have "task (s\<lparr>s_next_pid := s_next_pid s + 1\<rparr>) p = task s p" by (simp add: task_def)
  ultimately show ?thesis using z by (simp add: ev_spawn(1) task_admit new_tcb_def)
next
  case ev_switch
  then show ?thesis using zombie_step [OF ok z] by blast
next
  case (ev_exit q)
  show ?thesis
  proof (cases "rq_pids (s_rq s)")
    case Nil
    have "rq_pop (s_rq s) = (None, s_rq s)"
      using Nil ok rq_pop_spec [of "s_rq s"] by (simp add: sched_ok_def)
    moreover have "s_rq (mark_zombie s) = s_rq s" by (simp add: mark_zombie_def)
    ultimately show ?thesis using ev_exit by (simp add: exit_commit_def Let_def)
  next
    case (Cons x xs)
    have "p \<noteq> x"
      using ok z Cons unfolding sched_ok_def by (metis list.set_intros(1) option.inject task_state.distinct(5))
    then show ?thesis using exit_commit_ok [OF ok Cons] ev_exit z by auto
  qed
next
  case (ev_reap q u)
  then show ?thesis using sched_ok_drop(2) [OF ok, of q u p] z by auto
next
  case (ev_update f q)
  then show ?thesis using z by (auto simp: keeps_scheduling_def)
qed

section \<open>Properties\<close>

text \<open>
  C11. Scheduling invariant. In every state that any sequence of spawns, yields, timer switches,
  exits, reaps and field updates can reach, the run queue holds exactly the runnable tasks, each once;
  at most the current task is running, and the current task is; pids are slot numbers; and the
  mask of the queue never claims an empty level or hides a non-empty one.
\<close>

theorem scheduler_invariant:
  assumes "sched_reachable s"
  shows "distinct (rq_pids (s_rq s)) \<and>
    (\<forall>p. p \<in> set (rq_pids (s_rq s)) \<longleftrightarrow> (\<exists>t. task s p = Some t \<and> t_state t = Runnable)) \<and>
    (\<forall>p t. task s p = Some t \<longrightarrow> t_pid t = p \<and> (t_state t = Running \<longrightarrow> current_pid s = p)) \<and>
    (current_pid s \<noteq> 0 \<longrightarrow> (\<exists>t. task s (current_pid s) = Some t \<and> t_state t = Running)) \<and>
    (\<forall>i < 8. bit (rq_mask (s_rq s)) i \<longleftrightarrow> rq_q (s_rq s) ! i \<noteq> [])"
  using reachable_sched_ok [OF assms] unfolding sched_ok_def rq_ok_def NPRIO_def by blast

text \<open>Three tasks, the first of them running.\<close>

definition demo_sched :: sched where
  "demo_sched =
     (let spawn1 = (\<lambda>s. admit (new_tcb (ucast (s_next_pid s)) 0 0 0 0 0 ''t'') (s\<lparr>s_next_pid := s_next_pid s + 1\<rparr>))
      in snd (sched_step (spawn1 (spawn1 (spawn1 sched_new)))))"

lemma demo_sched_reachable: "sched_reachable demo_sched"
proof -
  let ?f = "\<lambda>s. admit (new_tcb (ucast (s_next_pid s)) 0 0 0 0 0 ''t'') (s\<lparr>s_next_pid := s_next_pid s + 1\<rparr>)"
  have nx: "s_next_pid (admit t s) = s_next_pid s" for t s by (simp add: admit_def Let_def)
  have 1: "sched_reachable (?f sched_new)"
    by (rule sr_step [OF sr_init ev_spawn]) (simp add: sched_new_def)
  have 2: "sched_reachable (?f (?f sched_new))"
    by (rule sr_step [OF 1 ev_spawn]) (simp add: nx sched_new_def)
  have 3: "sched_reachable (?f (?f (?f sched_new)))"
    by (rule sr_step [OF 2 ev_spawn]) (simp add: nx sched_new_def)
  show ?thesis
    unfolding demo_sched_def Let_def by (rule sr_step [OF 3 ev_switch])
qed

lemma demo_sched_queue: "rq_pids (s_rq demo_sched) = [2, 3]" "current_pid demo_sched = 1"
  by code_simp+

lemma scheduler_invariant_witness:
  "distinct (rq_pids (s_rq demo_sched)) \<and> rq_pids (s_rq demo_sched) = [2, 3] \<and>
   (\<exists>t. task demo_sched 1 = Some t \<and> t_state t = Running)"
  using scheduler_invariant [OF demo_sched_reachable] by (simp add: demo_sched_queue)

text \<open>
  C12. Bounded waiting. If the task at position \<open>k\<close> of the run queue is runnable now, it is the
  running task after exactly \<open>k + 1\<close> switches by yield or timer, whatever the other tasks are: the
  scheduler is a round robin, so nobody starves.
\<close>

theorem scheduler_round_robin:
  assumes "sched_reachable s" and "current_pid s \<noteq> 0" and "k < length (rq_pids (s_rq s))"
  shows "current_pid (((\<lambda>s. snd (sched_step s)) ^^ Suc k) s) = rq_pids (s_rq s) ! k"
  by (rule round_robin_run [OF reachable_sched_ok [OF assms(1)] assms(2,3)])

lemma scheduler_round_robin_witness:
  "current_pid (((\<lambda>s. snd (sched_step s)) ^^ Suc 1) demo_sched) = 3"
  using scheduler_round_robin [OF demo_sched_reachable, of 1] by (simp add: demo_sched_queue)

text \<open>
  The dead do not run. Once a task is a zombie, no sequence of scheduler events makes it
  anything else, short of removing its slot: it is never on the run queue and never current again.
\<close>

theorem zombie_never_runs:
  assumes "sched_reachable s" and "sched_event s s'" and "task s p = Some t" and "t_state t = Zombie"
  shows "(task s' p = None \<or> (\<exists>t'. task s' p = Some t' \<and> t_state t' = Zombie)) \<and>
    p \<notin> set (rq_pids (s_rq s')) \<and> (p \<noteq> 0 \<longrightarrow> current_pid s' \<noteq> p)"
proof -
  have ok: "sched_ok s'" using assms(1,2) by (intro reachable_sched_ok) (rule sr_step)
  note z = zombie_event [OF assms(2) reachable_sched_ok [OF assms(1)] assms(3,4)]
  have "p \<notin> set (rq_pids (s_rq s'))"
    using z ok unfolding sched_ok_def by (metis option.distinct(1) option.inject task_state.distinct(5))
  moreover have "p \<noteq> 0 \<longrightarrow> current_pid s' \<noteq> p"
    using z ok unfolding sched_ok_def by (metis option.distinct(1) option.inject task_state.distinct(9))
  ultimately show ?thesis using z by blast
qed

text \<open>The demo state after its running task has exited.\<close>

definition demo_exited :: sched where
  "demo_exited = (case exit_commit demo_sched of Ret (_, s) \<Rightarrow> s | Panic _ \<Rightarrow> demo_sched)"

lemma demo_exit: "exit_commit demo_sched = Ret (2, demo_exited)"
  using exit_commit_ok [OF reachable_sched_ok [OF demo_sched_reachable] demo_sched_queue(1)]
  by (auto simp: demo_exited_def)

lemma demo_exited_zombie: "map_option t_state (task demo_exited 1) = Some Zombie"
  by code_simp

lemma zombie_never_runs_witness:
  "1 \<notin> set (rq_pids (s_rq (snd (sched_step demo_exited)))) \<and> current_pid (snd (sched_step demo_exited)) \<noteq> 1"
proof -
  obtain t where t: "task demo_exited 1 = Some t" "t_state t = Zombie" using demo_exited_zombie by auto
  have r: "sched_reachable demo_exited" by (rule sr_step [OF demo_sched_reachable ev_exit [OF demo_exit]])
  show ?thesis using zombie_never_runs [OF r ev_switch t] by simp
qed

end
