(* ===== verification/Lifecycle.thy ===== *)
theory Lifecycle
  imports Sched
begin

text \<open>
  What a task owns, from spawn to reap, and what a context switch preserves
  (\<open>kernel/src/scheduler/mod.rs\<close>). The first part is the register swap and the window in which a
  timer interrupt breaks it. The second part ties the scheduler to the frame allocator:
  \<open>kernel_owns\<close> says that every task's kernel stack, page tables, pages and user stack
  are owned frames that no other task has, which is what makes reaping return everything
  without a double free.
\<close>

section \<open>The register swap\<close>

lemma stack_words_apart: "apart (x - 8) 8 (x - 16) 8" "apart (x - 16) 8 (x - 8) 8" for x :: u64
proof -
  have a: "x - 16 - (x - 8) = - 8" "x - 8 - (x - 16) = 8" by simp_all
  have b: "unat (- 8 :: u64) = 18446744073709551608" using unat_u64_diff [of 0 8] by simp
  show "apart (x - 8) 8 (x - 16) 8" "apart (x - 16) 8 (x - 8) 8"
    unfolding apart_def a b by simp_all
qed

text \<open>Saving a context and resuming it gives the registers back.\<close>

lemma context_save_resume:
  assumes "context_save hhdm resume cpu m = (ctx, m1)"
    and "load64 m2 (virt_to_phys hhdm (c_rsp cpu - 16)) = load64 m1 (virt_to_phys hhdm (c_rsp cpu - 16))"
    and "load64 m2 (virt_to_phys hhdm (c_rsp cpu - 8)) = load64 m1 (virt_to_phys hhdm (c_rsp cpu - 8))"
  shows "context_resume hhdm ctx m2 = cpu\<lparr>c_rip := resume\<rparr>"
proof -
  let ?a = "virt_to_phys hhdm (c_rsp cpu - 8)" and ?b = "virt_to_phys hhdm (c_rsp cpu - 16)"
  have ctx: "ctx = cpu\<lparr>c_rsp := c_rsp cpu - 16, c_rip := resume\<rparr>"
    and m1: "m1 = store64 (store64 m ?a (c_rbp cpu)) ?b (c_rbx cpu)"
    using assms(1) by (auto simp: context_save_def Let_def)
  have ab: "?a = (c_rsp cpu - hhdm) - 8" "?b = (c_rsp cpu - hhdm) - 16"
    by (simp_all add: virt_to_phys_def algebra_simps)
  have "apart ?a 8 ?b 8" unfolding ab by (rule stack_words_apart)
  then have l: "load64 m1 ?a = c_rbp cpu" "load64 m1 ?b = c_rbx cpu"
    unfolding m1 by (simp_all add: load_store_apart)
  have s: "c_rsp cpu - 16 + 8 = c_rsp cpu - 8" by simp
  show ?thesis
    unfolding ctx context_resume_def by (simp add: s assms(2,3) l)
qed

text \<open>
  The timer interrupt between \<open>switch_commit\<close> and the register swap: the processor still runs on
  the outgoing task's stack while the bookkeeping already names the incoming one.
\<close>

definition preempted_switch :: "u64 \<Rightarrow> u64 \<Rightarrow> pid \<Rightarrow> kernel \<Rightarrow> kernel" where
  "preempted_switch hhdm resume next_pid k =
     (case switch_commit next_pid (k_sched k) of
        (sw, s1) \<Rightarrow> try_preempt hhdm resume True True (k\<lparr>k_sched := s1\<rparr>))"

lemma yield_now_step:
  "yield_now hhdm resume k =
     (case sched_step (k_sched k) of (sw, s1) \<Rightarrow> switch_finish hhdm resume sw (k\<lparr>k_sched := s1\<rparr>))"
  by (auto simp: yield_now_def sched_step_def switch_to_def switch_finish_def split: option.splits prod.splits)

lemma context_save_fields:
  "fst (context_save hhdm resume cpu m) = cpu\<lparr>c_rsp := c_rsp cpu - 16, c_rip := resume\<rparr>"
  by (simp add: context_save_def Let_def)

lemma yield_busy:
  assumes ok: "sched_ok (k_sched k)" and c: "current_pid (k_sched k) \<noteq> 0"
    and q: "rq_pids (s_rq (k_sched k)) = n # ns"
  obtains s1 m1 t tc where
    "sched_step (k_sched k) = (Some (Some (current_pid (k_sched k)), n), s1)"
    "sched_ok s1" "current_pid s1 = n" "rq_pids (s_rq s1) = ns @ [current_pid (k_sched k)]"
    "task (k_sched k) n = Some t" "task s1 n = Some (t\<lparr>t_state := Running\<rparr>)"
    "task (k_sched k) (current_pid (k_sched k)) = Some tc"
    "task s1 (current_pid (k_sched k)) = Some (tc\<lparr>t_state := Runnable\<rparr>)" "n \<noteq> 0" "n \<noteq> current_pid (k_sched k)"
proof -
  let ?s = "k_sched k" and ?c = "current_pid (k_sched k)"
  obtain s1 where 1: "sched_step ?s = (Some (Some ?c, n), s1)" "current_pid s1 = n"
    "rq_pids (s_rq s1) = ns @ [?c]"
    "\<And>x. task s1 x = (if x = n then map_option (\<lambda>t. t\<lparr>t_state := Running\<rparr>) (task ?s n)
       else if x = ?c then map_option (\<lambda>t. t\<lparr>t_state := Runnable\<rparr>) (task ?s x) else task ?s x)"
    using sched_step_busy [OF ok q] c by auto
  obtain t where t: "task ?s n = Some t" "t_state t = Runnable"
    using ok q unfolding sched_ok_def by (metis list.set_intros(1))
  obtain tc where tc: "task ?s ?c = Some tc" "t_state tc = Running"
    using ok c unfolding sched_ok_def by metis
  have ne: "n \<noteq> ?c" using t tc by auto
  have "n \<noteq> 0" using ok t(1) by (auto simp: sched_ok_def)
  moreover have "sched_ok s1" using sched_ok_step [OF ok] 1(1) by simp
  ultimately show ?thesis using that [OF 1(1) _ 1(2,3) t(1) _ tc(1)] 1(4) t(1) tc(1) ne by simp
qed

lemma yield_spec:
  assumes ok: "sched_ok (k_sched k)" and c: "current_pid (k_sched k) \<noteq> 0"
    and q: "rq_pids (s_rq (k_sched k)) = n # ns" and t: "task (k_sched k) n = Some t"
  shows "\<exists>k' tc. k' = yield_now hhdm resume k \<and> k_cpu k' = t_ctx t \<and> k_cr3 k' = t_cr3 t \<and>
    current_pid (k_sched k') = n \<and> task (k_sched k') (current_pid (k_sched k)) = Some tc \<and>
    t_state tc = Runnable \<and> rq_pids (s_rq (k_sched k')) = ns @ [current_pid (k_sched k)] \<and>
    (\<forall>m. (\<forall>d \<in> {8, 16}. load64 m (virt_to_phys hhdm (c_rsp (k_cpu k) - d)) =
            load64 (m_mem (k_mach k')) (virt_to_phys hhdm (c_rsp (k_cpu k) - d))) \<longrightarrow>
         context_resume hhdm (t_ctx tc) m = (k_cpu k)\<lparr>c_rip := resume\<rparr>)"
proof -
  let ?c = "current_pid (k_sched k)"
  obtain s1 t' tc where 1: "sched_step (k_sched k) = (Some (Some ?c, n), s1)"
    "current_pid s1 = n" "rq_pids (s_rq s1) = ns @ [?c]" "task (k_sched k) n = Some t'"
    "task s1 n = Some (t'\<lparr>t_state := Running\<rparr>)" "task s1 ?c = Some (tc\<lparr>t_state := Runnable\<rparr>)" "n \<noteq> ?c"
    using yield_busy [OF ok c q] by metis
  obtain ctx m1 where sv: "context_save hhdm resume (k_cpu k) (m_mem (k_mach k)) = (ctx, m1)" by fastforce
  have t': "t' = t" using t 1(4) by simp
  let ?s2 = "update_task ?c (\<lambda>u. u\<lparr>t_ctx := ctx\<rparr>) s1"
  have fin: "yield_now hhdm resume k = k\<lparr>k_cr3 := t_cr3 t, k_sched := ?s2,
      k_mach := (k_mach k)\<lparr>m_mem := m1\<rparr>, k_cpu := t_ctx t\<rparr>"
    using 1(7) by (simp add: yield_now_step 1(1,5) switch_finish_def context_switch_def sv Let_def t')
  show ?thesis
    unfolding fin
    using 1(2,3,6) context_save_resume [OF sv]
    by (intro exI [of _ "k\<lparr>k_cr3 := t_cr3 t, k_sched := ?s2,
          k_mach := (k_mach k)\<lparr>m_mem := m1\<rparr>, k_cpu := t_ctx t\<rparr>"]
        exI [of _ "tc\<lparr>t_state := Runnable, t_ctx := ctx\<rparr>"]) simp
qed

definition preempted_yield :: "u64 \<Rightarrow> u64 \<Rightarrow> kernel \<Rightarrow> kernel" where
  "preempted_yield hhdm resume k =
     (case rq_pop (s_rq (k_sched k)) of
        (None, r) \<Rightarrow> k\<lparr>k_sched := (k_sched k)\<lparr>s_rq := r\<rparr>\<rparr>
      | (Some n, r) \<Rightarrow> preempted_switch hhdm resume n (k\<lparr>k_sched := (k_sched k)\<lparr>s_rq := r\<rparr>\<rparr>))"

lemma preempted_yield_step:
  assumes "sched_step (k_sched k) = (Some sw, s1)"
  shows "preempted_yield hhdm resume k = yield_now hhdm resume (k\<lparr>k_sched := s1\<rparr>)"
  using assms
  by (auto simp: preempted_yield_def sched_step_def preempted_switch_def try_preempt_def
      split: option.splits prod.splits)

lemma preempted_spec:
  assumes ok: "sched_ok (k_sched k)" and c: "current_pid (k_sched k) \<noteq> 0"
    and q: "rq_pids (s_rq (k_sched k)) = n # ns"
  shows "\<exists>t. task (k_sched (preempted_yield hhdm resume k)) n = Some t \<and> t_state t = Runnable \<and>
    n \<in> set (rq_pids (s_rq (k_sched (preempted_yield hhdm resume k)))) \<and>
    t_ctx t = (k_cpu k)\<lparr>c_rsp := c_rsp (k_cpu k) - 16, c_rip := resume\<rparr>"
proof -
  let ?c = "current_pid (k_sched k)"
  obtain s1 where 1: "sched_step (k_sched k) = (Some (Some ?c, n), s1)" "sched_ok s1"
    "current_pid s1 = n" "rq_pids (s_rq s1) = ns @ [?c]" "n \<noteq> 0"
    using yield_busy [OF ok c q] by metis
  let ?k = "k\<lparr>k_sched := s1\<rparr>"
  have k1: "sched_ok (k_sched ?k)" "current_pid (k_sched ?k) \<noteq> 0" using 1 by simp_all
  obtain x xs where x: "rq_pids (s_rq (k_sched ?k)) = x # xs" using 1(4) by (cases ns) auto
  obtain s2 t tc where 2: "sched_step (k_sched ?k) = (Some (Some (current_pid (k_sched ?k)), x), s2)"
    "rq_pids (s_rq s2) = xs @ [current_pid (k_sched ?k)]"
    "task s2 x = Some (t\<lparr>t_state := Running\<rparr>)"
    "task s2 (current_pid (k_sched ?k)) = Some (tc\<lparr>t_state := Runnable\<rparr>)" "x \<noteq> current_pid (k_sched ?k)"
    using yield_busy [OF k1 x] by metis
  obtain ctx m1 where sv: "context_save hhdm resume (k_cpu k) (m_mem (k_mach k)) = (ctx, m1)" by fastforce
  have "ctx = (k_cpu k)\<lparr>c_rsp := c_rsp (k_cpu k) - 16, c_rip := resume\<rparr>"
    using context_save_fields [of hhdm resume "k_cpu k" "m_mem (k_mach k)"] sv by simp
  moreover have "k_sched (preempted_yield hhdm resume k) = update_task n (\<lambda>u. u\<lparr>t_ctx := ctx\<rparr>) s2"
    using 2 1(3) by (simp add: preempted_yield_step [OF 1(1)] yield_now_step switch_finish_def
        context_switch_def sv Let_def)
  ultimately show ?thesis using 2 1(3) by simp
qed

section \<open>What a task owns\<close>

definition reap_list :: "tcb \<Rightarrow> u64 list" where
  "reap_list t =
     (case t_isolated_table_frames t of None \<Rightarrow> [] | Some tf \<Rightarrow> tf @ [t_isolated_user_stack_phys t]) @
     stack_frames (t_stack_phys t)"

definition held :: "sched \<Rightarrow> pid \<Rightarrow> u64 set" where
  "held s p = (case task s p of None \<Rightarrow> {} | Some t \<Rightarrow> set (reap_list t))"

definition all_held :: "sched \<Rightarrow> u64 set" where
  "all_held s = (\<Union>p. held s p)"

definition kernel_owns :: "u64 set \<Rightarrow> kernel \<Rightarrow> bool" where
  "kernel_owns R k \<longleftrightarrow> sched_ok (k_sched k) \<and>
     owns (k_mach k) (R \<union> all_held (k_sched k)) \<and> R \<inter> all_held (k_sched k) = {} \<and>
     (\<forall>p t. task (k_sched k) p = Some t \<longrightarrow> distinct (reap_list t)) \<and>
     (\<forall>p q. p \<noteq> q \<longrightarrow> held (k_sched k) p \<inter> held (k_sched k) q = {})"

lemma free_all_append:
  "free_all (xs @ ys) s = bind_outcome (free_all xs s) (free_all ys)"
proof (induction xs arbitrary: s)
  case Nil
  then show ?case by simp
next
  case (Cons f fs)
  then show ?case by (cases "free_frame f s") auto
qed

lemma bind_outcome_assoc: "bind_outcome (bind_outcome c f) g = bind_outcome c (\<lambda>x. bind_outcome (f x) g)"
  by (cases c) auto

text \<open>\<open>reap\<close> frees exactly the list of the task, in this order.\<close>

lemma reap_unfold:
  "reap p k =
     (case task (k_sched k) p of
        None \<Rightarrow> Panic ''reap: pid has no Tcb''
      | Some t \<Rightarrow>
          if t_state t \<noteq> Zombie then Panic ''reap: pid is not Zombie''
          else bind_outcome (free_all (reap_list t) (k_mach k))
            (\<lambda>m. Ret (k\<lparr>k_sched := (k_sched k)\<lparr>s_tasks := (s_tasks (k_sched k))[unat p := None]\<rparr>, k_mach := m\<rparr>)))"
proof -
  have f1: "free_all [x] = free_frame x" for x
  proof
    fix s show "free_all [x] s = free_frame x s" by (cases "free_frame x s") auto
  qed
  show ?thesis
    by (auto simp: reap_def Let_def reap_list_def teardown_isolated_process_def free_all_append
        bind_outcome_assoc f1 split: option.splits)
qed

lemma reap_owns:
  assumes k: "kernel_owns R k" and t: "task (k_sched k) p = Some t" and z: "t_state t = Zombie"
  shows "\<exists>k'. reap p k = Ret k' \<and> kernel_owns R k' \<and>
    (\<forall>q. task (k_sched k') q = (if q = p then None else task (k_sched k) q)) \<and>
    avail (k_mach k') = avail (k_mach k) + length (reap_list t) \<and>
    (\<forall>f \<in> set (reap_list t). page_zero (m_mem (k_mach k')) f) \<and>
    (\<forall>x. page_base x \<notin> set (reap_list t) \<longrightarrow> m_mem (k_mach k') x = m_mem (k_mach k) x)"
proof -
  let ?s = "k_sched k"
  let ?s' = "?s\<lparr>s_tasks := (s_tasks ?s)[unat p := None]\<rparr>"
  have ok: "sched_ok ?s" and own: "owns (k_mach k) (R \<union> all_held ?s)" and disj: "R \<inter> all_held ?s = {}"
    and dist: "distinct (reap_list t)" and pw: "\<And>x y. x \<noteq> y \<Longrightarrow> held ?s x \<inter> held ?s y = {}"
    using k t unfolding kernel_owns_def by blast+
  have hp: "held ?s p = set (reap_list t)" by (simp add: held_def t)
  then have sub: "set (reap_list t) \<subseteq> R \<union> all_held ?s" by (auto simp: all_held_def)
  obtain m where m: "free_all (reap_list t) (k_mach k) = Ret m"
    "owns m (R \<union> all_held ?s - set (reap_list t))" "\<forall>f \<in> set (reap_list t). page_zero (m_mem m) f"
    "\<forall>x. page_base x \<notin> set (reap_list t) \<longrightarrow> m_mem m x = m_mem (k_mach k) x"
    using free_all_owns [OF own dist sub] by blast
  have tsk: "task ?s' q = (if q = p then None else task ?s q)" for q
    by (rule sched_ok_drop(2) [OF ok t z])
  have held': "held ?s' q = (if q = p then {} else held ?s q)" for q by (simp add: held_def tsk)
  have all': "all_held ?s' = all_held ?s - set (reap_list t)"
  proof -
    have "x \<in> all_held ?s' \<longleftrightarrow> x \<in> all_held ?s - set (reap_list t)" for x
    proof -
      have "x \<in> all_held ?s' \<longleftrightarrow> (\<exists>q. q \<noteq> p \<and> x \<in> held ?s q)" by (auto simp: all_held_def held')
      also have "\<dots> \<longleftrightarrow> x \<in> all_held ?s \<and> x \<notin> held ?s p"
      proof -
        have "\<forall>q. q \<noteq> p \<longrightarrow> held ?s q \<inter> held ?s p = {}" using pw [of _ p] by simp
        then show ?thesis unfolding all_held_def by (metis UN_iff UNIV_I disjoint_iff)
      qed
      finally show ?thesis by (simp add: hp)
    qed
    then show ?thesis by blast
  qed
  have "R \<inter> set (reap_list t) = {}" using disj hp by (auto simp: all_held_def)
  then have F: "R \<union> all_held ?s - set (reap_list t) = R \<union> all_held ?s'" unfolding all' by auto
  let ?k = "k\<lparr>k_sched := ?s', k_mach := m\<rparr>"
  have "kernel_owns R ?k"
    unfolding kernel_owns_def
  proof (intro conjI allI impI)
    show "sched_ok (k_sched ?k)" using sched_ok_drop(1) [OF ok t z] by simp
    show "owns (k_mach ?k) (R \<union> all_held (k_sched ?k))" using m(2) F by simp
    show "R \<inter> all_held (k_sched ?k) = {}" using disj all' by auto
    show "distinct (reap_list u)" if "task (k_sched ?k) q = Some u" for q u
      using that k unfolding kernel_owns_def by (auto simp: tsk split: if_splits)
    show "held (k_sched ?k) x \<inter> held (k_sched ?k) y = {}" if "x \<noteq> y" for x y
      using pw [OF that] by (simp add: held')
  qed
  moreover have "reap p k = Ret ?k" using t z m(1) by (simp add: reap_unfold)
  ultimately show ?thesis using m(3,4) tsk free_all_avail [OF m(1)] by (intro exI [of _ ?k]) simp
qed

section \<open>Spawning\<close>

lemma aligned_16: "page_aligned x \<Longrightarrow> x AND NOT 0xF = x"
proof -
  assume "page_aligned x"
  then have "x = x AND NOT 0xFFF" by (simp add: page_aligned_base page_base_def)
  then have "x AND NOT 0xF = x AND (NOT 0xFFF AND NOT 0xF)" by (metis and.assoc)
  also have "(NOT 0xFFF AND NOT 0xF :: u64) = NOT 0xFFF" by simp
  finally show ?thesis using \<open>x = x AND NOT 0xFFF\<close> by simp
qed

lemma stack_frames_eq: "set (stack_frames f) = frames_from f 4" "distinct (stack_frames f)"
proof -
  have "stack_frames f = [f, f + 0x1000, f + 0x2000, f + 0x3000]"
    by (simp add: stack_frames_def PAGE_SIZE_def upt_rec)
  then show "distinct (stack_frames f)" by simp
  show "set (stack_frames f) = frames_from f 4"
    by (auto simp: stack_frames_def frames_from_def PAGE_SIZE_def mult.commute)
qed

text \<open>The word that \<open>init_stack\<close> writes is the last of the stack's last page.\<close>

lemma init_stack_spec:
  assumes h: "page_aligned hhdm" and f: "page_aligned f"
  shows "init_stack hhdm (f + hhdm + 4 * PAGE_SIZE) entry m =
    (f + hhdm + 0x3FF8, store64 m (entry_addr (f + 0x3000) 511) entry)"
proof -
  have "page_aligned (4 * PAGE_SIZE)" by (simp add: page_aligned_def page_off_def PAGE_SIZE_def)
  then have "page_aligned (f + hhdm + 4 * PAGE_SIZE)"
    using h f by (intro page_aligned_add) simp_all
  then have al: "(f + hhdm + 4 * PAGE_SIZE) AND NOT 0xF = f + hhdm + 4 * PAGE_SIZE"
    by (rule aligned_16)
  show ?thesis
    unfolding init_stack_def Let_def al
    by (simp add: PAGE_SIZE_def virt_to_phys_def entry_addr_def algebra_simps)
qed

lemma spawn_owns:
  assumes k: "kernel_owns R k" and h: "page_aligned hhdm" and n: "unat (s_next_pid (k_sched k)) < 2 ^ 32"
    and sp: "4 \<le> spare (k_mach k)"
  shows "\<exists>pid t k'. spawn hhdm name entry k = Ret (pid, k') \<and> kernel_owns R k' \<and>
    (\<forall>q. task (k_sched k') q = (if q = pid then Some t else task (k_sched k) q)) \<and>
    pid = ucast (s_next_pid (k_sched k)) \<and> task (k_sched k) pid = None \<and>
    t_state t = Runnable \<and> t_caps t = 0 \<and> t_open_files t = [] \<and> t_isolated_table_frames t = None \<and>
    rq_pids (s_rq (k_sched k')) = rq_pids (s_rq (k_sched k)) @ [pid] \<and>
    k_cr3 k' = k_cr3 k \<and> k_cpu k' = k_cpu k \<and> current_pid (k_sched k') = current_pid (k_sched k) \<and>
    (\<forall>x. page_base x \<in> R \<union> all_held (k_sched k) \<longrightarrow> m_mem (k_mach k') x = m_mem (k_mach k) x) \<and>
    load64 (m_mem (k_mach k')) (virt_to_phys hhdm (c_rsp (t_ctx t))) = entry \<and> c_rip (t_ctx t) = entry"
proof -
  let ?s = "k_sched k" and ?F = "R \<union> all_held (k_sched k)"
  let ?pid = "ucast (s_next_pid ?s) :: pid"
  have ok: "sched_ok ?s" and own: "owns (k_mach k) ?F" and disj: "R \<inter> all_held ?s = {}"
    and dist: "\<And>p t. task ?s p = Some t \<Longrightarrow> distinct (reap_list t)"
    and pw: "\<And>x y. x \<noteq> y \<Longrightarrow> held ?s x \<inter> held ?s y = {}"
    using k unfolding kernel_owns_def by blast+
  obtain f m1 where al: "alloc_contiguous_frames 4 (k_mach k) = (Some f, m1)"
    using alloc_contiguous_spare [OF own _ sp] by auto
  have "(4 :: nat) < 2 ^ 40" by simp
  note a = alloc_contiguous_owns [OF own this al]
  have own1: "owns m1 (?F \<union> frames_from f 4)" and fresh: "frames_from f 4 \<inter> ?F = {}" and mem: "m_mem m1 = m_mem (k_mach k)"
    and fa: "page_aligned f"
    using a by auto
  let ?w = "f + 0x3000"
  have w: "?w \<in> frames_from f 4" by (auto simp: frames_from_def intro!: image_eqI [of _ _ 3])
  have wa: "page_aligned ?w" using owns_aligned [OF own1] w by blast
  let ?mem = "store64 (m_mem m1) (entry_addr ?w 511) entry"
  have outside: "?mem x = m_mem (k_mach k) x" if "page_base x \<noteq> ?w" for x
    using store_entry_outside [OF wa _ that, of 511] by (simp add: mem)
  let ?t = "new_tcb ?pid (f + hhdm + 0x3FF8) entry f (f + hhdm) (k_cr3 k) name"
  let ?s' = "admit ?t (?s\<lparr>s_next_pid := s_next_pid ?s + 1\<rparr>)"
  let ?k = "k\<lparr>k_sched := ?s', k_mach := m1\<lparr>m_mem := ?mem\<rparr>\<rparr>"
  have st: "spawn hhdm name entry k = Ret (?pid, ?k)"
    by (simp add: spawn_def Let_def al init_stack_spec [OF h fa])
  have tsk: "task ?s' q = (if q = ?pid then Some ?t else task ?s q)" for q
    using task_admit [of ?t "?s\<lparr>s_next_pid := s_next_pid ?s + 1\<rparr>" q] by (simp add: task_def new_tcb_def)
  have none: "task ?s ?pid = None"
  proof -
    have "unat ?pid = unat (s_next_pid ?s)" using n by (simp add: unsigned_ucast_eq take_bit_nat_eq_self)
    moreover have "length (s_tasks ?s) \<le> unat (s_next_pid ?s)" using ok by (simp add: sched_ok_def)
    ultimately show ?thesis by (simp add: task_def task_at_def)
  qed
  have rl: "reap_list ?t = stack_frames f" by (simp add: reap_list_def new_tcb_def)
  have held': "held ?s' q = (if q = ?pid then frames_from f 4 else held ?s q)" for q
    by (simp add: held_def tsk rl stack_frames_eq)
  have hn: "held ?s ?pid = {}" by (simp add: held_def none)
  have all': "all_held ?s' = all_held ?s \<union> frames_from f 4"
  proof -
    have "x \<in> all_held ?s' \<longleftrightarrow> x \<in> frames_from f 4 \<or> (\<exists>q. q \<noteq> ?pid \<and> x \<in> held ?s q)" for x
      by (auto simp: all_held_def held' split: if_splits)
    moreover have "(\<exists>q. q \<noteq> ?pid \<and> x \<in> held ?s q) \<longleftrightarrow> x \<in> all_held ?s" for x
      unfolding all_held_def using hn by (metis UN_iff UNIV_I empty_iff)
    ultimately show ?thesis by blast
  qed
  have "owns (m1\<lparr>m_mem := ?mem\<rparr>) (?F \<union> frames_from f 4)"
  proof (rule owns_mem_update [OF own1])
    show "?mem x = m_mem m1 x" if "page_base x \<notin> ?F \<union> frames_from f 4" for x
    proof -
      have "page_base x \<noteq> ?w" using that w by (metis UnI2)
      then show ?thesis using outside by (simp add: mem)
    qed
  qed
  then have own': "owns (m1\<lparr>m_mem := ?mem\<rparr>) (R \<union> all_held ?s')" by (simp add: all' Un_assoc)
  have "kernel_owns R ?k"
    unfolding kernel_owns_def
  proof (intro conjI allI impI)
    show "sched_ok (k_sched ?k)"
      using sched_ok_admit [OF ok _ n, of ?t] by (simp add: new_tcb_def)
    show "owns (k_mach ?k) (R \<union> all_held (k_sched ?k))" using own' by simp
    show "R \<inter> all_held (k_sched ?k) = {}" using disj fresh by (auto simp: all')
    show "distinct (reap_list u)" if "task (k_sched ?k) q = Some u" for q u
      using that dist rl stack_frames_eq(2) by (auto simp: tsk split: if_splits)
    show "held (k_sched ?k) x \<inter> held (k_sched ?k) y = {}" if "x \<noteq> y" for x y
      using pw [OF that] that fresh by (auto simp: held' all_held_def)
  qed
  moreover have "rq_pids (s_rq ?s') = rq_pids (s_rq ?s) @ [?pid]"
    using ok default_only_push(2) [of "s_rq ?s" ?pid] by (simp add: admit_def Let_def new_tcb_def sched_ok_def)
  moreover have "m_mem (k_mach ?k) x = m_mem (k_mach k) x" if "page_base x \<in> ?F" for x
  proof -
    have "page_base x \<noteq> ?w" using that fresh w by (metis disjoint_iff)
    then show ?thesis using outside by simp
  qed
  moreover have "load64 (m_mem (k_mach ?k)) (virt_to_phys hhdm (c_rsp (t_ctx ?t))) = entry"
  proof -
    have "virt_to_phys hhdm (c_rsp (t_ctx ?t)) = entry_addr ?w 511"
      by (simp add: virt_to_phys_def entry_addr_def new_tcb_def)
    then show ?thesis by simp
  qed
  ultimately show ?thesis
    using st tsk none
    by (intro exI [of _ ?pid] exI [of _ ?t] exI [of _ ?k])
      (simp add: new_tcb_def admit_def Let_def current_pid_def)
qed

text \<open>\<open>spawn_isolated\<close> takes over the frames that its caller built the address space from.\<close>

lemma spawn_isolated_owns:
  assumes k: "kernel_owns (R \<union> set (tf @ [us])) k" and h: "page_aligned hhdm"
    and n: "unat (s_next_pid (k_sched k)) < 2 ^ 32" and sp: "4 \<le> spare (k_mach k)"
    and fr: "distinct (tf @ [us])" "R \<inter> set (tf @ [us]) = {}"
  shows "\<exists>pid t k'. spawn_isolated hhdm tramp name cr3 ue ust caps tf us k = Ret (pid, k') \<and>
    kernel_owns R k' \<and>
    (\<forall>q. task (k_sched k') q = (if q = pid then Some t else task (k_sched k) q)) \<and>
    task (k_sched k) pid = None \<and>
    t_state t = Runnable \<and> t_caps t = caps \<and> t_open_files t = [] \<and> t_cr3 t = cr3 \<and>
    t_user_entry t = ue \<and> t_user_stack_top t = ust \<and> t_isolated_table_frames t = Some tf \<and>
    t_isolated_user_stack_phys t = us \<and>
    rq_pids (s_rq (k_sched k')) = rq_pids (s_rq (k_sched k)) @ [pid] \<and>
    (\<forall>x. page_base x \<in> R \<union> set (tf @ [us]) \<union> all_held (k_sched k) \<longrightarrow>
       m_mem (k_mach k') x = m_mem (k_mach k) x)"
proof -
  let ?Z = "set (tf @ [us])"
  from spawn_owns [OF k h n sp, of name tramp] obtain pid t0 k1 where
    1: "spawn hhdm name tramp k = Ret (pid, k1)" "kernel_owns (R \<union> ?Z) k1"
    "\<And>q. task (k_sched k1) q = (if q = pid then Some t0 else task (k_sched k) q)"
    "task (k_sched k) pid = None" "t_state t0 = Runnable" "t_open_files t0 = []"
    "t_isolated_table_frames t0 = None"
    "rq_pids (s_rq (k_sched k1)) = rq_pids (s_rq (k_sched k)) @ [pid]"
    "\<And>x. page_base x \<in> R \<union> ?Z \<union> all_held (k_sched k) \<Longrightarrow> m_mem (k_mach k1) x = m_mem (k_mach k) x"
    by blast
  let ?f = "\<lambda>t. t\<lparr>t_cr3 := cr3, t_user_entry := ue, t_user_stack_top := ust, t_caps := caps,
      t_isolated_table_frames := Some tf, t_isolated_user_stack_phys := us\<rparr>"
  let ?k = "k1\<lparr>k_sched := update_task pid ?f (k_sched k1)\<rparr>"
  have tsk: "task (k_sched ?k) q = (if q = pid then Some (?f t0) else task (k_sched k) q)" for q
    using 1(3) by simp
  have rl0: "reap_list t0 = stack_frames (t_stack_phys t0)" using 1(7) by (simp add: reap_list_def)
  have rl: "reap_list (?f t0) = tf @ [us] @ reap_list t0" by (simp add: rl0) (simp add: reap_list_def)
  have own: "owns (k_mach k1) (R \<union> ?Z \<union> all_held (k_sched k1))" and disj: "(R \<union> ?Z) \<inter> all_held (k_sched k1) = {}"
    and dist: "\<And>p t. task (k_sched k1) p = Some t \<Longrightarrow> distinct (reap_list t)"
    and pw: "\<And>x y. x \<noteq> y \<Longrightarrow> held (k_sched k1) x \<inter> held (k_sched k1) y = {}" and ok: "sched_ok (k_sched k1)"
    using 1(2) unfolding kernel_owns_def by blast+
  have held1: "held (k_sched k1) pid = set (reap_list t0)" by (simp add: held_def 1(3))
  have held': "held (k_sched ?k) q = (if q = pid then ?Z \<union> held (k_sched k1) pid else held (k_sched k1) q)" for q
    unfolding held1 by (simp add: held_def tsk 1(3) rl)
  have all': "all_held (k_sched ?k) = ?Z \<union> all_held (k_sched k1)"
    unfolding all_held_def held' by (auto split: if_splits)
  have "kernel_owns R ?k"
    unfolding kernel_owns_def
  proof (intro conjI allI impI)
    show "sched_ok (k_sched ?k)"
      using sched_ok_update [OF ok, of ?f pid] by (simp add: keeps_scheduling_def)
    show "owns (k_mach ?k) (R \<union> all_held (k_sched ?k))" using own unfolding all' by (simp add: Un_assoc)
    show "R \<inter> all_held (k_sched ?k) = {}" using disj fr(2) unfolding all' by blast
    show "distinct (reap_list u)" if "task (k_sched ?k) q = Some u" for q u
    proof (cases "q = pid")
      case True
      have "set (reap_list t0) \<inter> ?Z = {}" using disj held1 unfolding all_held_def by blast
      then show ?thesis using that True dist [of pid t0] 1(3) fr(1) by (auto simp: tsk rl)
    next
      case False
      then show ?thesis using that dist [of q u] 1(3) by (simp add: tsk)
    qed
    show "held (k_sched ?k) x \<inter> held (k_sched ?k) y = {}" if "x \<noteq> y" for x y
    proof -
      have "held (k_sched k1) z \<inter> ?Z = {}" for z using disj unfolding all_held_def by blast
      then show ?thesis using pw [OF that] that unfolding held' by auto
    qed
  qed
  moreover have "spawn_isolated hhdm tramp name cr3 ue ust caps tf us k = Ret (pid, ?k)"
    by (simp add: spawn_isolated_def 1(1))
  ultimately show ?thesis
    using tsk 1(4,5,6,8,9) by (intro exI [of _ pid] exI [of _ "?f t0"] exI [of _ ?k]) simp
qed

section \<open>Programs\<close>

lemma owned_below: 
  assumes "owns s F" "f \<in> F"
  shows "unat f < 2 ^ 47"
proof -
  obtain r where r: "r \<in> set (p_regions (m_pmm s))" "in_region r f"
    using assms unfolding owns_def pmm_owns_def by blast
  moreover have "region_ok r" using assms(1) r(1) by (simp add: owns_def pmm_owns_def pmm_wf_def)
  ultimately show ?thesis by (auto simp: in_region_def region_ok_def word_less_nat_alt)
qed

lemma pml4_idx_below: "unat f < 2 ^ 47 \<Longrightarrow> pml4_idx f < 256"
proof -
  assume f: "unat f < 2 ^ 47"
  have "(0x1FF :: u64) = mask 9" by (simp add: mask_eq_exp_minus_1)
  then have "pml4_idx f = unat (drop_bit 39 f) mod 512"
    using unat_and_mask [of "drop_bit 39 f" 9] by (simp only: pml4_idx_def) simp
  moreover have "unat (drop_bit 39 f) = unat f div 2 ^ 39"
    using f by (simp add: unsigned_drop_bit_eq drop_bit_eq_div unat_div take_bit_nat_eq_self)
  moreover have "unat f div 2 ^ 39 < 256" using f by (simp add: less_mult_imp_div_less)
  ultimately show ?thesis by simp
qed

lemma view_cong:
  assumes "pages_ok pages" "\<And>x. page_base x \<in> page_frames pages \<Longrightarrow> m' x = m x"
  shows "view pages m' = view pages m"
proof
  fix a
  show "view pages m' a = view pages m a"
  proof (cases "page_frame pages (page_base a)")
    case None
    then show ?thesis by (simp add: view_def)
  next
    case (Some f)
    then have "page_aligned f" using assms(1) page_frame_Some(1) [OF Some] by (auto simp: pages_ok_def)
    then have "page_base (f + page_off a) = f" by (rule in_page_offset) (simp add: unat_page_off)
    then show ?thesis using Some assms(2) page_frame_Some(2) [OF Some] by (simp add: view_def)
  qed
qed

text \<open>
  The program that \<open>spawn_program\<close> creates, over the headers \<open>phs\<close> of its file: a task that is
  queued, with the requested capabilities and no open file, whose address space is the image with the
  permissions of its segments and a zeroed, non-executable stack page. The task has on record,
  for its reaping, every frame this takes, each once: the tables, the pages and the stack. The tables
  are not among the pages or the stack, so the address space stays the same whatever is written to
  any other frame.
\<close>

definition program_task ::
  "u8 list \<Rightarrow> around \<Rightarrow> elf64_phdr list \<Rightarrow> u64 \<Rightarrow> u64 \<Rightarrow> machine \<Rightarrow> tcb \<Rightarrow> bool" where
  "program_task data around phs entry caps m t \<longleftrightarrow>
     t_state t = Runnable \<and> t_caps t = caps \<and> t_open_files t = [] \<and> t_user_entry t = entry \<and>
     (\<exists>pages stack tf. t_user_stack_top t = stack + 4096 \<and> page_zero (m_mem m) stack \<and>
        t_isolated_table_frames t = Some (tf @ map (\<lambda>(_, paddr, _, _). paddr) pages) \<and>
        t_isolated_user_stack_phys t = stack \<and> t_cr3 t \<in> set tf \<and>
        distinct (tf @ map (\<lambda>(_, paddr, _, _). paddr) pages @ [stack]) \<and>
        page_aligned stack \<and> (\<forall>f \<in> insert stack (page_frames pages). unat f < 2 ^ 47) \<and>
        pages_ok pages \<and> page_addrs pages = \<Union> (set ` seg_pages ` set (filter loadable phs)) \<and>
        (\<forall>r \<in> set pages. from_segment phs r) \<and> view pages (m_mem m) = elf_image data around phs \<and>
        (\<forall>mem v. (\<forall>x. page_base x \<in> set tf \<longrightarrow> mem x = m_mem m x) \<longrightarrow> pml4_idx v < 256 \<longrightarrow>
           user_walk mem (t_cr3 t) v = requested (pages @ [stack_request stack]) v))"

lemma page_frames_list: "set (map (\<lambda>(_, paddr, _, _). paddr) pages) = page_frames pages"
  by (simp add: page_frames_def case_prod_beta')

text \<open>What the program itself can write, its pages and its stack, does not change its address space.\<close>

lemma program_taskE:
  assumes "program_task data around phs entry caps m t"
  obtains pages stack where "t_user_stack_top t = stack + 4096" "page_aligned stack"
    "\<forall>f \<in> insert stack (page_frames pages). unat f < 2 ^ 47" "stack \<notin> page_frames pages" "pages_ok pages"
    "page_addrs pages = \<Union> (set ` seg_pages ` set (filter loadable phs))" "\<forall>r \<in> set pages. from_segment phs r"
    "view pages (m_mem m) = elf_image data around phs"
    "\<forall>mem v. (\<forall>x. page_base x \<notin> insert stack (page_frames pages) \<longrightarrow> mem x = m_mem m x) \<longrightarrow>
       pml4_idx v < 256 \<longrightarrow> user_walk mem (t_cr3 t) v = requested (pages @ [stack_request stack]) v"
proof -
  obtain pages stack tf where d: "distinct (tf @ map (\<lambda>(_, paddr, _, _). paddr) pages @ [stack])"
    and r: "t_user_stack_top t = stack + 4096" "page_aligned stack"
    "\<forall>f \<in> insert stack (page_frames pages). unat f < 2 ^ 47" "pages_ok pages"
    "page_addrs pages = \<Union> (set ` seg_pages ` set (filter loadable phs))" "\<forall>r \<in> set pages. from_segment phs r"
    "view pages (m_mem m) = elf_image data around phs"
    and w: "\<forall>mem v. (\<forall>x. page_base x \<in> set tf \<longrightarrow> mem x = m_mem m x) \<longrightarrow> pml4_idx v < 256 \<longrightarrow>
       user_walk mem (t_cr3 t) v = requested (pages @ [stack_request stack]) v"
    using assms unfolding program_task_def by (elim conjE exE) (rule that)
  have "set tf \<inter> insert stack (page_frames pages) = {}" "stack \<notin> page_frames pages"
    using d unfolding page_frames_list [symmetric] by auto
  then show thesis using w by (intro that [OF r(1-3) _ r(4-7)]) (blast, blast)
qed

lemma spawn_program_spec:
  assumes k: "kernel_owns R k" and h: "page_aligned hhdm" and n: "unat (s_next_pid (k_sched k)) < 2 ^ 32"
    and K: "\<not> grantable (m_pmm (k_mach k)) (k_cr3 k AND ADDR_MASK)"
    and hdr: "check_header data around = Inr hdr"
    and hs: "headers_ok data around (h_phoff hdr) (ucast (h_phentsize hdr)) [0..<unat (h_phnum hdr)]"
    and phs: "phs = map (phdr_at data around (h_phoff hdr) (ucast (h_phentsize hdr))) [0..<unat (h_phnum hdr)]"
    and low: "\<forall>ph \<in> set phs. loadable ph \<longrightarrow> (\<forall>v \<in> set (seg_pages ph). pml4_idx v < 256)"
    and av: "4 * pages_needed phs + 5 \<le> avail (k_mach k)" and sp: "4 * pages_needed phs + 9 \<le> spare (k_mach k)"
  shows "\<exists>pid t k'. spawn_program hhdm tramp around name data caps k = Ret (Inr pid, k') \<and>
    kernel_owns R k' \<and> (\<forall>q. task (k_sched k') q = (if q = pid then Some t else task (k_sched k) q)) \<and>
    task (k_sched k) pid = None \<and> program_task data around phs (h_entry hdr) caps (k_mach k') t \<and>
    rq_pids (s_rq (k_sched k')) = rq_pids (s_rq (k_sched k)) @ [pid] \<and>
    (\<forall>x. page_base x \<in> R \<union> all_held (k_sched k) \<longrightarrow> m_mem (k_mach k') x = m_mem (k_mach k) x) \<and>
    grantable (m_pmm (k_mach k)) (t_user_stack_top t - 4096)"
proof -
  let ?F = "R \<union> all_held (k_sched k)" and ?need = "pages_needed phs"
  have own: "owns (k_mach k) ?F" and disj: "R \<inter> all_held (k_sched k) = {}"
    using k unfolding kernel_owns_def by blast+
  have "?need \<le> avail (k_mach k)" using av by simp
  from load_fresh_spec [OF own hdr hs] this obtain pages m1 where
    1: "load_fresh data around (k_mach k) = Ret (Inr (h_entry hdr, pages), m1)" "pages_ok pages"
    "page_addrs pages = \<Union> (set ` seg_pages ` set (filter loadable phs))"
    "owns m1 (?F \<union> page_frames pages)" "?F \<inter> page_frames pages = {}"
    "\<forall>r \<in> set pages. from_segment phs r" "view pages (m_mem m1) = elf_image data around phs"
    "length pages \<le> ?need" "took ?need (k_mach k) m1"
    "\<forall>y. page_base y \<notin> page_frames pages \<longrightarrow> m_mem m1 y = m_mem (k_mach k) y"
    unfolding phs by auto
  have av1: "3 * ?need + 5 \<le> avail m1" using 1(9) av unfolding took_def by linarith
  obtain us m2 where f: "alloc_frame m1 = (Some us, m2)"
    using alloc_frame_owns(6) [OF 1(4)] av1 by (cases "alloc_frame m1"; cases "fst (alloc_frame m1)") auto
  note a = alloc_frame_owns [OF 1(4) f]
  have own2: "owns m2 (insert us (?F \<union> page_frames pages))" and us: "us \<notin> ?F \<union> page_frames pages"
    and mem2: "m_mem m2 = m_mem m1" and tk2: "took 1 m1 m2"
    using a took_alloc [OF 1(4) f] by auto
  have ua: "page_aligned us" using owns_aligned [OF own2] by simp
  let ?m3 = "m2\<lparr>m_mem := zero_bytes (m_mem m2) us 4096\<rparr>"
  have own3: "owns ?m3 (insert us (?F \<union> page_frames pages))"
  proof (rule owns_mem_update [OF own2])
    show "zero_bytes (m_mem m2) us 4096 x = m_mem m2 x"
      if "page_base x \<notin> insert us (?F \<union> page_frames pages)" for x
      using that by (simp add: zero_bytes_page [OF ua])
  qed
  have tk3: "took (?need + 1) (k_mach k) ?m3" using took_trans [OF 1(9) tk2] by simp
  have K3: "\<not> grantable (m_pmm ?m3) (k_cr3 k AND ADDR_MASK)" using K tk3 unfolding took_def by blast
  have lower: "\<forall>r \<in> set (pages @ [stack_request us]). lower_half r"
  proof -
    have "lower_half r" if "r \<in> set pages" for r
      using 1(6) low that by (force simp: from_segment_def lower_half_def)
    moreover have "lower_half (stack_request us)"
      using pml4_idx_below [OF owned_below [OF own3, of us]] by (simp add: lower_half_def stack_request_def)
    ultimately show ?thesis by simp
  qed
  have "3 * length pages + 4 \<le> avail ?m3" using tk3 av 1(8) unfolding took_def by linarith
  from create_fresh_built [OF own3 K3 lower this] obtain root tf m4 where
    4: "create_isolated_user_table_fresh (k_cr3 k) pages us ?m3 = Ret (root, tf, m4)"
    "built (k_cr3 k) (insert us (?F \<union> page_frames pages)) (pages @ [stack_request us]) ?m3 root tf m4"
    by blast
  let ?tf = "tf @ map (\<lambda>(_, paddr, _, _). paddr) pages"
  note pf = page_frames_list [of pages]
  have own4: "owns m4 (insert us (?F \<union> page_frames pages) \<union> set tf)"
    and dtf: "insert us (?F \<union> page_frames pages) \<inter> set tf = {}" "distinct tf" and root: "root \<in> set tf"
    and tk4: "took (length tf) ?m3 m4" "length tf \<le> 3 * length (pages @ [stack_request us]) + 1"
    and mem4: "\<And>x. page_base x \<notin> set tf \<Longrightarrow> m_mem m4 x = m_mem ?m3 x"
    using 4(2) by (auto simp: built_def)
  have Z: "set (?tf @ [us]) = insert us (page_frames pages \<union> set tf)" using pf by auto
  let ?k4 = "k\<lparr>k_mach := m4\<rparr>"
  have ko: "kernel_owns (R \<union> set (?tf @ [us])) ?k4"
  proof -
    have "R \<union> set (?tf @ [us]) \<union> all_held (k_sched k) = insert us (?F \<union> page_frames pages) \<union> set tf"
      unfolding Z by auto
    moreover have "(R \<union> set (?tf @ [us])) \<inter> all_held (k_sched k) = {}"
      unfolding Z using disj us 1(5) dtf(1) by blast
    ultimately show ?thesis using k own4 unfolding kernel_owns_def by simp
  qed
  have d1: "distinct (?tf @ [us])"
  proof -
    have "distinct (map (\<lambda>(_, paddr, _, _). paddr) pages)"
      using 1(2) by (simp add: pages_ok_def case_prod_beta')
    then show ?thesis using dtf us pf by auto
  qed
  have d2: "R \<inter> set (?tf @ [us]) = {}" unfolding Z using us 1(5) dtf(1) by blast
  have "took ((?need + 1) + length tf) (k_mach k) m4" by (rule took_trans [OF tk3 tk4(1)])
  then have sp4: "4 \<le> spare (k_mach ?k4)" using sp tk4(2) 1(8) unfolding took_def by simp
  have n4: "unat (s_next_pid (k_sched ?k4)) < 2 ^ 32" using n by simp
  have k4: "k_sched ?k4 = k_sched k" "k_mach ?k4 = m4" by simp_all
  from spawn_isolated_owns [OF ko h n4 sp4 d1 d2, of tramp name root "h_entry hdr" "us + 4096" caps, unfolded k4]
  obtain pid t k' where
    5: "spawn_isolated hhdm tramp name root (h_entry hdr) (us + 4096) caps ?tf us ?k4 = Ret (pid, k')"
    "kernel_owns R k'" "\<And>q. task (k_sched k') q = (if q = pid then Some t else task (k_sched k) q)"
    "task (k_sched k) pid = None" "t_state t = Runnable" "t_caps t = caps" "t_open_files t = []"
    "t_cr3 t = root" "t_user_entry t = h_entry hdr" "t_user_stack_top t = us + 4096"
    "t_isolated_table_frames t = Some ?tf" "t_isolated_user_stack_phys t = us"
    "rq_pids (s_rq (k_sched k')) = rq_pids (s_rq (k_sched k)) @ [pid]"
    "\<And>x. page_base x \<in> R \<union> set (?tf @ [us]) \<union> all_held (k_sched k) \<Longrightarrow> m_mem (k_mach k') x = m_mem m4 x"
    by blast
  have run: "spawn_program hhdm tramp around name data caps k = Ret (Inr pid, k')"
    by (simp add: spawn_program_def 1(1) f Let_def 4(1) 5(1))
  have walk: "user_walk mem root v = requested (pages @ [stack_request us]) v"
    if "\<forall>x. page_base x \<in> set tf \<longrightarrow> mem x = m_mem (k_mach k') x" "pml4_idx v < 256" for mem v
  proof -
    have "mem x = m_mem m4 x" if x: "page_base x \<in> set tf" for x
      using that(1) 5(14) [of x] x \<open>\<forall>x. page_base x \<in> set tf \<longrightarrow> mem x = m_mem (k_mach k') x\<close> unfolding Z by simp
    then show ?thesis using 4(2) that(2) unfolding built_def by blast
  qed
  have keep: "m_mem (k_mach k') x = m_mem ?m3 x" if "page_base x \<in> insert us (?F \<union> page_frames pages)" for x
  proof -
    have "m_mem (k_mach k') x = m_mem m4 x" by (rule 5(14)) (use that Z in blast)
    moreover have "page_base x \<notin> set tf" using that dtf(1) by blast
    ultimately show ?thesis using mem4 by simp
  qed
  have "view pages (m_mem (k_mach k')) = view pages (m_mem m1)"
  proof (rule view_cong [OF 1(2)])
    fix x assume x: "page_base x \<in> page_frames pages"
    then have "page_base x \<noteq> us" using us by auto
    then show "m_mem (k_mach k') x = m_mem m1 x" using keep [of x] x by (simp add: zero_bytes_page [OF ua] mem2)
  qed
  then have img: "view pages (m_mem (k_mach k')) = elf_image data around phs" using 1(7) by simp
  have "page_zero (m_mem (k_mach k')) us"
    using keep by (simp add: page_zero_def zero_bytes_page [OF ua])
  then have pt: "program_task data around phs (h_entry hdr) caps (k_mach k') t"
    unfolding program_task_def 5(5,6,7,8,9,10,11,12) using 1(2,3,6) img walk ua root d1 owned_below [OF own3]
    by (intro conjI refl exI [of _ pages] exI [of _ us] exI [of _ tf]) simp_all
  have "m_mem (k_mach k') x = m_mem (k_mach k) x" if x: "page_base x \<in> ?F" for x
  proof -
    have "page_base x \<noteq> us" "page_base x \<notin> page_frames pages" using x us 1(5) by (metis UnI1, metis disjoint_iff)
    then show ?thesis using keep [of x] x 1(10) by (simp add: zero_bytes_page [OF ua] mem2)
  qed
  moreover have "grantable (m_pmm (k_mach k)) us" using a(8) 1(9) unfolding took_def by blast
  ultimately show ?thesis using run 5(2,3,4,10,13) pt by (intro exI [of _ pid] exI [of _ t] exI [of _ k']) simp
qed

section \<open>Switching keeps what tasks own\<close>

lemma kernel_owns_resched:
  assumes k: "kernel_owns R k" and ok: "sched_ok s'"
    and same: "\<And>p. map_option reap_list (task s' p) = map_option reap_list (task (k_sched k) p)"
  shows "kernel_owns R (k\<lparr>k_sched := s'\<rparr>)"
proof -
  have h: "held s' p = held (k_sched k) p" for p
    using same [of p] by (cases "task s' p"; cases "task (k_sched k) p") (auto simp: held_def)
  then have a: "all_held s' = all_held (k_sched k)" by (simp add: all_held_def)
  have d: "distinct (reap_list t)" if "task s' p = Some t" for p t
    using same [of p] that k unfolding kernel_owns_def by (cases "task (k_sched k) p") auto
  show ?thesis using k ok h a d unfolding kernel_owns_def by simp
qed

lemma reap_list_state [simp]: "reap_list (t\<lparr>t_state := x\<rparr>) = reap_list t"
  by (simp add: reap_list_def split: option.splits)

lemma map_option_reap_list_state [simp]:
  "map_option (\<lambda>t. reap_list (t\<lparr>t_state := x\<rparr>)) a = map_option reap_list a"
  "map_option (reap_list \<circ> (\<lambda>t. t\<lparr>t_state := x\<rparr>)) a = map_option reap_list a"
  by (simp_all add: comp_def)

lemma kernel_owns_step:
  assumes "kernel_owns R k"
  shows "kernel_owns R (k\<lparr>k_sched := snd (sched_step (k_sched k))\<rparr>)"
proof (rule kernel_owns_resched [OF assms])
  have ok: "sched_ok (k_sched k)" using assms by (simp add: kernel_owns_def)
  then show "sched_ok (snd (sched_step (k_sched k)))" by (rule sched_ok_step)
  show "map_option reap_list (task (snd (sched_step (k_sched k))) p) =
      map_option reap_list (task (k_sched k) p)" for p
  proof (cases "rq_pids (s_rq (k_sched k))")
    case Nil
    then show ?thesis using sched_step_idle [OF ok] by simp
  next
    case (Cons q qs)
    then show ?thesis using sched_step_busy [OF ok Cons] by (auto simp: option.map_comp)
  qed
qed

lemma kernel_owns_exit:
  assumes "kernel_owns R k" "exit_commit (k_sched k) = Ret (p, s')" "rq_pids (s_rq (k_sched k)) = p # ps"
  shows "kernel_owns R (k\<lparr>k_sched := s'\<rparr>)"
proof -
  have "sched_ok (k_sched k)" using assms(1) by (simp add: kernel_owns_def)
  from exit_commit_ok [OF this assms(3)] assms(2) show ?thesis
    by (intro kernel_owns_resched [OF assms(1)]) (auto simp: option.map_comp)
qed

section \<open>Properties\<close>

text \<open>
  C8. What \<open>spawn_program\<close> creates. For every ELF file whose headers pass the checks and whose
  loadable segments lie in the lower half, and with enough free frames, the call returns a new pid
  that was not in use, at the tail of the run queue. The task holds exactly the requested
  capabilities; its address space maps the pages of its segments, each with a segment's permissions,
  and one non-executable zeroed stack page, and nothing else of the lower half; through that address
  space it sees the file's bytes at their addresses and zeros elsewhere. The frames of the tables, of
  the pages and of the stack are all different and all on the task's record for its reaping;
  they belong to this task alone, the address space depends on the memory of its tables only, and
  no byte of any other task's memory changed.
\<close>

theorem spawn_program_correct:
  assumes "kernel_owns R k" and "page_aligned hhdm" and "unat (s_next_pid (k_sched k)) < 2 ^ 32"
    and "\<not> grantable (m_pmm (k_mach k)) (k_cr3 k AND ADDR_MASK)"
    and "check_header data around = Inr hdr"
    and "headers_ok data around (h_phoff hdr) (ucast (h_phentsize hdr)) [0..<unat (h_phnum hdr)]"
    and "phs = map (phdr_at data around (h_phoff hdr) (ucast (h_phentsize hdr))) [0..<unat (h_phnum hdr)]"
    and "\<forall>ph \<in> set phs. loadable ph \<longrightarrow> (\<forall>v \<in> set (seg_pages ph). pml4_idx v < 256)"
    and "4 * pages_needed phs + 5 \<le> avail (k_mach k)" and "4 * pages_needed phs + 9 \<le> spare (k_mach k)"
  shows "\<exists>pid t k'. spawn_program hhdm tramp around name data caps k = Ret (Inr pid, k') \<and>
    kernel_owns R k' \<and> (\<forall>q. task (k_sched k') q = (if q = pid then Some t else task (k_sched k) q)) \<and>
    task (k_sched k) pid = None \<and> program_task data around phs (h_entry hdr) caps (k_mach k') t \<and>
    rq_pids (s_rq (k_sched k')) = rq_pids (s_rq (k_sched k)) @ [pid] \<and>
    (\<forall>x. page_base x \<in> R \<union> all_held (k_sched k) \<longrightarrow> m_mem (k_mach k') x = m_mem (k_mach k) x)"
  using spawn_program_spec [OF assms] by blast

text \<open>The kernel before its first task.\<close>

definition demo_kernel :: kernel where
  "demo_kernel = \<lparr>k_sched = sched_new, k_mach = demo_machine,
     k_cpu = \<lparr>c_r15 = 15, c_r14 = 14, c_r13 = 13, c_r12 = 12, c_rbp = 2, c_rbx = 3, c_rsp = 0x9000, c_rip = 7\<rparr>,
     k_cr3 = 0x1000\<rparr>"

lemma demo_kernel_owns: "kernel_owns {} demo_kernel"
proof -
  have "task sched_new p = None" for p by (simp add: sched_new_def task_def task_at_def)
  then show ?thesis
    using demo_owns sched_ok_new by (simp add: kernel_owns_def demo_kernel_def all_held_def held_def)
qed

lemma demo_spare: "spare demo_machine = 1024"
  by (simp add: spare_def Let_def demo_pmm)

lemma page_aligned_zero: "page_aligned 0"
  by (simp add: page_aligned_def page_off_def)

lemma spawn_program_correct_witness:
  "\<exists>pid t k'. spawn_program 0 0x8000 (\<lambda>_. 0) ''demo'' demo_elf 5 demo_kernel = Ret (Inr pid, k') \<and>
    kernel_owns {} k' \<and> (\<forall>q. task (k_sched k') q = (if q = pid then Some t else task (k_sched demo_kernel) q)) \<and>
    task (k_sched demo_kernel) pid = None \<and>
    program_task demo_elf (\<lambda>_. 0) [demo_phdr] (h_entry demo_hdr) 5 (k_mach k') t \<and>
    rq_pids (s_rq (k_sched k')) = rq_pids (s_rq (k_sched demo_kernel)) @ [pid] \<and>
    (\<forall>x. page_base x \<in> {} \<union> all_held (k_sched demo_kernel) \<longrightarrow>
       m_mem (k_mach k') x = m_mem (k_mach demo_kernel) x)"
proof (rule spawn_program_correct [OF demo_kernel_owns page_aligned_zero _ _ demo_elf_header demo_headers_ok demo_phs [symmetric]])
  show "\<not> grantable (m_pmm (k_mach demo_kernel)) (k_cr3 demo_kernel AND ADDR_MASK)"
    using demo_cr3 by (simp add: demo_kernel_def)
  show "unat (s_next_pid (k_sched demo_kernel)) < 2 ^ 32" by (simp add: demo_kernel_def sched_new_def)
  show "\<forall>ph \<in> set [demo_phdr]. loadable ph \<longrightarrow> (\<forall>v \<in> set (seg_pages ph). pml4_idx v < 256)"
    by (simp add: demo_seg_pages pml4_idx_def)
  have m: "k_mach demo_kernel = demo_machine" by (simp add: demo_kernel_def)
  show "4 * pages_needed [demo_phdr] + 5 \<le> avail (k_mach demo_kernel)" unfolding m demo_avail demo_needed by simp
  show "4 * pages_needed [demo_phdr] + 9 \<le> spare (k_mach demo_kernel)" unfolding m demo_spare demo_needed by simp
qed

text \<open>
  C10. Reaping returns everything. When a zombie's slot is reaped, the call cannot panic; every frame
  the task held (its page tables and pages, its user stack and its kernel stack) is free again and
  scrubbed to zero, no byte outside these frames changes, the allocator's free count grows by exactly
  their number, the slot is empty, every other task is untouched, and what each task holds stays
  disjoint from the rest.
\<close>

theorem reap_returns_everything:
  assumes "kernel_owns R k" and "task (k_sched k) p = Some t" and "t_state t = Zombie"
  shows "\<exists>k'. reap p k = Ret k' \<and> kernel_owns R k' \<and>
    (\<forall>q. task (k_sched k') q = (if q = p then None else task (k_sched k) q)) \<and>
    avail (k_mach k') = avail (k_mach k) + length (reap_list t) \<and>
    (\<forall>f \<in> set (reap_list t). page_zero (m_mem (k_mach k')) f) \<and>
    (\<forall>x. page_base x \<notin> set (reap_list t) \<longrightarrow> m_mem (k_mach k') x = m_mem (k_mach k) x)"
  by (rule reap_owns [OF assms])

text \<open>Two kernel threads, of which the first has run and exited.\<close>

lemma spawn_next_pid:
  "spawn hhdm name entry k = Ret (p, k') \<Longrightarrow> s_next_pid (k_sched k') = s_next_pid (k_sched k) + 1"
  by (auto simp: spawn_def admit_def Let_def split: option.splits prod.splits)

lemma demo_spawn_spare:
  "spawn 0 ''a'' 0x8000 demo_kernel = Ret (p, k') \<Longrightarrow> spare (k_mach k') = 1020"
proof -
  have "alloc_contiguous_frames 4 demo_machine =
      (Some 0x400000, demo_machine\<lparr>m_pmm := (m_pmm demo_machine)\<lparr>p_next := 0x404000, p_free := 1020\<rparr>\<rparr>)"
    by (simp add: alloc_contiguous_frames_def pmm_alloc_contiguous_def demo_pmm PAGE_SIZE_def Let_def bump_loop.simps)
  then show "spawn 0 ''a'' 0x8000 demo_kernel = Ret (p, k') \<Longrightarrow> spare (k_mach k') = 1020"
    by (auto simp: spawn_def demo_kernel_def Let_def spare_def demo_pmm split: prod.splits)
qed

lemma demo_zombie:
  "\<exists>k p t. kernel_owns {} k \<and> task (k_sched k) p = Some t \<and> t_state t = Zombie"
proof -
  let ?K = demo_kernel
  have n: "s_next_pid (k_sched ?K) = 1" and q0: "rq_pids (s_rq (k_sched ?K)) = []"
    and c0: "current_pid (k_sched ?K) = 0" and m: "k_mach ?K = demo_machine"
    by (simp_all add: demo_kernel_def sched_new_def current_pid_def)
  have "unat (s_next_pid (k_sched ?K)) < 2 ^ 32" "4 \<le> spare (k_mach ?K)" by (simp_all add: n m demo_spare)
  from spawn_owns [OF demo_kernel_owns page_aligned_zero this, of "''a''" "0x8000"] obtain p1 k1 where
    1: "spawn 0 ''a'' 0x8000 ?K = Ret (p1, k1)" "kernel_owns {} k1"
    "rq_pids (s_rq (k_sched k1)) = rq_pids (s_rq (k_sched ?K)) @ [p1]"
    "current_pid (k_sched k1) = current_pid (k_sched ?K)"
    by blast
  have "unat (s_next_pid (k_sched k1)) < 2 ^ 32" "4 \<le> spare (k_mach k1)"
    using spawn_next_pid [OF 1(1)] demo_spawn_spare [OF 1(1)] by (simp_all add: n)
  from spawn_owns [OF 1(2) page_aligned_zero this, of "''b''" "0x8000"] obtain p2 k2 where
    2: "kernel_owns {} k2" "rq_pids (s_rq (k_sched k2)) = rq_pids (s_rq (k_sched k1)) @ [p2]"
    "current_pid (k_sched k2) = current_pid (k_sched k1)"
    by blast
  have ok2: "sched_ok (k_sched k2)" using 2(1) by (simp add: kernel_owns_def)
  have q2: "rq_pids (s_rq (k_sched k2)) = p1 # [p2]" using 2(2) 1(3) q0 by simp
  let ?s3 = "snd (sched_step (k_sched k2))"
  let ?k3 = "k2\<lparr>k_sched := ?s3\<rparr>"
  have 3: "current_pid ?s3 = p1" "rq_pids (s_rq ?s3) = p2 # []"
    using sched_step_busy [OF ok2 q2] 2(3) 1(4) c0 by auto
  have k3: "kernel_owns {} ?k3" by (rule kernel_owns_step [OF 2(1)])
  have ok3: "sched_ok ?s3" using k3 by (simp add: kernel_owns_def)
  have "p1 \<noteq> 0" using ok2 q2 unfolding sched_ok_def by (metis list.set_intros(1) option.distinct(1))
  then obtain t3 where t3: "task ?s3 p1 = Some t3" "t_state t3 = Running"
    using ok3 3(1) unfolding sched_ok_def by metis
  obtain s4 where 4: "exit_commit ?s3 = Ret (p2, s4)"
    "task s4 p1 = (if p1 = p2 then map_option (\<lambda>t. t\<lparr>t_state := Running\<rparr>) (task ?s3 p2)
       else map_option (\<lambda>t. t\<lparr>t_state := Zombie\<rparr>) (task ?s3 p1))"
    using exit_commit_ok [OF ok3 3(2)] 3(1) by auto
  have "p1 \<noteq> p2" using ok2 q2 unfolding sched_ok_def by auto
  moreover have "kernel_owns {} (?k3\<lparr>k_sched := s4\<rparr>)"
    by (rule kernel_owns_exit [OF k3]) (simp_all add: 4(1) 3(2))
  ultimately show ?thesis
    using 4(2) t3(1) by (intro exI [of _ "?k3\<lparr>k_sched := s4\<rparr>"] exI [of _ p1]) simp
qed

lemma reap_returns_everything_witness:
  "\<exists>k p t k'. t_state t = Zombie \<and> task (k_sched k) p = Some t \<and> reap p k = Ret k' \<and>
     task (k_sched k') p = None \<and> avail (k_mach k') = avail (k_mach k) + length (reap_list t)"
proof -
  from demo_zombie obtain k p t where z: "kernel_owns {} k" "task (k_sched k) p = Some t" "t_state t = Zombie"
    by blast
  from reap_returns_everything [OF z] z(2,3) show ?thesis by (metis (full_types))
qed

text \<open>
  C13. A switch saves the outgoing task and resumes the incoming one. When a running task yields and
  \<open>n\<close> is at the head of the run queue, the processor continues with exactly the context saved for
  \<open>n\<close>, under its page table; \<open>n\<close> is current and the outgoing task is queued; and as long as
  the two words below the outgoing stack pointer survive, resuming what was saved for the
  outgoing task gives back every register it had, at the instruction after the switch.
\<close>

theorem yield_saves_and_resumes:
  assumes "sched_ok (k_sched k)" and "current_pid (k_sched k) \<noteq> 0" and "rq_pids (s_rq (k_sched k)) = n # ns"
    and "task (k_sched k) n = Some t"
  shows "\<exists>k' tc. k' = yield_now hhdm resume k \<and> k_cpu k' = t_ctx t \<and> k_cr3 k' = t_cr3 t \<and>
    current_pid (k_sched k') = n \<and> task (k_sched k') (current_pid (k_sched k)) = Some tc \<and>
    t_state tc = Runnable \<and> rq_pids (s_rq (k_sched k')) = ns @ [current_pid (k_sched k)] \<and>
    (\<forall>m. (\<forall>d \<in> {8, 16}. load64 m (virt_to_phys hhdm (c_rsp (k_cpu k) - d)) =
            load64 (m_mem (k_mach k')) (virt_to_phys hhdm (c_rsp (k_cpu k) - d))) \<longrightarrow>
         context_resume hhdm (t_ctx tc) m = (k_cpu k)\<lparr>c_rip := resume\<rparr>)"
  by (rule yield_spec [OF assms])

text \<open>
  C14. The timer interrupt inside a switch corrupts a task. \<open>switch_to\<close> publishes the incoming task
  before it swaps the registers and does not mask interrupts in between. If the timer fires in that
  window, the handler takes the incoming task \<open>n\<close> for the running one: it queues \<open>n\<close> and
  saves the outgoing task's registers, with the outgoing task's stack pointer, as the context of \<open>n\<close>,
  whatever context \<open>n\<close> had.
\<close>

theorem preempted_switch_overwrites:
  assumes "sched_ok (k_sched k)" and "current_pid (k_sched k) \<noteq> 0" and "rq_pids (s_rq (k_sched k)) = n # ns"
  shows "\<exists>t. task (k_sched (preempted_yield hhdm resume k)) n = Some t \<and> t_state t = Runnable \<and>
    n \<in> set (rq_pids (s_rq (k_sched (preempted_yield hhdm resume k)))) \<and>
    t_ctx t = (k_cpu k)\<lparr>c_rsp := c_rsp (k_cpu k) - 16, c_rip := resume\<rparr>"
  by (rule preempted_spec [OF assms])


text \<open>Both at once: the demo queue of three tasks on a processor with recognisable registers.\<close>

definition demo_running :: kernel where
  "demo_running = demo_kernel\<lparr>k_sched := demo_sched\<rparr>"

lemma demo_running_facts:
  "sched_ok (k_sched demo_running)" "current_pid (k_sched demo_running) = 1"
  "rq_pids (s_rq (k_sched demo_running)) = [2, 3]"
  using reachable_sched_ok [OF demo_sched_reachable] demo_sched_queue by (simp_all add: demo_running_def)

lemma yield_saves_and_resumes_witness:
  "current_pid (k_sched (yield_now 0 0x77 demo_running)) = 2 \<and>
   rq_pids (s_rq (k_sched (yield_now 0 0x77 demo_running))) = [3, 1]"
proof -
  obtain t where "task (k_sched demo_running) 2 = Some t"
    using demo_running_facts unfolding sched_ok_def by (metis list.set_intros(1))
  from yield_saves_and_resumes [OF demo_running_facts(1) _ demo_running_facts(3) this, of 0 "0x77"]
  show ?thesis by (auto simp: demo_running_facts)
qed

lemma preempted_switch_overwrites_witness:
  "\<exists>t. task (k_sched (preempted_yield 0 0x77 demo_running)) 2 = Some t \<and> c_rsp (t_ctx t) = 0x8FF0"
  using preempted_switch_overwrites [OF demo_running_facts(1) _ demo_running_facts(3), of 0 "0x77"]
  by (auto simp: demo_running_facts) (simp add: demo_running_def demo_kernel_def)

end
