(* ===== verification/Procs.thy ===== *)
theory Procs
  imports Sched
begin

text \<open>
  The per-task accessors of \<open>kernel/src/scheduler/mod.rs\<close>: capability mask, user and group id, working
  directory, arguments and the file descriptor table. Each reads or writes the current task's own
  control block and falls back to a default when there is none. The lemmas show that the
  descriptor table hands out the lowest free number, and that no accessor reaches another task
  or disturbs the scheduler.
\<close>

type_synonym i32 = "32 word"

definition cur_task :: "sched \<Rightarrow> tcb option" where
  "cur_task s = task s (current_pid s)"

definition on_current :: "(tcb \<Rightarrow> tcb) \<Rightarrow> sched \<Rightarrow> sched" where
  "on_current f s = update_task (current_pid s) f s"

definition is_zombie :: "pid \<Rightarrow> sched \<Rightarrow> bool" where
  "is_zombie p s = (case task s p of None \<Rightarrow> False | Some t \<Rightarrow> t_state t = Zombie)"

definition caps :: "sched \<Rightarrow> u64" where
  "caps s = (case cur_task s of None \<Rightarrow> 0 | Some t \<Rightarrow> t_caps t)"

definition set_caps :: "u64 \<Rightarrow> sched \<Rightarrow> sched" where
  "set_caps c = on_current (\<lambda>t. t\<lparr>t_caps := c\<rparr>)"

definition uid :: "sched \<Rightarrow> u32" where
  "uid s = (case cur_task s of None \<Rightarrow> 1000 | Some t \<Rightarrow> t_uid t)"

definition gid :: "sched \<Rightarrow> u32" where
  "gid s = (case cur_task s of None \<Rightarrow> 1000 | Some t \<Rightarrow> t_gid t)"

definition set_identity :: "u32 \<Rightarrow> u32 \<Rightarrow> sched \<Rightarrow> sched" where
  "set_identity u g = on_current (\<lambda>t. t\<lparr>t_uid := u, t_gid := g\<rparr>)"

definition cwd :: "sched \<Rightarrow> string" where
  "cwd s = (case cur_task s of None \<Rightarrow> ''/'' | Some t \<Rightarrow> t_cwd t)"

definition set_cwd :: "string \<Rightarrow> sched \<Rightarrow> sched" where
  "set_cwd p = on_current (\<lambda>t. t\<lparr>t_cwd := p\<rparr>)"

definition args :: "sched \<Rightarrow> string list" where
  "args s = (case cur_task s of None \<Rightarrow> [] | Some t \<Rightarrow> t_args t)"

definition set_args :: "string list \<Rightarrow> sched \<Rightarrow> sched" where
  "set_args xs = on_current (\<lambda>t. t\<lparr>t_args := xs\<rparr>)"

text \<open>The entry point and stack that the ring-3 trampoline asks for.\<close>

definition current_user_entry_stack :: "sched \<Rightarrow> (u64 \<times> u64) outcome" where
  "current_user_entry_stack s =
     (case cur_task s of
        Some t \<Rightarrow> Ret (t_user_entry t, t_user_stack_top t)
      | None \<Rightarrow> Panic ''current_user_entry_stack: current pid has no Tcb'')"

section \<open>File descriptors\<close>

text \<open>\<open>iter().position(|s| s.is_none())\<close>\<close>

definition free_slot :: "'a option list \<Rightarrow> nat option" where
  "free_slot fs =
     (let i = length (takeWhile (\<lambda>x. x \<noteq> None) fs) in if i < length fs then Some i else None)"

definition place_fd :: "'a \<Rightarrow> 'a option list \<Rightarrow> nat \<times> 'a option list" where
  "place_fd f fs =
     (case free_slot fs of
        Some i \<Rightarrow> (i, fs[i := Some f])
      | None \<Rightarrow> (length fs, fs @ [Some f]))"

definition alloc_fd :: "open_file \<Rightarrow> sched \<Rightarrow> i32 \<times> sched" where
  "alloc_fd f s =
     (case cur_task s of
        None \<Rightarrow> (-1, s)
      | Some t \<Rightarrow> (of_nat (fst (place_fd f (t_open_files t))),
                  on_current (\<lambda>t. t\<lparr>t_open_files := snd (place_fd f (t_open_files t))\<rparr>) s))"

definition slot :: "'a option list \<Rightarrow> nat \<Rightarrow> 'a option" where
  "slot fs i = (if i < length fs then fs ! i else None)"

definition fd_info :: "i32 \<Rightarrow> sched \<Rightarrow> (string \<times> nat \<times> u8) option" where
  "fd_info fd s =
     (if sint fd < 0 then None
      else case cur_task s of
             None \<Rightarrow> None
           | Some t \<Rightarrow> map_option (\<lambda>f. (of_path f, of_offset f, of_flags f)) (slot (t_open_files t) (unat fd)))"

definition set_fd_offset :: "i32 \<Rightarrow> nat \<Rightarrow> sched \<Rightarrow> sched" where
  "set_fd_offset fd off s =
     (if sint fd < 0 then s
      else on_current (\<lambda>t. t\<lparr>t_open_files :=
        (t_open_files t)[unat fd := map_option (\<lambda>f. f\<lparr>of_offset := off\<rparr>) (slot (t_open_files t) (unat fd))]\<rparr>) s)"

definition close_fd :: "i32 \<Rightarrow> sched \<Rightarrow> bool \<times> sched" where
  "close_fd fd s =
     (if sint fd < 0 then (False, s)
      else case cur_task s of
             None \<Rightarrow> (False, s)
           | Some t \<Rightarrow>
               (if slot (t_open_files t) (unat fd) \<noteq> None
                then (True, on_current (\<lambda>t. t\<lparr>t_open_files := (t_open_files t)[unat fd := None]\<rparr>) s)
                else (False, s)))"

definition open_fd_count :: "sched \<Rightarrow> nat" where
  "open_fd_count s =
     (case cur_task s of None \<Rightarrow> 0 | Some t \<Rightarrow> length (filter (\<lambda>x. x \<noteq> None) (t_open_files t)))"

section \<open>Lemmas\<close>

lemma cur_task_on_current [simp]: "cur_task (on_current f s) = map_option f (cur_task s)"
  by (simp add: cur_task_def on_current_def)

lemma on_current_other: "p \<noteq> current_pid s \<Longrightarrow> task (on_current f s) p = task s p"
  by (simp add: on_current_def)

lemma free_slot_Some:
  assumes "free_slot fs = Some i"
  shows "i < length fs" "fs ! i = None" "\<And>j. j < i \<Longrightarrow> fs ! j \<noteq> None"
  using assms nth_length_takeWhile [of "\<lambda>x. x \<noteq> None" fs] nth_mem [of _ "takeWhile (\<lambda>x. x \<noteq> None) fs"]
  by (auto simp: free_slot_def Let_def takeWhile_nth dest: set_takeWhileD split: if_splits)

lemma takeWhile_whole: "length fs \<le> length (takeWhile (\<lambda>x. x \<noteq> None) fs) \<Longrightarrow> None \<notin> set fs"
  by (induction fs) (auto split: if_splits)

lemma free_slot_None: "free_slot fs = None \<Longrightarrow> None \<notin> set fs"
  by (rule takeWhile_whole) (simp add: free_slot_def Let_def split: if_splits)

text \<open>The descriptor chosen is the lowest closed one, and only it changes.\<close>

lemma place_fd_spec:
  "slot fs (fst (place_fd f fs)) = None"
  "\<And>j. j < fst (place_fd f fs) \<Longrightarrow> slot fs j \<noteq> None"
  "slot (snd (place_fd f fs)) j = (if j = fst (place_fd f fs) then Some f else slot fs j)"
  "fst (place_fd f fs) \<le> length fs"
proof -
  show "slot fs (fst (place_fd f fs)) = None"
    by (auto simp: place_fd_def slot_def free_slot_Some split: option.splits)
  show "slot fs j \<noteq> None" if "j < fst (place_fd f fs)" for j
  proof (cases "free_slot fs")
    case None
    then have "j < length fs" using that by (simp add: place_fd_def)
    then have "fs ! j \<noteq> None" using free_slot_None [OF None] by (metis nth_mem)
    then show ?thesis using \<open>j < length fs\<close> by (simp add: slot_def)
  next
    case (Some i)
    then show ?thesis using that free_slot_Some [OF Some] by (simp add: place_fd_def slot_def)
  qed
  show "slot (snd (place_fd f fs)) j = (if j = fst (place_fd f fs) then Some f else slot fs j)"
    by (auto simp: place_fd_def slot_def nth_append nth_list_update dest: free_slot_Some(1) split: option.splits)
  show "fst (place_fd f fs) \<le> length fs"
    by (auto simp: place_fd_def dest: free_slot_Some(1) split: option.splits)
qed

lemma fd_small:
  assumes "n < 2 ^ 31"
  shows "unat (of_nat n :: i32) = n" "\<not> sint (of_nat n :: i32) < 0"
proof -
  show u: "unat (of_nat n :: i32) = n" using assms by (simp add: unat_of_nat take_bit_nat_eq_self)
  have "sint (of_nat n :: i32) = int n"
    using assms by (simp add: sint_uint unsigned_of_nat take_bit_nat_eq_self signed_take_bit_int_eq_self)
  then show "\<not> sint (of_nat n :: i32) < 0" by simp
qed

text \<open>What the three operations do to the slots of the current task.\<close>

lemma alloc_fd_slots:
  assumes "cur_task s = Some t" and "length (t_open_files t) < 2 ^ 31"
  shows "\<exists>n t'. alloc_fd f s = (of_nat n, on_current (\<lambda>_. t') s) \<and> n < 2 ^ 31 \<and>
    (\<forall>j. slot (t_open_files t') j = (if j = n then Some f else slot (t_open_files t) j)) \<and>
    slot (t_open_files t) n = None \<and> (\<forall>j < n. slot (t_open_files t) j \<noteq> None)"
proof -
  let ?t = "t\<lparr>t_open_files := snd (place_fd f (t_open_files t))\<rparr>"
  have "on_current (\<lambda>t. t\<lparr>t_open_files := snd (place_fd f (t_open_files t))\<rparr>) s = on_current (\<lambda>_. ?t) s"
    using assms(1) by (simp add: on_current_def update_task_def cur_task_def)
  then have "alloc_fd f s = (of_nat (fst (place_fd f (t_open_files t))), on_current (\<lambda>_. ?t) s)"
    using assms(1) by (simp add: alloc_fd_def)
  then show ?thesis
    using place_fd_spec [where fs = "t_open_files t" and f = f] assms(2)
    by (intro exI [of _ "fst (place_fd f (t_open_files t))"] exI [of _ ?t]) (simp add: le_less_trans)
qed

lemma current_pid_on_current [simp]: "current_pid (on_current f s) = current_pid s"
  by (simp add: on_current_def)

lemma on_current_pid_of:
  "fd_info (of_nat n) s = (case cur_task s of None \<Rightarrow> None
     | Some t \<Rightarrow> map_option (\<lambda>f. (of_path f, of_offset f, of_flags f)) (slot (t_open_files t) n))"
  if "n < 2 ^ 31"
  using fd_small [OF that] by (simp add: fd_info_def split: option.splits)

section \<open>Properties\<close>

text \<open>
  C15. The life of a file descriptor. Opening gives the lowest descriptor that is closed in the current
  task, and from then on exactly that descriptor answers with the file's path, offset and flags
  while every other one is as before; closing it succeeds once and frees it, a second close fails, and
  the next open reuses the number.
\<close>

theorem fd_lifecycle:
  assumes "cur_task s = Some t" and "length (t_open_files t) < 2 ^ 31"
  shows "\<exists>n s1 s2. alloc_fd f s = (of_nat n, s1) \<and> n < 2 ^ 31 \<and>
    (\<forall>j < 2 ^ 31. fd_info (of_nat j) s1 =
       (if j = n then Some (of_path f, of_offset f, of_flags f) else fd_info (of_nat j) s)) \<and>
    fd_info (of_nat n) s = None \<and> (\<forall>j < n. fd_info (of_nat j) s \<noteq> None) \<and>
    close_fd (of_nat n) s1 = (True, s2) \<and> (\<forall>j < 2 ^ 31. fd_info (of_nat j) s2 = fd_info (of_nat j) s) \<and>
    fst (close_fd (of_nat n) s2) = False \<and> fst (alloc_fd g s2) = of_nat n"
proof -
  obtain n t1 where a: "alloc_fd f s = (of_nat n, on_current (\<lambda>_. t1) s)" "n < 2 ^ 31"
    "\<And>j. slot (t_open_files t1) j = (if j = n then Some f else slot (t_open_files t) j)"
    "slot (t_open_files t) n = None" "\<And>j. j < n \<Longrightarrow> slot (t_open_files t) j \<noteq> None"
    using alloc_fd_slots [OF assms] by blast
  let ?s1 = "on_current (\<lambda>_. t1) s"
  let ?t2 = "t1\<lparr>t_open_files := (t_open_files t1)[n := None]\<rparr>"
  let ?s2 = "on_current (\<lambda>t. t\<lparr>t_open_files := (t_open_files t)[n := None]\<rparr>) ?s1"
  have c1: "cur_task ?s1 = Some t1" and c2: "cur_task ?s2 = Some ?t2" using assms(1) by simp_all
  have cl: "close_fd (of_nat n) ?s1 = (True, ?s2)"
    using a(2,3) assms(1) by (simp add: close_fd_def fd_small)
  have sl: "slot (t_open_files ?t2) j = slot (t_open_files t) j" for j
    using a(3) [of j] a(4) by (simp add: slot_def nth_list_update split: if_splits)
  have p: "fst (place_fd g (t_open_files ?t2)) = n"
    using place_fd_spec(1,2) [where fs = "t_open_files ?t2" and f = g] a(4,5) unfolding sl
    by (metis linorder_neqE_nat)
  have jn: "j < 2 ^ 31" if "j < n" for j using that a(2) by simp
  show ?thesis
  proof (intro exI conjI)
    show "alloc_fd f s = (of_nat n, ?s1)" "n < 2 ^ 31" "close_fd (of_nat n) ?s1 = (True, ?s2)"
      by (rule a(1), rule a(2), rule cl)
    show "fst (close_fd (of_nat n) ?s2) = False"
      using a(2,4) sl [of n] assms(1) by (simp add: close_fd_def fd_small)
    show "fst (alloc_fd g ?s2) = of_nat n" using p assms(1) by (simp add: alloc_fd_def)
  qed (use a assms(1) jn in \<open>auto simp: on_current_pid_of sl [simplified]\<close>)
qed

text \<open>The running task of the demo queue opens a file.\<close>

definition demo_file :: open_file where
  "demo_file = \<lparr>of_path = ''/tmp/a'', of_offset = 0, of_flags = 1\<rparr>"

lemma demo_current: "cur_task demo_sched = Some (the (cur_task demo_sched))"
    "t_open_files (the (cur_task demo_sched)) = []"
  by code_simp+

lemma fd_lifecycle_witness: "\<exists>n. alloc_fd demo_file demo_sched = (of_nat n, snd (alloc_fd demo_file demo_sched)) \<and>
    fd_info (of_nat n) (snd (alloc_fd demo_file demo_sched)) = Some (''/tmp/a'', 0, 1)"
  using fd_lifecycle [OF demo_current(1), of demo_file demo_file] demo_current(2)
  by (auto simp: demo_file_def)

text \<open>
  Task-private state. Changing the capabilities, the identity, the working directory, the arguments
  or the descriptor table changes the current task's record and nothing else: the scheduler's invariant
  and queue, the current pid and every other task are as before, so nothing leaks into a
  task spawned earlier or later.
\<close>

theorem accessors_are_private:
  assumes "sched_ok s"
    and "s' \<in> {set_caps c s, set_identity u g s, set_cwd path s, set_args as s, snd (alloc_fd f s),
                set_fd_offset fd off s, snd (close_fd fd s)}"
  shows "sched_ok s' \<and> s_rq s' = s_rq s \<and> current_pid s' = current_pid s \<and>
    (\<forall>p. p \<noteq> current_pid s \<longrightarrow> task s' p = task s p)"
proof -
  let ?P = "\<lambda>s'. sched_ok s' \<and> s_rq s' = s_rq s \<and> current_pid s' = current_pid s \<and>
    (\<forall>p. p \<noteq> current_pid s \<longrightarrow> task s' p = task s p)"
  have on: "?P (on_current h s)" if "keeps_scheduling h" for h
    using sched_ok_update [OF assms(1) that] by (simp add: on_current_def)
  have same: "?P s" using assms(1) by simp
  have "?P (set_caps c s)" "?P (set_identity u g s)" "?P (set_cwd path s)" "?P (set_args as s)"
    unfolding set_caps_def set_identity_def set_cwd_def set_args_def
    by (rule on, simp add: keeps_scheduling_def)+
  moreover have "?P (snd (alloc_fd f s))"
    using on same by (cases "cur_task s") (simp_all add: alloc_fd_def keeps_scheduling_def)
  moreover have "?P (set_fd_offset fd off s)"
    using on same by (cases "sint fd < 0") (simp_all add: set_fd_offset_def keeps_scheduling_def)
  moreover have "?P (snd (close_fd fd s))"
    using on same by (cases "cur_task s") (simp_all add: close_fd_def keeps_scheduling_def)
  ultimately show ?thesis using assms(2) by blast
qed

lemma accessors_are_private_witness:
  "sched_ok (set_caps 7 demo_sched) \<and> task (set_caps 7 demo_sched) 2 = task demo_sched 2"
  using accessors_are_private [OF reachable_sched_ok [OF demo_sched_reachable],
      of "set_caps 7 demo_sched" 7 0 0 "[]" "[]" demo_file 0 0]
  by (simp add: demo_sched_queue)

end
