(* ===== verification/Backends.thy ===== *)
theory Backends
  imports Interfaces "HOL-Library.List_Lexorder" "HOL-Library.Char_ord"
begin

text \<open>
  The filesystems behind the mount table: \<open>Tmpfs\<close> (\<open>kernel/src/fs/tmpfs.rs\<close>), a \<open>BTreeMap\<close> from
  path to node, and \<open>Procfs\<close> (\<open>kernel/src/fs/procfs.rs\<close>), read-only text generated from kernel state,
  with the trait they implement (\<open>kernel/src/fs/vfs.rs\<close>). The map is the list of its entries
  sorted by key, as iteration shows it. Both are interpreted as instances of the interface
  \<open>filesystem\<close>, through the dispatch that a boxed trait object is.
\<close>

section \<open>The trait's types\<close>

datatype fs_error = NotFound | PermissionDenied | NotADirectory | IsADirectory | NoSpace | InvalidPath
  | IoError | NotMounted

record dir_entry =
  d_name :: string
  d_is_dir :: bool
  d_size :: u64

record file_stat =
  st_size :: u64
  st_is_dir :: bool
  st_mode :: u32
  st_uid :: u32
  st_gid :: u32
  st_atime :: u64
  st_mtime :: u64

definition starts_with :: "string \<Rightarrow> string \<Rightarrow> bool" where
  "starts_with s pre \<longleftrightarrow> take (length pre) s = pre"

definition ends_with_slash :: "string \<Rightarrow> bool" where
  "ends_with_slash s \<longleftrightarrow> s \<noteq> [] \<and> last s = CHR ''/''"

section \<open>The ordered map\<close>

fun bt_put :: "'k::linorder \<Rightarrow> 'v \<Rightarrow> ('k \<times> 'v) list \<Rightarrow> ('k \<times> 'v) list" where
  "bt_put k v [] = [(k, v)]"
| "bt_put k v ((k', v') # m) =
     (if k = k' then (k, v) # m else if k < k' then (k, v) # (k', v') # m else (k', v') # bt_put k v m)"

definition bt_ok :: "('k::linorder \<times> 'v) list \<Rightarrow> bool" where
  "bt_ok m \<longleftrightarrow> sorted_wrt (<) (map fst m)"

lemma fst_bt_put: "fst ` set (bt_put k v m) = insert k (fst ` set m)"
  by (induction m rule: bt_put.induct) auto

lemma bt_ok_put: "bt_ok m \<Longrightarrow> bt_ok (bt_put k v m)"
proof (induction m rule: bt_put.induct)
  case (2 k v k' v' m)
  have m: "bt_ok m" "\<forall>x \<in> fst ` set m. k' < x" using 2(2) by (auto simp: bt_ok_def)
  show ?case
  proof (cases "k = k' \<or> k < k'")
    case True
    then show ?thesis using 2(2) by (force simp: bt_ok_def)
  next
    case False
    then have "bt_ok (bt_put k v m)" "k' < k" using 2(1) m(1) by auto
    then show ?thesis
      using m(2) False fst_bt_put [of k v m] by (auto simp: bt_ok_def simp flip: set_map)
  qed
qed (simp add: bt_ok_def)

lemma map_of_bt_put [simp]: "map_of (bt_put k v m) q = (if q = k then Some v else map_of m q)"
proof (induction k v m rule: bt_put.induct)
  case (2 k v k' v' m)
  then show ?case by (cases "k = k'"; cases "k < k'") auto
qed simp

lemma bt_ok_distinct: "bt_ok m \<Longrightarrow> distinct (map fst m)"
  by (induction m) (auto simp: bt_ok_def)

section \<open>Tmpfs\<close>

record tmpfs_node =
  tn_data :: "u8 list"
  tn_is_dir :: bool
  tn_mode :: u32
  tn_uid :: u32
  tn_gid :: u32

type_synonym tmpfs = "(string \<times> tmpfs_node) list"

definition tmpfs_new :: tmpfs where
  "tmpfs_new = bt_put ''/tmp'' \<lparr>tn_data = [], tn_is_dir = True, tn_mode = 0x3FF, tn_uid = 0, tn_gid = 0\<rparr> []"

definition tmpfs_read :: "tmpfs \<Rightarrow> string \<Rightarrow> nat \<Rightarrow> fs_error + u8 list" where
  "tmpfs_read m path n =
     (case map_of m path of
        None \<Rightarrow> Inl NotFound
      | Some node \<Rightarrow>
          if tn_is_dir node then Inl IsADirectory
          else Inr (take (min n (length (tn_data node))) (tn_data node)))"

definition tmpfs_write_owned ::
  "tmpfs \<Rightarrow> string \<Rightarrow> u8 list \<Rightarrow> u32 \<Rightarrow> u32 \<Rightarrow> (fs_error + nat) \<times> tmpfs" where
  "tmpfs_write_owned m path buf uid gid =
     (let fresh = \<lparr>tn_data = [], tn_is_dir = False, tn_mode = 0x1A4, tn_uid = uid, tn_gid = gid\<rparr>;
          node = (case map_of m path of None \<Rightarrow> fresh | Some n \<Rightarrow> n);
          m1 = (case map_of m path of None \<Rightarrow> bt_put path fresh m | Some _ \<Rightarrow> m)
      in if tn_is_dir node then (Inl IsADirectory, m1)
         else (Inr (length buf), bt_put path (node\<lparr>tn_data := buf\<rparr>) m1))"

definition tmpfs_write :: "tmpfs \<Rightarrow> string \<Rightarrow> u8 list \<Rightarrow> (fs_error + nat) \<times> tmpfs" where
  "tmpfs_write m path buf = tmpfs_write_owned m path buf 0 0"

definition tmpfs_readdir :: "tmpfs \<Rightarrow> string \<Rightarrow> fs_error + dir_entry list" where
  "tmpfs_readdir m path =
     (if \<not> (case map_of m path of None \<Rightarrow> False | Some n \<Rightarrow> tn_is_dir n) then Inl NotADirectory
      else let pre = (if ends_with_slash path then path else path @ ''/'')
      in Inr (map (\<lambda>(k, n). \<lparr>d_name = drop (length pre) k, d_is_dir = tn_is_dir n, d_size = of_nat (length (tn_data n))\<rparr>)
           (filter (\<lambda>(k, n). starts_with k pre \<and> CHR ''/'' \<notin> set (drop (length pre) k)) m)))"

definition tmpfs_stat :: "tmpfs \<Rightarrow> string \<Rightarrow> fs_error + file_stat" where
  "tmpfs_stat m path =
     (case map_of m path of
        None \<Rightarrow> Inl NotFound
      | Some n \<Rightarrow> Inr \<lparr>st_size = of_nat (length (tn_data n)), st_is_dir = tn_is_dir n, st_mode = tn_mode n,
                     st_uid = tn_uid n, st_gid = tn_gid n, st_atime = 0, st_mtime = 0\<rparr>)"

section \<open>Procfs\<close>

text \<open>\<open>format!("{}")\<close> of an unsigned number.\<close>

fun decimal :: "nat \<Rightarrow> string" where
  "decimal n = (if n < 10 then [char_of (48 + n)] else decimal (n div 10) @ [char_of (48 + n mod 10)])"

declare decimal.simps [simp del]

definition bytes_of :: "string \<Rightarrow> u8 list" where
  "bytes_of s = map of_char s"

definition procfs_text :: "u64 \<Rightarrow> string \<Rightarrow> fs_error + string" where
  "procfs_text free path =
     (if path = ''/proc/meminfo'' then Inr (''MemFree: '' @ decimal (unat (free * 4)) @ '' kB'' @ [char_of (10 :: nat)])
      else if path = ''/proc/version'' then Inr (''Noxisa version 0.1.0 (Rust no_std kernel)'' @ [char_of (10 :: nat)])
      else if path = ''/proc/uptime'' then Inr (''0.00 0.00'' @ [char_of (10 :: nat)])
      else if starts_with path ''/proc/'' then Inl NotFound
      else Inl InvalidPath)"

definition procfs_read :: "u64 \<Rightarrow> string \<Rightarrow> nat \<Rightarrow> fs_error + u8 list" where
  "procfs_read free path n =
     (case procfs_text free path of
        Inl e \<Rightarrow> Inl e
      | Inr s \<Rightarrow> Inr (take (min n (length (bytes_of s))) (bytes_of s)))"

definition procfs_write :: "string \<Rightarrow> u8 list \<Rightarrow> fs_error + nat" where
  "procfs_write path buf = Inl PermissionDenied"

definition procfs_readdir :: "string \<Rightarrow> fs_error + dir_entry list" where
  "procfs_readdir path =
     (if path = ''/proc'' then Inr
        [\<lparr>d_name = ''meminfo'', d_is_dir = False, d_size = 64\<rparr>,
         \<lparr>d_name = ''version'', d_is_dir = False, d_size = 64\<rparr>,
         \<lparr>d_name = ''uptime'', d_is_dir = False, d_size = 16\<rparr>]
      else Inl NotFound)"

definition procfs_stat :: "string \<Rightarrow> fs_error + file_stat" where
  "procfs_stat path =
     (if path = ''/proc'' \<or> starts_with path ''/proc/'' then
        Inr \<lparr>st_size = 0, st_is_dir = (path = ''/proc''), st_mode = 0x124, st_uid = 0, st_gid = 0,
             st_atime = 0, st_mtime = 0\<rparr>
      else Inl NotFound)"

section \<open>The trait object\<close>

datatype backend = Tmpfs tmpfs | Procfs

fun fs_name :: "backend \<Rightarrow> string" where
  "fs_name (Tmpfs _) = ''tmpfs''"
| "fs_name Procfs = ''procfs''"

fun fs_read :: "u64 \<Rightarrow> backend \<Rightarrow> string \<Rightarrow> nat \<Rightarrow> fs_error + u8 list" where
  "fs_read free (Tmpfs m) path n = tmpfs_read m path n"
| "fs_read free Procfs path n = procfs_read free path n"

fun fs_write_owned :: "backend \<Rightarrow> string \<Rightarrow> u8 list \<Rightarrow> u32 \<times> u32 \<Rightarrow> (fs_error + nat) \<times> backend" where
  "fs_write_owned (Tmpfs m) path buf (uid, gid) = (case tmpfs_write_owned m path buf uid gid of (r, m') \<Rightarrow> (r, Tmpfs m'))"
| "fs_write_owned Procfs path buf _ = (procfs_write path buf, Procfs)"

fun fs_readdir :: "backend \<Rightarrow> string \<Rightarrow> fs_error + dir_entry list" where
  "fs_readdir (Tmpfs m) path = tmpfs_readdir m path"
| "fs_readdir Procfs path = procfs_readdir path"

fun fs_stat :: "backend \<Rightarrow> string \<Rightarrow> fs_error + file_stat" where
  "fs_stat (Tmpfs m) path = tmpfs_stat m path"
| "fs_stat Procfs path = procfs_stat path"

text \<open>Mode and owner as \<open>stat\<close> shows them.\<close>

definition fs_owner :: "backend \<Rightarrow> string \<Rightarrow> fs_error + (u32 \<times> u32 \<times> u32)" where
  "fs_owner fs path = (case fs_stat fs path of Inl e \<Rightarrow> Inl e | Inr st \<Rightarrow> Inr (st_mode st, st_uid st, st_gid st))"

lemmas backend_defs = tmpfs_read_def tmpfs_write_owned_def tmpfs_stat_def procfs_read_def procfs_write_def
  procfs_stat_def fs_owner_def Let_def

interpretation backends: filesystem "fs_read free" fs_write_owned fs_owner "\<lambda>(u, g). (0x1A4, u, g)" for free
proof unfold_locales
  fix s :: backend and p q :: string and n m k :: nat and bs :: "u8 list" and e :: fs_error
    and i :: "u32 \<times> u32" and s' :: backend and w :: "u32 \<times> u32 \<times> u32"
  show "fs_read free s p n = Inr bs \<Longrightarrow> length bs \<le> n"
    by (cases s) (auto simp: backend_defs split: option.splits sum.splits if_splits)
  show "fs_read free s p n = Inr bs \<Longrightarrow> m \<le> n \<Longrightarrow> fs_read free s p m = Inr (take m bs)"
    by (cases s) (auto simp: backend_defs min_def split: option.splits sum.splits if_splits)
  show "fs_read free s p n = Inl e \<Longrightarrow> fs_read free s p m = Inl e"
    by (cases s) (auto simp: backend_defs split: option.splits sum.splits if_splits)
  show "fs_write_owned s p bs i = (Inl e, s') \<Longrightarrow> s' = s"
    by (cases s; cases i) (auto simp: backend_defs split: option.splits if_splits prod.splits)
  show "fs_write_owned s p bs i = (Inr k, s') \<Longrightarrow> k = length bs"
    by (cases s; cases i) (auto simp: backend_defs split: option.splits if_splits prod.splits)
  show "fs_write_owned s p bs i = (Inr k, s') \<Longrightarrow> fs_read free s' p n = Inr (take n bs)"
    by (cases s; cases i) (auto simp: backend_defs min_def split: option.splits if_splits prod.splits)
  show "fs_write_owned s p bs i = (Inr k, s') \<Longrightarrow> q \<noteq> p \<Longrightarrow>
      fs_read free s' q n = fs_read free s q n \<and> fs_owner s' q = fs_owner s q"
    by (cases s; cases i) (auto simp: backend_defs split: option.splits if_splits prod.splits)
  show "fs_write_owned s p bs i = (Inr k, s') \<Longrightarrow> fs_owner s p = Inr w \<Longrightarrow> fs_owner s' p = Inr w"
    by (cases s; cases i) (auto simp: backend_defs split: option.splits if_splits prod.splits)
  show "fs_write_owned s p bs i = (Inr k, s') \<Longrightarrow> fs_owner s p = Inl e \<Longrightarrow>
      fs_owner s' p = Inr (case i of (u, g) \<Rightarrow> (0x1A4, u, g))"
    by (cases s; cases i) (auto simp: backend_defs split: option.splits if_splits prod.splits)
qed

section \<open>Properties\<close>

text \<open>
  C18. Nobody takes over a file by writing. Whatever sequence of writes, by whatever identities, to
  whatever paths a mounted filesystem receives, a file that existed before keeps its mode, its
  owner and its group, and a file that none of the writes names keeps its content.
\<close>

theorem ownership_survives_writes:
  assumes "fs_owner fs p = Inr w"
  shows "fs_owner (backends.writes ws fs) p = Inr w \<and>
    (p \<notin> fst ` set ws \<longrightarrow> fs_read free (backends.writes ws fs) p n = fs_read free fs p n)"
  using backends.owner_stable [OF assms] backends.untouched by blast

lemma ownership_survives_writes_witness:
  "fs_owner (backends.writes [(''/tmp'', [1], (7, 7)), (''/tmp/a'', [2], (0, 0))] (Tmpfs tmpfs_new)) ''/tmp'' =
     Inr (0x3FF, 0, 0)"
proof -
  have "fs_owner (Tmpfs tmpfs_new) ''/tmp'' = Inr (0x3FF, 0, 0)" by code_simp
  from ownership_survives_writes [OF this] show ?thesis by blast
qed

end
