(* ===== verification/Vfs.thy ===== *)
theory Vfs
  imports Backends Procs AuditLog
begin

text \<open>
  The virtual filesystem switch (\<open>kernel/src/fs/vfs.rs\<close>): the mount table, the permission check and
  its audit trail, path resolution, and the per-task descriptors on top. Reads and writes are
  whole-file operations, and the descriptor calls slice and splice around them. The state is the
  mount table, the audit ring, the scheduler (for the caller's identity and descriptors), the tick
  counter and the allocator's free count that \<open>/proc/meminfo\<close> prints.
\<close>

section \<open>State\<close>

definition O_RDONLY :: u8 where "O_RDONLY = 1"
definition O_WRONLY :: u8 where "O_WRONLY = 2"
definition O_RDWR :: u8 where "O_RDWR = O_RDONLY OR O_WRONLY"
definition R_BIT :: u32 where "R_BIT = 4"
definition W_BIT :: u32 where "W_BIT = 2"

record vfs =
  v_mounts :: "(string \<times> backend) list"
  v_log :: audit_ring
  v_sched :: sched
  v_tick :: u64
  v_free :: u64

definition mount :: "string \<Rightarrow> backend \<Rightarrow> vfs \<Rightarrow> vfs" where
  "mount mountpoint fs k = k\<lparr>v_mounts := v_mounts k @ [(mountpoint, fs)]\<rparr>"

text \<open>\<open>mounts.iter().rev().find(..)\<close>: the index of the last mount whose point is a prefix of the path.\<close>

definition mount_index :: "string \<Rightarrow> (string \<times> backend) list \<Rightarrow> nat option" where
  "mount_index path mts = find (\<lambda>i. starts_with path (fst (mts ! i))) (rev [0..<length mts])"

definition backend_of :: "string \<Rightarrow> vfs \<Rightarrow> (nat \<times> backend) option" where
  "backend_of path k =
     (case mount_index path (v_mounts k) of None \<Rightarrow> None | Some i \<Rightarrow> Some (i, snd (v_mounts k ! i)))"

definition set_backend :: "nat \<Rightarrow> backend \<Rightarrow> vfs \<Rightarrow> vfs" where
  "set_backend i fs k = k\<lparr>v_mounts := (v_mounts k)[i := (fst (v_mounts k ! i), fs)]\<rparr>"

definition vfs_audit :: "string \<Rightarrow> bool \<Rightarrow> string \<Rightarrow> vfs \<Rightarrow> vfs" where
  "vfs_audit action allowed path k =
     k\<lparr>v_log := audit_log (v_tick k) ''vfs'' action (uid (v_sched k)) allowed path (v_log k)\<rparr>"

section \<open>Permissions\<close>

definition check_permission :: "u32 \<Rightarrow> u32 \<Rightarrow> file_stat \<Rightarrow> u32 \<Rightarrow> fs_error + unit" where
  "check_permission u g st want =
     (let shift = (if u = st_uid st then 6 else if g = st_gid st then 3 else 0);
          bits = drop_bit shift (st_mode st) AND 7
      in if bits AND want = want then Inr () else Inl PermissionDenied)"

text \<open>
  What a permission means, said independently of the code's masks: of the nine mode bits, those of
  the class the caller is in (owner, group, others) must contain every wanted bit.
\<close>

definition may :: "vfs \<Rightarrow> file_stat \<Rightarrow> u32 \<Rightarrow> bool" where
  "may k st want \<longleftrightarrow>
     (let class_bit = (if uid (v_sched k) = st_uid st then 6 else if gid (v_sched k) = st_gid st then 3 else 0)
      in \<forall>i \<in> {0, 1, 2}. bit want i \<longrightarrow> bit (st_mode st) (class_bit + i))"

lemma mask_subset_iff:
  fixes x want :: u32
  assumes "want AND 7 = want"
  shows "(x AND 7) AND want = want \<longleftrightarrow> (\<forall>i \<in> {0, 1, 2}. bit want i \<longrightarrow> bit x i)"
proof -
  have seven: "(7 :: u32) = mask 3" by (simp add: mask_eq_exp_minus_1)
  have low: "n \<in> {0, 1, 2}" if "bit want n" for n
  proof -
    have "bit (want AND 7) n" using assms that by simp
    then have "n < 3" unfolding seven by (simp add: bit_simps)
    then show ?thesis by auto
  qed
  have "(x AND 7) AND want = x AND want" using assms by (metis and.assoc and.commute)
  moreover have "x AND want = want \<longleftrightarrow> (\<forall>n. bit want n \<longrightarrow> bit x n)"
  proof (intro iffI allI impI)
    fix n assume "x AND want = want" and "bit want n"
    then have "bit (x AND want) n" by simp
    then show "bit x n" by (simp add: bit_and_iff)
  next
    assume "\<forall>n. bit want n \<longrightarrow> bit x n"
    then show "x AND want = want" by (intro bit_eqI) (auto simp: bit_and_iff)
  qed
  ultimately show ?thesis using low by metis
qed

lemma check_permission_may:
  assumes "want AND 7 = want"
  shows "check_permission (uid (v_sched k)) (gid (v_sched k)) st want =
      (if may k st want then Inr () else Inl PermissionDenied)"
  by (simp only: check_permission_def may_def Let_def mask_subset_iff [OF assms] bit_drop_bit_eq o_apply)

lemma check_RW [simp]:
  "check_permission (uid (v_sched k)) (gid (v_sched k)) st R_BIT = (if may k st R_BIT then Inr () else Inl PermissionDenied)"
  "check_permission (uid (v_sched k)) (gid (v_sched k)) st W_BIT = (if may k st W_BIT then Inr () else Inl PermissionDenied)"
  by (rule check_permission_may, simp add: R_BIT_def W_BIT_def)+

section \<open>Whole-file operations\<close>

definition vfs_read :: "string \<Rightarrow> u8 list \<Rightarrow> vfs \<Rightarrow> (fs_error + nat) \<times> u8 list \<times> vfs" where
  "vfs_read path buf k =
     (case backend_of path k of
        None \<Rightarrow> (Inl NotMounted, buf, k)
      | Some (_, fs) \<Rightarrow>
          (case fs_stat fs path of
             Inl e \<Rightarrow> (Inl e, buf, k)
           | Inr st \<Rightarrow>
               (case check_permission (uid (v_sched k)) (gid (v_sched k)) st R_BIT of
                  Inl e \<Rightarrow> (Inl e, buf, vfs_audit ''read'' False path k)
                | Inr _ \<Rightarrow>
                    let k1 = vfs_audit ''read'' True path k
                    in case fs_read (v_free k1) fs path (length buf) of
                         Inl e \<Rightarrow> (Inl e, buf, k1)
                       | Inr bs \<Rightarrow> (Inr (length bs), bs @ drop (length bs) buf, k1))))"

definition vfs_stat :: "string \<Rightarrow> vfs \<Rightarrow> fs_error + file_stat" where
  "vfs_stat path k =
     (case backend_of path k of None \<Rightarrow> Inl NotMounted | Some (_, fs) \<Rightarrow> fs_stat fs path)"

definition vfs_write :: "string \<Rightarrow> u8 list \<Rightarrow> vfs \<Rightarrow> (fs_error + nat) \<times> vfs" where
  "vfs_write path buf k =
     (case backend_of path k of
        None \<Rightarrow> (Inl NotMounted, k)
      | Some (i, fs) \<Rightarrow>
          let proceed =
            (let k1 = vfs_audit ''write'' True path k
             in case fs_write_owned fs path buf (uid (v_sched k), gid (v_sched k)) of
                  (r, fs') \<Rightarrow> (r, set_backend i fs' k1))
          in case fs_stat fs path of
               Inr st \<Rightarrow>
                 (case check_permission (uid (v_sched k)) (gid (v_sched k)) st W_BIT of
                    Inl e \<Rightarrow> (Inl e, vfs_audit ''write'' False path k)
                  | Inr _ \<Rightarrow> proceed)
             | Inl NotFound \<Rightarrow> proceed
             | Inl e \<Rightarrow> (Inl e, k))"

section \<open>Descriptors\<close>

definition resolve_path :: "string \<Rightarrow> string \<Rightarrow> string" where
  "resolve_path base path =
     (if starts_with path ''/'' then path
      else if ends_with_slash base then base @ path
      else base @ ''/'' @ path)"

definition wanted :: "u8 \<Rightarrow> u32" where
  "wanted flags =
     ((if flags AND O_RDONLY \<noteq> 0 then 1 else 0) * R_BIT) OR ((if flags AND O_WRONLY \<noteq> 0 then 1 else 0) * W_BIT)"

lemma wanted_mask: "wanted flags AND 7 = wanted flags"
  by (simp add: wanted_def R_BIT_def W_BIT_def)

definition vfs_open :: "string \<Rightarrow> u8 \<Rightarrow> vfs \<Rightarrow> (fs_error + i32) \<times> vfs" where
  "vfs_open path flags k =
     (let resolved = resolve_path (cwd (v_sched k)) path
      in case backend_of resolved k of
           None \<Rightarrow> (Inl NotMounted, k)
         | Some (_, fs) \<Rightarrow>
             (case fs_stat fs resolved of
                Inl e \<Rightarrow> (Inl e, k)
              | Inr st \<Rightarrow>
                  (case check_permission (uid (v_sched k)) (gid (v_sched k)) st (wanted flags) of
                     Inl e \<Rightarrow> (Inl e, vfs_audit ''open'' False resolved k)
                   | Inr _ \<Rightarrow>
                       let k1 = vfs_audit ''open'' True resolved k;
                           (fd, s) = alloc_fd \<lparr>of_path = resolved, of_offset = 0, of_flags = flags\<rparr> (v_sched k1)
                       in (Inr fd, k1\<lparr>v_sched := s\<rparr>))))"

text \<open>
  \<open>read_fd\<close> returns the number of bytes and the caller's buffer, of which \<open>copy_within\<close> moves the part
  behind the offset to the front.
\<close>

definition read_fd :: "i32 \<Rightarrow> u8 list \<Rightarrow> vfs \<Rightarrow> (fs_error + nat) \<times> u8 list \<times> vfs" where
  "read_fd fd buf k =
     (case fd_info fd (v_sched k) of
        None \<Rightarrow> (Inl NotFound, buf, k)
      | Some (path, offset, flags) \<Rightarrow>
          if flags AND O_RDONLY = 0 then (Inl PermissionDenied, buf, k)
          else (case vfs_read path buf k of
                  (Inl e, buf1, k1) \<Rightarrow> (Inl e, buf1, k1)
                | (Inr n, buf1, k1) \<Rightarrow>
                    (let start = min offset n; avail = n - start; tk = min avail (length buf1);
                         buf2 = (if 0 < start then take tk (drop start buf1) @ drop tk buf1 else buf1)
                     in (Inr tk, buf2, k1\<lparr>v_sched := set_fd_offset fd (offset + tk) (v_sched k1)\<rparr>))))"

definition splice :: "nat \<Rightarrow> u8 list \<Rightarrow> u8 list \<Rightarrow> nat \<Rightarrow> u8 list" where
  "splice offset buf existing existing_len =
     (let head = take (min existing_len offset) existing;
          padded = head @ replicate (offset - length head) 0;
          merged = padded @ buf
      in if length merged < existing_len
         then merged @ drop (length merged) (take existing_len existing) else merged)"

definition write_fd :: "i32 \<Rightarrow> u8 list \<Rightarrow> vfs \<Rightarrow> (fs_error + nat) \<times> vfs" where
  "write_fd fd buf k =
     (case fd_info fd (v_sched k) of
        None \<Rightarrow> (Inl NotFound, k)
      | Some (path, offset, flags) \<Rightarrow>
          if flags AND O_WRONLY = 0 then (Inl PermissionDenied, k)
          else (case vfs_read path (replicate (offset + length buf) 0) k of
                  (r, existing, k1) \<Rightarrow>
                    let existing_len = (case r of Inl _ \<Rightarrow> 0 | Inr n \<Rightarrow> n)
                    in case vfs_write path (splice offset buf existing existing_len) k1 of
                         (Inl e, k2) \<Rightarrow> (Inl e, k2)
                       | (Inr _, k2) \<Rightarrow>
                           (Inr (length buf), k2\<lparr>v_sched := set_fd_offset fd (offset + length buf) (v_sched k2)\<rparr>)))"

definition vfs_close_fd :: "i32 \<Rightarrow> vfs \<Rightarrow> bool \<times> vfs" where
  "vfs_close_fd fd k = (case close_fd fd (v_sched k) of (b, s) \<Rightarrow> (b, k\<lparr>v_sched := s\<rparr>))"

section \<open>The mount table\<close>

lemma mount_index_bound: "mount_index path mts = Some i \<Longrightarrow> i < length mts \<and> starts_with path (fst (mts ! i))"
  by (auto simp: mount_index_def find_Some_iff rev_nth)

lemma mount_index_fst:
  assumes "map fst mts = map fst mts'"
  shows "mount_index path mts = mount_index path mts'"
proof -
  have l: "length mts = length mts'" using assms by (metis length_map)
  have "fst (mts ! i) = fst (mts' ! i)" if "i < length mts" for i
    using assms that l by (metis nth_map)
  then show ?thesis unfolding mount_index_def l by (intro find_cong) (auto simp: l)
qed

lemma map_fst_set_backend [simp]: "map fst (v_mounts (set_backend i fs k)) = map fst (v_mounts k)"
proof (cases "i < length (v_mounts k)")
  case True
  then show ?thesis by (simp add: set_backend_def map_update list_update_same_conv)
next
  case False
  then show ?thesis by (simp add: set_backend_def list_update_beyond)
qed

lemma vfs_audit_fields [simp]:
  "v_mounts (vfs_audit a b p k) = v_mounts k" "v_sched (vfs_audit a b p k) = v_sched k"
  "v_free (vfs_audit a b p k) = v_free k" "v_tick (vfs_audit a b p k) = v_tick k"
  by (simp_all add: vfs_audit_def)

lemma set_backend_fields [simp]:
  "v_sched (set_backend i fs k) = v_sched k" "v_free (set_backend i fs k) = v_free k"
  "v_tick (set_backend i fs k) = v_tick k" "v_log (set_backend i fs k) = v_log k"
  by (simp_all add: set_backend_def)

lemma backend_of_cong:
  "v_mounts k = v_mounts k' \<Longrightarrow> backend_of path k = backend_of path k'"
  by (simp add: backend_of_def split: option.splits)

lemma backend_of_audit [simp]: "backend_of path (vfs_audit a b p k) = backend_of path k"
  by (rule backend_of_cong) simp

lemma backend_of_set:
  assumes "backend_of path k = Some (i, fs)"
  shows "backend_of q (set_backend i fs' k) =
    (case backend_of q k of None \<Rightarrow> None | Some (j, g) \<Rightarrow> Some (j, if j = i then fs' else g))"
proof -
  have i: "i < length (v_mounts k)" using assms mount_index_bound by (auto simp: backend_of_def split: option.splits)
  have "mount_index q (v_mounts (set_backend i fs' k)) = mount_index q (v_mounts k)"
    by (rule mount_index_fst) simp
  then show ?thesis using i by (auto simp: backend_of_def set_backend_def nth_list_update split: option.splits)
qed

text \<open>The first \<open>n\<close> bytes of a file, without the permission check.\<close>

definition vfs_content :: "string \<Rightarrow> vfs \<Rightarrow> nat \<Rightarrow> fs_error + u8 list" where
  "vfs_content path k n =
     (case backend_of path k of None \<Rightarrow> Inl NotMounted | Some (_, fs) \<Rightarrow> fs_read (v_free k) fs path n)"

text \<open>Mode and owner of a file.\<close>

definition vfs_owner :: "string \<Rightarrow> vfs \<Rightarrow> fs_error + (u32 \<times> u32 \<times> u32)" where
  "vfs_owner path k = map_sum id (\<lambda>st. (st_mode st, st_uid st, st_gid st)) (vfs_stat path k)"

lemma vfs_read_cases:
  "vfs_read path buf k =
     (case vfs_stat path k of
        Inl e \<Rightarrow> (Inl e, buf, k)
      | Inr st \<Rightarrow>
          if may k st R_BIT then
            (case vfs_content path k (length buf) of
               Inl e \<Rightarrow> (Inl e, buf, vfs_audit ''read'' True path k)
             | Inr bs \<Rightarrow> (Inr (length bs), bs @ drop (length bs) buf, vfs_audit ''read'' True path k))
          else (Inl PermissionDenied, buf, vfs_audit ''read'' False path k))"
  by (auto simp: vfs_read_def vfs_stat_def vfs_content_def Let_def split: option.splits sum.splits)

lemma vfs_content_audit [simp]: "vfs_content p (vfs_audit a b q k) = vfs_content p k"
  by (simp add: vfs_content_def fun_eq_iff split: option.splits)

lemma vfs_stat_audit [simp]: "vfs_stat p (vfs_audit a b q k) = vfs_stat p k"
  by (simp add: vfs_stat_def)

lemma may_audit [simp]: "may (vfs_audit a b q k) = may k"
  by (simp add: may_def fun_eq_iff)

lemma vfs_write_cases:
  obtains (denied) st where "vfs_stat path k = Inr st" "\<not> may k st W_BIT"
      "vfs_write path buf k = (Inl PermissionDenied, vfs_audit ''write'' False path k)"
  | (failed) e where "vfs_stat path k = Inl e" "e \<noteq> NotFound" "vfs_write path buf k = (Inl e, k)"
  | (tried) i fs r fs' where "vfs_stat path k = Inl NotFound \<or> (\<exists>st. vfs_stat path k = Inr st \<and> may k st W_BIT)"
      "backend_of path k = Some (i, fs)"
      "fs_write_owned fs path buf (uid (v_sched k), gid (v_sched k)) = (r, fs')"
      "vfs_write path buf k = (r, set_backend i fs' (vfs_audit ''write'' True path k))"
proof (cases "backend_of path k")
  case None
  then show ?thesis using failed by (simp add: vfs_stat_def vfs_write_def)
next
  case (Some b)
  obtain i fs where b: "b = (i, fs)" by (cases b)
  obtain r fs' where w: "fs_write_owned fs path buf (uid (v_sched k), gid (v_sched k)) = (r, fs')" by fastforce
  have st: "vfs_stat path k = fs_stat fs path" using Some b by (simp add: vfs_stat_def)
  show ?thesis
  proof (cases "fs_stat fs path")
    case (Inl e)
    then show ?thesis
    proof (cases "e = NotFound")
      case True
      then show ?thesis using tried [OF _ _ w] Some b st Inl w by (simp add: vfs_write_def Let_def)
    next
      case False
      then show ?thesis using failed [of e] Some b st Inl w
        by (cases e) (simp_all add: vfs_write_def Let_def)
    qed
  next
    case (Inr s)
    show ?thesis
    proof (cases "may k s W_BIT")
      case True
      then show ?thesis using tried [OF _ _ w] Some b st Inr w by (simp add: vfs_write_def Let_def)
    next
      case False
      then show ?thesis using denied [of s] False Some b st Inr by (simp add: vfs_write_def Let_def)
    qed
  qed
qed

text \<open>A write that went through, seen from every path.\<close>

lemma same_backend_paths:
  assumes "backend_of path k = Some (i, fs)" "backend_of q k = Some (j, g)" "i = j"
  shows "g = fs"
  using assms by (auto simp: backend_of_def split: option.splits)

lemma vfs_write_done:
  assumes "vfs_write path buf k = (Inr n, k')"
  shows "n = length buf" "vfs_content path k' m = Inr (take m buf)"
    "\<And>q. q \<noteq> path \<Longrightarrow> vfs_content q k' m = vfs_content q k m \<and>
vfs_owner q k' = vfs_owner q k"
    "vfs_owner path k' =
       Inr (case vfs_stat path k of
              Inl _ \<Rightarrow> (0x1A4, uid (v_sched k), gid (v_sched k))
            | Inr st \<Rightarrow> (st_mode st, st_uid st, st_gid st))"
    "v_sched k' = v_sched k" "v_free k' = v_free k"
proof -
  obtain i fs fs' where b: "backend_of path k = Some (i, fs)"
    and w: "fs_write_owned fs path buf (uid (v_sched k), gid (v_sched k)) = (Inr n, fs')"
    and k': "k' = set_backend i fs' (vfs_audit ''write'' True path k)"
    using assms by (cases rule: vfs_write_cases [of path k buf]) auto
  have own: "vfs_owner q x = (case backend_of q x of None \<Rightarrow> Inl NotMounted | Some (_, g) \<Rightarrow> fs_owner g q)" for q x
    by (auto simp: vfs_owner_def vfs_stat_def fs_owner_def split: option.splits sum.splits)
  have b': "backend_of q k' =
      (case backend_of q k of None \<Rightarrow> None | Some (j, g) \<Rightarrow> Some (j, if j = i then fs' else g))" for q
    using backend_of_set [of path "vfs_audit ''write'' True path k" i fs q fs'] b by (simp add: k')
  show "n = length buf" by (rule backends.wr_count [OF w])
  show "vfs_content path k' m = Inr (take m buf)"
    using backends.wr_content [OF w] b by (simp add: vfs_content_def b')
  show "v_sched k' = v_sched k" and fr: "v_free k' = v_free k" by (simp_all add: k')
  show "vfs_content q k' m = vfs_content q k m \<and> vfs_owner q k' = vfs_owner q k" if q: "q \<noteq> path" for q
  proof (cases "backend_of q k")
    case None
    then show ?thesis by (simp add: own vfs_content_def b')
  next
    case (Some c)
    obtain j g where c: "c = (j, g)" by (cases c)
    show ?thesis
    proof (cases "j = i")
      case True
      then have "g = fs" using same_backend_paths [OF b] Some c by blast
      then show ?thesis using backends.wr_frame [OF w q] Some c True by (simp add: own vfs_content_def b' fr)
    next
      case False
      then show ?thesis using Some c by (simp add: own vfs_content_def b' fr)
    qed
  qed
  show "vfs_owner path k' =
       Inr (case vfs_stat path k of
              Inl _ \<Rightarrow> (0x1A4, uid (v_sched k), gid (v_sched k))
            | Inr st \<Rightarrow> (st_mode st, st_uid st, st_gid st))"
  proof (cases "fs_stat fs path")
    case (Inl e)
    then have "fs_owner fs path = Inl e" by (simp add: fs_owner_def)
    from backends.wr_create [OF w this] show ?thesis using b Inl by (simp add: own b') (simp add: vfs_stat_def)
  next
    case (Inr st)
    then have "fs_owner fs path = Inr (st_mode st, st_uid st, st_gid st)" by (simp add: fs_owner_def)
    from backends.wr_owner [OF w this] show ?thesis using b Inr by (simp add: own b') (simp add: vfs_stat_def)
  qed
qed

section \<open>Descriptor lemmas\<close>

lemma fd_info_set_offset:
  assumes "fd_info fd s = Some (p, off, fl)"
  shows "fd_info fd (set_fd_offset fd n s) = Some (p, n, fl)"
  using assms
  by (auto simp: fd_info_def set_fd_offset_def slot_def split: if_splits option.splits)

lemma splice_eq:
  assumes "existing = take (offset + length buf) c @ z" and "n = min (offset + length buf) (length c)"
  shows "splice offset buf existing n = take offset (c @ replicate offset 0) @ buf"
proof -
  have "take (min n offset) existing = take offset c" using assms by (simp add: min_def)
  then show ?thesis using assms by (simp add: splice_def Let_def min_def)
qed

lemma splice_nothing: "splice offset buf z 0 = take offset (replicate offset 0) @ buf"
  by (simp add: splice_def Let_def)

text \<open>\<open>copy_within\<close> of \<open>m\<close> bytes from \<open>off\<close> to the front.\<close>

lemma read_window:
  assumes "n \<le> length b" and "take n b = take n c"
  shows "take (n - off) (if 0 < min off n then take (n - off) (drop (min off n) b) @ drop (n - off) b else b) =
    take (n - off) (drop off c)"
proof (cases "off < n")
  case True
  have w: "take (n - off) (drop off b) = take (n - off) (drop off c)"
    using assms(2) True by (simp add: take_drop)
  have "length (take (n - off) (drop off b)) = n - off" using assms(1) True by simp
  then show ?thesis using w True assms(2) by (cases "off = 0") (simp_all add: min_absorb1)
qed simp

section \<open>Properties\<close>

text \<open>
  C16. The permission check is complete for denials. If a file exists and the caller's owner, group or
  other bits do not include what the operation wants, then reading, writing and opening it all return
  \<open>PermissionDenied\<close>; no byte of any file, of the caller's buffer or of any mount changes, no descriptor
  is allocated, and the audit ring gains exactly one event that records the denial.
\<close>

theorem vfs_denials_are_inert:
  assumes "vfs_stat path k = Inr st"
  shows "(\<not> may k st R_BIT \<longrightarrow>
      vfs_read path buf k = (Inl PermissionDenied, buf, vfs_audit ''read'' False path k)) \<and>
    (\<not> may k st W_BIT \<longrightarrow> vfs_write path buf k = (Inl PermissionDenied, vfs_audit ''write'' False path k)) \<and>
    (path = resolve_path (cwd (v_sched k)) p \<and> \<not> may k st (wanted flags) \<longrightarrow>
      vfs_open p flags k = (Inl PermissionDenied, vfs_audit ''open'' False path k)) \<and>
    (\<forall>a. v_mounts (vfs_audit a False path k) = v_mounts k \<and> v_sched (vfs_audit a False path k) = v_sched k \<and>
      (audit_ok (v_log k) \<longrightarrow> v_log (vfs_audit a False path k) = most_recent LOG_CAPACITY (v_log k @
        [\<lparr>ev_tick = v_tick k, ev_subsystem = ''vfs'', ev_action = a, ev_uid = uid (v_sched k),
          ev_allowed = False, ev_detail = path\<rparr>])))"
proof (intro conjI impI allI)
  show "vfs_read path buf k = (Inl PermissionDenied, buf, vfs_audit ''read'' False path k)" if "\<not> may k st R_BIT"
    using assms that by (simp add: vfs_read_cases)
  show "vfs_write path buf k = (Inl PermissionDenied, vfs_audit ''write'' False path k)" if "\<not> may k st W_BIT"
    using assms that by (cases rule: vfs_write_cases [of path k buf]) auto
  show "vfs_open p flags k = (Inl PermissionDenied, vfs_audit ''open'' False path k)"
    if h: "path = resolve_path (cwd (v_sched k)) p \<and> \<not> may k st (wanted flags)"
  proof -
    have "check_permission (uid (v_sched k)) (gid (v_sched k)) st (wanted flags) = Inl PermissionDenied"
      using h by (simp add: check_permission_may [OF wanted_mask])
    then show ?thesis using assms h by (auto simp: vfs_open_def vfs_stat_def split: option.splits)
  qed
qed (simp_all add: vfs_audit_def audit_log_def audit_push_most_recent)

text \<open>The mounts at boot, with the running task of the demo queue as the caller.\<close>

definition demo_vfs :: vfs where
  "demo_vfs = \<lparr>v_mounts = [(''/tmp'', Tmpfs tmpfs_new), (''/proc'', Procfs)], v_log = [],
     v_sched = demo_sched, v_tick = 9, v_free = 100\<rparr>"

lemma vfs_denials_are_inert_witness:
  "vfs_write ''/proc/version'' [1, 2] demo_vfs =
     (Inl PermissionDenied, vfs_audit ''write'' False ''/proc/version'' demo_vfs)"
proof -
  let ?st = "\<lparr>st_size = 0, st_is_dir = False, st_mode = 0x124, st_uid = 0, st_gid = 0, st_atime = 0, st_mtime = 0\<rparr>"
  have st: "vfs_stat ''/proc/version'' demo_vfs = Inr ?st" by code_simp
  have "\<not> may demo_vfs ?st W_BIT" by code_simp
  then show ?thesis
    using vfs_denials_are_inert [OF st, of "[1, 2]" "[]" 0] by simp
qed



text \<open>
  C19. What a descriptor read returns. With the read permission, \<open>read_fd\<close> on a file with content
  \<open>c\<close> returns the bytes of \<open>c\<close> from the descriptor's offset and advances the offset by their number.
  But the number is the length of the file's prefix that fits the buffer, less the offset:
  once the offset has reached the length of the caller's buffer, every further read returns 0,
  however long the file is.
\<close>

theorem read_fd_slice:
  assumes "fd_info fd (v_sched k) = Some (path, off, flags)" and "flags AND O_RDONLY \<noteq> 0"
    and "vfs_stat path k = Inr st" and "may k st R_BIT"
    and "\<forall>n. vfs_content path k n = Inr (take n c)"
  shows "\<exists>buf' k'. read_fd fd buf k = (Inr (min (length c) (length buf) - off), buf', k') \<and>
    length buf' = length buf \<and>
    take (min (length c) (length buf) - off) buf' = take (min (length c) (length buf) - off) (drop off c) \<and>
    fd_info fd (v_sched k') = Some (path, off + (min (length c) (length buf) - off), flags) \<and>
    v_mounts k' = v_mounts k"
proof -
  let ?k1 = "vfs_audit ''read'' True path k" and ?n = "min (length c) (length buf)"
  let ?b1 = "take (length buf) c @ drop (length c) buf"
  have r: "vfs_read path buf k = (Inr ?n, ?b1, ?k1)"
    using assms(3-5) by (simp add: vfs_read_cases min_def)
  have len: "length ?b1 = length buf" by simp
  have tk: "min (?n - min off ?n) (length ?b1) = ?n - off"
  proof -
    have "?n - min off ?n = ?n - off" "?n - off \<le> length buf" by linarith+
    then show ?thesis unfolding len by simp
  qed
  let ?b2 = "if 0 < min off ?n then take (?n - off) (drop (min off ?n) ?b1) @ drop (?n - off) ?b1 else ?b1"
  have run: "read_fd fd buf k = (Inr (?n - off), ?b2,
      ?k1\<lparr>v_sched := set_fd_offset fd (off + (?n - off)) (v_sched ?k1)\<rparr>)"
    using assms(1,2) by (simp add: read_fd_def r Let_def tk del: length_append)
  have "length ?b2 = length buf" by (auto simp: min_def)
  moreover have "take (?n - off) ?b2 = take (?n - off) (drop off c)"
    by (rule read_window) simp_all
  ultimately show ?thesis using run fd_info_set_offset [OF assms(1)] by simp
qed

text \<open>
  What a descriptor write leaves. After a successful \<open>write_fd\<close> at offset \<open>off\<close> the file is its first
  \<open>off\<close> bytes, zero-padded to \<open>off\<close>, followed by the written bytes, and nothing else: whatever the file
  had beyond the written range is lost, and for a caller without read permission the bytes in
  front of it are replaced by zeros too.
\<close>

theorem write_fd_splice:
  assumes "fd_info fd (v_sched k) = Some (path, off, flags)" and "vfs_stat path k = Inr st"
    and "\<forall>n. vfs_content path k n = Inr (take n c)" and "write_fd fd buf k = (Inr r, k')"
  shows "r = length buf \<and> flags AND O_WRONLY \<noteq> 0 \<and> may k st W_BIT \<and>
    (\<forall>n. vfs_content path k' n =
       Inr (take n (take off ((if may k st R_BIT then c else []) @ replicate off 0) @ buf))) \<and>
    fd_info fd (v_sched k') = Some (path, off + length buf, flags)"
proof -
  let ?z = "replicate (off + length buf) (0 :: u8)"
  let ?k1 = "vfs_audit ''read'' (may k st R_BIT) path k"
  let ?new = "take off ((if may k st R_BIT then c else []) @ replicate off 0) @ buf"
  have fl: "flags AND O_WRONLY \<noteq> 0" using assms(1,4) by (auto simp: write_fd_def split: if_splits)
  obtain res ex where rd: "vfs_read path ?z k = (res, ex, ?k1)"
    and sp: "splice off buf ex (case res of Inl _ \<Rightarrow> 0 | Inr n \<Rightarrow> n) = ?new"
  proof (cases "may k st R_BIT")
    case True
    have "vfs_read path ?z k = (Inr (length (take (off + length buf) c)),
        take (off + length buf) c @ drop (length (take (off + length buf) c)) ?z, ?k1)"
      using assms(2,3) True by (simp add: vfs_read_cases del: length_take)
    moreover have "splice off buf (take (off + length buf) c @ drop (length (take (off + length buf) c)) ?z)
        (length (take (off + length buf) c)) = ?new"
      using True splice_eq [OF refl, of "length (take (off + length buf) c)"] by (simp add: min.commute)
    ultimately show ?thesis using that by simp
  next
    case False
    then show ?thesis using that [of "Inl PermissionDenied" ?z] assms(2) splice_nothing
      by (simp add: vfs_read_cases)
  qed
  obtain n k2 where w: "vfs_write path ?new ?k1 = (Inr n, k2)" and r: "r = length buf"
    and k': "k' = k2\<lparr>v_sched := set_fd_offset fd (off + length buf) (v_sched k2)\<rparr>"
    using assms(1,4) fl by (auto simp: write_fd_def rd sp Let_def split: prod.splits sum.splits)
  note d = vfs_write_done [OF w]
  have "may k st W_BIT"
    using w assms(2) by (cases rule: vfs_write_cases [of path ?k1 ?new]) auto
  moreover have "vfs_content path k' m = vfs_content path k2 m" for m
    by (simp add: k' vfs_content_def backend_of_def split: option.splits)
  ultimately show ?thesis using d(2,5) r fl fd_info_set_offset [OF assms(1)] by (simp add: k')
qed

text \<open>A three-byte file, open for reading and writing at offset 2.\<close>

definition demo_reading :: vfs where
  "demo_reading =
     (let k = snd (vfs_open ''/tmp/a'' O_RDWR (snd (vfs_write ''/tmp/a'' [1, 2, 3] demo_vfs)))
      in k\<lparr>v_sched := set_fd_offset 0 2 (v_sched k)\<rparr>)"

lemma demo_reading_fd: "fd_info 0 (v_sched demo_reading) = Some (''/tmp/a'', 2, 3)"
  by code_simp

lemma demo_reading_stat:
  "vfs_stat ''/tmp/a'' demo_reading = Inr \<lparr>st_size = 3, st_is_dir = False, st_mode = 0x1A4, st_uid = 1000,
     st_gid = 1000, st_atime = 0, st_mtime = 0\<rparr>"
  by code_simp

lemma demo_reading_may:
  "may demo_reading \<lparr>st_size = 3, st_is_dir = False, st_mode = 0x1A4, st_uid = 1000,
     st_gid = 1000, st_atime = 0, st_mtime = 0\<rparr> R_BIT"
  by code_simp

lemma demo_reading_content: "\<forall>n. vfs_content ''/tmp/a'' demo_reading n = Inr (take n [1, 2, 3])"
proof -
  have "backend_of ''/tmp/a'' demo_reading = Some (0, Tmpfs
    [(''/tmp'', \<lparr>tn_data = [], tn_is_dir = True, tn_mode = 0x3FF, tn_uid = 0, tn_gid = 0\<rparr>),
     (''/tmp/a'', \<lparr>tn_data = [1, 2, 3], tn_is_dir = False, tn_mode = 0x1A4, tn_uid = 1000, tn_gid = 1000\<rparr>)])"
    by code_simp
  then show ?thesis by (simp add: vfs_content_def tmpfs_read_def min_def)
qed

lemma read_fd_slice_witness:
  "fst (read_fd 0 [0, 0] demo_reading) = Inr 0 \<and> vfs_content ''/tmp/a'' demo_reading 3 = Inr [1, 2, 3]"
proof -
  have "(3 :: u8) AND O_RDONLY \<noteq> 0" by (simp add: O_RDONLY_def)
  from read_fd_slice [OF demo_reading_fd this demo_reading_stat demo_reading_may demo_reading_content, of "[0, 0]"]
  show ?thesis using demo_reading_content by auto
qed

lemma write_fd_splice_witness:
  "\<exists>k'. write_fd 0 [9] (demo_reading\<lparr>v_sched := set_fd_offset 0 0 (v_sched demo_reading)\<rparr>) = (Inr 1, k') \<and>
     vfs_content ''/tmp/a'' k' 3 = Inr [9]"
proof -
  let ?k = "demo_reading\<lparr>v_sched := set_fd_offset 0 0 (v_sched demo_reading)\<rparr>"
  have f: "fd_info 0 (v_sched ?k) = Some (''/tmp/a'', 0, 3)"
    using fd_info_set_offset [OF demo_reading_fd] by simp
  have st: "vfs_stat ''/tmp/a'' ?k = vfs_stat ''/tmp/a'' demo_reading"
    by (simp add: vfs_stat_def backend_of_def split: option.splits)
  have c: "\<forall>n. vfs_content ''/tmp/a'' ?k n = Inr (take n [1, 2, 3])"
    using demo_reading_content by (simp add: vfs_content_def backend_of_def split: option.splits)
  have "fst (write_fd 0 [9] ?k) = Inr 1" by code_simp
  then obtain k' where w: "write_fd 0 [9] ?k = (Inr 1, k')" by (cases "write_fd 0 [9] ?k") auto
  show ?thesis using write_fd_splice [OF f _ c w] demo_reading_stat w by (auto simp: st)
qed

end
