(* ===== verification/Ring.thy ===== *)
theory Ring
  imports Interfaces
begin

text \<open>
  The byte ring of the IPC layer (\<open>Ring\<close> in \<open>kernel/src/ipc/mod.rs\<close>): 4096 slots, free-running head
  and tail counters that wrap with the machine word, and at most 4095 bytes inside. It implements the
  interface \<open>batch_fifo\<close>. A push is also given in its two atomic stages, the load of the counters
  and the store of the head, to show what happens when two senders interleave.
\<close>

definition RING_SIZE :: nat where "RING_SIZE = 4096"

record ring =
  r_buf :: "u8 list"
  r_head :: u64
  r_tail :: u64

definition ring_new :: ring where
  "ring_new = \<lparr>r_buf = replicate RING_SIZE 0, r_head = 0, r_tail = 0\<rparr>"

definition ring_mask :: "u64 \<Rightarrow> nat" where
  "ring_mask x = unat (x AND (of_nat RING_SIZE - 1))"

definition ring_available :: "ring \<Rightarrow> nat" where
  "ring_available r = ring_mask (r_head r - r_tail r)"

primrec ring_write :: "u8 list \<Rightarrow> u64 \<Rightarrow> nat \<Rightarrow> u8 list \<Rightarrow> u8 list" where
  "ring_write buf head i [] = buf"
| "ring_write buf head i (b # bs) = ring_write (buf[ring_mask (head + of_nat i) := b]) head (Suc i) bs"

text \<open>The two halves of \<open>push\<close>: what it decides from the counters, and what it writes.\<close>

definition push_load :: "ring \<Rightarrow> u8 list \<Rightarrow> u64 \<times> nat" where
  "push_load r data =
     (let head = r_head r; tail = r_tail r; free = RING_SIZE - 1 - ring_mask (head - tail)
      in (head, min (length data) free))"

definition push_store :: "u64 \<times> nat \<Rightarrow> u8 list \<Rightarrow> ring \<Rightarrow> ring" where
  "push_store hn data r =
     (case hn of (head, n) \<Rightarrow> r\<lparr>r_buf := ring_write (r_buf r) head 0 (take n data), r_head := head + of_nat n\<rparr>)"

definition ring_push :: "ring \<Rightarrow> u8 list \<Rightarrow> ring \<times> nat" where
  "ring_push r data = (let hn = push_load r data in (push_store hn data r, snd hn))"

definition ring_pop :: "ring \<Rightarrow> nat \<Rightarrow> ring \<times> u8 list" where
  "ring_pop r len =
     (let tail = r_tail r; head = r_head r; avail = ring_mask (head - tail); n = min len avail;
          out = map (\<lambda>i. r_buf r ! ring_mask (tail + of_nat i)) [0..<n]
      in (r\<lparr>r_tail := tail + of_nat n\<rparr>, out))"

section \<open>The ring is a bounded queue\<close>

definition ring_ok :: "ring \<Rightarrow> bool" where
  "ring_ok r \<longleftrightarrow> length (r_buf r) = 4096 \<and> unat (r_head r - r_tail r) < 4096"

definition ring_contents :: "ring \<Rightarrow> u8 list" where
  "ring_contents r =
     map (\<lambda>i. r_buf r ! ring_mask (r_tail r + of_nat i)) [0..<unat (r_head r - r_tail r)]"

lemma ring_mask_mod: "ring_mask x = unat x mod 4096"
proof -
  have "(of_nat RING_SIZE - 1 :: u64) = mask 12" by (simp add: RING_SIZE_def mask_eq_exp_minus_1)
  then show ?thesis unfolding ring_mask_def by (simp add: unat_and_mask)
qed

lemma ring_mask_add: "ring_mask (x + of_nat i) = (unat x + i) mod 4096"
proof -
  have m: "n mod 18446744073709551616 mod 4096 = n mod 4096" for n :: nat
    by (rule mod_mod_cancel) simp
  have "unat (of_nat i :: u64) = i mod 18446744073709551616" by (simp add: unat_of_nat take_bit_eq_mod)
  then have "unat (of_nat i :: u64) mod 4096 = i mod 4096" by (simp only: m)
  then have "(unat x + unat (of_nat i :: u64)) mod 4096 = (unat x + i) mod 4096" by (rule mod_add_cong [OF refl])
  moreover have "unat (x + of_nat i) = (unat x + unat (of_nat i :: u64)) mod 18446744073709551616"
    by (subst unat_word_ariths(1)) simp
  ultimately show ?thesis by (simp only: ring_mask_mod m)
qed

lemma ring_slots_distinct_le:
  assumes "(t + i) mod 4096 = (t + j) mod (4096 :: nat)" "i \<le> j" "j < 4096"
  shows "i = j"
proof -
  have "4096 dvd t + j - (t + i)" using mod_eq_dvd_iff_nat [of "t + i" "t + j" 4096] assms(1,2) by simp
  then have "4096 dvd j - i" by simp
  then have "\<not> 0 < j - i" using assms(3) nat_dvd_not_less less_imp_diff_less by blast
  then show ?thesis using assms(2) by simp
qed

lemma ring_slots_distinct:
  assumes "(t + i) mod 4096 = (t + j) mod (4096 :: nat)" "i < 4096" "j < 4096"
  shows "i = j"
  using ring_slots_distinct_le [of t i j] ring_slots_distinct_le [of t j i] assms by (cases "i \<le> j") auto

lemma length_ring_write [simp]: "length (ring_write buf h i bs) = length buf"
  by (induction bs arbitrary: buf i) auto

lemma ring_write_other:
  "(\<And>k. i \<le> k \<Longrightarrow> k < i + length bs \<Longrightarrow> ring_mask (h + of_nat k) \<noteq> j) \<Longrightarrow> ring_write buf h i bs ! j = buf ! j"
proof (induction bs arbitrary: buf i)
  case (Cons b bs)
  have "ring_write (buf[ring_mask (h + of_nat i) := b]) h (Suc i) bs ! j = buf[ring_mask (h + of_nat i) := b] ! j"
    by (rule Cons.IH) (use Cons.prems in auto)
  then show ?case using Cons.prems [of i] by simp
qed simp

lemma ring_write_nth:
  assumes "length buf = 4096" "i + length bs \<le> 4096" "k < length bs"
  shows "ring_write buf h i bs ! ring_mask (h + of_nat (i + k)) = bs ! k"
  using assms
proof (induction bs arbitrary: buf i k)
  case (Cons b bs)
  show ?case
  proof (cases k)
    case 0
    have "ring_write (buf[ring_mask (h + of_nat i) := b]) h (Suc i) bs ! ring_mask (h + of_nat i) =
        buf[ring_mask (h + of_nat i) := b] ! ring_mask (h + of_nat i)"
    proof (rule ring_write_other)
      fix k assume "Suc i \<le> k" "k < Suc i + length bs"
      then show "ring_mask (h + of_nat k) \<noteq> ring_mask (h + of_nat i)"
        using ring_slots_distinct [of "unat h" k i] Cons.prems(2) by (auto simp: ring_mask_add simp del: of_nat_add)
    qed
    moreover have "ring_mask (h + of_nat i) < 4096" by (simp add: ring_mask_mod)
    ultimately show ?thesis using 0 Cons.prems(1) by simp
  next
    case (Suc k')
    then show ?thesis using Cons.IH [of "buf[ring_mask (h + of_nat i) := b]" "Suc i" k'] Cons.prems by simp
  qed
qed simp

text \<open>Any head beyond the tail that the bytes between were written for.\<close>

lemma ring_contents_after_write:
  assumes "ring_ok r" and "length (ring_contents r) + length bs < 4096"
    and "length buf = 4096"
    and "\<And>i. i < length (ring_contents r) \<Longrightarrow>
       buf ! ring_mask (r_tail r + of_nat i) = r_buf r ! ring_mask (r_tail r + of_nat i)"
  shows "ring_contents (r\<lparr>r_buf := ring_write buf (r_head r) 0 bs, r_head := r_head r + of_nat (length bs)\<rparr>) =
      ring_contents r @ bs"
    and "ring_ok (r\<lparr>r_buf := ring_write buf (r_head r) 0 bs, r_head := r_head r + of_nat (length bs)\<rparr>)"
proof -
  let ?n = "length (ring_contents r)" and ?r = "r\<lparr>r_buf := ring_write buf (r_head r) 0 bs, r_head := r_head r + of_nat (length bs)\<rparr>"
  have n: "unat (r_head r - r_tail r) = ?n" by (simp add: ring_contents_def)
  then have h: "r_head r = r_tail r + of_nat ?n" by (metis add.commute diff_add_cancel of_nat_unat ucast_id)
  have "r_head ?r - r_tail ?r = of_nat (?n + length bs)" using h by simp
  then have m: "unat (r_head ?r - r_tail ?r) = ?n + length bs"
    using assms(2) by (simp only: unat_of_nat) (simp add: take_bit_nat_eq_self)
  show "ring_ok ?r" using m assms(2,3) by (simp add: ring_ok_def)
  have old: "r_buf ?r ! ring_mask (r_tail r + of_nat i) = ring_contents r ! i" if i: "i < ?n" for i
  proof -
    have "ring_write buf (r_head r) 0 bs ! ring_mask (r_tail r + of_nat i) = buf ! ring_mask (r_tail r + of_nat i)"
    proof (rule ring_write_other)
      fix k assume k: "k < 0 + length bs"
      have "r_head r + of_nat k = r_tail r + of_nat (?n + k)" by (subst h) simp
      then have "ring_mask (r_head r + of_nat k) = (unat (r_tail r) + (?n + k)) mod 4096"
        by (simp only: ring_mask_add)
      moreover have "\<not> (unat (r_tail r) + (?n + k)) mod 4096 = (unat (r_tail r) + i) mod 4096"
      proof
        assume "(unat (r_tail r) + (?n + k)) mod 4096 = (unat (r_tail r) + i) mod 4096"
        then have "?n + k = i" by (rule ring_slots_distinct) (use i k assms(2) in linarith)+
        then show False using i by simp
      qed
      ultimately show "ring_mask (r_head r + of_nat k) \<noteq> ring_mask (r_tail r + of_nat i)"
        by (simp only: ring_mask_add not_False_eq_True)
    qed
    moreover have "ring_contents r ! i = r_buf r ! ring_mask (r_tail r + of_nat i)"
      using i n unfolding ring_contents_def by simp
    ultimately show ?thesis using assms(4) [OF i] by simp
  qed
  have new: "r_buf ?r ! ring_mask (r_tail r + of_nat (?n + k)) = bs ! k" if k: "k < length bs" for k
  proof -
    have "r_tail r + of_nat (?n + k) = r_head r + of_nat (0 + k)" by (subst h) simp
    then show ?thesis using ring_write_nth [OF assms(3), of 0 bs k "r_head r"] k assms(2) by (simp del: of_nat_add)
  qed
  show "ring_contents ?r = ring_contents r @ bs"
  proof (rule nth_equalityI)
    show "length (ring_contents ?r) = length (ring_contents r @ bs)" using m by (simp add: ring_contents_def)
    fix i assume "i < length (ring_contents ?r)"
    then have i: "i < ?n + length bs" using m by (simp add: ring_contents_def)
    have "ring_contents ?r ! i = r_buf ?r ! ring_mask (r_tail r + of_nat i)"
      using i m by (simp add: ring_contents_def)
    then show "ring_contents ?r ! i = (ring_contents r @ bs) ! i"
      using old new [of "i - ?n"] i by (cases "i < ?n") (simp_all add: nth_append)
  qed
qed

lemma ring_mask_used: "ring_ok r \<Longrightarrow> ring_mask (r_head r - r_tail r) = length (ring_contents r)"
  by (simp add: ring_ok_def ring_mask_mod ring_contents_def)

lemma ring_contents_bound: "ring_ok r \<Longrightarrow> length (ring_contents r) \<le> 4095"
  by (simp add: ring_ok_def ring_contents_def)

lemma push_store_spec:
  assumes "ring_ok r" "n + length (ring_contents r) < 4096" "n \<le> length data"
  shows "ring_contents (push_store (r_head r, n) data r) = ring_contents r @ take n data"
    "ring_ok (push_store (r_head r, n) data r)"
  using ring_contents_after_write [OF assms(1), of "take n data" "r_buf r"] assms
  by (simp_all add: push_store_def ring_ok_def min_absorb2)

lemma ring_pop_spec:
  assumes "ring_ok r"
  shows "ring_contents (fst (ring_pop r len)) = drop len (ring_contents r)"
    "snd (ring_pop r len) = take len (ring_contents r)" "ring_ok (fst (ring_pop r len))"
proof -
  let ?n = "length (ring_contents r)"
  obtain k where k: "k = min len ?n" by simp
  have n: "unat (r_head r - r_tail r) = ?n" by (simp add: ring_contents_def)
  have b: "?n < 4096" using assms n by (simp add: ring_ok_def)
  have u: "unat (of_nat k :: u64) = k" using b k by (simp add: unat_of_nat take_bit_nat_eq_self)
  then have "of_nat k \<le> r_head r - r_tail r" using k by (simp add: word_le_nat_alt n)
  then have "unat (r_head r - r_tail r - of_nat k) = ?n - k" using n u by (simp add: unat_sub)
  then have m: "unat (r_head r - (r_tail r + of_nat k)) = ?n - k" by (simp add: diff_diff_eq)
  have pop: "ring_pop r len = (r\<lparr>r_tail := r_tail r + of_nat k\<rparr>,
      map (\<lambda>i. r_buf r ! ring_mask (r_tail r + of_nat i)) [0..<k])"
    unfolding ring_pop_def Let_def ring_mask_used [OF assms] k ..
  show "ring_ok (fst (ring_pop r len))" using assms m b by (simp add: pop ring_ok_def)
  have len: "length (drop len (ring_contents r)) = ?n - k" "length (take len (ring_contents r)) = k"
    using k by simp_all
  show "snd (ring_pop r len) = take len (ring_contents r)"
    using n k by (intro nth_equalityI) (simp_all add: pop ring_contents_def)
  show "ring_contents (fst (ring_pop r len)) = drop len (ring_contents r)"
  proof (rule nth_equalityI)
    show "length (ring_contents (fst (ring_pop r len))) = length (drop len (ring_contents r))"
      unfolding len using m by (simp add: ring_contents_def pop)
    fix i assume "i < length (ring_contents (fst (ring_pop r len)))"
    then have i: "i < ?n - k" using m by (simp add: ring_contents_def pop)
    then have "k = len" using k by simp
    moreover have "ring_contents (fst (ring_pop r len)) ! i = r_buf r ! ring_mask (r_tail r + of_nat k + of_nat i)"
      using i m by (simp add: ring_contents_def pop)
    moreover have "ring_contents r ! (k + i) = r_buf r ! ring_mask (r_tail r + of_nat (k + i))"
      using i n unfolding ring_contents_def by (simp del: of_nat_add)
    ultimately show "ring_contents (fst (ring_pop r len)) ! i = drop len (ring_contents r) ! i"
      using i by (simp add: add.assoc)
  qed
qed

interpretation rings: batch_fifo ring_contents 4095 ring_ok ring_push ring_pop
proof unfold_locales
  fix q :: ring and xs :: "u8 list" and n :: nat
  assume q: "ring_ok q"
  have f: "push_load q xs = (r_head q, min (length xs) (4095 - length (ring_contents q)))"
    by (simp add: push_load_def Let_def ring_mask_used [OF q] RING_SIZE_def)
  have s: "min (length xs) (4095 - length (ring_contents q)) + length (ring_contents q) < 4096"
    using ring_contents_bound [OF q] by linarith
  have t: "take (min (length xs) (4095 - length (ring_contents q))) xs = take (4095 - length (ring_contents q)) xs"
    by (simp add: min_def)
  show "ring_contents (fst (ring_push q xs)) = ring_contents q @ take (4095 - length (ring_contents q)) xs"
    "ring_ok (fst (ring_push q xs))"
    using push_store_spec [OF q s] by (simp_all add: ring_push_def Let_def f t)
  show "snd (ring_push q xs) = min (length xs) (4095 - length (ring_contents q))"
    by (simp add: ring_push_def Let_def f)
  show "ring_contents (fst (ring_pop q n)) = drop n (ring_contents q)" "snd (ring_pop q n) = take n (ring_contents q)"
    "ring_ok (fst (ring_pop q n))" by (rule ring_pop_spec [OF q])+
  show "length (ring_contents q) \<le> 4095" by (rule ring_contents_bound [OF q])
qed

end
