(* ===== verification/Ipc.thy ===== *)
theory Ipc
  imports Ring Backends AuditLog
begin

text \<open>
  Inter-process communication (\<open>kernel/src/ipc/mod.rs\<close>): the default-deny registry of channels over the
  byte ring. The caller's user id is an argument, which the kernel reads from the running
  task. The lemmas trace every successful send and receive back to the creation of the channel by its
  owner and, for anybody else, to a grant by that owner.
\<close>

datatype ipc_error = IpcNotFound | IpcPermissionDenied

record channel =
  ch_id :: u32
  ch_name :: string
  ch_owner :: u32
  ch_allowed :: "u32 list"
  ch_ring :: ring

record ipc =
  i_channels :: "channel list"
  i_next_id :: u64
  i_log :: audit_ring
  i_tick :: u64

definition ipc_new :: ipc where
  "ipc_new = \<lparr>i_channels = [], i_next_id = 1, i_log = [], i_tick = 0\<rparr>"

definition ipc_audit :: "string \<Rightarrow> u32 \<Rightarrow> bool \<Rightarrow> string \<Rightarrow> ipc \<Rightarrow> ipc" where
  "ipc_audit action caller allowed detail k =
     k\<lparr>i_log := audit_log (i_tick k) ''ipc'' action caller allowed detail (i_log k)\<rparr>"

definition find_channel :: "u32 \<Rightarrow> channel list \<Rightarrow> channel option" where
  "find_channel cid chs = find (\<lambda>c. ch_id c = cid) chs"

text \<open>\<open>iter_mut().find(..)\<close> and a change through the reference.\<close>

fun update_channel :: "u32 \<Rightarrow> (channel \<Rightarrow> channel) \<Rightarrow> channel list \<Rightarrow> channel list" where
  "update_channel cid f [] = []"
| "update_channel cid f (c # cs) = (if ch_id c = cid then f c # cs else c # update_channel cid f cs)"

definition create_channel :: "u32 \<Rightarrow> string \<Rightarrow> ipc \<Rightarrow> u32 \<times> ipc" where
  "create_channel caller name k =
     (let cid = ucast (i_next_id k)
      in (cid, k\<lparr>i_next_id := i_next_id k + 1,
                i_channels := i_channels k @
                  [\<lparr>ch_id = cid, ch_name = name, ch_owner = caller, ch_allowed = [], ch_ring = ring_new\<rparr>]\<rparr>))"

definition chan_text :: "u32 \<Rightarrow> string" where
  "chan_text cid = ''channel '' @ decimal (unat cid)"

definition grant :: "u32 \<Rightarrow> u32 \<Rightarrow> u32 \<Rightarrow> ipc \<Rightarrow> (ipc_error + unit) \<times> ipc" where
  "grant caller cid u k =
     (case find_channel cid (i_channels k) of
        None \<Rightarrow> (Inl IpcNotFound, ipc_audit ''grant'' caller False (chan_text cid @ '' not found'') k)
      | Some ch \<Rightarrow>
          if ch_owner ch \<noteq> caller
          then (Inl IpcPermissionDenied, ipc_audit ''grant'' caller False (chan_text cid @ '' (not owner)'') k)
          else let k1 = (if u \<in> set (ch_allowed ch) then k
                         else k\<lparr>i_channels := update_channel cid (\<lambda>c. c\<lparr>ch_allowed := ch_allowed c @ [u]\<rparr>) (i_channels k)\<rparr>)
               in (Inr (), ipc_audit ''grant'' caller True (chan_text cid @ '' -> uid '' @ decimal (unat u)) k1))"

definition can_access :: "channel \<Rightarrow> u32 \<Rightarrow> bool" where
  "can_access ch u \<longleftrightarrow> ch_owner ch = u \<or> u \<in> set (ch_allowed ch)"

definition send :: "u32 \<Rightarrow> u32 \<Rightarrow> u8 list \<Rightarrow> ipc \<Rightarrow> (ipc_error + nat) \<times> ipc" where
  "send caller cid data k =
     (case find_channel cid (i_channels k) of
        None \<Rightarrow> (Inl IpcNotFound, ipc_audit ''send'' caller False (chan_text cid @ '' not found'') k)
      | Some ch \<Rightarrow>
          if \<not> can_access ch caller
          then (Inl IpcPermissionDenied, ipc_audit ''send'' caller False (chan_text cid) k)
          else let k1 = ipc_audit ''send'' caller True (chan_text cid) k
               in (Inr (snd (ring_push (ch_ring ch) data)),
                   k1\<lparr>i_channels := update_channel cid (\<lambda>c. c\<lparr>ch_ring := fst (ring_push (ch_ring c) data)\<rparr>) (i_channels k1)\<rparr>))"

definition recv :: "u32 \<Rightarrow> u32 \<Rightarrow> nat \<Rightarrow> ipc \<Rightarrow> (ipc_error + u8 list) \<times> ipc" where
  "recv caller cid len k =
     (case find_channel cid (i_channels k) of
        None \<Rightarrow> (Inl IpcNotFound, ipc_audit ''recv'' caller False (chan_text cid @ '' not found'') k)
      | Some ch \<Rightarrow>
          if \<not> can_access ch caller
          then (Inl IpcPermissionDenied, ipc_audit ''recv'' caller False (chan_text cid) k)
          else let k1 = ipc_audit ''recv'' caller True (chan_text cid) k
               in (Inr (snd (ring_pop (ch_ring ch) len)),
                   k1\<lparr>i_channels := update_channel cid (\<lambda>c. c\<lparr>ch_ring := fst (ring_pop (ch_ring c) len)\<rparr>) (i_channels k1)\<rparr>))"

section \<open>Histories\<close>

datatype ipc_op = Create string | Grant u32 u32 | Send u32 "u8 list" | Recv u32 nat

fun ipc_step :: "u32 \<times> ipc_op \<Rightarrow> ipc \<Rightarrow> ipc" where
  "ipc_step (u, Create name) k = snd (create_channel u name k)"
| "ipc_step (u, Grant cid v) k = snd (grant u cid v k)"
| "ipc_step (u, Send cid bs) k = snd (send u cid bs k)"
| "ipc_step (u, Recv cid n) k = snd (recv u cid n k)"

text \<open>Every right in the registry has a cause in the history.\<close>

definition justified :: "(u32 \<times> ipc_op) list \<Rightarrow> channel \<Rightarrow> bool" where
  "justified ops ch \<longleftrightarrow> ring_ok (ch_ring ch) \<and> (\<exists>name. (ch_owner ch, Create name) \<in> set ops) \<and>
     (\<forall>u \<in> set (ch_allowed ch). (ch_owner ch, Grant (ch_id ch) u) \<in> set ops)"

lemma find_channel_Some: "find_channel cid chs = Some ch \<Longrightarrow> ch \<in> set chs \<and> ch_id ch = cid"
  by (auto simp: find_channel_def find_Some_iff)

lemma update_channel_cases:
  assumes "c \<in> set (update_channel cid f chs)"
  shows "c \<in> set chs \<or> (\<exists>ch. find_channel cid chs = Some ch \<and> c = f ch)"
  using assms by (induction chs) (auto simp: find_channel_def split: if_splits)

lemma ipc_audit_channels [simp]: "i_channels (ipc_audit a u b d k) = i_channels k"
  by (simp add: ipc_audit_def)

lemma ring_ok_new [simp]: "ring_ok ring_new"
  by (simp add: ring_ok_def ring_new_def RING_SIZE_def)

lemma justified_mono: "justified ops ch \<Longrightarrow> set ops \<subseteq> set ops' \<Longrightarrow> justified ops' ch"
  unfolding justified_def by blast

lemma justified_update:
  assumes "\<And>ch. ch \<in> set chs \<Longrightarrow> justified ops ch" and "\<And>ch. find_channel cid chs = Some ch \<Longrightarrow> justified ops (f ch)"
    and "c \<in> set (update_channel cid f chs)"
  shows "justified ops c"
  using update_channel_cases [OF assms(3)] assms(1,2) by blast

lemma justified_step:
  assumes "\<And>ch. ch \<in> set (i_channels k) \<Longrightarrow> justified ops ch" and "ch \<in> set (i_channels (ipc_step (u, c) k))"
  shows "justified (ops @ [(u, c)]) ch"
proof -
  have old: "justified (ops @ [(u, c)]) x" if "x \<in> set (i_channels k)" for x
    using assms(1) [OF that] by (rule justified_mono) auto
  show ?thesis
  proof (cases c)
    case (Create name)
    then show ?thesis using assms(2) old by (auto simp: create_channel_def Let_def justified_def)
  next
    case (Grant cid v)
    have g: "justified (ops @ [(u, c)]) (x\<lparr>ch_allowed := ch_allowed x @ [v]\<rparr>)"
      if "find_channel cid (i_channels k) = Some x" "ch_owner x = u" for x
      using old [of x] find_channel_Some [OF that(1)] that(2) Grant by (auto simp: justified_def)
    show ?thesis
      using assms(2) old g justified_update [OF old] Grant
      by (fastforce simp: grant_def Let_def split: option.splits if_splits)
  next
    case (Send cid bs)
    have g: "justified (ops @ [(u, c)]) (x\<lparr>ch_ring := fst (ring_push (ch_ring x) bs)\<rparr>)"
      if "find_channel cid (i_channels k) = Some x" for x
      using old [of x] find_channel_Some [OF that] rings.inv_push by (auto simp: justified_def)
    have "ch \<in> set (i_channels k) \<or>
        ch \<in> set (update_channel cid (\<lambda>c. c\<lparr>ch_ring := fst (ring_push (ch_ring c) bs)\<rparr>) (i_channels k))"
      using assms(2) Send by (auto simp: send_def Let_def split: option.splits if_splits)
    then show ?thesis
    proof
      show "ch \<in> set (i_channels k) \<Longrightarrow> justified (ops @ [(u, c)]) ch" by (rule old)
    qed (rule justified_update [of "i_channels k", OF old g])
  next
    case (Recv cid n)
    have g: "justified (ops @ [(u, c)]) (x\<lparr>ch_ring := fst (ring_pop (ch_ring x) n)\<rparr>)"
      if "find_channel cid (i_channels k) = Some x" for x
      using old [of x] find_channel_Some [OF that] rings.inv_pop by (auto simp: justified_def)
    have "ch \<in> set (i_channels k) \<or>
        ch \<in> set (update_channel cid (\<lambda>c. c\<lparr>ch_ring := fst (ring_pop (ch_ring c) n)\<rparr>) (i_channels k))"
      using assms(2) Recv by (auto simp: recv_def Let_def split: option.splits if_splits)
    then show ?thesis
    proof
      show "ch \<in> set (i_channels k) \<Longrightarrow> justified (ops @ [(u, c)]) ch" by (rule old)
    qed (rule justified_update [of "i_channels k", OF old g])
  qed
qed

lemma history_justified: "ch \<in> set (i_channels (fold ipc_step ops ipc_new)) \<Longrightarrow> justified ops ch"
proof (induction ops arbitrary: ch rule: rev_induct)
  case Nil
  then show ?case by (simp add: ipc_new_def)
next
  case (snoc o1 ops)
  obtain u c where o1: "o1 = (u, c)" by (cases o1)
  show ?case unfolding o1 by (rule justified_step [OF snoc.IH]) (use snoc.prems o1 in auto)
qed

section \<open>Properties\<close>

text \<open>
  C20. Channels are default deny. After any history of creations, grants, sends and receives by any users, a
  send or a receive on a channel succeeds only if the caller created that channel, or the user who created
  it has granted the caller access to it; any other attempt fails, leaves every channel as it
  was and appends exactly one denial to the audit ring.
\<close>

theorem ipc_default_deny:
  assumes "k = fold ipc_step ops ipc_new"
    and "find_channel cid (i_channels k) = Some ch"
    and "\<not> (ch_owner ch = u \<or> (ch_owner ch, Grant cid u) \<in> set ops)"
  shows "send u cid bs k = (Inl IpcPermissionDenied, ipc_audit ''send'' u False (chan_text cid) k) \<and>
    recv u cid n k = (Inl IpcPermissionDenied, ipc_audit ''recv'' u False (chan_text cid) k) \<and>
    grant u cid v k = (Inl IpcPermissionDenied, ipc_audit ''grant'' u False (chan_text cid @ '' (not owner)'') k) \<and>
    (\<exists>name. (ch_owner ch, Create name) \<in> set ops) \<and>
    (\<forall>a d. i_channels (ipc_audit a u False d k) = i_channels k \<and>
       (audit_ok (i_log k) \<longrightarrow> i_log (ipc_audit a u False d k) = most_recent LOG_CAPACITY (i_log k @
          [\<lparr>ev_tick = i_tick k, ev_subsystem = ''ipc'', ev_action = a, ev_uid = u, ev_allowed = False,
            ev_detail = d\<rparr>])))"
proof -
  have ch: "ch \<in> set (i_channels k)" "ch_id ch = cid" using find_channel_Some [OF assms(2)] by auto
  then have j: "justified ops ch" using history_justified assms(1) by blast
  then have "\<not> can_access ch u" using assms(3) ch(2) by (auto simp: can_access_def justified_def)
  then show ?thesis using assms(2,3) j
    by (simp add: send_def recv_def grant_def ipc_audit_def audit_log_def audit_push_most_recent justified_def)
qed

text \<open>User 5 creates channel 1, grants it to user 6, who sends; user 7 may not.\<close>

definition demo_ipc_ops :: "(u32 \<times> ipc_op) list" where
  "demo_ipc_ops = [(5, Create ''log''), (5, Grant 1 6), (6, Send 1 [1, 2, 3])]"

lemma ipc_default_deny_witness:
  "fst (recv 7 1 3 (fold ipc_step demo_ipc_ops ipc_new)) = Inl IpcPermissionDenied"
proof -
  have "map_option ch_owner (find_channel 1 (i_channels (fold ipc_step demo_ipc_ops ipc_new))) = Some 5"
    by code_simp
  then obtain ch where ch: "find_channel 1 (i_channels (fold ipc_step demo_ipc_ops ipc_new)) = Some ch" "ch_owner ch = 5"
    by auto
  have "\<not> (ch_owner ch = 7 \<or> (ch_owner ch, Grant 1 7) \<in> set demo_ipc_ops)"
    by (simp add: ch(2) demo_ipc_ops_def)
  from ipc_default_deny [OF refl ch(1) this] show ?thesis by simp
qed

text \<open>
  C21. The ring is first in, first out, and bounded. Over any sequence of pushes and pops of any sizes, what
  was in the ring followed by the bytes that the pushes accepted is what the pops delivered followed by what
  is left; the counters may wrap; and never more than 4095 bytes are inside.
\<close>

theorem ipc_ring_fifo:
  assumes "ring_ok r" and "rings.brun ops r = (r', accepted, delivered)"
  shows "ring_contents r @ accepted = delivered @ ring_contents r' \<and> ring_ok r' \<and> length (ring_contents r') \<le> 4095"
  using rings.brun_fifo [OF assms] rings.bounded by blast

lemma ipc_ring_fifo_witness:
  "\<exists>r' acc out. rings.brun [Inl [1, 2, 3], Inr 2, Inl [4], Inr 9] (ring_new\<lparr>r_head := -2, r_tail := -2\<rparr>) = (r', acc, out) \<and>
     acc = out @ ring_contents r'"
proof -
  let ?r = "ring_new\<lparr>r_head := -2, r_tail := -2\<rparr>"
  have ok: "ring_ok ?r" by (simp add: ring_ok_def ring_new_def RING_SIZE_def)
  obtain r' acc out where b: "rings.brun [Inl [1, 2, 3], Inr 2, Inl [4], Inr 9] ?r = (r', acc, out)"
    by (metis prod_cases3)
  have "ring_contents ?r = []" by (simp add: ring_contents_def)
  then show ?thesis using ipc_ring_fifo [OF ok b] b by auto
qed

text \<open>One sender is interrupted between its loads and its stores by another one.\<close>

definition racing_push :: "u8 list \<Rightarrow> u8 list \<Rightarrow> ring \<Rightarrow> ring" where
  "racing_push xs ys r =
     (let loaded = push_load r xs; r1 = fst (ring_push r ys) in push_store loaded xs r1)"

text \<open>
  C22. Two senders lose data. The ring is written for one producer, but every user with access to a channel
  may send on it, under a shared lock. If one sender has loaded the counters when another one's send of
  at most the same length runs to completion, the first one's bytes overwrite them and its head store hides
  them: the second sender was told that all its bytes were accepted, and none will ever be received.
\<close>

theorem racing_senders_lose_data:
  assumes "ring_ok r" and "length ys \<le> length xs" and "length (ring_contents r) + length xs \<le> 4095"
  shows "snd (ring_push r ys) = length ys \<and> ring_contents (racing_push xs ys r) = ring_contents r @ xs"
proof -
  have l: "push_load r zs = (r_head r, length zs)" if "length zs \<le> length xs" for zs
    using that assms(3) by (simp add: push_load_def Let_def ring_mask_used [OF assms(1)] RING_SIZE_def)
  let ?r1 = "push_store (r_head r, length ys) ys r"
  have s: "length ys + length (ring_contents r) < 4096" using assms(2,3) by simp
  have c1: "ring_contents ?r1 = ring_contents r @ ys" "ring_ok ?r1"
    using push_store_spec [OF assms(1) s, of ys] by simp_all
  have b1: "r_tail ?r1 = r_tail r" by (simp add: push_store_def)
  have keep: "r_buf ?r1 ! ring_mask (r_tail r + of_nat i) = r_buf r ! ring_mask (r_tail r + of_nat i)"
    if i: "i < length (ring_contents r)" for i
  proof -
    have "ring_contents ?r1 ! i = ring_contents r ! i" using c1(1) i by (simp add: nth_append)
    moreover have "i < length (ring_contents ?r1)" using c1(1) i by simp
    ultimately show ?thesis using i unfolding ring_contents_def b1 by simp
  qed
  have "racing_push xs ys r = r\<lparr>r_buf := ring_write (r_buf ?r1) (r_head r) 0 xs, r_head := r_head r + of_nat (length xs)\<rparr>"
    using l [OF assms(2)] by (simp add: racing_push_def ring_push_def Let_def l) (simp add: push_store_def)
  moreover have "length (r_buf ?r1) = 4096" using c1(2) by (simp add: ring_ok_def)
  ultimately show ?thesis
    using ring_contents_after_write(1) [OF assms(1), of xs "r_buf ?r1"] keep assms(3) l [OF assms(2)]
    by (simp add: ring_push_def Let_def)
qed

lemma racing_senders_lose_data_witness:
  "snd (ring_push ring_new [7, 8]) = 2 \<and> ring_contents (racing_push [1, 2, 3] [7, 8] ring_new) = [1, 2, 3]"
proof -
  have "ring_contents ring_new = []" by (simp add: ring_contents_def ring_new_def)
  then show ?thesis using racing_senders_lose_data [OF ring_ok_new, of "[7, 8]" "[1, 2, 3]"] by simp
qed

end
