(* ===== verification/Capabilities.thy ===== *)
theory Capabilities
  imports Interfaces
begin

text \<open>
  Capability sets (\<open>kernel/src/security/capabilities.rs\<close>): 64-bit sets, the four sets of a process,
  dropping and inheriting, and the table keyed by process, which is interpreted as a
  \<open>pid_table\<close>. The lemmas show that a line of descendants never gains a privilege.
\<close>

type_synonym cap_set = u64

definition CAP_EMPTY :: cap_set where "CAP_EMPTY = 0"
definition CAP_ALL :: cap_set where "CAP_ALL = -1"

datatype cap = SetUid | DacOverride | DacReadSearch | Chown | NetBindService | NetBroadcast | NetRaw | NetAdmin
  | SysReboot | SysMount | SysModule | SysPtrace | SysNice | SysResource | SysTime | IpcOwner | Kill | AuditRead
  | AuditWrite | MacAdmin | MacOverride | SysRawIo | SysChroot | IpcLock | SetpcapUser

fun cap_bit :: "cap \<Rightarrow> nat" where
  "cap_bit SetUid = 0" | "cap_bit DacOverride = 1" | "cap_bit DacReadSearch = 2" | "cap_bit Chown = 3"
| "cap_bit NetBindService = 4" | "cap_bit NetBroadcast = 5" | "cap_bit NetRaw = 6" | "cap_bit NetAdmin = 7"
| "cap_bit SysReboot = 8" | "cap_bit SysMount = 9" | "cap_bit SysModule = 10" | "cap_bit SysPtrace = 11"
| "cap_bit SysNice = 12" | "cap_bit SysResource = 13" | "cap_bit SysTime = 14" | "cap_bit IpcOwner = 15"
| "cap_bit Kill = 16" | "cap_bit AuditRead = 17" | "cap_bit AuditWrite = 18" | "cap_bit MacAdmin = 19"
| "cap_bit MacOverride = 20" | "cap_bit SysRawIo = 21" | "cap_bit SysChroot = 22" | "cap_bit IpcLock = 23"
| "cap_bit SetpcapUser = 24"

definition cap_mask :: "cap \<Rightarrow> u64" where
  "cap_mask c = push_bit (cap_bit c) 1"

definition cap_has :: "cap_set \<Rightarrow> cap \<Rightarrow> bool" where
  "cap_has s c \<longleftrightarrow> s AND cap_mask c \<noteq> 0"

definition cap_union :: "cap_set \<Rightarrow> cap_set \<Rightarrow> cap_set" where
  "cap_union a b = a OR b"

definition cap_intersect :: "cap_set \<Rightarrow> cap_set \<Rightarrow> cap_set" where
  "cap_intersect a b = a AND b"

definition cap_drop :: "cap_set \<Rightarrow> cap \<Rightarrow> cap_set" where
  "cap_drop s c = s AND NOT (cap_mask c)"

record proc_caps =
  permitted :: cap_set
  effective :: cap_set
  inheritable :: cap_set
  ambient :: cap_set

definition all_powerful :: proc_caps where
  "all_powerful = \<lparr>permitted = CAP_ALL, effective = CAP_ALL, inheritable = CAP_EMPTY, ambient = CAP_EMPTY\<rparr>"

definition unprivileged :: proc_caps where
  "unprivileged = \<lparr>permitted = CAP_EMPTY, effective = CAP_EMPTY, inheritable = CAP_EMPTY, ambient = CAP_EMPTY\<rparr>"

definition daemon :: proc_caps where
  "daemon =
     (let s = cap_mask NetBindService OR cap_mask NetBroadcast OR cap_mask SysResource OR cap_mask IpcOwner
        OR cap_mask AuditWrite
      in \<lparr>permitted = s, effective = s, inheritable = CAP_EMPTY, ambient = CAP_EMPTY\<rparr>)"

definition pc_check :: "proc_caps \<Rightarrow> cap \<Rightarrow> bool" where
  "pc_check p c = cap_has (effective p) c"

definition pc_drop :: "proc_caps \<Rightarrow> cap \<Rightarrow> proc_caps" where
  "pc_drop p c = \<lparr>permitted = cap_drop (permitted p) c, effective = cap_drop (effective p) c,
     inheritable = cap_drop (inheritable p) c, ambient = cap_drop (ambient p) c\<rparr>"

definition exec_child :: "proc_caps \<Rightarrow> cap_set \<Rightarrow> proc_caps" where
  "exec_child p file_inheritable =
     (let inh = cap_intersect (inheritable p) file_inheritable; perm = cap_union inh (ambient p)
      in \<lparr>permitted = perm, effective = perm, inheritable = inh, ambient = ambient p\<rparr>)"

section \<open>The table\<close>

type_synonym cap_table = "(u32 \<times> proc_caps) list"

definition caps_init :: "cap_table \<Rightarrow> cap_table" where
  "caps_init t = t @ [(0, all_powerful)]"

definition caps_register :: "u32 \<Rightarrow> proc_caps \<Rightarrow> cap_table \<Rightarrow> cap_table" where
  "caps_register p c t = vec_put t p c"

definition caps_check :: "cap_table \<Rightarrow> u32 \<Rightarrow> cap \<Rightarrow> bool" where
  "caps_check t p c = (case map_of t p of None \<Rightarrow> False | Some pc \<Rightarrow> pc_check pc c)"

definition caps_deregister :: "u32 \<Rightarrow> cap_table \<Rightarrow> cap_table" where
  "caps_deregister p t = vec_del t p"

interpretation cap_tables: pid_table map_of caps_register caps_deregister
  by unfold_locales (simp_all add: caps_register_def caps_deregister_def)

section \<open>Privileges only shrink\<close>

lemma cap_bit_bound: "cap_bit c < 64"
  by (cases c) simp_all

lemma cap_bit_inj: "cap_bit c = cap_bit d \<longleftrightarrow> c = d"
  by (cases c; cases d) simp_all

lemma cap_has_bit: "cap_has s c \<longleftrightarrow> bit s (cap_bit c)"
  unfolding cap_has_def cap_mask_def by (simp only: bit_iff_and_push_bit_not_eq_0)

definition within :: "cap_set \<Rightarrow> cap_set \<Rightarrow> bool" where
  "within a b \<longleftrightarrow> (\<forall>i. bit a i \<longrightarrow> bit b i)"

text \<open>The shape all constructors of \<open>ProcCaps\<close> give.\<close>

definition caps_ok :: "proc_caps \<Rightarrow> bool" where
  "caps_ok p \<longleftrightarrow> within (effective p) (permitted p) \<and> within (inheritable p) (permitted p) \<and>
     within (ambient p) (permitted p)"

datatype caps_op = DropCap cap | Exec cap_set

fun caps_step :: "caps_op \<Rightarrow> proc_caps \<Rightarrow> proc_caps" where
  "caps_step (DropCap c) p = pc_drop p c"
| "caps_step (Exec f) p = exec_child p f"

lemma presets_ok: "caps_ok all_powerful" "caps_ok unprivileged" "caps_ok daemon"
  by (simp_all add: caps_ok_def within_def all_powerful_def unprivileged_def daemon_def CAP_EMPTY_def Let_def)

lemma caps_step_shrinks:
  assumes "caps_ok p"
  shows "caps_ok (caps_step c p)" "within (permitted (caps_step c p)) (permitted p)"
  using assms
  by (cases c; auto simp: caps_ok_def within_def pc_drop_def exec_child_def cap_drop_def cap_union_def
      cap_intersect_def Let_def bit_simps)+

lemma caps_run_shrinks:
  "caps_ok p \<Longrightarrow> caps_ok (fold caps_step cs p) \<and> within (permitted (fold caps_step cs p)) (permitted p)"
proof (induction cs arbitrary: p)
  case (Cons c cs)
  show ?case
    using Cons.IH [OF caps_step_shrinks(1) [OF Cons.prems, of c]] caps_step_shrinks(2) [OF Cons.prems, of c]
    by (auto simp: within_def)
qed (simp add: within_def)

lemma dropped_not_permitted: "\<not> bit (permitted (pc_drop p c)) (cap_bit c)"
  using cap_bit_bound [of c] by (simp add: pc_drop_def cap_drop_def cap_mask_def bit_simps)

section \<open>Properties\<close>

text \<open>
  C23. Dropping a capability is irreversible along a line of descent. Take any process whose sets are
  shaped as the constructors make them; whatever sequence of drops and execs (with any file
  capabilities) follows, its effective set stays within its permitted set, its permitted set within the one
  at the start, and after a drop of \<open>c\<close> neither it nor any descendant passes a check for \<open>c\<close>.
\<close>

theorem caps_never_regained:
  assumes "caps_ok p"
  shows "(\<forall>d. pc_check (fold caps_step cs p) d \<longrightarrow> cap_has (permitted p) d) \<and>
    within (effective (fold caps_step cs p)) (permitted (fold caps_step cs p)) \<and>
    \<not> pc_check (fold caps_step cs (pc_drop (fold caps_step bs p) c)) c"
proof -
  note r = caps_run_shrinks [OF assms]
  have d: "caps_ok (pc_drop (fold caps_step bs p) c)"
    using caps_step_shrinks(1) [of "fold caps_step bs p" "DropCap c"] r [of bs] by simp
  note r2 = caps_run_shrinks [OF d, of cs]
  have "\<not> pc_check (fold caps_step cs (pc_drop (fold caps_step bs p) c)) c"
    using r2 dropped_not_permitted [of "fold caps_step bs p" c]
    by (auto simp: pc_check_def cap_has_bit caps_ok_def within_def)
  then show ?thesis using r [of cs] by (auto simp: pc_check_def cap_has_bit caps_ok_def within_def)
qed

lemma caps_never_regained_witness:
  "pc_check daemon IpcOwner \<and> \<not> pc_check (fold caps_step [Exec CAP_ALL] (pc_drop (fold caps_step [] daemon) IpcOwner)) IpcOwner"
proof -
  have "pc_check daemon IpcOwner"
    by (simp add: pc_check_def cap_has_bit daemon_def Let_def cap_mask_def bit_simps)
  then show ?thesis using caps_never_regained [OF presets_ok(3), of "[Exec CAP_ALL]" "[]" IpcOwner] by blast
qed

text \<open>
  The table is a map that ends with the process. After any sequence of registrations and
  deregistrations a check for a process answers from its last registration, and is negative when its
  last operation was a deregistration or it never had one and was not in the table before.
\<close>

theorem caps_table_last_registration:
  "caps_check (fold cap_tables.apply_op ops t) p c =
    (case filter (\<lambda>op. op_key op = p) (rev ops) of
       [] \<Rightarrow> caps_check t p c
     | op # _ \<Rightarrow> (case op_result op of None \<Rightarrow> False | Some pc \<Rightarrow> pc_check pc c))"
  unfolding caps_check_def cap_tables.lookup_fold by (simp split: list.splits)

end
