(* ===== verification/Seccomp.thy ===== *)
theory Seccomp
  imports Interfaces
begin

text \<open>
  The system call filter (\<open>kernel/src/security/seccomp.rs\<close>): profiles, the decision for a
  system call number, and the table of profiles, which is interpreted as a \<open>pid_table\<close>. The
  action \<open>Log\<close> is what the source returns for an allowed call.
\<close>

section \<open>System call numbers\<close>

definition nr_READ :: u32 where "nr_READ = 0"
definition nr_WRITE :: u32 where "nr_WRITE = 1"
definition nr_OPEN :: u32 where "nr_OPEN = 2"
definition nr_CLOSE :: u32 where "nr_CLOSE = 3"
definition nr_STAT :: u32 where "nr_STAT = 4"
definition nr_FSTAT :: u32 where "nr_FSTAT = 5"
definition nr_LSTAT :: u32 where "nr_LSTAT = 6"
definition nr_POLL :: u32 where "nr_POLL = 7"
definition nr_LSEEK :: u32 where "nr_LSEEK = 8"
definition nr_MMAP :: u32 where "nr_MMAP = 9"
definition nr_MPROTECT :: u32 where "nr_MPROTECT = 10"
definition nr_MUNMAP :: u32 where "nr_MUNMAP = 11"
definition nr_BRK :: u32 where "nr_BRK = 12"
definition nr_RT_SIGACTION :: u32 where "nr_RT_SIGACTION = 13"
definition nr_RT_SIGRETURN :: u32 where "nr_RT_SIGRETURN = 15"
definition nr_IOCTL :: u32 where "nr_IOCTL = 16"
definition nr_READV :: u32 where "nr_READV = 19"
definition nr_WRITEV :: u32 where "nr_WRITEV = 20"
definition nr_EXIT :: u32 where "nr_EXIT = 60"
definition nr_EXIT_GROUP :: u32 where "nr_EXIT_GROUP = 231"
definition nr_GETPID :: u32 where "nr_GETPID = 39"
definition nr_GETPPID :: u32 where "nr_GETPPID = 110"
definition nr_FORK :: u32 where "nr_FORK = 57"
definition nr_CLONE :: u32 where "nr_CLONE = 56"
definition nr_EXECVE :: u32 where "nr_EXECVE = 59"
definition nr_KILL :: u32 where "nr_KILL = 62"
definition nr_PTRACE :: u32 where "nr_PTRACE = 101"
definition nr_SOCKET :: u32 where "nr_SOCKET = 41"
definition nr_CONNECT :: u32 where "nr_CONNECT = 42"
definition nr_ACCEPT :: u32 where "nr_ACCEPT = 43"
definition nr_SENDTO :: u32 where "nr_SENDTO = 44"
definition nr_RECVFROM :: u32 where "nr_RECVFROM = 45"
definition nr_BIND :: u32 where "nr_BIND = 49"
definition nr_LISTEN :: u32 where "nr_LISTEN = 50"
definition nr_GETUID :: u32 where "nr_GETUID = 102"
definition nr_GETGID :: u32 where "nr_GETGID = 104"
definition nr_NANOSLEEP :: u32 where "nr_NANOSLEEP = 35"
definition nr_CLOCK_GETTIME :: u32 where "nr_CLOCK_GETTIME = 228"
definition nr_FUTEX :: u32 where "nr_FUTEX = 202"
definition nr_OPENAT :: u32 where "nr_OPENAT = 257"
definition nr_NEWFSTATAT :: u32 where "nr_NEWFSTATAT = 262"
definition nr_READLINKAT :: u32 where "nr_READLINKAT = 267"
definition nr_GETDENTS64 :: u32 where "nr_GETDENTS64 = 217"
definition nr_FCNTL :: u32 where "nr_FCNTL = 72"
definition nr_PIPE2 :: u32 where "nr_PIPE2 = 293"
definition nr_DUP2 :: u32 where "nr_DUP2 = 33"
definition nr_EPOLL_CREATE1 :: u32 where "nr_EPOLL_CREATE1 = 291"
definition nr_EPOLL_CTL :: u32 where "nr_EPOLL_CTL = 233"
definition nr_EPOLL_WAIT :: u32 where "nr_EPOLL_WAIT = 232"
definition nr_SENDFILE :: u32 where "nr_SENDFILE = 40"
definition nr_ACCEPT4 :: u32 where "nr_ACCEPT4 = 288"
definition nr_PRCTL :: u32 where "nr_PRCTL = 157"
definition nr_SECCOMP :: u32 where "nr_SECCOMP = 317"
definition nr_GETRANDOM :: u32 where "nr_GETRANDOM = 318"

lemmas nr_defs = nr_READ_def nr_WRITE_def nr_OPEN_def nr_CLOSE_def nr_STAT_def nr_FSTAT_def nr_LSTAT_def
  nr_POLL_def nr_LSEEK_def nr_MMAP_def nr_MPROTECT_def nr_MUNMAP_def nr_BRK_def nr_RT_SIGACTION_def
  nr_RT_SIGRETURN_def nr_IOCTL_def nr_READV_def nr_WRITEV_def nr_EXIT_def nr_EXIT_GROUP_def nr_GETPID_def
  nr_GETPPID_def nr_FORK_def nr_CLONE_def nr_EXECVE_def nr_KILL_def nr_PTRACE_def nr_SOCKET_def nr_CONNECT_def
  nr_ACCEPT_def nr_SENDTO_def nr_RECVFROM_def nr_BIND_def nr_LISTEN_def nr_GETUID_def nr_GETGID_def
  nr_NANOSLEEP_def nr_CLOCK_GETTIME_def nr_FUTEX_def nr_OPENAT_def nr_NEWFSTATAT_def nr_READLINKAT_def
  nr_GETDENTS64_def nr_FCNTL_def nr_PIPE2_def nr_DUP2_def nr_EPOLL_CREATE1_def nr_EPOLL_CTL_def
  nr_EPOLL_WAIT_def nr_SENDFILE_def nr_ACCEPT4_def nr_PRCTL_def nr_SECCOMP_def nr_GETRANDOM_def

section \<open>Profiles\<close>

datatype seccomp_profile = Unconfined | Strict | DefaultProfile | Network | Allow "u32 list"

datatype seccomp_action = SKill | SErrno | SLog

definition strict_list :: "u32 list" where
  "strict_list = [nr_READ, nr_WRITE, nr_EXIT, nr_EXIT_GROUP, nr_RT_SIGRETURN, nr_NANOSLEEP]"

definition default_list :: "u32 list" where
  "default_list = [nr_READ, nr_WRITE, nr_OPEN, nr_OPENAT, nr_CLOSE, nr_STAT, nr_FSTAT, nr_LSTAT, nr_NEWFSTATAT,
     nr_LSEEK, nr_MMAP, nr_MPROTECT, nr_MUNMAP, nr_BRK, nr_RT_SIGACTION, nr_RT_SIGRETURN, nr_IOCTL, nr_READV,
     nr_WRITEV, nr_GETDENTS64, nr_READLINKAT, nr_FCNTL, nr_PIPE2, nr_DUP2, nr_POLL, nr_EPOLL_CREATE1,
     nr_EPOLL_CTL, nr_EPOLL_WAIT, nr_SENDFILE, nr_FUTEX, nr_NANOSLEEP, nr_CLOCK_GETTIME, nr_GETUID, nr_GETGID,
     nr_GETPID, nr_GETPPID, nr_EXIT, nr_EXIT_GROUP, nr_PRCTL, nr_GETRANDOM]"

definition network_list :: "u32 list" where
  "network_list = [nr_SOCKET, nr_CONNECT, nr_ACCEPT, nr_ACCEPT4, nr_SENDTO, nr_RECVFROM, nr_BIND, nr_LISTEN]"

function allows :: "seccomp_profile \<Rightarrow> u32 \<Rightarrow> bool" where
  "allows Unconfined sysno = True"
| "allows Strict sysno = (sysno \<in> set strict_list)"
| "allows DefaultProfile sysno = (sysno \<in> set default_list)"
| "allows Network sysno = (allows DefaultProfile sysno \<or> sysno \<in> set network_list)"
| "allows (Allow xs) sysno = (sysno \<in> set xs)"
  by pat_completeness auto

termination
  by (relation "measure (\<lambda>(p, s). if p = Network then 1 else 0)") auto

definition on_deny :: "seccomp_profile \<Rightarrow> seccomp_action" where
  "on_deny p = SKill"

section \<open>The table\<close>

type_synonym seccomp_table = "(u32 \<times> seccomp_profile) list"

definition seccomp_init :: "seccomp_table \<Rightarrow> seccomp_table" where
  "seccomp_init t = t @ [(0, Unconfined)]"

definition set_profile :: "u32 \<Rightarrow> seccomp_profile \<Rightarrow> seccomp_table \<Rightarrow> seccomp_table" where
  "set_profile p prof t = vec_put t p prof"

definition check_syscall :: "seccomp_table \<Rightarrow> u32 \<Rightarrow> u32 \<Rightarrow> seccomp_action" where
  "check_syscall t p sysno =
     (case map_of t p of
        Some prof \<Rightarrow> if allows prof sysno then SLog else on_deny prof
      | None \<Rightarrow> SKill)"

definition seccomp_deregister :: "u32 \<Rightarrow> seccomp_table \<Rightarrow> seccomp_table" where
  "seccomp_deregister p t = vec_del t p"

interpretation seccomp_tables: pid_table map_of set_profile seccomp_deregister
  by unfold_locales (simp_all add: set_profile_def seccomp_deregister_def)

section \<open>The profiles are ordered\<close>

lemma strict_subset_default: "set strict_list \<subseteq> set default_list"
  by (simp add: strict_list_def default_list_def)

lemma profile_order:
  "allows Strict s \<Longrightarrow> allows DefaultProfile s" "allows DefaultProfile s \<Longrightarrow> allows Network s"
  using strict_subset_default by auto

definition dangerous :: "u32 list" where
  "dangerous = [nr_FORK, nr_CLONE, nr_EXECVE, nr_KILL, nr_PTRACE, nr_SECCOMP]"

lemma presets_exclude_dangerous: "s \<in> set dangerous \<Longrightarrow> \<not> allows Network s"
  by (auto simp: dangerous_def default_list_def network_list_def nr_defs)

section \<open>Properties\<close>

text \<open>
  Seccomp decides by the last profile, and the presets are a chain. After any sequence of profile
  assignments and deregistrations, a process whose last operation set profile \<open>prof\<close> has its call allowed
  exactly when \<open>prof\<close> allows it and is killed otherwise; a process that was deregistered, or never had a
  profile, is killed on every call. \<open>Strict\<close> allows no more than \<open>Default\<close> and \<open>Default\<close> no more than
  \<open>Network\<close>, and none of the three allows fork, clone, execve, kill, ptrace or seccomp.
\<close>

theorem seccomp_decision:
  "check_syscall (fold seccomp_tables.apply_op ops []) p s =
     (case filter (\<lambda>op. op_key op = p) (rev ops) of
        [] \<Rightarrow> SKill
      | op # _ \<Rightarrow> (case op_result op of None \<Rightarrow> SKill | Some prof \<Rightarrow> if allows prof s then SLog else SKill)) \<and>
   {x. allows Strict x} \<subseteq> {x. allows DefaultProfile x} \<and> {x. allows DefaultProfile x} \<subseteq> {x. allows Network x} \<and>
   set dangerous \<inter> {x. allows Network x} = {}"
proof (intro conjI)
  show "check_syscall (fold seccomp_tables.apply_op ops []) p s =
     (case filter (\<lambda>op. op_key op = p) (rev ops) of
        [] \<Rightarrow> SKill
      | op # _ \<Rightarrow> (case op_result op of None \<Rightarrow> SKill | Some prof \<Rightarrow> if allows prof s then SLog else SKill))"
    unfolding check_syscall_def seccomp_tables.lookup_fold by (simp add: on_deny_def split: list.splits option.splits)
  show "{x. allows Strict x} \<subseteq> {x. allows DefaultProfile x}" using profile_order(1) by blast
  show "{x. allows DefaultProfile x} \<subseteq> {x. allows Network x}" using profile_order(2) by blast
  show "set dangerous \<inter> {x. allows Network x} = {}" using presets_exclude_dangerous by blast
qed

end
