(* ===== verification/Mac.thy ===== *)
theory Mac
  imports Backends
begin

text \<open>
  Mandatory access control (\<open>kernel/src/security/mac.rs\<close>): labels, access vectors, the rule database
  with its default policy, and the check of a process against the longest matching resource
  prefix. The process labels are interpreted as a \<open>pid_table\<close>. The lemmas give the decision in
  closed form and bound what the default policy can ever allow an untrusted process.
\<close>

type_synonym label = string

definition kernel_t :: label where "kernel_t = ''kernel_t''"
definition init_t :: label where "init_t = ''init_t''"
definition daemon_t :: label where "daemon_t = ''daemon_t''"
definition user_t :: label where "user_t = ''user_t''"
definition browser_t :: label where "browser_t = ''browser_t''"
definition untrusted_t :: label where "untrusted_t = ''untrusted_t''"
definition sys_file_t :: label where "sys_file_t = ''sys_file_t''"
definition user_file_t :: label where "user_file_t = ''user_file_t''"
definition net_socket_t :: label where "net_socket_t = ''net_socket_t''"
definition ipc_obj_t :: label where "ipc_obj_t = ''ipc_obj_t''"

lemmas label_defs = kernel_t_def init_t_def daemon_t_def user_t_def browser_t_def untrusted_t_def
  sys_file_t_def user_file_t_def net_socket_t_def ipc_obj_t_def

type_synonym access = u32

definition A_READ :: access where "A_READ = push_bit 0 1"
definition A_WRITE :: access where "A_WRITE = push_bit 1 1"
definition A_EXECUTE :: access where "A_EXECUTE = push_bit 2 1"
definition A_CREATE :: access where "A_CREATE = push_bit 3 1"
definition A_DELETE :: access where "A_DELETE = push_bit 4 1"
definition A_CONNECT :: access where "A_CONNECT = push_bit 5 1"
definition A_SEND :: access where "A_SEND = push_bit 6 1"
definition A_RECV :: access where "A_RECV = push_bit 7 1"
definition A_SIGNAL :: access where "A_SIGNAL = push_bit 8 1"
definition A_SETATTR :: access where "A_SETATTR = push_bit 9 1"
definition A_GETATTR :: access where "A_GETATTR = push_bit 10 1"
definition A_APPEND :: access where "A_APPEND = push_bit 11 1"
definition A_IOCTL :: access where "A_IOCTL = push_bit 12 1"

definition A_all :: access where
  "A_all = A_READ OR A_WRITE OR A_EXECUTE OR A_CREATE OR A_DELETE OR A_CONNECT OR A_SEND OR A_RECV OR A_SIGNAL
     OR A_SETATTR OR A_GETATTR OR A_APPEND OR A_IOCTL"

definition acc_contains :: "access \<Rightarrow> access \<Rightarrow> bool" where
  "acc_contains a b \<longleftrightarrow> a AND b = b"

record mac_rule =
  subject :: label
  object :: label
  allowed_ops :: access

definition rule_allow :: "label \<Rightarrow> label \<Rightarrow> access \<Rightarrow> mac_rule" where
  "rule_allow s ob a = \<lparr>subject = s, object = ob, allowed_ops = a\<rparr>"

record mac_policy =
  mac_rules :: "mac_rule list"
  proc_labels :: "(u32 \<times> label) list"
  resource_labels :: "(string \<times> label) list"

definition mac_new :: mac_policy where
  "mac_new = \<lparr>mac_rules = [], proc_labels = [], resource_labels = []\<rparr>"

definition mac_add :: "mac_rule \<Rightarrow> mac_policy \<Rightarrow> mac_policy" where
  "mac_add r p = p\<lparr>mac_rules := mac_rules p @ [r]\<rparr>"

definition load_default_policy :: "mac_policy \<Rightarrow> mac_policy" where
  "load_default_policy p = fold mac_add
     [rule_allow kernel_t sys_file_t A_all,
      rule_allow kernel_t user_file_t A_all,
      rule_allow init_t sys_file_t A_all,
      rule_allow init_t user_file_t A_all,
      rule_allow init_t ipc_obj_t A_all,
      rule_allow daemon_t sys_file_t (A_READ OR A_GETATTR),
      rule_allow daemon_t ipc_obj_t (A_SEND OR A_RECV OR A_CREATE),
      rule_allow daemon_t net_socket_t (A_CONNECT OR A_SEND OR A_RECV),
      rule_allow user_t user_file_t
        (A_READ OR A_WRITE OR A_CREATE OR A_DELETE OR A_GETATTR OR A_SETATTR OR A_APPEND),
      rule_allow user_t sys_file_t (A_READ OR A_GETATTR),
      rule_allow user_t ipc_obj_t (A_SEND OR A_RECV),
      rule_allow user_t net_socket_t (A_CONNECT OR A_SEND OR A_RECV),
      rule_allow browser_t net_socket_t (A_CONNECT OR A_SEND OR A_RECV),
      rule_allow browser_t user_file_t (A_READ OR A_WRITE OR A_CREATE OR A_GETATTR),
      rule_allow untrusted_t user_file_t (A_READ OR A_GETATTR)] p"

primrec rules_check :: "mac_rule list \<Rightarrow> label \<Rightarrow> label \<Rightarrow> access \<Rightarrow> bool" where
  "rules_check [] s ob a = False"
| "rules_check (r # rs) s ob a =
     (if subject r = s \<and> object r = ob
      then (if acc_contains (allowed_ops r) a then True else rules_check rs s ob a)
      else rules_check rs s ob a)"

text \<open>The global policy is \<open>None\<close> until \<open>init\<close>.\<close>

definition mac_init :: "mac_policy option" where
  "mac_init =
     (let p = load_default_policy mac_new in Some (p\<lparr>proc_labels := proc_labels p @ [(0, kernel_t)]\<rparr>))"

definition policy_label_process :: "u32 \<Rightarrow> label \<Rightarrow> mac_policy \<Rightarrow> mac_policy" where
  "policy_label_process q l p = p\<lparr>proc_labels := vec_put (proc_labels p) q l\<rparr>"

definition label_process :: "u32 \<Rightarrow> label \<Rightarrow> mac_policy option \<Rightarrow> mac_policy option" where
  "label_process q l = map_option (policy_label_process q l)"

definition label_resource :: "string \<Rightarrow> label \<Rightarrow> mac_policy option \<Rightarrow> mac_policy option" where
  "label_resource path l = map_option (\<lambda>p. p\<lparr>resource_labels := vec_put (resource_labels p) path l\<rparr>)"

text \<open>\<open>max_by_key\<close> returns the last of the longest.\<close>

definition longest :: "(string \<times> label) list \<Rightarrow> (string \<times> label) option" where
  "longest xs = foldl (\<lambda>acc e. case acc of None \<Rightarrow> Some e
     | Some a \<Rightarrow> if length (fst a) \<le> length (fst e) then Some e else Some a) None xs"

definition resource_label :: "string \<Rightarrow> (string \<times> label) list \<Rightarrow> label option" where
  "resource_label path rls = map_option snd (longest (filter (\<lambda>(k, _). starts_with path k) rls))"

definition mac_check :: "mac_policy option \<Rightarrow> u32 \<Rightarrow> string \<Rightarrow> access \<Rightarrow> bool" where
  "mac_check m q path a =
     (case m of
        None \<Rightarrow> True
      | Some p \<Rightarrow>
          (case map_of (proc_labels p) q of
             None \<Rightarrow> False
           | Some s \<Rightarrow>
               (case resource_label path (resource_labels p) of
                  None \<Rightarrow> False
                | Some ob \<Rightarrow> rules_check (mac_rules p) s ob a)))"

definition policy_deregister :: "u32 \<Rightarrow> mac_policy \<Rightarrow> mac_policy" where
  "policy_deregister q p = p\<lparr>proc_labels := vec_del (proc_labels p) q\<rparr>"

definition mac_deregister :: "u32 \<Rightarrow> mac_policy option \<Rightarrow> mac_policy option" where
  "mac_deregister q = map_option (policy_deregister q)"

interpretation mac_procs: pid_table "\<lambda>p. map_of (proc_labels p)" policy_label_process policy_deregister
  by unfold_locales (simp_all add: policy_label_process_def policy_deregister_def)

section \<open>The decision\<close>

lemma rules_check_iff:
  "rules_check rs s ob a \<longleftrightarrow> (\<exists>r \<in> set rs. subject r = s \<and> object r = ob \<and> acc_contains (allowed_ops r) a)"
  by (induction rs) auto

lemma longest_snoc:
  "longest (xs @ [e]) = (case longest xs of None \<Rightarrow> Some e
     | Some a \<Rightarrow> if length (fst a) \<le> length (fst e) then Some e else Some a)"
  by (simp add: longest_def)

lemma longest_None: "longest xs = None \<longleftrightarrow> xs = []"
proof (induction xs rule: rev_induct)
  case (snoc e xs)
  then show ?case by (auto simp: longest_snoc split: option.splits)
qed (simp add: longest_def)

lemma longest_Some:
  "longest xs = Some e \<Longrightarrow> e \<in> set xs \<and> (\<forall>x \<in> set xs. length (fst x) \<le> length (fst e))"
proof (induction xs arbitrary: e rule: rev_induct)
  case (snoc y xs)
  show ?case
  proof (cases "longest xs")
    case None
    then have "xs = []" by (simp add: longest_None)
    then show ?thesis using snoc.prems by (simp add: longest_def)
  next
    case (Some z)
    note z = snoc.IH [OF Some]
    show ?thesis
    proof (cases "length (fst z) \<le> length (fst y)")
      case True
      then show ?thesis using snoc.prems z Some by (force simp: longest_snoc)
    next
      case False
      then show ?thesis using snoc.prems z Some by (auto simp: longest_snoc)
    qed
  qed
qed (simp add: longest_def)

text \<open>Two prefixes of one path that have the same length are the same key.\<close>

lemma resource_label_iff:
  assumes "distinct (map fst rls)"
  shows "resource_label path rls = Some l \<longleftrightarrow>
    (\<exists>k. (k, l) \<in> set rls \<and> starts_with path k \<and>
       (\<forall>k' l'. (k', l') \<in> set rls \<longrightarrow> starts_with path k' \<longrightarrow> length k' \<le> length k))"
proof
  assume "resource_label path rls = Some l"
  then obtain k where "longest (filter (\<lambda>(k, _). starts_with path k) rls) = Some (k, l)"
    by (auto simp: resource_label_def)
  from longest_Some [OF this] show "\<exists>k. (k, l) \<in> set rls \<and> starts_with path k \<and>
       (\<forall>k' l'. (k', l') \<in> set rls \<longrightarrow> starts_with path k' \<longrightarrow> length k' \<le> length k)"
    by force
next
  assume "\<exists>k. (k, l) \<in> set rls \<and> starts_with path k \<and>
       (\<forall>k' l'. (k', l') \<in> set rls \<longrightarrow> starts_with path k' \<longrightarrow> length k' \<le> length k)"
  then obtain k where k: "(k, l) \<in> set rls" "starts_with path k"
    "\<And>k' l'. (k', l') \<in> set rls \<Longrightarrow> starts_with path k' \<Longrightarrow> length k' \<le> length k" by blast
  have "filter (\<lambda>(k, _). starts_with path k) rls \<noteq> []" using k(1,2) by (auto simp: filter_empty_conv)
  then obtain e where e: "longest (filter (\<lambda>(k, _). starts_with path k) rls) = Some e"
    using longest_None by (metis not_None_eq)
  obtain k' l' where [simp]: "e = (k', l')" by (cases e)
  have e': "(k', l') \<in> set rls" "starts_with path k'" "length k \<le> length k'"
    using longest_Some [OF e] k(1,2) by force+
  then have "length k' = length k" using k(3) by force
  then have "k' = k" using e'(2) k(2) by (simp add: starts_with_def)
  then have "l' = l" using assms e'(1) k(1) by (metis eq_key_imp_eq_value)
  then show "resource_label path rls = Some l" using e by (simp add: resource_label_def)
qed

section \<open>What the default policy confines\<close>

datatype mac_op = LabelProc u32 label | LabelRes string label | Dereg u32

fun mac_step :: "mac_op \<Rightarrow> mac_policy option \<Rightarrow> mac_policy option" where
  "mac_step (LabelProc q l) m = label_process q l m"
| "mac_step (LabelRes path l) m = label_resource path l m"
| "mac_step (Dereg q) m = mac_deregister q m"

definition policy_ok :: "mac_policy option \<Rightarrow> bool" where
  "policy_ok m \<longleftrightarrow> (\<exists>p. m = Some p \<and> mac_rules p = mac_rules (load_default_policy mac_new) \<and>
     distinct (map fst (resource_labels p)))"

lemma policy_ok_init: "policy_ok mac_init"
  by (simp add: policy_ok_def mac_init_def Let_def load_default_policy_def mac_add_def mac_new_def)

lemma policy_ok_step: "policy_ok m \<Longrightarrow> policy_ok (mac_step c m)"
  by (cases c) (auto simp: policy_ok_def label_process_def label_resource_def mac_deregister_def
      policy_label_process_def policy_deregister_def distinct_vec_put)

lemma policy_ok_run: "policy_ok (fold mac_step cs mac_init)"
  by (induction cs rule: rev_induct) (simp_all add: policy_ok_init policy_ok_step)

lemma default_untrusted:
  "r \<in> set (mac_rules (load_default_policy mac_new)) \<Longrightarrow> subject r = untrusted_t \<Longrightarrow>
     object r = user_file_t \<and> allowed_ops r = A_READ OR A_GETATTR"
  by (auto simp: load_default_policy_def mac_add_def mac_new_def rule_allow_def label_defs)

section \<open>Properties\<close>

text \<open>
  The MAC decision. With a policy loaded, an access is allowed exactly when the process has a label, the
  longest labelled prefix of the path has a label, and some rule for these two labels contains every
  requested operation; unlabelled processes and unlabelled resources are denied.
\<close>

theorem mac_check_decision:
  assumes "distinct (map fst (resource_labels p))"
  shows "mac_check (Some p) q path a \<longleftrightarrow>
    (\<exists>s k l. map_of (proc_labels p) q = Some s \<and> (k, l) \<in> set (resource_labels p) \<and> starts_with path k \<and>
       (\<forall>k' l'. (k', l') \<in> set (resource_labels p) \<longrightarrow> starts_with path k' \<longrightarrow> length k' \<le> length k) \<and>
       (\<exists>r \<in> set (mac_rules p). subject r = s \<and> object r = l \<and> acc_contains (allowed_ops r) a))"
proof -
  have "mac_check (Some p) q path a \<longleftrightarrow> (\<exists>s l. map_of (proc_labels p) q = Some s \<and>
      resource_label path (resource_labels p) = Some l \<and> rules_check (mac_rules p) s l a)"
    by (auto simp: mac_check_def split: option.splits)
  then show ?thesis unfolding resource_label_iff [OF assms] rules_check_iff by blast
qed

definition demo_policy :: mac_policy where
  "demo_policy = the (mac_step (LabelRes ''/home'' user_file_t) (mac_step (LabelProc 7 untrusted_t) mac_init))"

lemma mac_check_decision_witness:
  "mac_check (Some demo_policy) 7 ''/home/a'' A_READ \<and> distinct (map fst (resource_labels demo_policy))"
proof -
  have d: "distinct (map fst (resource_labels demo_policy))" by code_simp
  have "map_of (proc_labels demo_policy) 7 = Some untrusted_t" "resource_labels demo_policy = [(''/home'', user_file_t)]"
    by code_simp+
  moreover have "rule_allow untrusted_t user_file_t (A_READ OR A_GETATTR) \<in> set (mac_rules demo_policy)"
    by (simp add: demo_policy_def mac_init_def Let_def label_process_def label_resource_def policy_label_process_def
        load_default_policy_def mac_add_def)
  moreover have "acc_contains (A_READ OR A_GETATTR) A_READ" by (simp add: acc_contains_def A_READ_def A_GETATTR_def)
  ultimately show ?thesis
    using d by (simp add: mac_check_decision [OF d] starts_with_def) (force simp: rule_allow_def)
qed

text \<open>
  C24. An untrusted process stays confined. From boot on, whatever processes and resources are labelled,
  relabelled or deregistered, a process whose label is \<open>untrusted_t\<close> is only ever allowed reading and
  attribute reading, and only on resources whose longest labelled prefix carries \<open>user_file_t\<close>.
\<close>

theorem mac_untrusted_confined:
  assumes "fold mac_step cs mac_init = Some p" and "map_of (proc_labels p) q = Some untrusted_t"
    and "mac_check (Some p) q path a"
  shows "resource_label path (resource_labels p) = Some user_file_t \<and> acc_contains (A_READ OR A_GETATTR) a"
proof -
  have r: "mac_rules p = mac_rules (load_default_policy mac_new)"
    using policy_ok_run [of cs] assms(1) by (simp add: policy_ok_def)
  obtain l where l: "resource_label path (resource_labels p) = Some l" "rules_check (mac_rules p) untrusted_t l a"
    using assms(2,3) by (auto simp: mac_check_def split: option.splits)
  then show ?thesis using default_untrusted by (auto simp: rules_check_iff r)
qed

lemma mac_untrusted_confined_witness:
  "resource_label ''/home/a'' (resource_labels demo_policy) = Some user_file_t"
proof -
  have f: "fold mac_step [LabelProc 7 untrusted_t, LabelRes ''/home'' user_file_t] mac_init = Some demo_policy"
    using policy_ok_run [of "[LabelProc 7 untrusted_t, LabelRes ''/home'' user_file_t]"]
    by (auto simp: demo_policy_def policy_ok_def)
  have l: "map_of (proc_labels demo_policy) 7 = Some untrusted_t" by code_simp
  have "mac_check (Some demo_policy) 7 ''/home/a'' A_READ" by code_simp
  from mac_untrusted_confined [OF f l this] show ?thesis by blast
qed

end
