(* ===== verification/Namespaces.thy ===== *)
theory Namespaces
  imports Prelude
begin

text \<open>
  Namespace membership (\<open>kernel/src/security/namespaces.rs\<close>): the id counter, fork and exit, and the
  creation of isolated memberships. The per-kind payload types of the source (\<open>PidNs\<close>, \<open>MountNs\<close>,
  \<open>NetNs\<close>, \<open>UserNs\<close>) are declared there and never used.
\<close>

type_synonym ns_id = u32

definition NS_INIT :: ns_id where "NS_INIT = 1"

record ns_membership =
  ns_pid :: ns_id
  ns_mnt :: ns_id
  ns_net :: ns_id
  ns_user :: ns_id
  ns_ipc :: ns_id

definition init_ns :: ns_membership where
  "init_ns = \<lparr>ns_pid = NS_INIT, ns_mnt = NS_INIT, ns_net = NS_INIT, ns_user = NS_INIT, ns_ipc = NS_INIT\<rparr>"

record ns_state =
  ns_counter :: u32
  ns_procs :: "(u32 \<times> ns_membership) list"

definition ns_new :: ns_state where
  "ns_new = \<lparr>ns_counter = 2, ns_procs = []\<rparr>"

definition new_ns_id :: "ns_state \<Rightarrow> ns_id \<times> ns_state" where
  "new_ns_id s = (ns_counter s, s\<lparr>ns_counter := ns_counter s + 1\<rparr>)"

definition ns_init :: "ns_state \<Rightarrow> ns_state" where
  "ns_init s = s\<lparr>ns_procs := ns_procs s @ [(0, init_ns)]\<rparr>"

definition get_ns :: "u32 \<Rightarrow> ns_state \<Rightarrow> ns_membership option" where
  "get_ns p s = map_of (ns_procs s) p"

definition fork_namespaces :: "u32 \<Rightarrow> u32 \<Rightarrow> ns_state \<Rightarrow> ns_state" where
  "fork_namespaces parent child s =
     (case map_of (ns_procs s) parent of
        Some ns \<Rightarrow> s\<lparr>ns_procs := ns_procs s @ [(child, ns)]\<rparr>
      | None \<Rightarrow> s)"

definition NS_NONE :: u8 where "NS_NONE = 0"
definition NS_PID :: u8 where "NS_PID = push_bit 0 1"
definition NS_MNT :: u8 where "NS_MNT = push_bit 1 1"
definition NS_NET :: u8 where "NS_NET = push_bit 2 1"
definition NS_USER :: u8 where "NS_USER = push_bit 3 1"
definition NS_IPC :: u8 where "NS_IPC = push_bit 4 1"
definition NS_ALL :: u8 where "NS_ALL = 0x1F"

lemmas ns_flag_defs = NS_NONE_def NS_PID_def NS_MNT_def NS_NET_def NS_USER_def NS_IPC_def NS_ALL_def

definition ns_contains :: "u8 \<Rightarrow> u8 \<Rightarrow> bool" where
  "ns_contains a b \<longleftrightarrow> a AND b = b"

definition ns_or :: "u8 \<Rightarrow> u8 \<Rightarrow> u8" where
  "ns_or a b = a OR b"

definition ns_pick :: "u8 \<Rightarrow> u8 \<Rightarrow> ns_id \<Rightarrow> ns_state \<Rightarrow> ns_id \<times> ns_state" where
  "ns_pick flags flag base s = (if ns_contains flags flag then new_ns_id s else (base, s))"

definition create_isolated :: "u8 \<Rightarrow> ns_state \<Rightarrow> ns_membership \<times> ns_state" where
  "create_isolated flags s =
     (let (p, s1) = ns_pick flags NS_PID (ns_pid init_ns) s;
          (m, s2) = ns_pick flags NS_MNT (ns_mnt init_ns) s1;
          (n, s3) = ns_pick flags NS_NET (ns_net init_ns) s2;
          (u, s4) = ns_pick flags NS_USER (ns_user init_ns) s3;
          (i, s5) = ns_pick flags NS_IPC (ns_ipc init_ns) s4
      in (\<lparr>ns_pid = p, ns_mnt = m, ns_net = n, ns_user = u, ns_ipc = i\<rparr>, s5))"

definition ns_deregister :: "u32 \<Rightarrow> ns_state \<Rightarrow> ns_state" where
  "ns_deregister p s = s\<lparr>ns_procs := vec_del (ns_procs s) p\<rparr>"

section \<open>Ids in use\<close>

definition ids_of :: "ns_membership \<Rightarrow> ns_id list" where
  "ids_of m = [ns_pid m, ns_mnt m, ns_net m, ns_user m, ns_ipc m]"

definition ids_in_use :: "ns_state \<Rightarrow> ns_id set" where
  "ids_in_use s = insert NS_INIT (\<Union>(_, m) \<in> set (ns_procs s). set (ids_of m))"

definition ns_ok :: "ns_state \<Rightarrow> bool" where
  "ns_ok s \<longleftrightarrow> (\<forall>i \<in> ids_in_use s. i < ns_counter s)"

lemma fresh_chain:
  fixes c :: u32
  assumes "unat c + 5 < 2 ^ 32" "k \<le> 5"
  shows "unat (c + of_nat k) = unat c + k"
proof -
  have "unat (of_nat k :: u32) = k" using assms(2) by (simp add: unat_of_nat take_bit_nat_eq_self)
  then show ?thesis using assms by (subst unat_add_no_wrap) simp_all
qed

text \<open>One choice: the base, or the counter, which moves up by one.\<close>

lemma ns_pick_spec:
  assumes "unat (ns_counter s) + n < 2 ^ 32" "1 \<le> n"
  obtains i s' where "ns_pick flags flag base s = (i, s')" "ns_procs s' = ns_procs s"
    "ns_contains flags flag \<Longrightarrow> i = ns_counter s" "\<not> ns_contains flags flag \<Longrightarrow> i = base"
    "unat (ns_counter s') = unat (ns_counter s) + (if ns_contains flags flag then 1 else 0)"
proof -
  have "unat (ns_counter s + 1) = unat (ns_counter s) + 1"
    using assms by (subst unat_add_no_wrap) simp_all
  then show ?thesis using that by (cases "ns_contains flags flag") (simp_all add: ns_pick_def new_ns_id_def)
qed

lemma all_less_5: "(\<forall>k < 5. P k) \<longleftrightarrow> P 0 \<and> P 1 \<and> P 2 \<and> P 3 \<and> P (4 :: nat)"
proof -
  have "k < 5 \<longleftrightarrow> k = 0 \<or> k = 1 \<or> k = 2 \<or> k = 3 \<or> k = 4" for k :: nat by linarith
  then show ?thesis by metis
qed

section \<open>Properties\<close>

text \<open>
  Isolated namespaces are new. As long as fewer than \<open>2\<^sup>3\<^sup>2\<close> ids have been handed out, each kind of
  namespace that the flags ask for gets an id that no process uses in any of its five
  memberships, the requested ids differ from each other, the kinds not asked for stay in the
  root namespace, and the counter stays above everything in use.
\<close>

theorem isolated_namespaces_fresh:
  assumes "ns_ok s" and "unat (ns_counter s) + 5 < 2 ^ 32" and "create_isolated flags s = (m, s')"
  shows "ns_procs s' = ns_procs s \<and> ns_ok s' \<and> (\<forall>i \<in> set (ids_of m). i < ns_counter s') \<and>
    (\<forall>k < 5. if ns_contains flags (push_bit k 1) then ids_of m ! k \<notin> ids_in_use s else ids_of m ! k = NS_INIT) \<and>
    (\<forall>j < 5. \<forall>k < 5. ns_contains flags (push_bit j 1) \<and> ns_contains flags (push_bit k 1) \<and> j \<noteq> k \<longrightarrow>
       ids_of m ! j \<noteq> ids_of m ! k)"
proof -
  let ?c = "unat (ns_counter s)"
  obtain p s1 where 1: "ns_pick flags NS_PID (ns_pid init_ns) s = (p, s1)" "ns_procs s1 = ns_procs s"
    "ns_contains flags NS_PID \<Longrightarrow> p = ns_counter s" "\<not> ns_contains flags NS_PID \<Longrightarrow> p = ns_pid init_ns"
    "unat (ns_counter s1) = ?c + (if ns_contains flags NS_PID then 1 else 0)"
    using ns_pick_spec [OF assms(2)] by (metis one_le_numeral)
  have "unat (ns_counter s1) + 4 < 2 ^ 32" using 1(5) assms(2) by (simp split: if_splits)
  then obtain mn s2 where 2: "ns_pick flags NS_MNT (ns_mnt init_ns) s1 = (mn, s2)" "ns_procs s2 = ns_procs s1"
    "ns_contains flags NS_MNT \<Longrightarrow> mn = ns_counter s1" "\<not> ns_contains flags NS_MNT \<Longrightarrow> mn = ns_mnt init_ns"
    "unat (ns_counter s2) = unat (ns_counter s1) + (if ns_contains flags NS_MNT then 1 else 0)"
    using ns_pick_spec by (metis one_le_numeral)
  have "unat (ns_counter s2) + 3 < 2 ^ 32" using 1(5) 2(5) assms(2) by (simp split: if_splits)
  then obtain n s3 where 3: "ns_pick flags NS_NET (ns_net init_ns) s2 = (n, s3)" "ns_procs s3 = ns_procs s2"
    "ns_contains flags NS_NET \<Longrightarrow> n = ns_counter s2" "\<not> ns_contains flags NS_NET \<Longrightarrow> n = ns_net init_ns"
    "unat (ns_counter s3) = unat (ns_counter s2) + (if ns_contains flags NS_NET then 1 else 0)"
    using ns_pick_spec by (metis one_le_numeral)
  have "unat (ns_counter s3) + 2 < 2 ^ 32" using 1(5) 2(5) 3(5) assms(2) by (simp split: if_splits)
  then obtain u s4 where 4: "ns_pick flags NS_USER (ns_user init_ns) s3 = (u, s4)" "ns_procs s4 = ns_procs s3"
    "ns_contains flags NS_USER \<Longrightarrow> u = ns_counter s3" "\<not> ns_contains flags NS_USER \<Longrightarrow> u = ns_user init_ns"
    "unat (ns_counter s4) = unat (ns_counter s3) + (if ns_contains flags NS_USER then 1 else 0)"
    using ns_pick_spec by (metis one_le_numeral)
  have "unat (ns_counter s4) + 1 < 2 ^ 32" using 1(5) 2(5) 3(5) 4(5) assms(2) by (simp split: if_splits)
  then obtain i s5 where 5: "ns_pick flags NS_IPC (ns_ipc init_ns) s4 = (i, s5)" "ns_procs s5 = ns_procs s4"
    "ns_contains flags NS_IPC \<Longrightarrow> i = ns_counter s4" "\<not> ns_contains flags NS_IPC \<Longrightarrow> i = ns_ipc init_ns"
    "unat (ns_counter s5) = unat (ns_counter s4) + (if ns_contains flags NS_IPC then 1 else 0)"
    using ns_pick_spec by (metis order_refl)
  have m: "m = \<lparr>ns_pid = p, ns_mnt = mn, ns_net = n, ns_user = u, ns_ipc = i\<rparr>" and s': "s' = s5"
    using assms(3) by (simp_all add: create_isolated_def 1(1) 2(1) 3(1) 4(1) 5(1))
  have procs: "ns_procs s' = ns_procs s" using 1(2) 2(2) 3(2) 4(2) 5(2) s' by simp
  have U: "unat p = (if ns_contains flags NS_PID then ?c else 1)"
    "unat mn = (if ns_contains flags NS_MNT then unat (ns_counter s1) else 1)"
    "unat n = (if ns_contains flags NS_NET then unat (ns_counter s2) else 1)"
    "unat u = (if ns_contains flags NS_USER then unat (ns_counter s3) else 1)"
    "unat i = (if ns_contains flags NS_IPC then unat (ns_counter s4) else 1)"
    using 1(3,4) 2(3,4) 3(3,4) 4(3,4) 5(3,4) by (simp_all add: init_ns_def NS_INIT_def)
  note mono = 1(5) 2(5) 3(5) 4(5) 5(5)
  have use: "unat x < ?c" if "x \<in> ids_in_use s" for x
    using assms(1) that by (simp add: ns_ok_def word_less_nat_alt)
  have one: "1 < ?c" using use [of NS_INIT] by (simp add: ids_in_use_def NS_INIT_def)
  have fresh: "x \<notin> ids_in_use s" if "?c \<le> unat x" for x using use [of x] that by auto
  have ok: "ns_ok s'"
  proof -
    have "ids_in_use s' = ids_in_use s" by (simp add: ids_in_use_def procs)
    moreover have "?c \<le> unat (ns_counter s')" using mono s' by (simp split: if_splits)
    ultimately show ?thesis using use by (auto simp: ns_ok_def word_less_nat_alt intro: less_le_trans)
  qed
  have lt: "\<forall>x \<in> set (ids_of m). x < ns_counter s'"
    using U mono one by (simp add: ids_of_def m s' word_less_nat_alt split: if_splits)
  have root: "x = NS_INIT" if "unat x = 1" for x using that by (simp add: NS_INIT_def word_unat_eq_iff)
  have b: "push_bit 0 (1 :: u8) = NS_PID" "push_bit 1 (1 :: u8) = NS_MNT" "push_bit 2 (1 :: u8) = NS_NET"
    "push_bit 3 (1 :: u8) = NS_USER" "push_bit 4 (1 :: u8) = NS_IPC"
    by (simp_all only: NS_PID_def NS_MNT_def NS_NET_def NS_USER_def NS_IPC_def)
  have el: "ids_of m ! 0 = p" "ids_of m ! 1 = mn" "ids_of m ! 2 = n" "ids_of m ! 3 = u" "ids_of m ! 4 = i"
    by (simp_all add: ids_of_def m)
  have each: "\<forall>k < 5. if ns_contains flags (push_bit k 1) then ids_of m ! k \<notin> ids_in_use s else ids_of m ! k = NS_INIT"
  proof -
    have "if ns_contains flags f then x \<notin> ids_in_use s else x = NS_INIT"
      if "unat x = (if ns_contains flags f then y else 1)" "?c \<le> y" for x f y
      using fresh [of x] root [of x] that by (cases "ns_contains flags f") simp_all
    moreover have "?c \<le> unat (ns_counter s1)" "?c \<le> unat (ns_counter s2)" "?c \<le> unat (ns_counter s3)"
      "?c \<le> unat (ns_counter s4)" unfolding mono by simp_all
    ultimately show ?thesis unfolding all_less_5 el b using U by blast
  qed
  have ne: "x \<noteq> y \<and> y \<noteq> x" if "unat x < unat y" for x y :: u32 using that by auto
  have "ns_contains flags NS_PID \<Longrightarrow> ns_contains flags NS_MNT \<Longrightarrow> p \<noteq> mn \<and> mn \<noteq> p"
    "ns_contains flags NS_PID \<Longrightarrow> ns_contains flags NS_NET \<Longrightarrow> p \<noteq> n \<and> n \<noteq> p"
    "ns_contains flags NS_PID \<Longrightarrow> ns_contains flags NS_USER \<Longrightarrow> p \<noteq> u \<and> u \<noteq> p"
    "ns_contains flags NS_PID \<Longrightarrow> ns_contains flags NS_IPC \<Longrightarrow> p \<noteq> i \<and> i \<noteq> p"
    "ns_contains flags NS_MNT \<Longrightarrow> ns_contains flags NS_NET \<Longrightarrow> mn \<noteq> n \<and> n \<noteq> mn"
    "ns_contains flags NS_MNT \<Longrightarrow> ns_contains flags NS_USER \<Longrightarrow> mn \<noteq> u \<and> u \<noteq> mn"
    "ns_contains flags NS_MNT \<Longrightarrow> ns_contains flags NS_IPC \<Longrightarrow> mn \<noteq> i \<and> i \<noteq> mn"
    "ns_contains flags NS_NET \<Longrightarrow> ns_contains flags NS_USER \<Longrightarrow> n \<noteq> u \<and> u \<noteq> n"
    "ns_contains flags NS_NET \<Longrightarrow> ns_contains flags NS_IPC \<Longrightarrow> n \<noteq> i \<and> i \<noteq> n"
    "ns_contains flags NS_USER \<Longrightarrow> ns_contains flags NS_IPC \<Longrightarrow> u \<noteq> i \<and> i \<noteq> u"
    by (rule ne; unfold U mono; simp)+
  then have diff: "\<forall>j < 5. \<forall>k < 5. ns_contains flags (push_bit j 1) \<and> ns_contains flags (push_bit k 1) \<and> j \<noteq> k \<longrightarrow>
       ids_of m ! j \<noteq> ids_of m ! k"
    unfolding all_less_5 el b by simp
  show ?thesis using procs ok lt each diff by blast
qed

lemma ns_ok_new: "ns_ok (ns_init ns_new)"
  by (simp add: ns_ok_def ids_in_use_def ids_of_def ns_init_def ns_new_def init_ns_def NS_INIT_def)

lemma isolated_namespaces_fresh_witness:
  "ns_ok (snd (create_isolated NS_ALL (ns_init ns_new))) \<and>
   ids_of (fst (create_isolated NS_ALL (ns_init ns_new))) ! 0 \<notin> ids_in_use (ns_init ns_new)"
proof -
  have c: "unat (ns_counter (ns_init ns_new)) + 5 < 2 ^ 32" by (simp add: ns_init_def ns_new_def)
  have f: "ns_contains NS_ALL (push_bit 0 1)" by (simp add: ns_contains_def NS_ALL_def)
  from isolated_namespaces_fresh [OF ns_ok_new c, of NS_ALL] f show ?thesis
    by (metis prod.collapse zero_less_numeral)
qed

text \<open>
  Fork copies the parent's namespaces, but only for a new pid. After a fork the child is in the
  parent's namespaces, unless the table still has an entry for the child's pid (a process that exited
  without being deregistered): then the new entry is behind the old one and the child keeps the dead
  process's namespaces. No other process is affected.
\<close>

theorem fork_namespaces_inherit:
  "get_ns child (fork_namespaces parent child s) =
     (case get_ns child s of Some stale \<Rightarrow> Some stale | None \<Rightarrow> get_ns parent s) \<and>
   (q \<noteq> child \<longrightarrow> get_ns q (fork_namespaces parent child s) = get_ns q s) \<and>
   get_ns child (fork_namespaces parent child (ns_deregister child s)) =
     (if parent = child then None else get_ns parent s)"
  by (auto simp: get_ns_def fork_namespaces_def ns_deregister_def map_add_def split: option.splits)

lemma fork_namespaces_inherit_witness:
  "get_ns 0 (fork_namespaces 0 3 (ns_init ns_new)) = get_ns 0 (ns_init ns_new) \<and>
   get_ns 3 (fork_namespaces 0 3 (ns_init ns_new)) = Some init_ns"
  using fork_namespaces_inherit [of 3 0 "ns_init ns_new" 0]
  by (simp add: get_ns_def ns_init_def ns_new_def)

end
