(* ===== verification/Hardening.thy ===== *)
theory Hardening
  imports Paging
begin

text \<open>
  Address randomisation and stack canaries (\<open>kernel/src/security/memory_hardening.rs\<close>): the mixing
  function, the seed that each request advances, and what the requests return. The hardware random
  number is an argument (\<open>None\<close> when the instruction fails). The lemmas show that the mixing
  function is a bijection, so canaries of different processes differ, and bound the addresses.
\<close>

record hardening =
  hd_seed :: u64
  hd_canary :: u64

definition hardening_new :: hardening where
  "hardening_new = \<lparr>hd_seed = 0, hd_canary = 0\<rparr>"

definition mix64 :: "u64 \<Rightarrow> u64 \<Rightarrow> u64" where
  "mix64 x key =
     (let x = x + key;
          x = x XOR drop_bit 30 x;
          x = x * 0xBF58476D1CE4E5B9;
          x = x XOR drop_bit 27 x;
          x = x * 0x94D049BB133111EB;
          x = x XOR drop_bit 31 x
      in x)"

definition hardening_init :: "u64 option \<Rightarrow> hardening \<Rightarrow> hardening" where
  "hardening_init rdrand s =
     (let entropy = (case rdrand of Some v \<Rightarrow> v | None \<Rightarrow> 0xDEADBEEFCAFE1234)
      in s\<lparr>hd_seed := entropy, hd_canary := mix64 entropy 0x517CC1B727220A95\<rparr>)"

definition aslr_base :: "u64 \<Rightarrow> hardening \<Rightarrow> u64 \<times> hardening" where
  "aslr_base hint s =
     (let seed = hd_seed s; rand = mix64 seed hint; offset = rand AND 0x0000FFFFFFFFF000
      in ((0x0000100000000000 + offset) AND NOT 0xFFF, s\<lparr>hd_seed := seed + 0x9E3779B97F4A7C15\<rparr>))"

definition new_stack_canary :: "u32 \<Rightarrow> hardening \<Rightarrow> u64" where
  "new_stack_canary p s = mix64 (hd_seed s) (ucast p)"

definition reseed :: "u64 option \<Rightarrow> hardening \<Rightarrow> hardening" where
  "reseed rdrand s = (case rdrand of Some r \<Rightarrow> s\<lparr>hd_seed := hd_seed s XOR r\<rparr> | None \<Rightarrow> s)"

text \<open>
  The page operations go through \<open>paging::map_page\<close>, which ignores its arguments, so memory, page
  tables included, is what it was.
\<close>

definition PF_PRESENT :: u64 where "PF_PRESENT = push_bit 0 1"
definition PF_WRITABLE :: u64 where "PF_WRITABLE = push_bit 1 1"
definition PF_NO_EXEC :: u64 where "PF_NO_EXEC = push_bit 63 1"
definition KERNEL_RO :: u64 where "KERNEL_RO = PF_PRESENT OR PF_NO_EXEC"
definition KERNEL_RW :: u64 where "KERNEL_RW = PF_PRESENT OR PF_WRITABLE OR PF_NO_EXEC"

definition map_page :: "u64 \<Rightarrow> u64 \<Rightarrow> u64 \<Rightarrow> memory \<Rightarrow> memory" where
  "map_page virt phys flags m = m"

definition place_guard_page :: "u64 \<Rightarrow> memory \<Rightarrow> memory" where
  "place_guard_page virt m = map_page virt 0 KERNEL_RO m"

definition mark_nx :: "u64 \<Rightarrow> u64 \<Rightarrow> nat \<Rightarrow> memory \<Rightarrow> memory" where
  "mark_nx hhdm virt_start pages m =
     fold (\<lambda>i. map_page (virt_start + of_nat i * 4096) (virt_to_phys hhdm (virt_start + of_nat i * 4096)) KERNEL_RW)
       [0..<pages] m"

lemma page_hardening_inert: "place_guard_page virt m = m" "mark_nx hhdm virt pages m = m"
proof -
  show "place_guard_page virt m = m" by (simp add: place_guard_page_def map_page_def)
  have "fold (\<lambda>i m. m) xs m = m" for xs :: "nat list" by (induction xs) auto
  then show "mark_nx hhdm virt pages m = m" by (simp add: mark_nx_def map_page_def [abs_def])
qed

section \<open>The mixing function is injective\<close>

lemma xorshift_bits:
  fixes d :: u64
  assumes "d = drop_bit k d"
  shows "bit d i = bit d (i + n * k)"
proof (induction n)
  case (Suc n)
  have "bit d (i + n * k) = bit (drop_bit k d) (i + n * k)" using assms by simp
  then show ?case using Suc by (simp add: bit_drop_bit_eq add.commute add.left_commute)
qed simp

lemma xorshift_inj:
  fixes x y :: u64
  assumes "0 < k" and "x XOR drop_bit k x = y XOR drop_bit k y"
  shows "x = y"
proof -
  let ?d = "x XOR y"
  have "?d = drop_bit k ?d"
    using assms(2) by (simp add: bit_eq_iff bit_simps) blast
  then have "bit ?d i = bit ?d (i + 64 * k)" for i by (rule xorshift_bits)
  moreover have "\<not> bit ?d (i + 64 * k)" for i
    using assms(1) by (intro impossible_bit) (cases k, auto)
  ultimately have "?d = 0" by (simp only: bit_eq_iff) simp
  then show ?thesis by (metis xor.assoc xor.left_neutral xor.right_neutral xor_self_eq)
qed

lemma mult_inj:
  fixes x y c d :: u64
  assumes "c * d = 1" and "x * c = y * c"
  shows "x = y"
proof -
  have "x * (c * d) = y * (c * d)" using assms(2) by (simp flip: mult.assoc)
  then show ?thesis using assms(1) by simp
qed

lemma mix64_inj:
  assumes "mix64 x k = mix64 y l"
  shows "x + k = y + l"
proof -
  let ?s = "\<lambda>n (v :: u64). v XOR drop_bit n v"
  have a: "?s 31 (?s 27 (?s 30 (x + k) * 0xBF58476D1CE4E5B9) * 0x94D049BB133111EB) =
      ?s 31 (?s 27 (?s 30 (y + l) * 0xBF58476D1CE4E5B9) * 0x94D049BB133111EB)"
    using assms unfolding mix64_def Let_def .
  then have "?s 27 (?s 30 (x + k) * 0xBF58476D1CE4E5B9) * 0x94D049BB133111EB =
      ?s 27 (?s 30 (y + l) * 0xBF58476D1CE4E5B9) * 0x94D049BB133111EB"
    by (rule xorshift_inj [rotated]) simp
  then have "?s 27 (?s 30 (x + k) * 0xBF58476D1CE4E5B9) = ?s 27 (?s 30 (y + l) * 0xBF58476D1CE4E5B9)"
    by (rule mult_inj [of _ "0x319642b2d24d8ec3", rotated]) simp
  then have "?s 30 (x + k) * 0xBF58476D1CE4E5B9 = ?s 30 (y + l) * 0xBF58476D1CE4E5B9"
    by (rule xorshift_inj [rotated]) simp
  then have "?s 30 (x + k) = ?s 30 (y + l)"
    by (rule mult_inj [of _ "0x96de1b173f119089", rotated]) simp
  then show ?thesis by (rule xorshift_inj [rotated]) simp
qed

section \<open>Properties\<close>

text \<open>
  Canaries separate processes, and randomised bases are aligned but not confined. Under one seed two
  processes never get the same canary. Every base returned is page aligned and at least
  \<open>0x1000_0000_0000\<close>; but the masked offset has 48 bits, so there are seeds for which the base lies
  above \<open>0x7FFF_FFFF_FFFF\<close>, the end of the user address space that the function promises to stay in.
  Placing a guard page and marking a range non-executable leave memory, page tables included, unchanged.
\<close>

theorem hardening_values:
  "(new_stack_canary p s = new_stack_canary q s \<longleftrightarrow> p = q) \<and>
   fst (aslr_base hint s) AND 0xFFF = 0 \<and>
   0x100000000000 \<le> fst (aslr_base hint s) \<and> fst (aslr_base hint s) \<le> 0x10FFFFFFFF000 \<and>
   fst (aslr_base 0 (s\<lparr>hd_seed := 0xdf240899fa85c960\<rparr>)) = 0x10FFFFFFFF000 \<and>
   place_guard_page virt m = m \<and> mark_nx hhdm virt pages m = m"
proof (intro conjI)
  have "ucast (ucast p :: u64) = p" "ucast (ucast q :: u64) = q"
    by (rule bit_word_eqI, simp add: bit_simps)+
  then have "ucast p = (ucast q :: u64) \<Longrightarrow> p = q" by metis
  then show "new_stack_canary p s = new_stack_canary q s \<longleftrightarrow> p = q"
    using mix64_inj [of "hd_seed s" "ucast p" "hd_seed s" "ucast q"] by (auto simp: new_stack_canary_def)
  obtain w where w: "w = mix64 (hd_seed s) hint AND 0x0000FFFFFFFFF000" by simp
  have b: "fst (aslr_base hint s) = page_base (0x0000100000000000 + w)"
    by (simp add: aslr_base_def Let_def page_base_def w)
  have "page_aligned w" by (simp add: w page_aligned_def page_off_def and.assoc)
  moreover have "page_aligned (0x0000100000000000 :: u64)" by (simp add: page_aligned_def page_off_def)
  ultimately have e: "fst (aslr_base hint s) = 0x0000100000000000 + w"
    unfolding b by (metis page_aligned_add page_aligned_base)
  show "fst (aslr_base hint s) AND 0xFFF = 0" by (simp add: b page_base_def and.assoc)
  have "w \<le> 0x0000FFFFFFFFF000" unfolding w by (rule word_and_le1)
  then have "unat w \<le> 0x0000FFFFFFFFF000" by (simp add: word_le_nat_alt)
  moreover from this have "unat (0x0000100000000000 + w) = 0x0000100000000000 + unat w"
    by (subst unat_add_no_wrap) simp_all
  ultimately show "0x100000000000 \<le> fst (aslr_base hint s)" "fst (aslr_base hint s) \<le> 0x10FFFFFFFF000"
    unfolding e by (simp_all add: word_le_nat_alt)
qed (simp_all add: aslr_base_def Let_def mix64_def page_hardening_inert)

end
