(* ===== verification/Keyboard.thy ===== *)
theory Keyboard
  imports Interfaces
begin

text \<open>
  The PS/2 keyboard (\<open>kernel/src/drivers/keyboard.rs\<close>): a ring of 256 scancodes whose head and tail
  are bytes, so they wrap by themselves, filled by the interrupt handler and emptied by the shell,
  and the scancode table. The byte read from the data port is the argument of \<open>handle_irq\<close>. The ring
  implements the interface \<open>fifo\<close> with capacity 255.
\<close>

record key_ring =
  KEYBUF :: "u8 list"
  HEAD :: u8
  TAIL :: u8

definition key_ring_new :: key_ring where
  "key_ring_new = \<lparr>KEYBUF = replicate 256 0, HEAD = 0, TAIL = 0\<rparr>"

definition handle_irq :: "key_ring \<Rightarrow> u8 \<Rightarrow> key_ring" where
  "handle_irq k sc =
     (let nxt = HEAD k + 1
      in if nxt \<noteq> TAIL k then k\<lparr>KEYBUF := (KEYBUF k)[unat (HEAD k) := sc], HEAD := nxt\<rparr> else k)"

definition read_scancode :: "key_ring \<Rightarrow> key_ring \<times> u8 option" where
  "read_scancode k =
     (if HEAD k = TAIL k then (k, None)
      else (k\<lparr>TAIL := TAIL k + 1\<rparr>, Some (KEYBUF k ! unat (TAIL k))))"

definition ascii_table :: "u8 list" where
  "ascii_table =
     [0x00, 0x1B] @ map of_char ''1234567890-='' @ [0x08, 0x09] @ map of_char ''qwertyuiop[]'' @
     [0x0A, 0x00] @ map of_char ''asdfghjkl;'' @ [0x27, 0x60, 0x00, 0x5C] @ map of_char ''zxcvbnm,./'' @
     [0x00, 0x2A, 0x00, 0x20]"

definition scancode_to_ascii :: "u8 \<Rightarrow> u8 option" where
  "scancode_to_ascii sc =
     (if sc AND 0x80 \<noteq> 0 then None
      else if unat sc < length ascii_table then
        (let c = ascii_table ! unat sc in if c \<noteq> 0 then Some c else None)
      else None)"

section \<open>The ring is a queue of at most 255 scancodes\<close>

definition key_contents :: "key_ring \<Rightarrow> u8 list" where
  "key_contents k = map (\<lambda>i. KEYBUF k ! unat (TAIL k + of_nat i)) [0..<unat (HEAD k - TAIL k)]"

definition key_ok :: "key_ring \<Rightarrow> bool" where
  "key_ok k \<longleftrightarrow> length (KEYBUF k) = 256"

lemma length_key_contents [simp]: "length (key_contents k) = unat (HEAD k - TAIL k)"
  by (simp add: key_contents_def)

lemma unat_u8_less: "unat (x :: u8) < 256"
  using unsigned_less [of x, where 'a = nat] by simp

lemma handle_irq_full: "HEAD k + 1 = TAIL k \<longleftrightarrow> length (key_contents k) = 255"
proof -
  have "HEAD k + 1 = TAIL k \<longleftrightarrow> HEAD k - TAIL k = 255"
  proof
    assume "HEAD k + 1 = TAIL k"
    then have "HEAD k = TAIL k - 1" by (simp add: eq_diff_eq)
    then show "HEAD k - TAIL k = 255" by simp
  next
    assume "HEAD k - TAIL k = 255"
    then have "HEAD k = 255 + TAIL k" by (simp add: diff_eq_eq)
    then have "HEAD k + 1 = 256 + TAIL k" by simp
    then show "HEAD k + 1 = TAIL k" by simp
  qed
  also have "\<dots> \<longleftrightarrow> unat (HEAD k - TAIL k) = unat (255 :: u8)" by (metis word_unat_eq_iff)
  finally show ?thesis by simp
qed

lemma key_contents_irq:
  assumes "key_ok k" and "HEAD k + 1 \<noteq> TAIL k"
  shows "key_contents (handle_irq k sc) = key_contents k @ [sc]"
proof -
  let ?n = "unat (HEAD k - TAIL k)"
  have n: "?n < 255" using handle_irq_full [of k] assms(2) unat_u8_less [of "HEAD k - TAIL k"] by simp
  have "HEAD k + 1 - TAIL k = (HEAD k - TAIL k) + 1" by (simp add: algebra_simps)
  moreover have "(HEAD k - TAIL k) + 1 \<noteq> 0"
    using assms(2) by (metis add_diff_eq diff_add_cancel eq_iff_diff_eq_0 add.commute)
  ultimately have m: "unat (HEAD k + 1 - TAIL k) = Suc ?n" by (simp only: add.commute [of _ 1]) (metis unatSuc)
  have slot: "TAIL k + of_nat ?n = HEAD k" by simp
  have old: "unat (TAIL k + of_nat i) \<noteq> unat (HEAD k)" if "i < ?n" for i
  proof
    assume "unat (TAIL k + of_nat i) = unat (HEAD k)"
    then have "TAIL k + of_nat i = HEAD k" by (simp add: word_unat_eq_iff)
    then have "of_nat i = HEAD k - TAIL k" by (simp add: eq_diff_eq add.commute)
    then have "unat (of_nat i :: u8) = ?n" by simp
    then show False using that n by (simp add: unat_of_nat take_bit_nat_eq_self)
  qed
  have h: "unat (HEAD k) < length (KEYBUF k)" using assms(1) unat_u8_less by (simp add: key_ok_def)
  have i: "handle_irq k sc = k\<lparr>KEYBUF := (KEYBUF k)[unat (HEAD k) := sc], HEAD := HEAD k + 1\<rparr>"
    using assms(2) by (simp add: handle_irq_def)
  show ?thesis
    unfolding i key_contents_def using h slot by (simp add: m upt_Suc nth_list_update old [symmetric])
qed

lemma key_contents_read:
  "key_contents (fst (read_scancode k)) = tl (key_contents k) \<and>
     snd (read_scancode k) = (case key_contents k of [] \<Rightarrow> None | x # _ \<Rightarrow> Some x)"
proof (cases "HEAD k = TAIL k")
  case True
  then show ?thesis by (simp add: read_scancode_def key_contents_def)
next
  case False
  let ?n = "unat (HEAD k - TAIL k)"
  have "HEAD k - TAIL k \<noteq> 0" using False by simp
  then obtain m where m: "?n = Suc m" by (metis not0_implies_Suc unat_eq_0)
  have "HEAD k - (TAIL k + 1) = HEAD k - TAIL k - 1" by (simp only: diff_diff_eq)
  moreover have "unat (HEAD k - TAIL k - 1) = m"
    using m by (metis diff_Suc_1 \<open>HEAD k - TAIL k \<noteq> 0\<close> unat_minus_one)
  ultimately have n: "unat (HEAD k - (TAIL k + 1)) = m" by (simp only:)
  have up: "[0..<Suc m] = 0 # map Suc [0..<m]" using upt_conv_Cons [of 0 "Suc m"] by (simp only: map_Suc_upt)
  show ?thesis
    using False by (simp add: read_scancode_def key_contents_def n m up o_def add.assoc del: upt_Suc)
qed

interpretation keys: fifo key_contents 255 key_ok handle_irq read_scancode
proof unfold_locales
  fix q :: key_ring and x :: u8
  assume q: "key_ok q"
  have "length (key_contents q) \<le> 255" using unat_u8_less [of "HEAD q - TAIL q"] by simp
  then show "length (key_contents q) \<le> 255" .
  then show "key_contents (handle_irq q x) =
      (if length (key_contents q) < 255 then key_contents q @ [x] else key_contents q)"
    using key_contents_irq [OF q, of x] handle_irq_full [of q] by (auto simp: handle_irq_def)
  show "key_ok (handle_irq q x)" using q by (simp add: key_ok_def handle_irq_def Let_def)
  show "key_ok (fst (read_scancode q))" using q by (simp add: key_ok_def read_scancode_def)
  show "key_contents (fst (read_scancode q)) = tl (key_contents q)"
    "snd (read_scancode q) = (case key_contents q of [] \<Rightarrow> None | x # _ \<Rightarrow> Some x)"
    using key_contents_read by auto
qed

section \<open>Scancodes\<close>

text \<open>Key releases and the keys beyond the space bar give nothing; a key press never gives a zero byte.\<close>

lemma scancode_released: "0x80 \<le> sc \<Longrightarrow> scancode_to_ascii sc = None"
proof -
  assume "0x80 \<le> sc"
  then have "length ascii_table \<le> unat sc" by (simp add: word_le_nat_alt ascii_table_def)
  then show ?thesis by (simp add: scancode_to_ascii_def)
qed

lemma scancode_nonzero: "scancode_to_ascii sc = Some c \<Longrightarrow> c \<noteq> 0"
  by (auto simp: scancode_to_ascii_def Let_def split: if_splits)

lemma scancode_examples:
  "scancode_to_ascii 0x1E = Some 0x61" "scancode_to_ascii 0x39 = Some 0x20"
  "scancode_to_ascii 0x9E = None" "scancode_to_ascii 0x2A = None" "scancode_to_ascii 0x3B = None"
  by code_simp+

end
