(* ===== verification/Pci.thy ===== *)
theory Pci
  imports Prelude
begin

text \<open>
  PCI configuration space and the brute-force bus scan (\<open>kernel/src/drivers/pci.rs\<close>). The
  configuration space is a parameter \<open>cfg\<close>: the dword that the port pair 0xCF8/0xCFC answers for
  an address word. \<open>enumerate\<close> is modelled by the list of devices it visits, in order. The lemmas
  show that the address word determines the register, that narrow reads are slices of the dword,
  and that \<open>find_nvme\<close> is the first visible NVMe controller in bus, device, function order.
\<close>

type_synonym config_space = "u32 \<Rightarrow> u32"

definition config_address :: "u8 \<Rightarrow> u8 \<Rightarrow> u8 \<Rightarrow> u8 \<Rightarrow> u32" where
  "config_address bus device function off =
     push_bit 31 1 OR push_bit 16 (ucast bus) OR push_bit 11 (ucast device) OR
     push_bit 8 (ucast function) OR (ucast off AND 0xFC)"

definition config_read_u32 :: "config_space \<Rightarrow> u8 \<Rightarrow> u8 \<Rightarrow> u8 \<Rightarrow> u8 \<Rightarrow> u32" where
  "config_read_u32 cfg bus device function off = cfg (config_address bus device function off)"

definition config_read_u16 :: "config_space \<Rightarrow> u8 \<Rightarrow> u8 \<Rightarrow> u8 \<Rightarrow> u8 \<Rightarrow> u16" where
  "config_read_u16 cfg bus device function off =
     (let dword = config_read_u32 cfg bus device function (off AND 0xFC); shift = (off AND 2) * 8
      in ucast (drop_bit (unat shift) dword AND 0xFFFF))"

definition config_read_u8 :: "config_space \<Rightarrow> u8 \<Rightarrow> u8 \<Rightarrow> u8 \<Rightarrow> u8 \<Rightarrow> u8" where
  "config_read_u8 cfg bus device function off =
     (let dword = config_read_u32 cfg bus device function (off AND 0xFC); shift = (off AND 3) * 8
      in ucast (drop_bit (unat shift) dword AND 0xFF))"

record bar =
  bar_base :: u64
  is_mmio :: bool
  is_64bit :: bool
  prefetchable :: bool

record pci_device =
  pd_bus :: u8
  pd_device :: u8
  pd_function :: u8
  vendor_id :: u16
  device_id :: u16
  pd_class :: u8
  pd_subclass :: u8
  prog_if :: u8
  bar0 :: "bar option"

definition OFFSET_VENDOR_ID :: u8 where "OFFSET_VENDOR_ID = 0x00"
definition OFFSET_DEVICE_ID :: u8 where "OFFSET_DEVICE_ID = 0x02"
definition OFFSET_HEADER_TYPE :: u8 where "OFFSET_HEADER_TYPE = 0x0E"
definition OFFSET_CLASS :: u8 where "OFFSET_CLASS = 0x0B"
definition OFFSET_SUBCLASS :: u8 where "OFFSET_SUBCLASS = 0x0A"
definition OFFSET_PROG_IF :: u8 where "OFFSET_PROG_IF = 0x09"
definition OFFSET_BAR0 :: u8 where "OFFSET_BAR0 = 0x10"
definition OFFSET_BAR1 :: u8 where "OFFSET_BAR1 = 0x14"
definition NVME_CLASS :: u8 where "NVME_CLASS = 0x01"
definition NVME_SUBCLASS :: u8 where "NVME_SUBCLASS = 0x08"
definition NVME_PROG_IF :: u8 where "NVME_PROG_IF = 0x02"

definition read_bar0 :: "config_space \<Rightarrow> u8 \<Rightarrow> u8 \<Rightarrow> u8 \<Rightarrow> bar option" where
  "read_bar0 cfg bus device function =
     (let raw0 = config_read_u32 cfg bus device function OFFSET_BAR0
      in if raw0 = 0 then None
      else if raw0 AND 1 = 1 then
        Some \<lparr>bar_base = ucast (raw0 AND NOT 3), is_mmio = False, is_64bit = False, prefetchable = False\<rparr>
      else
        let bar_type = drop_bit 1 raw0 AND 3;
            pf = (drop_bit 3 raw0 AND 1 = 1);
            wide = (bar_type = 2);
            base = (if wide
              then push_bit 32 (ucast (config_read_u32 cfg bus device function OFFSET_BAR1)) OR ucast (raw0 AND NOT 0xF)
              else ucast (raw0 AND NOT 0xF))
        in Some \<lparr>bar_base = base, is_mmio = True, is_64bit = wide, prefetchable = pf\<rparr>)"

definition probe_function :: "config_space \<Rightarrow> u8 \<Rightarrow> u8 \<Rightarrow> u8 \<Rightarrow> pci_device option" where
  "probe_function cfg bus device function =
     (let v = config_read_u16 cfg bus device function OFFSET_VENDOR_ID
      in if v = 0xFFFF then None
      else Some
        \<lparr>pd_bus = bus, pd_device = device, pd_function = function, vendor_id = v,
         device_id = config_read_u16 cfg bus device function OFFSET_DEVICE_ID,
         pd_class = config_read_u8 cfg bus device function OFFSET_CLASS,
         pd_subclass = config_read_u8 cfg bus device function OFFSET_SUBCLASS,
         prog_if = config_read_u8 cfg bus device function OFFSET_PROG_IF,
         bar0 = read_bar0 cfg bus device function\<rparr>)"

text \<open>The body of the two outer loops, and the loops: what \<open>visit\<close> is called with, in order.\<close>

definition enumerate_slot :: "config_space \<Rightarrow> u8 \<Rightarrow> u8 \<Rightarrow> pci_device list" where
  "enumerate_slot cfg bus device =
     (let header_type = config_read_u8 cfg bus device 0 OFFSET_HEADER_TYPE;
          v = config_read_u16 cfg bus device 0 OFFSET_VENDOR_ID
      in if v = 0xFFFF then []
      else
        let max_function = (if header_type AND 0x80 \<noteq> 0 then 8 else 1)
        in List.map_filter (\<lambda>f. probe_function cfg bus device (of_nat f)) [0..<max_function])"

definition enumerate_devices :: "config_space \<Rightarrow> pci_device list" where
  "enumerate_devices cfg =
     concat (map (\<lambda>bus. concat (map (\<lambda>device. enumerate_slot cfg (of_nat bus) (of_nat device)) [0..<32]))
       [0..<256])"

definition is_nvme :: "pci_device \<Rightarrow> bool" where
  "is_nvme dev \<longleftrightarrow> pd_class dev = NVME_CLASS \<and> pd_subclass dev = NVME_SUBCLASS \<and> prog_if dev = NVME_PROG_IF"

definition find_nvme :: "config_space \<Rightarrow> pci_device option" where
  "find_nvme cfg =
     foldl (\<lambda>found dev. if found = None \<and> is_nvme dev then Some dev else found) None (enumerate_devices cfg)"

section \<open>Addresses and narrow reads\<close>

text \<open>The address word names bus, device, function and dword register, and nothing else.\<close>

lemma config_address_fields:
  assumes "device < 32" and "function < 8"
  shows "drop_bit 16 (config_address bus device function off) AND 0xFF = ucast bus"
    "drop_bit 11 (config_address bus device function off) AND 0x1F = ucast device"
    "drop_bit 8 (config_address bus device function off) AND 7 = ucast function"
    "config_address bus device function off AND 0xFF = ucast off AND 0xFC"
proof -
  have d: "\<not> bit device n" if "5 \<le> n" for n
  proof -
    have "unat device < 2 ^ 5" using assms(1) by (simp add: word_less_nat_alt)
    then have "take_bit 5 device = device" by (simp add: word_unat_eq_iff unsigned_take_bit_eq take_bit_nat_eq_self)
    then show ?thesis using that by (metis bit_take_bit_iff not_less)
  qed
  have f: "\<not> bit function n" if "3 \<le> n" for n
  proof -
    have "unat function < 2 ^ 3" using assms(2) by (simp add: word_less_nat_alt)
    then have "take_bit 3 function = function" by (simp add: word_unat_eq_iff unsigned_take_bit_eq take_bit_nat_eq_self)
    then show ?thesis using that by (metis bit_take_bit_iff not_less)
  qed
  have m: "(0xFF :: u32) = mask 8" "(0x1F :: u32) = mask 5" "(7 :: u32) = mask 3" "(0xFC :: u32) = mask 8 AND NOT (mask 2)"
    by (simp_all add: mask_eq_exp_minus_1)
  obtain top :: u32 where top: "push_bit 31 1 = top" and bt: "bit top n \<longleftrightarrow> n = 31" for n
  proof
    show "bit (push_bit 31 1 :: u32) n \<longleftrightarrow> n = 31" for n by (auto simp only: bit_push_bit_iff bit_1_iff) simp_all
  qed simp
  have bl: "bit w n \<Longrightarrow> n < 8" for w :: u8 and n by (drule bit_imp_le_length) simp
  note s = config_address_def top
  have d': "\<not> bit device (5 + n)" "\<not> bit device (n + 5)" for n by (simp_all add: d)
  have f': "\<not> bit function (3 + n)" "\<not> bit function (n + 3)" "\<not> bit function (8 + n)" for n by (simp_all add: f)
  have fd: "bit function n \<Longrightarrow> n < 3" for n by (rule ccontr) (simp add: f)
  show "drop_bit 16 (config_address bus device function off) AND 0xFF = ucast bus"
    unfolding s by (rule bit_word_eqI) (auto simp: m bit_simps bt d' f' dest: bl)
  show "drop_bit 11 (config_address bus device function off) AND 0x1F = ucast device"
    unfolding s by (rule bit_word_eqI) (auto simp: m bit_simps bt d f' dest: bl intro: ccontr)
  show "drop_bit 8 (config_address bus device function off) AND 7 = ucast function"
    unfolding s by (rule bit_word_eqI) (auto simp: m bit_simps bt d dest: bl fd)
  show "config_address bus device function off AND 0xFF = ucast off AND 0xFC"
    unfolding s by (rule bit_word_eqI) (auto simp: m bit_simps bt d f dest: bl)
qed

text \<open>A byte register is its byte of the dword register it lies in.\<close>

lemma config_read_u8_slice:
  "config_read_u8 cfg bus device function off =
     ucast (drop_bit (8 * (unat off mod 4)) (config_read_u32 cfg bus device function (off AND 0xFC)))"
proof -
  have m: "(3 :: u8) = mask 2" "(0xFF :: u32) = mask 8" by (simp_all add: mask_eq_exp_minus_1)
  have o3: "unat (off AND 3) = unat off mod 4" unfolding m(1) by (simp only: unat_and_mask) simp
  have less: "unat off mod 4 < 4" by simp
  have u8: "unat (8 :: u8) = 8" by simp
  have "unat ((off AND 3) * 8) = (unat off mod 4) * 8"
    unfolding unat_word_ariths(2) o3 u8 using less by simp
  then have s: "unat ((off AND 3) * 8) = 8 * (unat off mod 4)" by simp
  show ?thesis
    unfolding config_read_u8_def Let_def s
    by (rule bit_word_eqI) (simp add: m(2) bit_simps)
qed

section \<open>The scan\<close>

lemma enumerate_slot_iff:
  "dev \<in> set (enumerate_slot cfg bus device) \<longleftrightarrow>
     config_read_u16 cfg bus device 0 OFFSET_VENDOR_ID \<noteq> 0xFFFF \<and>
     (\<exists>f < (if config_read_u8 cfg bus device 0 OFFSET_HEADER_TYPE AND 0x80 \<noteq> 0 then 8 else 1).
        probe_function cfg bus device (of_nat f) = Some dev)"
  by (auto simp: enumerate_slot_def Let_def List.map_filter_def image_iff)

lemma enumerate_devices_iff:
  "dev \<in> set (enumerate_devices cfg) \<longleftrightarrow>
     (\<exists>bus device. unat device < 32 \<and> dev \<in> set (enumerate_slot cfg bus device))"
proof
  assume "dev \<in> set (enumerate_devices cfg)"
  then obtain b d where "b < 256" "d < 32" "dev \<in> set (enumerate_slot cfg (of_nat b) (of_nat d))"
    unfolding enumerate_devices_def by (auto simp: atLeast0LessThan)
  moreover have "unat (of_nat d :: u8) < 32"
    using \<open>d < 32\<close> by (simp add: unat_of_nat take_bit_nat_eq_self)
  ultimately show "\<exists>bus device. unat device < 32 \<and> dev \<in> set (enumerate_slot cfg bus device)" by blast
next
  assume "\<exists>bus device. unat device < 32 \<and> dev \<in> set (enumerate_slot cfg bus device)"
  then obtain b d :: u8 where h: "unat d < 32" "dev \<in> set (enumerate_slot cfg b d)" by blast
  have b: "unat b \<in> {0..<256}" using unsigned_less [of b, where 'a = nat] by simp
  have "of_nat (unat b) = b" "of_nat (unat d) = d" by simp_all
  then show "dev \<in> set (enumerate_devices cfg)"
    unfolding enumerate_devices_def set_concat set_map set_upt image_image UN_simps
    by (rule_tac UN_I [OF b]) (rule UN_I [of "unat d"], use h in simp_all)
qed

lemma find_nvme_first: "find_nvme cfg = find is_nvme (enumerate_devices cfg)"
proof -
  have some: "foldl (\<lambda>found dev. if found = None \<and> P dev then Some dev else found) (Some d) xs = Some d"
    for P :: "'a \<Rightarrow> bool" and d xs by (induction xs) auto
  have "foldl (\<lambda>found dev. if found = None \<and> P dev then Some dev else found) None xs = find P xs"
    for P :: "'a \<Rightarrow> bool" and xs by (induction xs) (auto simp: some)
  then show ?thesis by (simp add: find_nvme_def)
qed

text \<open>An NVMe controller is found exactly when a present function shows its class codes.\<close>

lemma find_nvme_complete:
  "find_nvme cfg = None \<longleftrightarrow>
     (\<forall>bus device dev. unat device < 32 \<longrightarrow> dev \<in> set (enumerate_slot cfg bus device) \<longrightarrow> \<not> is_nvme dev)"
  unfolding find_nvme_first find_None_iff enumerate_devices_iff by blast

lemma find_nvme_sound: "find_nvme cfg = Some dev \<Longrightarrow> is_nvme dev \<and> vendor_id dev \<noteq> 0xFFFF"
proof -
  assume "find_nvme cfg = Some dev"
  then have n: "is_nvme dev" and "dev \<in> set (enumerate_devices cfg)"
    unfolding find_nvme_first find_Some_iff by auto
  then obtain b d f where "probe_function cfg b d f = Some dev"
    unfolding enumerate_devices_iff enumerate_slot_iff by blast
  then have "vendor_id dev \<noteq> 0xFFFF"
    unfolding probe_function_def Let_def by (simp split: if_split_asm) auto
  then show ?thesis using n by simp
qed

end
