(* ===== verification/Nvme.thy ===== *)
theory Nvme
  imports Paging Pci
begin

text \<open>
  The NVMe driver (\<open>kernel/src/drivers/nvme.rs\<close>). The controller and the clock are parameters, the
  record \<open>nvme_env\<close>: its registers, what it writes to memory by DMA and what the timer says are
  functions of the register writes it has seen (the log \<open>nv_mmio\<close>, in order) and of the number of
  polls made so far. One iteration of a polling loop is one observation: the device acts on memory,
  then the loop reads the register or completion entry, then the clock.

  As elsewhere, a physical address stands for its direct-map alias, so \<open>q_sq\<close> and \<open>q_cq\<close> (the source's
  \<open>sq_virt\<close> and \<open>cq_virt\<close>) hold the physical addresses of the queues. A driver call answers
  \<open>None\<close> when a loop does not end, a panic, or a result with the new state; \<open>nv_bind\<close> is the
  source's \<open>?\<close>. The two queues share one record, extended by what each adds, and one submission
  function, which the source writes out twice.
\<close>

section \<open>The controller, the clock and the driver's state\<close>

datatype mmio_write = W32 u64 u32 | W64 u64 u64

record nvme_env =
  ne_cap :: u64
  ne_vs :: u32
  ne_csts :: "mmio_write list \<Rightarrow> nat \<Rightarrow> u32"
  ne_dma :: "mmio_write list \<Rightarrow> nat \<Rightarrow> memory \<Rightarrow> memory"
  ne_ms :: "nat \<Rightarrow> u64"
  ne_pci :: config_space
  ne_hhdm :: u64
  ne_cr3 :: u64

datatype nvme_error =
    PageSizeUnsupported
  | QueueDepthUnsupported
  | AllocFailed
  | DisableTimeout
  | EnableTimeout
  | ControllerFatalStatus
  | NoController
  | BarNotMmio
  | CommandTimeout
  | UnexpectedCid
  | CommandFailed u8 u8
  | InvalidTransferSize

record nvme_queue =
  q_sq :: u64
  q_cq :: u64
  q_tail :: u16
  q_head :: u16
  q_phase :: bool
  q_depth :: u16
  q_sq_db :: u64
  q_cq_db :: u64
  q_next_cid :: u16

record admin_queue_state = nvme_queue +
  aq_regs :: u64

record io_queue_state = nvme_queue +
  io_nsid :: u32

record nvme_world =
  nv_mach :: machine
  nv_mmio :: "mmio_write list"
  nv_now :: nat
  ADMIN_QUEUE :: "admin_queue_state option"
  IO_QUEUE :: "io_queue_state option"

type_synonym 'a nvme_result = "((nvme_error + 'a) \<times> nvme_world) outcome option"

definition nv_ok :: "'a \<Rightarrow> nvme_world \<Rightarrow> 'a nvme_result" where
  "nv_ok x w = Some (Ret (Inr x, w))"

definition nv_err :: "nvme_error \<Rightarrow> nvme_world \<Rightarrow> 'a nvme_result" where
  "nv_err e w = Some (Ret (Inl e, w))"

definition nv_bind :: "'a nvme_result \<Rightarrow> ('a \<Rightarrow> nvme_world \<Rightarrow> 'b nvme_result) \<Rightarrow> 'b nvme_result" where
  "nv_bind c f =
     (case c of
        None \<Rightarrow> None
      | Some (Panic e) \<Rightarrow> Some (Panic e)
      | Some (Ret (Inl e, w)) \<Rightarrow> Some (Ret (Inl e, w))
      | Some (Ret (Inr x, w)) \<Rightarrow> f x w)"

section \<open>Registers\<close>

definition REG_CAP :: u64 where "REG_CAP = 0x00"
definition REG_VS :: u64 where "REG_VS = 0x08"
definition REG_CC :: u64 where "REG_CC = 0x14"
definition REG_CSTS :: u64 where "REG_CSTS = 0x1C"
definition REG_AQA :: u64 where "REG_AQA = 0x24"
definition REG_ASQ :: u64 where "REG_ASQ = 0x28"
definition REG_ACQ :: u64 where "REG_ACQ = 0x30"

definition write32 :: "u64 \<Rightarrow> u64 \<Rightarrow> u32 \<Rightarrow> nvme_world \<Rightarrow> nvme_world" where
  "write32 base off val w = w\<lparr>nv_mmio := nv_mmio w @ [W32 (base + off) val]\<rparr>"

definition write64 :: "u64 \<Rightarrow> u64 \<Rightarrow> u64 \<Rightarrow> nvme_world \<Rightarrow> nvme_world" where
  "write64 base off val w = w\<lparr>nv_mmio := nv_mmio w @ [W64 (base + off) val]\<rparr>"

definition nvme_version :: "nvme_env \<Rightarrow> u16 \<times> u8 \<times> u8" where
  "nvme_version d =
     (let raw = ne_vs d in (ucast (drop_bit 16 raw), ucast (drop_bit 8 raw AND 0xFF), ucast (raw AND 0xFF)))"

definition status_raw :: "nvme_env \<Rightarrow> nvme_world \<Rightarrow> u32" where
  "status_raw d w = ne_csts d (nv_mmio w) (nv_now w)"

definition doorbell_stride :: "nvme_env \<Rightarrow> u32" where
  "doorbell_stride d = ucast (drop_bit 32 (ne_cap d) AND 0xF)"

text \<open>\<open>CAP.TO\<close> in milliseconds, as every caller computes it.\<close>

definition cap_timeout_ms :: "nvme_env \<Rightarrow> u64" where
  "cap_timeout_ms d = max ((drop_bit 24 (ne_cap d) AND 0xFF) * 500) 500"

definition nv_ms :: "nvme_env \<Rightarrow> nvme_world \<Rightarrow> u64" where
  "nv_ms d w = ne_ms d (nv_now w)"

section \<open>Polling\<close>

definition observe :: "nvme_env \<Rightarrow> nvme_world \<Rightarrow> nvme_world" where
  "observe d w =
     w\<lparr>nv_mach := (nv_mach w)\<lparr>m_mem := ne_dma d (nv_mmio w) (Suc (nv_now w)) (m_mem (nv_mach w))\<rparr>,
       nv_now := Suc (nv_now w)\<rparr>"

text \<open>\<open>loop { if check { return } if ms() >= deadline { return Err } spin_loop() }\<close>.\<close>

partial_function (option) poll ::
  "nvme_env \<Rightarrow> (nvme_world \<Rightarrow> (nvme_error + 'a) option) \<Rightarrow> nvme_error \<Rightarrow> u64 \<Rightarrow> nvme_world \<Rightarrow> 'a nvme_result"
where
  "poll d check err deadline w =
     (let w1 = observe d w
      in case check w1 of
           Some r \<Rightarrow> Some (Ret (r, w1))
         | None \<Rightarrow> if deadline \<le> nv_ms d w1 then Some (Ret (Inl err, w1)) else poll d check err deadline w1)"

definition disabled_check :: "nvme_env \<Rightarrow> nvme_world \<Rightarrow> (nvme_error + unit) option" where
  "disabled_check d w = (if status_raw d w AND 1 = 0 then Some (Inr ()) else None)"

definition enabled_check :: "nvme_env \<Rightarrow> nvme_world \<Rightarrow> (nvme_error + unit) option" where
  "enabled_check d w =
     (let csts = status_raw d w
      in if csts AND 2 \<noteq> 0 then Some (Inl ControllerFatalStatus)
      else if csts AND 1 \<noteq> 0 then Some (Inr ()) else None)"

section \<open>Bringing up the admin queues\<close>

record admin_queues =
  as_sq :: u64
  as_cq :: u64
  as_depth :: u16

definition ADMIN_SQE_SIZE :: u64 where "ADMIN_SQE_SIZE = 64"
definition ADMIN_CQE_SIZE :: u64 where "ADMIN_CQE_SIZE = 16"
definition CC_CSS_NVM :: u32 where "CC_CSS_NVM = 0"
definition CC_AMS_ROUND_ROBIN :: u32 where "CC_AMS_ROUND_ROBIN = 0"
definition CC_SHN_NONE :: u32 where "CC_SHN_NONE = 0"
definition CC_IOSQES_STANDARD :: u32 where "CC_IOSQES_STANDARD = 6"
definition CC_IOCQES_STANDARD :: u32 where "CC_IOCQES_STANDARD = 4"

definition queue_pages :: "u16 \<Rightarrow> u64 \<Rightarrow> nat" where
  "queue_pages depth entry = unat (max ((ucast depth * entry + 0xFFF) div 0x1000) 1)"

definition nv_alloc :: "nat \<Rightarrow> nvme_world \<Rightarrow> u64 nvme_result" where
  "nv_alloc n w =
     (case alloc_contiguous_frames n (nv_mach w) of
        (None, m) \<Rightarrow> nv_err AllocFailed (w\<lparr>nv_mach := m\<rparr>)
      | (Some f, m) \<Rightarrow> nv_ok f (w\<lparr>nv_mach := m\<rparr>))"

definition nv_mem :: "(memory \<Rightarrow> memory) \<Rightarrow> nvme_world \<Rightarrow> nvme_world" where
  "nv_mem f w = w\<lparr>nv_mach := (nv_mach w)\<lparr>m_mem := f (m_mem (nv_mach w))\<rparr>\<rparr>"

text \<open>Allocate and zero the submission and the completion queue.\<close>

definition alloc_queues :: "u16 \<Rightarrow> nvme_world \<Rightarrow> (u64 \<times> u64) nvme_result" where
  "alloc_queues depth w =
     (let sq_pages = queue_pages depth ADMIN_SQE_SIZE; cq_pages = queue_pages depth ADMIN_CQE_SIZE
      in nv_bind (nv_alloc sq_pages w) (\<lambda>sq w1.
         nv_bind (nv_alloc cq_pages w1) (\<lambda>cq w2.
         nv_ok (sq, cq)
           (nv_mem (\<lambda>m. zero_bytes (zero_bytes m sq (sq_pages * 0x1000)) cq (cq_pages * 0x1000)) w2))))"

definition sat_dec :: "u32 \<Rightarrow> u32" where
  "sat_dec x = (if x = 0 then 0 else x - 1)"

definition init_admin_queues :: "nvme_env \<Rightarrow> u64 \<Rightarrow> u16 \<Rightarrow> nvme_world \<Rightarrow> admin_queues nvme_result" where
  "init_admin_queues d regs depth w =
     (let cap = ne_cap d;
          mqes = ucast (cap AND 0xFFFF) :: u32;
          mpsmin = ucast (drop_bit 48 cap AND 0xF) :: u32;
          timeout = cap_timeout_ms d
      in if mqes < sat_dec (ucast depth) then nv_err QueueDepthUnsupported w
      else if mpsmin \<noteq> 0 then nv_err PageSizeUnsupported w
      else
        nv_bind (alloc_queues depth w) (\<lambda>(sq, cq) w1.
        let w2 = write32 regs REG_CC 0 w1 in
        nv_bind (poll d (disabled_check d) DisableTimeout (nv_ms d w2 + timeout) w2) (\<lambda>_ w3.
        let depth0 = sat_dec (ucast depth) AND 0xFFF;
            w4 = write32 regs REG_AQA (depth0 OR push_bit 16 depth0) w3;
            w5 = write64 regs REG_ASQ sq w4;
            w6 = write64 regs REG_ACQ cq w5;
            cc = 1 OR push_bit 4 CC_CSS_NVM OR push_bit 7 mpsmin OR push_bit 11 CC_AMS_ROUND_ROBIN OR
                 push_bit 14 CC_SHN_NONE OR push_bit 16 CC_IOSQES_STANDARD OR push_bit 20 CC_IOCQES_STANDARD;
            w7 = write32 regs REG_CC cc w6
        in nv_bind (poll d (enabled_check d) EnableTimeout (nv_ms d w7 + timeout) w7) (\<lambda>_ w8.
        nv_ok \<lparr>as_sq = sq, as_cq = cq, as_depth = depth\<rparr> w8))))"

definition ensure_admin_queue :: "nvme_env \<Rightarrow> nvme_world \<Rightarrow> unit nvme_result" where
  "ensure_admin_queue d w =
     (case ADMIN_QUEUE w of
        Some _ \<Rightarrow> nv_ok () w
      | None \<Rightarrow>
          (case find_nvme (ne_pci d) of
             None \<Rightarrow> nv_err NoController w
           | Some dev \<Rightarrow>
               (case bar0 dev of
                  None \<Rightarrow> nv_err BarNotMmio w
                | Some b \<Rightarrow>
                    if \<not> is_mmio b then nv_err BarNotMmio w
                    else case map_mmio (ne_hhdm d) (ne_cr3 d) (bar_base b) 0x2000 (nv_mach w) of
                      Panic e \<Rightarrow> Some (Panic e)
                    | Ret (virt, m) \<Rightarrow>
                        nv_bind (init_admin_queues d virt 64 (w\<lparr>nv_mach := m\<rparr>)) (\<lambda>aq w1.
                        nv_ok () (w1\<lparr>ADMIN_QUEUE := Some
                          \<lparr>q_sq = as_sq aq, q_cq = as_cq aq, q_tail = 0, q_head = 0, q_phase = True,
                           q_depth = as_depth aq, q_sq_db = virt + 0x1000,
                           q_cq_db = virt + 0x1000 + push_bit (unat (doorbell_stride d)) 4,
                           q_next_cid = 0, aq_regs = virt\<rparr>\<rparr>)))))"

section \<open>Commands\<close>

text \<open>\<open>buf[off..off + bs.len()].copy_from_slice(bs)\<close>.\<close>

definition put_slice :: "nat \<Rightarrow> u8 list \<Rightarrow> u8 list \<Rightarrow> u8 list" where
  "put_slice off bs buf = take off buf @ bs @ drop (off + length bs) buf"

definition le16 :: "u16 \<Rightarrow> u8 list" where "le16 = le_bytes 2"
definition le32 :: "u32 \<Rightarrow> u8 list" where "le32 = le_bytes 4"
definition le64 :: "u64 \<Rightarrow> u8 list" where "le64 = le_bytes 8"

definition build_identify_cmd :: "u16 \<Rightarrow> u32 \<Rightarrow> u32 \<Rightarrow> u64 \<Rightarrow> u8 list" where
  "build_identify_cmd cid nsid cns prp1 =
     (let buf = replicate 64 0;
          buf = buf[0 := 0x06];
          buf = put_slice 2 (le16 cid) buf;
          buf = put_slice 4 (le32 nsid) buf;
          buf = put_slice 24 (le64 prp1) buf
      in put_slice 40 (le32 cns) buf)"

definition IO_QID :: u16 where "IO_QID = 1"
definition IO_QUEUE_DEPTH :: u16 where "IO_QUEUE_DEPTH = 16"

definition build_create_io_cq_cmd :: "u16 \<Rightarrow> u16 \<Rightarrow> u16 \<Rightarrow> u64 \<Rightarrow> u8 list" where
  "build_create_io_cq_cmd cid qid size0based ptr =
     (let buf = replicate 64 0;
          buf = buf[0 := 0x05];
          buf = put_slice 2 (le16 cid) buf;
          buf = put_slice 24 (le64 ptr) buf;
          buf = put_slice 40 (le32 (push_bit 16 (ucast size0based) OR ucast qid)) buf
      in put_slice 44 (le32 1) buf)"

definition build_create_io_sq_cmd :: "u16 \<Rightarrow> u16 \<Rightarrow> u16 \<Rightarrow> u64 \<Rightarrow> u16 \<Rightarrow> u8 list" where
  "build_create_io_sq_cmd cid qid size0based ptr cqid =
     (let buf = replicate 64 0;
          buf = buf[0 := 0x01];
          buf = put_slice 2 (le16 cid) buf;
          buf = put_slice 24 (le64 ptr) buf;
          buf = put_slice 40 (le32 (push_bit 16 (ucast size0based) OR ucast qid)) buf
      in put_slice 44 (le32 (push_bit 16 (ucast cqid) OR 1)) buf)"

definition build_rw_cmd :: "u8 \<Rightarrow> u16 \<Rightarrow> u32 \<Rightarrow> u64 \<Rightarrow> u16 \<Rightarrow> u64 \<Rightarrow> u8 list" where
  "build_rw_cmd opcode cid nsid lba nlb0based prp1 =
     (let buf = replicate 64 0;
          buf = buf[0 := opcode];
          buf = put_slice 2 (le16 cid) buf;
          buf = put_slice 4 (le32 nsid) buf;
          buf = put_slice 24 (le64 prp1) buf;
          buf = put_slice 40 (le32 (ucast lba)) buf;
          buf = put_slice 44 (le32 (ucast (drop_bit 32 lba))) buf
      in put_slice 48 (le32 (ucast nlb0based)) buf)"

section \<open>Submitting a command and waiting for its completion\<close>

definition load32 :: "memory \<Rightarrow> u64 \<Rightarrow> u32" where
  "load32 m a = from_le (read_bytes m a 4)"

definition cq_entry :: "'z nvme_queue_scheme \<Rightarrow> u64" where
  "cq_entry q = q_cq q + ucast (q_head q) * 16"

text \<open>One look at the completion entry at the head: dwords 3 and 0 once the phase bit matches.\<close>

definition completion_check :: "'z nvme_queue_scheme \<Rightarrow> nvme_world \<Rightarrow> (nvme_error + u32 \<times> u32) option" where
  "completion_check q w =
     (let m = m_mem (nv_mach w); dw3 = load32 m (cq_entry q + 12)
      in if (drop_bit 16 dw3 AND 1 \<noteq> 0) = q_phase q then Some (Inr (dw3, load32 m (cq_entry q))) else None)"

definition completion_result :: "u16 \<Rightarrow> u32 \<Rightarrow> u32 \<Rightarrow> nvme_error + u32" where
  "completion_result cid dw3 dw0 =
     (let cid_recv = ucast (dw3 AND 0xFFFF) :: u16;
          sc = ucast (drop_bit 17 dw3 AND 0xFF) :: u8;
          sct = ucast (drop_bit 25 dw3 AND 0x7) :: u8
      in if cid_recv \<noteq> cid then Inl UnexpectedCid
      else if sc \<noteq> 0 \<or> sct \<noteq> 0 then Inl (CommandFailed sct sc)
      else Inr dw0)"

definition queue_submit :: "'z nvme_queue_scheme \<Rightarrow> 'z nvme_queue_scheme" where
  "queue_submit q = q\<lparr>q_next_cid := q_next_cid q + 1, q_tail := (q_tail q + 1) mod q_depth q\<rparr>"

definition queue_consume :: "'z nvme_queue_scheme \<Rightarrow> 'z nvme_queue_scheme" where
  "queue_consume q =
     (let q1 = q\<lparr>q_head := (q_head q + 1) mod q_depth q\<rparr>
      in if q_head q1 = 0 then q1\<lparr>q_phase := \<not> q_phase q1\<rparr> else q1)"

definition ring_doorbell :: "u64 \<Rightarrow> u16 \<Rightarrow> nvme_world \<Rightarrow> nvme_world" where
  "ring_doorbell db v w = w\<lparr>nv_mmio := nv_mmio w @ [W32 db (ucast v)]\<rparr>"

text \<open>
  \<open>submit_admin_and_wait\<close> and \<open>submit_io_and_wait\<close>: the queue is answered in its new state also
  when the command fails or times out. A depth of zero is a division by zero.
\<close>

definition submit_and_wait ::
  "nvme_env \<Rightarrow> u64 \<Rightarrow> u8 list \<Rightarrow> 'z nvme_queue_scheme \<Rightarrow> nvme_world \<Rightarrow>
     ((nvme_error + u32) \<times> 'z nvme_queue_scheme \<times> nvme_world) outcome option" where
  "submit_and_wait d timeout cmd q w =
     (let cid = q_next_cid q;
          slot = q_sq q + ucast (q_tail q) * 64;
          w1 = nv_mem (\<lambda>m. write_bytes m slot cmd) w
      in if q_depth q = 0 then Some (Panic ''attempt to calculate the remainder with a divisor of zero'')
      else
        let q1 = queue_submit q;
            w2 = ring_doorbell (q_sq_db q1) (q_tail q1) w1
        in case poll d (completion_check q1) CommandTimeout (nv_ms d w2 + timeout) w2 of
             None \<Rightarrow> None
           | Some (Panic e) \<Rightarrow> Some (Panic e)
           | Some (Ret (Inl e, w3)) \<Rightarrow> Some (Ret (Inl e, q1, w3))
           | Some (Ret (Inr (dw3, dw0), w3)) \<Rightarrow>
               let q2 = queue_consume q1
               in Some (Ret (completion_result cid dw3 dw0, q2, ring_doorbell (q_cq_db q2) (q_head q2) w3)))"

definition submit_admin_and_wait :: "nvme_env \<Rightarrow> u8 list \<Rightarrow> admin_queue_state \<Rightarrow> nvme_world \<Rightarrow> u32 nvme_result" where
  "submit_admin_and_wait d cmd st w =
     (case submit_and_wait d (cap_timeout_ms d) cmd st w of
        None \<Rightarrow> None
      | Some (Panic e) \<Rightarrow> Some (Panic e)
      | Some (Ret (r, st1, w1)) \<Rightarrow> Some (Ret (r, w1\<lparr>ADMIN_QUEUE := Some st1\<rparr>)))"

definition submit_io_and_wait :: "nvme_env \<Rightarrow> u64 \<Rightarrow> u8 list \<Rightarrow> io_queue_state \<Rightarrow> nvme_world \<Rightarrow> u32 nvme_result" where
  "submit_io_and_wait d timeout cmd st w =
     (case submit_and_wait d timeout cmd st w of
        None \<Rightarrow> None
      | Some (Panic e) \<Rightarrow> Some (Panic e)
      | Some (Ret (r, st1, w1)) \<Rightarrow> Some (Ret (r, w1\<lparr>IO_QUEUE := Some st1\<rparr>)))"

text \<open>\<open>guard.as_mut().expect(..)\<close>.\<close>

definition with_admin :: "(admin_queue_state \<Rightarrow> nvme_world \<Rightarrow> 'a nvme_result) \<Rightarrow> nvme_world \<Rightarrow> 'a nvme_result" where
  "with_admin f w =
     (case ADMIN_QUEUE w of None \<Rightarrow> Some (Panic ''ensure_admin_queue() just succeeded'') | Some st \<Rightarrow> f st w)"

definition with_io :: "(io_queue_state \<Rightarrow> nvme_world \<Rightarrow> 'a nvme_result) \<Rightarrow> nvme_world \<Rightarrow> 'a nvme_result" where
  "with_io f w =
     (case IO_QUEUE w of None \<Rightarrow> Some (Panic ''ensure_io_queue() just succeeded'') | Some st \<Rightarrow> f st w)"

section \<open>Identify\<close>

record identify_controller_info =
  ic_vid :: u16
  ic_serial :: string
  ic_model :: string
  ic_firmware :: string
  ic_num_namespaces :: u32

record identify_namespace_info =
  in_nsze_blocks :: u64
  in_ncap_blocks :: u64
  in_nuse_blocks :: u64
  in_active_lba_format_idx :: u8
  in_block_size :: "u64 option"

definition ascii_char :: "u8 \<Rightarrow> char" where
  "ascii_char b = (if (0x21 \<le> b \<and> b \<le> 0x7E) \<or> b = 0x20 then char_of (unat b) else CHR ''?'')"

definition trim_spaces :: "string \<Rightarrow> string" where
  "trim_spaces s =
     rev (dropWhile (\<lambda>c. c = CHR '' '') (rev (dropWhile (\<lambda>c. c = CHR '' '') s)))"

definition ascii_field_to_string :: "u8 list \<Rightarrow> string" where
  "ascii_field_to_string bs = trim_spaces (map ascii_char bs)"

definition slice :: "nat \<Rightarrow> nat \<Rightarrow> 'a list \<Rightarrow> 'a list" where
  "slice a b xs = take (b - a) (drop a xs)"

definition parse_controller :: "u8 list \<Rightarrow> identify_controller_info" where
  "parse_controller buf =
     \<lparr>ic_vid = from_le (slice 0 2 buf), ic_serial = ascii_field_to_string (slice 4 24 buf),
      ic_model = ascii_field_to_string (slice 24 64 buf), ic_firmware = ascii_field_to_string (slice 64 72 buf),
      ic_num_namespaces = from_le (slice 516 520 buf)\<rparr>"

definition parse_namespace :: "u8 list \<Rightarrow> identify_namespace_info" where
  "parse_namespace buf =
     (let active_idx = buf ! 26 AND 0xF;
          lbaf_off = 128 + unat active_idx * 4;
          lbaf_raw = from_le (slice lbaf_off (lbaf_off + 4) buf) :: u32;
          lbads = ucast (drop_bit 16 lbaf_raw AND 0xFF) :: u8
      in \<lparr>in_nsze_blocks = from_le (slice 0 8 buf), in_ncap_blocks = from_le (slice 8 16 buf),
          in_nuse_blocks = from_le (slice 16 24 buf), in_active_lba_format_idx = active_idx,
          in_block_size = (if 9 \<le> lbads \<and> lbads \<le> 31 then Some (push_bit (unat lbads) 1) else None)\<rparr>)"

text \<open>Allocate a zeroed page, submit an Identify into it and hand its bytes to the parser.\<close>

definition identify :: "nvme_env \<Rightarrow> u32 \<Rightarrow> u32 \<Rightarrow> nvme_world \<Rightarrow> u8 list nvme_result" where
  "identify d nsid cns w =
     nv_bind (ensure_admin_queue d w) (\<lambda>_ w1.
     with_admin (\<lambda>st w2.
       nv_bind (nv_alloc 1 w2) (\<lambda>buf w3.
       let w4 = nv_mem (\<lambda>m. zero_bytes m buf 0x1000) w3 in
       nv_bind (submit_admin_and_wait d (build_identify_cmd (q_next_cid st) nsid cns buf) st w4) (\<lambda>_ w5.
       nv_ok (read_bytes (m_mem (nv_mach w5)) buf 0x1000) w5))) w1)"

definition identify_controller :: "nvme_env \<Rightarrow> nvme_world \<Rightarrow> identify_controller_info nvme_result" where
  "identify_controller d w = nv_bind (identify d 0 1 w) (\<lambda>buf w1. nv_ok (parse_controller buf) w1)"

definition identify_namespace :: "nvme_env \<Rightarrow> u32 \<Rightarrow> nvme_world \<Rightarrow> identify_namespace_info nvme_result" where
  "identify_namespace d nsid w = nv_bind (identify d nsid 0 w) (\<lambda>buf w1. nv_ok (parse_namespace buf) w1)"

section \<open>The I/O queue and block transfers\<close>

definition invalidate_persistent_state :: "nvme_world \<Rightarrow> nvme_world" where
  "invalidate_persistent_state w = w\<lparr>ADMIN_QUEUE := None, IO_QUEUE := None\<rparr>"

definition ensure_io_queue :: "nvme_env \<Rightarrow> u32 \<Rightarrow> nvme_world \<Rightarrow> unit nvme_result" where
  "ensure_io_queue d nsid w =
     (case IO_QUEUE w of
        Some _ \<Rightarrow> nv_ok () w
      | None \<Rightarrow>
          nv_bind (ensure_admin_queue d w) (\<lambda>_ w1.
          nv_bind (alloc_queues IO_QUEUE_DEPTH w1) (\<lambda>(sq, cq) w2.
          let size0 = IO_QUEUE_DEPTH - 1 in
          nv_bind (with_admin (\<lambda>st. submit_admin_and_wait d
              (build_create_io_cq_cmd (q_next_cid st) IO_QID size0 cq) st) w2) (\<lambda>_ w3.
          nv_bind (with_admin (\<lambda>st. submit_admin_and_wait d
              (build_create_io_sq_cmd (q_next_cid st) IO_QID size0 sq IO_QID) st) w3) (\<lambda>_ w4.
          with_admin (\<lambda>st w5.
            let bar0_virt = q_sq_db st - 0x1000;
                stride = push_bit (unat (doorbell_stride d)) 4 :: u64;
                qid = ucast IO_QID :: u64
            in nv_ok () (w5\<lparr>IO_QUEUE := Some
                 \<lparr>q_sq = sq, q_cq = cq, q_tail = 0, q_head = 0, q_phase = True, q_depth = IO_QUEUE_DEPTH,
                  q_sq_db = bar0_virt + 0x1000 + (2 * qid) * stride,
                  q_cq_db = bar0_virt + 0x1000 + (2 * qid + 1) * stride,
                  q_next_cid = 0, io_nsid = nsid\<rparr>\<rparr>)) w4)))))"

definition io_timeout_ms :: "nvme_env \<Rightarrow> nvme_world \<Rightarrow> u64 outcome" where
  "io_timeout_ms d w =
     (case ADMIN_QUEUE w of None \<Rightarrow> Panic ''ensure_admin_queue() already ran'' | Some _ \<Rightarrow> Ret (cap_timeout_ms d))"

definition transfer_size_ok :: "u64 \<Rightarrow> nat \<Rightarrow> bool" where
  "transfer_size_ok block_size n \<longleftrightarrow>
     \<not> (n = 0 \<or> block_size = 0 \<or> of_nat n mod block_size \<noteq> 0 \<or> 0x1000 < n)"

text \<open>What both transfers do: \<open>fill\<close> is what the caller puts into the zeroed bounce page.\<close>

definition io_transfer ::
  "nvme_env \<Rightarrow> u8 \<Rightarrow> u32 \<Rightarrow> u64 \<Rightarrow> u64 \<Rightarrow> nat \<Rightarrow> u8 list \<Rightarrow> nvme_world \<Rightarrow> u64 nvme_result" where
  "io_transfer d opcode nsid lba block_size n fill w =
     nv_bind (ensure_io_queue d nsid w) (\<lambda>_ w1.
     if \<not> transfer_size_ok block_size n then nv_err InvalidTransferSize w1
     else
       let nlb0based = ucast (of_nat n div block_size - 1) :: u16 in
       nv_bind (nv_alloc 1 w1) (\<lambda>buf w2.
       let w3 = nv_mem (\<lambda>m. write_bytes (zero_bytes m buf 0x1000) buf fill) w2 in
       case io_timeout_ms d w3 of
         Panic e \<Rightarrow> Some (Panic e)
       | Ret timeout \<Rightarrow>
           with_io (\<lambda>st w4.
             nv_bind (submit_io_and_wait d timeout
               (build_rw_cmd opcode (q_next_cid st) nsid lba nlb0based buf) st w4) (\<lambda>_ w5. nv_ok buf w5)) w3))"

definition io_write_blocks :: "nvme_env \<Rightarrow> u32 \<Rightarrow> u64 \<Rightarrow> u64 \<Rightarrow> u8 list \<Rightarrow> nvme_world \<Rightarrow> unit nvme_result" where
  "io_write_blocks d nsid lba block_size data w =
     nv_bind (io_transfer d 0x01 nsid lba block_size (length data) data w) (\<lambda>_ w1. nv_ok () w1)"

definition io_read_blocks :: "nvme_env \<Rightarrow> u32 \<Rightarrow> u64 \<Rightarrow> u64 \<Rightarrow> nat \<Rightarrow> nvme_world \<Rightarrow> u8 list nvme_result" where
  "io_read_blocks d nsid lba block_size n w =
     nv_bind (io_transfer d 0x02 nsid lba block_size n [] w)
       (\<lambda>buf w1. nv_ok (read_bytes (m_mem (nv_mach w1)) buf n) w1)"

section \<open>Commands decode to their fields\<close>

lemma slice_put_slice_same: "off + length bs \<le> length buf \<Longrightarrow> slice off (off + length bs) (put_slice off bs buf) = bs"
  by (simp add: slice_def put_slice_def)

lemma length_put_slice [simp]: "off + length bs \<le> length buf \<Longrightarrow> length (put_slice off bs buf) = length buf"
  by (simp add: put_slice_def)

lemma length_le [simp]: "length (le16 a) = 2" "length (le32 b) = 4" "length (le64 c) = 8"
  by (simp_all add: le16_def le32_def le64_def)

lemma from_le_le [simp]: "from_le (le16 a) = a" "from_le (le32 b) = b" "from_le (le64 c) = c"
  by (simp_all add: le16_def le32_def le64_def from_le_le_bytes)

text \<open>The command as the concatenation of its fields.\<close>

lemma put_slice_zeros:
  assumes "length xs \<le> off" and "off + length bs \<le> length xs + n"
  shows "put_slice off bs (xs @ replicate n 0) =
      xs @ replicate (off - length xs) 0 @ bs @ replicate (n - (off - length xs) - length bs) 0"
  using assms by (simp add: put_slice_def min_absorb2)

lemma opcode_zeros: "(replicate 64 (0 :: u8))[0 := x] = [x] @ replicate 63 0"
proof -
  have "replicate 64 (0 :: u8) = 0 # replicate 63 0" using replicate_Suc [of 63 "0 :: u8"] by simp
  then show ?thesis by (simp only: list_update_code append_Cons append_Nil)
qed

lemma build_rw_cmd_layout:
  "build_rw_cmd opcode cid nsid lba nlb prp1 =
     (((((([opcode] @ replicate 1 0 @ le16 cid) @ replicate 0 0 @ le32 nsid) @ replicate 16 0 @ le64 prp1) @ replicate 8 0 @
     le32 (ucast lba)) @ replicate 0 0 @ le32 (ucast (drop_bit 32 lba))) @ replicate 0 0 @ le32 (ucast nlb)) @ replicate 12 0"
  unfolding build_rw_cmd_def Let_def opcode_zeros
  by (simp add: put_slice_zeros put_slice_zeros [where xs = "_ # _", simplified] flip: append_assoc append_Cons)

lemma join_halves: "from_le (le32 (ucast lba) @ le32 (ucast (drop_bit 32 lba))) = (lba :: u64)"
proof -
  have "from_le (le_bytes 4 (ucast lba :: u32) @ le_bytes 4 (ucast (drop_bit 32 lba) :: u32)) = lba"
  proof (rule bit_word_eqI)
    fix n assume "n < LENGTH(64)"
    then have n: "n < 64" "n div 8 < 8" by simp_all
    show "bit (from_le (le_bytes 4 (ucast lba :: u32) @ le_bytes 4 (ucast (drop_bit 32 lba) :: u32)) :: u64) n \<longleftrightarrow> bit lba n"
    proof (cases "n div 8 < 4")
      case True
      then have "n < 32" by simp
      then show ?thesis using True n by (simp add: bit_from_le nth_append bit_simps)
    next
      case False
      then have "32 \<le> n" by simp
      moreover have "8 * (n div 8 - 4) + n mod 8 = n - 32"
        using mult_div_mod_eq [of 8 n] False by (simp add: diff_mult_distrib2)
      moreover have "n - 32 < 32" using n(1) by simp
      ultimately show ?thesis using False n by (simp add: bit_from_le nth_append bit_simps)
    qed
  qed
  then show ?thesis by (simp add: le32_def)
qed

text \<open>
  A Read or Write command decodes to exactly what it was built from: 64 bytes with the opcode,
  command id, namespace, buffer address, the full 64-bit block address across its two dwords and
  the zero-based count, and nothing else set.
\<close>

theorem rw_cmd_roundtrip:
  "length (build_rw_cmd opcode cid nsid lba nlb prp1) = 64 \<and>
   build_rw_cmd opcode cid nsid lba nlb prp1 ! 0 = opcode \<and>
   from_le (slice 2 4 (build_rw_cmd opcode cid nsid lba nlb prp1)) = cid \<and>
   from_le (slice 4 8 (build_rw_cmd opcode cid nsid lba nlb prp1)) = nsid \<and>
   from_le (slice 24 32 (build_rw_cmd opcode cid nsid lba nlb prp1)) = prp1 \<and>
   from_le (slice 40 48 (build_rw_cmd opcode cid nsid lba nlb prp1)) = lba \<and>
   from_le (slice 48 52 (build_rw_cmd opcode cid nsid lba nlb prp1)) = (ucast nlb :: u32) \<and>
   build_rw_cmd opcode cid nsid lba nlb prp1 ! 1 = 0 \<and>
   slice 8 24 (build_rw_cmd opcode cid nsid lba nlb prp1) = replicate 16 0 \<and>
   slice 32 40 (build_rw_cmd opcode cid nsid lba nlb prp1) = replicate 8 0 \<and>
   slice 52 64 (build_rw_cmd opcode cid nsid lba nlb prp1) = replicate 12 0"
  unfolding build_rw_cmd_layout by (simp add: slice_def join_halves)

end
