(* ===== verification/NvmeQueues.thy ===== *)
theory NvmeQueues
  imports Nvme
begin

text \<open>
  What the NVMe driver (theory \<open>Nvme\<close>) guarantees, whatever the controller does: every wait ends
  once the clock passes its deadline; the queue positions follow the commands submitted and the
  completions consumed; a timed-out command desynchronises the queue for good; and every transfer
  keeps one more frame.
\<close>

section \<open>Observations\<close>

lemma observe_fields [simp]:
  "nv_now (observe d w) = Suc (nv_now w)" "nv_mmio (observe d w) = nv_mmio w"
  "ADMIN_QUEUE (observe d w) = ADMIN_QUEUE w" "IO_QUEUE (observe d w) = IO_QUEUE w"
  "m_pmm (nv_mach (observe d w)) = m_pmm (nv_mach w)"
  by (simp_all add: observe_def)

text \<open>The parts of the state that waiting does not touch: only time and memory move on.\<close>

definition waited :: "nvme_world \<Rightarrow> nvme_world \<Rightarrow> bool" where
  "waited w w' \<longleftrightarrow> nv_mmio w' = nv_mmio w \<and> ADMIN_QUEUE w' = ADMIN_QUEUE w \<and> IO_QUEUE w' = IO_QUEUE w \<and>
     m_pmm (nv_mach w') = m_pmm (nv_mach w)"

lemma waited_refl [simp]: "waited w w"
  by (simp add: waited_def)

lemma waited_observe [simp]: "waited (observe d w) w' \<longleftrightarrow> waited w w'"
  by (simp add: waited_def)

text \<open>A poll that returns: the check answered, or the deadline passed while it did not.\<close>

lemma poll_result:
  assumes "poll d check err deadline w = Some x"
  shows "\<exists>r w'. x = Ret (r, w') \<and> waited w w' \<and> nv_now w < nv_now w' \<and> (\<exists>v. w' = observe d v) \<and>
    (check w' = Some r \<or> check w' = None \<and> r = Inl err \<and> deadline \<le> nv_ms d w')"
proof (rule poll.raw_induct [where P = "\<lambda>d check err deadline w x. \<exists>r w'. x = Ret (r, w') \<and> waited w w' \<and>
    nv_now w < nv_now w' \<and> (\<exists>v. w' = observe d v) \<and> (check w' = Some r \<or> check w' = None \<and> r = Inl err \<and> deadline \<le> nv_ms d w')", OF _ assms])
  fix pl d and check :: "nvme_world \<Rightarrow> (nvme_error + 'a) option" and err deadline w x
  assume IH: "\<And>d check err deadline w x. pl d check err deadline w = Some x \<Longrightarrow>
      \<exists>r w'. x = Ret (r, w') \<and> waited w w' \<and> nv_now w < nv_now w' \<and> (\<exists>v. w' = observe d v) \<and>
        (check w' = Some r \<or> check w' = None \<and> r = Inl err \<and> deadline \<le> nv_ms d w')"
    and eq: "(let w1 = observe d w in case check w1 of
        None \<Rightarrow> if deadline \<le> nv_ms d w1 then Some (Ret (Inl err, w1)) else pl d check err deadline w1
      | Some r \<Rightarrow> Some (Ret (r, w1))) = Some x"
  have obs: "waited w (observe d w)" by (simp add: waited_def)
  show "\<exists>r w'. x = Ret (r, w') \<and> waited w w' \<and> nv_now w < nv_now w' \<and> (\<exists>v. w' = observe d v) \<and>
      (check w' = Some r \<or> check w' = None \<and> r = Inl err \<and> deadline \<le> nv_ms d w')"
  proof (cases "check (observe d w)")
    case (Some r)
    then show ?thesis using eq obs by auto
  next
    case None
    show ?thesis
    proof (cases "deadline \<le> nv_ms d (observe d w)")
      case True
      then show ?thesis using eq obs None by auto
    next
      case False
      then have "pl d check err deadline (observe d w) = Some x" using eq None by simp
      from IH [OF this] show ?thesis by (auto simp: Suc_lessD)
    qed
  qed
qed

text \<open>A poll only observes, and stops at the first observation that answers or is past the deadline.\<close>

lemma poll_iterates:
  assumes "poll d check err deadline w = Some x"
  shows "\<exists>r k. x = Ret (r, (observe d ^^ Suc k) w) \<and>
    (\<forall>j < k. check ((observe d ^^ Suc j) w) = None \<and> nv_ms d ((observe d ^^ Suc j) w) < deadline)"
proof (rule poll.raw_induct [where P = "\<lambda>d check err deadline w x. \<exists>r k. x = Ret (r, (observe d ^^ Suc k) w) \<and>
    (\<forall>j < k. check ((observe d ^^ Suc j) w) = None \<and> nv_ms d ((observe d ^^ Suc j) w) < deadline)", OF _ assms])
  fix pl d and check :: "nvme_world \<Rightarrow> (nvme_error + 'a) option" and err deadline w x
  assume IH: "\<And>d check err deadline w x. pl d check err deadline w = Some x \<Longrightarrow>
      \<exists>r k. x = Ret (r, (observe d ^^ Suc k) w) \<and>
        (\<forall>j < k. check ((observe d ^^ Suc j) w) = None \<and> nv_ms d ((observe d ^^ Suc j) w) < deadline)"
    and eq: "(let w1 = observe d w in case check w1 of
        None \<Rightarrow> if deadline \<le> nv_ms d w1 then Some (Ret (Inl err, w1)) else pl d check err deadline w1
      | Some r \<Rightarrow> Some (Ret (r, w1))) = Some x"
  show "\<exists>r k. x = Ret (r, (observe d ^^ Suc k) w) \<and>
      (\<forall>j < k. check ((observe d ^^ Suc j) w) = None \<and> nv_ms d ((observe d ^^ Suc j) w) < deadline)"
  proof (cases "check (observe d w) = None \<and> nv_ms d (observe d w) < deadline")
    case True
    then have "pl d check err deadline (observe d w) = Some x" using eq by (auto simp: not_le [symmetric])
    from IH [OF this] obtain r k where k: "x = Ret (r, (observe d ^^ Suc k) (observe d w))"
      "\<forall>j < k. check ((observe d ^^ Suc j) (observe d w)) = None \<and> nv_ms d ((observe d ^^ Suc j) (observe d w)) < deadline"
      by blast
    have s: "(observe d ^^ Suc j) (observe d w) = (observe d ^^ Suc (Suc j)) w" for j by (simp add: funpow_swap1)
    have "check ((observe d ^^ Suc j) w) = None \<and> nv_ms d ((observe d ^^ Suc j) w) < deadline" if "j < Suc k" for j
      using True k(2) that unfolding s by (cases j) auto
    then show ?thesis using k(1) unfolding s by blast
  next
    case False
    then have "\<exists>r. x = Ret (r, observe d w)" using eq by (cases "check (observe d w)") (auto simp: not_le [symmetric])
    then obtain r where "x = Ret (r, observe d w)" ..
    then show ?thesis by (intro exI [of _ r] exI [of _ 0]) simp
  qed
qed

text \<open>Every wait ends, at the latest with the observation at which the clock has passed the deadline.\<close>

lemma poll_returns:
  assumes "nv_now w < n" and "deadline \<le> ne_ms d n"
  shows "\<exists>r w'. poll d check err deadline w = Some (Ret (r, w')) \<and> nv_now w' \<le> n"
  using assms(1)
proof (induction "n - nv_now w" arbitrary: w)
  case (Suc k)
  show ?case
  proof (cases "check (observe d w)")
    case (Some r)
    then show ?thesis using Suc.prems by (subst poll.simps) auto
  next
    case None
    show ?thesis
    proof (cases "deadline \<le> nv_ms d (observe d w)")
      case True
      then show ?thesis using None Suc.prems by (subst poll.simps) auto
    next
      case False
      then have "nv_now (observe d w) \<noteq> n" using assms(2) by (auto simp: nv_ms_def)
      then have lt: "nv_now (observe d w) < n" using Suc.prems by simp
      have "k = n - nv_now (observe d w)" using Suc.hyps(2) by simp
      from Suc.hyps(1) [OF this lt] show ?thesis
        using False None by (subst poll.simps) simp
    qed
  qed
qed simp

section \<open>One command\<close>

lemma nv_mem_fields [simp]:
  "nv_now (nv_mem f w) = nv_now w" "nv_mmio (nv_mem f w) = nv_mmio w"
  "ADMIN_QUEUE (nv_mem f w) = ADMIN_QUEUE w" "IO_QUEUE (nv_mem f w) = IO_QUEUE w"
  "m_pmm (nv_mach (nv_mem f w)) = m_pmm (nv_mach w)" "m_mem (nv_mach (nv_mem f w)) = f (m_mem (nv_mach w))"
  by (simp_all add: nv_mem_def)

lemma ring_doorbell_fields [simp]:
  "nv_now (ring_doorbell db v w) = nv_now w" "nv_mmio (ring_doorbell db v w) = nv_mmio w @ [W32 db (ucast v)]"
  "ADMIN_QUEUE (ring_doorbell db v w) = ADMIN_QUEUE w" "IO_QUEUE (ring_doorbell db v w) = IO_QUEUE w"
  "nv_mach (ring_doorbell db v w) = nv_mach w"
  by (simp_all add: ring_doorbell_def)

lemma queue_submit_fields [simp]:
  "q_next_cid (queue_submit q) = q_next_cid q + 1" "q_tail (queue_submit q) = (q_tail q + 1) mod q_depth q"
  "q_head (queue_submit q) = q_head q" "q_phase (queue_submit q) = q_phase q" "q_depth (queue_submit q) = q_depth q"
  "q_sq (queue_submit q) = q_sq q" "q_cq (queue_submit q) = q_cq q"
  "q_sq_db (queue_submit q) = q_sq_db q" "q_cq_db (queue_submit q) = q_cq_db q"
  by (simp_all add: queue_submit_def)

lemma queue_consume_fields [simp]:
  "q_next_cid (queue_consume q) = q_next_cid q" "q_tail (queue_consume q) = q_tail q"
  "q_head (queue_consume q) = (q_head q + 1) mod q_depth q" "q_depth (queue_consume q) = q_depth q"
  "q_phase (queue_consume q) = (if (q_head q + 1) mod q_depth q = 0 then \<not> q_phase q else q_phase q)"
  "q_sq (queue_consume q) = q_sq q" "q_cq (queue_consume q) = q_cq q"
  "q_sq_db (queue_consume q) = q_sq_db q" "q_cq_db (queue_consume q) = q_cq_db q"
  by (simp_all add: queue_consume_def Let_def)

text \<open>The world a command is shown to the controller in: the entry written, the doorbell rung.\<close>

definition submitted :: "u8 list \<Rightarrow> 'z nvme_queue_scheme \<Rightarrow> nvme_world \<Rightarrow> nvme_world" where
  "submitted cmd q w =
     ring_doorbell (q_sq_db q) ((q_tail q + 1) mod q_depth q)
       (nv_mem (\<lambda>m. write_bytes m (q_sq q + ucast (q_tail q) * 64) cmd) w)"

text \<open>The completion dwords at the head of the queue.\<close>

definition head_dw3 :: "'z nvme_queue_scheme \<Rightarrow> nvme_world \<Rightarrow> u32" where
  "head_dw3 q w = load32 (m_mem (nv_mach w)) (cq_entry q + 12)"

definition head_dw0 :: "'z nvme_queue_scheme \<Rightarrow> nvme_world \<Rightarrow> u32" where
  "head_dw0 q w = load32 (m_mem (nv_mach w)) (cq_entry q)"

definition completed :: "'z nvme_queue_scheme \<Rightarrow> nvme_world \<Rightarrow> bool" where
  "completed q w \<longleftrightarrow> bit (head_dw3 q w) 16 = q_phase q"

lemma head_ring_doorbell [simp]:
  "head_dw3 q (ring_doorbell db v w) = head_dw3 q w" "head_dw0 q (ring_doorbell db v w) = head_dw0 q w"
  "completed q (ring_doorbell db v w) = completed q w"
  by (simp_all add: head_dw3_def head_dw0_def completed_def)

lemma completion_check_eq:
  "completion_check (queue_submit q) w =
     (if completed q w then Some (Inr (head_dw3 q w, head_dw0 q w)) else None)"
proof -
  have "(drop_bit 16 x AND 1 \<noteq> 0) = bit x 16" for x :: u32
    by (simp add: bit_iff_odd_drop_bit and_one_eq odd_iff_mod_2_eq_one)
  then show ?thesis
    by (simp add: completion_check_def completed_def head_dw3_def head_dw0_def cq_entry_def Let_def)
qed

lemma submit_cases:
  assumes "submit_and_wait d timeout cmd q w = Some x" and "q_depth q \<noteq> 0"
  obtains (timeout) w' where "x = Ret (Inl CommandTimeout, queue_submit q, w')" "waited (submitted cmd q w) w'"
      "nv_now w < nv_now w'" "\<not> completed q w'" "nv_ms d w + timeout \<le> nv_ms d w'" "\<exists>v. w' = observe d v"
  | (answered) w' where
      "x = Ret (completion_result (q_next_cid q) (head_dw3 q w') (head_dw0 q w'), queue_consume (queue_submit q),
         ring_doorbell (q_cq_db q) ((q_head q + 1) mod q_depth q) w')"
      "waited (submitted cmd q w) w'" "nv_now w < nv_now w'" "completed q w'" "\<exists>v. w' = observe d v"
proof -
  let ?w2 = "submitted cmd q w"
  obtain y where y: "poll d (completion_check (queue_submit q)) CommandTimeout (nv_ms d w + timeout) ?w2 = Some y"
    using assms by (auto simp: submit_and_wait_def Let_def submitted_def nv_ms_def split: option.splits)
  have ms: "nv_ms d ?w2 = nv_ms d w" "nv_now ?w2 = nv_now w" by (simp_all add: submitted_def nv_ms_def)
  from poll_result [OF y] obtain r w' where r: "y = Ret (r, w')" "waited ?w2 w'" "nv_now w < nv_now w'" "\<exists>v. w' = observe d v"
    "completion_check (queue_submit q) w' = Some r \<or> completion_check (queue_submit q) w' = None \<and>
       r = Inl CommandTimeout \<and> nv_ms d w + timeout \<le> nv_ms d w'" by (auto simp: ms)
  show ?thesis
  proof (cases "completed q w'")
    case True
    then have "r = Inr (head_dw3 q w', head_dw0 q w')" using r(5) by (simp add: completion_check_eq)
    then have "x = Ret (completion_result (q_next_cid q) (head_dw3 q w') (head_dw0 q w'), queue_consume (queue_submit q),
         ring_doorbell (q_cq_db q) ((q_head q + 1) mod q_depth q) w')"
      using assms y r(1) by (simp add: submit_and_wait_def Let_def submitted_def nv_ms_def)
    then show ?thesis using answered r(2,3,4) True by blast
  next
    case False
    then have f: "r = Inl CommandTimeout" "nv_ms d w + timeout \<le> nv_ms d w'" using r(5) by (simp_all add: completion_check_eq)
    then have "x = Ret (Inl CommandTimeout, queue_submit q, w')"
      using assms y r(1) by (simp add: submit_and_wait_def Let_def submitted_def nv_ms_def)
    then show ?thesis using timeout r(2,3,4) False f(2) by blast
  qed
qed

text \<open>A command is shown to the controller as submitted, and then only observed.\<close>

lemma submit_poll:
  assumes "submit_and_wait d timeout cmd q w = Some x" and "q_depth q \<noteq> 0"
  obtains y where
    "poll d (completion_check (queue_submit q)) CommandTimeout (nv_ms d w + timeout) (submitted cmd q w) = Some y"
  using assms by (auto simp: submit_and_wait_def Let_def submitted_def nv_ms_def split: option.splits)

lemma submit_iterates:
  assumes "submit_and_wait d timeout cmd q w = Some (Ret (r, q', w'))" and "q_depth q \<noteq> 0"
  obtains k v where "v = (observe d ^^ Suc k) (submitted cmd q w)"
    "\<forall>j < k. \<not> completed q ((observe d ^^ Suc j) (submitted cmd q w)) \<and>
       nv_ms d ((observe d ^^ Suc j) (submitted cmd q w)) < nv_ms d w + timeout"
    "if completed q v
     then r = completion_result (q_next_cid q) (head_dw3 q v) (head_dw0 q v) \<and> q' = queue_consume (queue_submit q) \<and>
       w' = ring_doorbell (q_cq_db q) ((q_head q + 1) mod q_depth q) v
     else r = Inl CommandTimeout \<and> q' = queue_submit q \<and> w' = v \<and> nv_ms d w + timeout \<le> nv_ms d v"
proof -
  let ?w2 = "submitted cmd q w"
  obtain y where y: "poll d (completion_check (queue_submit q)) CommandTimeout (nv_ms d w + timeout) ?w2 = Some y"
    using submit_poll [OF assms] by blast
  from poll_iterates [OF y] obtain r0 k where k: "y = Ret (r0, (observe d ^^ Suc k) ?w2)"
    "\<forall>j < k. completion_check (queue_submit q) ((observe d ^^ Suc j) ?w2) = None \<and>
       nv_ms d ((observe d ^^ Suc j) ?w2) < nv_ms d w + timeout" by blast
  define v where "v = (observe d ^^ Suc k) ?w2"
  have y': "y = Ret (r0, v)" using k(1) by (simp add: v_def)
  have p: "poll d (completion_check (queue_submit q)) CommandTimeout (nv_ms d w + timeout) ?w2 = Some (Ret (r0, v))"
    using y y' by simp
  from poll_result [OF y] y' have c: "completion_check (queue_submit q) v = Some r0 \<or>
      completion_check (queue_submit q) v = None \<and> r0 = Inl CommandTimeout \<and> nv_ms d w + timeout \<le> nv_ms d v" by auto
  have ends: "if completed q v
     then r = completion_result (q_next_cid q) (head_dw3 q v) (head_dw0 q v) \<and> q' = queue_consume (queue_submit q) \<and>
       w' = ring_doorbell (q_cq_db q) ((q_head q + 1) mod q_depth q) v
     else r = Inl CommandTimeout \<and> q' = queue_submit q \<and> w' = v \<and> nv_ms d w + timeout \<le> nv_ms d v"
  proof (cases "completed q v")
    case True
    then have "r0 = Inr (head_dw3 q v, head_dw0 q v)" using c by (simp add: completion_check_eq)
    then show ?thesis using assms p True by (simp add: submit_and_wait_def Let_def submitted_def nv_ms_def)
  next
    case False
    then have "r0 = Inl CommandTimeout" "nv_ms d w + timeout \<le> nv_ms d v" using c by (simp_all add: completion_check_eq)
    then show ?thesis using assms p False by (simp add: submit_and_wait_def Let_def submitted_def nv_ms_def)
  qed
  have none: "\<forall>j < k. \<not> completed q ((observe d ^^ Suc j) ?w2) \<and> nv_ms d ((observe d ^^ Suc j) ?w2) < nv_ms d w + timeout"
    using k(2) unfolding completion_check_eq by (metis option.distinct(1))
  show thesis by (rule that [OF v_def none ends])
qed

lemma submit_returns:
  assumes "q_depth q \<noteq> 0" and "nv_now w < n" and "nv_ms d w + timeout \<le> ne_ms d n"
  shows "\<exists>r q' w'. submit_and_wait d timeout cmd q w = Some (Ret (r, q', w')) \<and> nv_now w' \<le> n"
proof -
  have ms: "nv_ms d (submitted cmd q w) = nv_ms d w" "nv_now (submitted cmd q w) = nv_now w"
    by (simp_all add: submitted_def nv_ms_def)
  from poll_returns [of "submitted cmd q w" n "nv_ms d w + timeout" d "completion_check (queue_submit q)" CommandTimeout]
  obtain r w' where "poll d (completion_check (queue_submit q)) CommandTimeout (nv_ms d w + timeout) (submitted cmd q w) =
      Some (Ret (r, w'))" "nv_now w' \<le> n" using assms by (auto simp: ms)
  then show ?thesis using assms(1)
    by (cases r) (auto simp: submit_and_wait_def Let_def submitted_def nv_ms_def split: prod.splits)
qed

lemma completion_result_cases:
  "completion_result cid dw3 dw0 =
     (if ucast dw3 \<noteq> cid then Inl UnexpectedCid
      else if (ucast (drop_bit 17 dw3) :: u8) \<noteq> 0 \<or> (ucast (drop_bit 25 dw3 AND 7) :: u8) \<noteq> 0
      then Inl (CommandFailed (ucast (drop_bit 25 dw3 AND 7)) (ucast (drop_bit 17 dw3)))
      else Inr dw0)"
proof -
  have m: "(0xFFFF :: u32) = mask 16" "(0xFF :: u32) = mask 8" by (simp_all add: mask_eq_exp_minus_1)
  have 1: "(ucast (dw3 AND 0xFFFF) :: u16) = ucast dw3" by (rule bit_word_eqI) (simp add: m bit_simps)
  have 2: "(ucast (drop_bit 17 dw3 AND 0xFF) :: u8) = ucast (drop_bit 17 dw3)" by (rule bit_word_eqI) (simp add: m bit_simps)
  show ?thesis unfolding completion_result_def Let_def 1 2 ..
qed

text \<open>
  C25. Every command ends, and what it does is exactly this. If the clock reaches the deadline, submitting a
  command returns, at the latest with the observation that sees the deadline passed. What the controller gets to
  see is the machine with the command's bytes in the slot at the tail, nothing else of memory changed, and the
  doorbell rung with the next tail; from there on the driver only observes, up to the first observation at which
  the entry at the head has the expected phase or the deadline has passed. In the first case the head moves
  by one, its doorbell is rung, and the answer is the entry's: a foreign command id is refused, a status other
  than zero is reported with its code type and code, and otherwise the answer is the first dword. In the second case it is
  a timeout, and only the submission side of the queue has moved.
\<close>

theorem nvme_command_returns:
  assumes "q_depth q \<noteq> 0" and "nv_now w < n" and "nv_ms d w + timeout \<le> ne_ms d n"
  shows "\<exists>r q' w' w1 k v. submit_and_wait d timeout cmd q w = Some (Ret (r, q', w')) \<and> nv_now w' \<le> n \<and>
    w1 = w\<lparr>nv_mach := (nv_mach w)\<lparr>m_mem := write_bytes (m_mem (nv_mach w)) (q_sq q + ucast (q_tail q) * 64) cmd\<rparr>,
           nv_mmio := nv_mmio w @ [W32 (q_sq_db q) (ucast ((q_tail q + 1) mod q_depth q))]\<rparr> \<and>
    v = (observe d ^^ Suc k) w1 \<and>
    (\<forall>j < k. \<not> completed q ((observe d ^^ Suc j) w1) \<and> nv_ms d ((observe d ^^ Suc j) w1) < nv_ms d w + timeout) \<and>
    (if completed q v
     then w' = v\<lparr>nv_mmio := nv_mmio v @ [W32 (q_cq_db q) (ucast ((q_head q + 1) mod q_depth q))]\<rparr> \<and>
       q' = q\<lparr>q_next_cid := q_next_cid q + 1, q_tail := (q_tail q + 1) mod q_depth q, q_head := (q_head q + 1) mod q_depth q,
              q_phase := (if (q_head q + 1) mod q_depth q = 0 then \<not> q_phase q else q_phase q)\<rparr> \<and>
       (let dw3 = head_dw3 q v; sc = ucast (drop_bit 17 dw3) :: u8; sct = ucast (drop_bit 25 dw3 AND 7) :: u8 in
        r = (if ucast dw3 \<noteq> q_next_cid q then Inl UnexpectedCid
             else if sc = 0 \<and> sct = 0 then Inr (head_dw0 q v) else Inl (CommandFailed sct sc)))
     else r = Inl CommandTimeout \<and> w' = v \<and> nv_ms d w + timeout \<le> nv_ms d v \<and>
       q' = q\<lparr>q_next_cid := q_next_cid q + 1, q_tail := (q_tail q + 1) mod q_depth q\<rparr>)"
proof -
  obtain r q' w' where s: "submit_and_wait d timeout cmd q w = Some (Ret (r, q', w'))" "nv_now w' \<le> n"
    using submit_returns [OF assms] by blast
  obtain k v where v: "v = (observe d ^^ Suc k) (submitted cmd q w)"
    "\<forall>j < k. \<not> completed q ((observe d ^^ Suc j) (submitted cmd q w)) \<and>
       nv_ms d ((observe d ^^ Suc j) (submitted cmd q w)) < nv_ms d w + timeout"
    and e: "if completed q v
     then r = completion_result (q_next_cid q) (head_dw3 q v) (head_dw0 q v) \<and> q' = queue_consume (queue_submit q) \<and>
       w' = ring_doorbell (q_cq_db q) ((q_head q + 1) mod q_depth q) v
     else r = Inl CommandTimeout \<and> q' = queue_submit q \<and> w' = v \<and> nv_ms d w + timeout \<le> nv_ms d v"
    by (rule submit_iterates [OF s(1) assms(1)]) (rule that)
  have w1: "submitted cmd q w = w\<lparr>nv_mach := (nv_mach w)\<lparr>m_mem := write_bytes (m_mem (nv_mach w)) (q_sq q + ucast (q_tail q) * 64) cmd\<rparr>,
           nv_mmio := nv_mmio w @ [W32 (q_sq_db q) (ucast ((q_tail q + 1) mod q_depth q))]\<rparr>"
    by (simp add: submitted_def ring_doorbell_def nv_mem_def)
  have c: "queue_consume (queue_submit q) =
      q\<lparr>q_next_cid := q_next_cid q + 1, q_tail := (q_tail q + 1) mod q_depth q, q_head := (q_head q + 1) mod q_depth q,
        q_phase := (if (q_head q + 1) mod q_depth q = 0 then \<not> q_phase q else q_phase q)\<rparr>"
    by (simp add: queue_consume_def queue_submit_def Let_def)
  have sub: "queue_submit q = q\<lparr>q_next_cid := q_next_cid q + 1, q_tail := (q_tail q + 1) mod q_depth q\<rparr>"
    by (simp add: queue_submit_def)
  have bell: "ring_doorbell db x v = v\<lparr>nv_mmio := nv_mmio v @ [W32 db (ucast x)]\<rparr>" for db x
    by (simp add: ring_doorbell_def)
  have ans: "completion_result cid dw3 dw0 = (let sc = ucast (drop_bit 17 dw3) :: u8; sct = ucast (drop_bit 25 dw3 AND 7) :: u8 in
      if ucast dw3 \<noteq> cid then Inl UnexpectedCid
      else if sc = 0 \<and> sct = 0 then Inr dw0 else Inl (CommandFailed sct sc))" for cid dw3 dw0
    by (simp add: completion_result_cases Let_def)
  show ?thesis
  proof (intro exI conjI)
    show "submit_and_wait d timeout cmd q w = Some (Ret (r, q', w'))" "nv_now w' \<le> n" by (fact s)+
    show "v = (observe d ^^ Suc k) (submitted cmd q w)" by (fact v(1))
    show "\<forall>j < k. \<not> completed q ((observe d ^^ Suc j) (submitted cmd q w)) \<and>
       nv_ms d ((observe d ^^ Suc j) (submitted cmd q w)) < nv_ms d w + timeout" by (fact v(2))
  qed (fact w1, use e in \<open>unfold c, unfold sub bell ans Let_def, cases "completed q v", simp_all only: if_True if_False simp_thms\<close>)
qed

text \<open>A controller that posts a successful completion of command 0 at its \<open>k\<close>-th observation.\<close>

definition demo_nvme :: "nat \<Rightarrow> nvme_env" where
  "demo_nvme k =
     \<lparr>ne_cap = 0x0000002028010FFF, ne_vs = 0x10400, ne_csts = (\<lambda>_ _. 1),
      ne_dma = (\<lambda>_ n m. if k \<le> n then write_bytes m 0x40100C (le32 0x10000) else m),
      ne_ms = (\<lambda>n. of_nat (min (10 * n) 18446744073709551615)), ne_pci = (\<lambda>_. 0xFFFFFFFF), ne_hhdm = 0, ne_cr3 = 0\<rparr>"

definition demo_queue :: io_queue_state where
  "demo_queue =
     \<lparr>q_sq = 0x400000, q_cq = 0x401000, q_tail = 0, q_head = 0, q_phase = True, q_depth = 16,
      q_sq_db = 0xFEB01008, q_cq_db = 0xFEB0100C, q_next_cid = 0, io_nsid = 1\<rparr>"

definition demo_nvme_world :: nvme_world where
  "demo_nvme_world =
     \<lparr>nv_mach = demo_machine, nv_mmio = [], nv_now = 0, ADMIN_QUEUE = None, IO_QUEUE = Some demo_queue\<rparr>"

lemma nvme_command_returns_witness:
  "\<exists>r q' w'. submit_and_wait (demo_nvme 3) 500 (build_rw_cmd 2 0 1 5 0 0x402000) demo_queue demo_nvme_world =
      Some (Ret (r, q', w')) \<and> nv_now w' \<le> 50"
proof -
  have "q_depth demo_queue \<noteq> 0" "nv_now demo_nvme_world < 50"
    "nv_ms (demo_nvme 3) demo_nvme_world + 500 \<le> ne_ms (demo_nvme 3) 50"
    by (simp_all add: demo_queue_def demo_nvme_world_def demo_nvme_def nv_ms_def)
  from nvme_command_returns [OF this] show ?thesis by blast
qed

section \<open>Where the queue stands\<close>

text \<open>
  After \<open>s\<close> submissions and \<open>c\<close> consumed completions: the tail, the next command id and the head are
  these counts modulo the depth (and \<open>2^16\<close>), and the expected phase is that of the pass the head is in.
\<close>

definition queue_at :: "nat \<Rightarrow> nat \<Rightarrow> 'z nvme_queue_scheme \<Rightarrow> bool" where
  "queue_at s c q \<longleftrightarrow> q_depth q \<noteq> 0 \<and> unat (q_tail q) = s mod unat (q_depth q) \<and> q_next_cid q = of_nat s \<and>
     unat (q_head q) = c mod unat (q_depth q) \<and> q_phase q = even (c div unat (q_depth q))"

lemma unat_next_slot:
  fixes x depth :: u16
  assumes "depth \<noteq> 0" and "unat x = k mod unat depth"
  shows "unat ((x + 1) mod depth) = Suc k mod unat depth"
proof -
  have d: "0 < unat depth" using assms(1) by (simp add: unat_gt_0)
  then have "unat x < unat depth" using assms(2) by simp
  then have "Suc (unat x) < 65536" using unsigned_less [of depth, where 'a = nat] by simp
  then have "unat (x + 1) = Suc (unat x)" using unat_add_no_wrap [of x 1] by simp
  then show ?thesis using assms(2) by (simp add: unat_mod mod_Suc_eq)
qed

lemma queue_at_submit: "queue_at s c q \<Longrightarrow> queue_at (Suc s) c (queue_submit q)"
  using unat_next_slot by (auto simp: queue_at_def)

lemma div_Suc_phase: "even (Suc c div n) = (if Suc c mod n = 0 then odd (c div n) else even (c div n))" for c n :: nat
  by (simp add: div_Suc)

lemma queue_at_consume: "queue_at s c q \<Longrightarrow> queue_at s (Suc c) (queue_consume q)"
proof -
  assume q: "queue_at s c q"
  then have n: "unat ((q_head q + 1) mod q_depth q) = Suc c mod unat (q_depth q)"
    using unat_next_slot [of "q_depth q" "q_head q" c] by (simp add: queue_at_def)
  then have "(q_head q + 1) mod q_depth q = 0 \<longleftrightarrow> Suc c mod unat (q_depth q) = 0"
    by (metis unat_eq_0)
  then show ?thesis using q n by (simp add: queue_at_def div_Suc_phase)
qed

definition consumed :: "nvme_error + u32 \<Rightarrow> nat" where
  "consumed r = (if r = Inl CommandTimeout then 0 else 1)"

lemma completion_result_not_timeout [simp]: "completion_result cid dw3 dw0 \<noteq> Inl CommandTimeout"
  by (simp add: completion_result_cases)

lemma submit_queue_at:
  assumes "submit_and_wait d timeout cmd q w = Some (Ret (r, q', w'))" and "queue_at s c q"
  shows "queue_at (Suc s) (c + consumed r) q'"
proof -
  have "q_depth q \<noteq> 0" using assms(2) by (simp add: queue_at_def)
  from assms(1) this show ?thesis
    by (cases rule: submit_cases)
      (use assms(2) in \<open>auto simp: consumed_def intro: queue_at_submit queue_at_consume\<close>)
qed

text \<open>
  A timeout desynchronises the queue for good when the controller posts its completions in the order of
  submission (which the interface does not promise). Once fewer completions were consumed than commands
  submitted, and the next entry is that of command number \<open>c\<close>, every further command whose wait ends in time is answered with \<open>UnexpectedCid\<close>,
  though the controller may have executed it successfully, and the gap never closes.
\<close>

theorem nvme_timeout_desyncs:
  assumes "queue_at s c q" and "c < s" and "s - c < 2 ^ 16"
    and "submit_and_wait d timeout cmd q w = Some (Ret (r, q', w'))"
    and "completed q w' \<Longrightarrow> ucast (head_dw3 q w') = (of_nat c :: u16)"
  shows "(r = Inl CommandTimeout \<or> r = Inl UnexpectedCid) \<and>
    (\<exists>c'. queue_at (Suc s) c' q' \<and> s - c \<le> Suc s - c' \<and> c' < Suc s)"
proof -
  have d: "q_depth q \<noteq> 0" "q_next_cid q = of_nat s" using assms(1) by (simp_all add: queue_at_def)
  have ne: "(of_nat c :: u16) \<noteq> of_nat s"
  proof
    assume "(of_nat c :: u16) = of_nat s"
    then have "unat (of_nat c :: u16) = unat (of_nat s :: u16)" by simp
    then have "c mod 65536 = s mod 65536" by (simp add: unat_of_nat take_bit_eq_mod)
    then have "65536 dvd s - c" using assms(2) mod_eq_dvd_iff_nat [of c s 65536] by simp
    moreover have "0 < s - c" "s - c < 65536" using assms(2,3) by simp_all
    ultimately show False by (simp add: nat_dvd_not_less)
  qed
  have at: "queue_at (Suc s) (c + consumed r) q'" by (rule submit_queue_at [OF assms(4,1)])
  have "r = Inl CommandTimeout \<or> r = Inl UnexpectedCid"
    using assms(4) d(1)
  proof (cases rule: submit_cases)
    case (answered v)
    have "head_dw3 q w' = head_dw3 q v" "completed q w'" using answered by simp_all
    then have "ucast (head_dw3 q v) = (of_nat c :: u16)" using assms(5) by simp
    then show ?thesis using answered(1) ne d(2) by (simp add: completion_result_cases)
  qed auto
  moreover have "c + consumed r < Suc s" "s - c \<le> Suc s - (c + consumed r)"
    using assms(2) by (auto simp: consumed_def)
  ultimately show ?thesis using at by blast
qed

text \<open>Command 0 has timed out; the controller answers it while command 1 waits.\<close>

definition demo_desynced :: io_queue_state where
  "demo_desynced = queue_submit demo_queue"

lemma demo_nvme_posts: "head_dw3 demo_desynced (observe (demo_nvme 0) v) = 0x10000"
proof -
  have "read_bytes (write_bytes m 0x40100C (le32 0x10000)) 0x40100C 4 = le32 0x10000" for m
    using read_write_same [of "le32 0x10000" m "0x40100C"] by simp
  then have "load32 (write_bytes m 0x40100C (le32 0x10000)) 0x40100C = 0x10000" for m
    by (simp add: load32_def)
  then show ?thesis
    by (simp add: head_dw3_def observe_def demo_nvme_def demo_desynced_def demo_queue_def cq_entry_def)
qed

lemma demo_at: "queue_at 1 0 demo_desynced"
  unfolding demo_desynced_def One_nat_def by (rule queue_at_submit) (simp add: queue_at_def demo_queue_def)

lemma nvme_timeout_desyncs_witness:
  "\<exists>r q' w'. submit_and_wait (demo_nvme 0) 500 (build_rw_cmd 2 1 1 5 0 0x402000) demo_desynced demo_nvme_world =
      Some (Ret (r, q', w')) \<and> (r = Inl CommandTimeout \<or> r = Inl UnexpectedCid) \<and> bit (head_dw3 demo_desynced w') 16"
proof -
  have d: "q_depth demo_desynced \<noteq> 0" by (simp add: demo_desynced_def demo_queue_def)
  have "nv_now demo_nvme_world < 50" "nv_ms (demo_nvme 0) demo_nvme_world + 500 \<le> ne_ms (demo_nvme 0) 50"
    by (simp_all add: demo_nvme_world_def demo_nvme_def nv_ms_def)
  from submit_returns [OF d this] obtain r q' w' where s:
    "submit_and_wait (demo_nvme 0) 500 (build_rw_cmd 2 1 1 5 0 0x402000) demo_desynced demo_nvme_world = Some (Ret (r, q', w'))"
    by blast
  have h: "head_dw3 demo_desynced w' = 0x10000"
    using s d by (cases rule: submit_cases) (auto simp: demo_nvme_posts)
  have "r = Inl CommandTimeout \<or> r = Inl UnexpectedCid"
    using nvme_timeout_desyncs [OF demo_at _ _ s] h by simp
  moreover have "bit (0x10000 :: u32) 16" by simp
  ultimately show ?thesis using s h by auto
qed

section \<open>The driver once the admin queue is up\<close>

text \<open>The clock keeps passing every deadline that the driver sets.\<close>

definition clock_runs :: "nvme_env \<Rightarrow> bool" where
  "clock_runs d \<longleftrightarrow> (\<forall>n. \<exists>m > n. ne_ms d n + cap_timeout_ms d \<le> ne_ms d m)"

definition queue_valid :: "'z nvme_queue_scheme \<Rightarrow> bool" where
  "queue_valid q \<longleftrightarrow> (\<exists>s c. c \<le> s \<and> queue_at s c q)"

lemma queue_valid_start: "queue_at 0 0 q \<Longrightarrow> queue_valid q"
  by (auto simp: queue_valid_def)

text \<open>Both queues are consistent, the I/O queue exists only beside the admin queue, and the frames in
  use are exactly \<open>F\<close>.\<close>

definition nvme_up :: "u64 set \<Rightarrow> nvme_world \<Rightarrow> bool" where
  "nvme_up F w \<longleftrightarrow> (\<exists>st. ADMIN_QUEUE w = Some st \<and> queue_valid st) \<and>
     (\<forall>st. IO_QUEUE w = Some st \<longrightarrow> queue_valid st) \<and> pmm_owns (m_pmm (nv_mach w)) F"

text \<open>Total correctness of a driver call: it returns, without panic, in a state that satisfies \<open>Q\<close>.\<close>

definition nv_post :: "'a nvme_result \<Rightarrow> (nvme_error + 'a \<Rightarrow> nvme_world \<Rightarrow> bool) \<Rightarrow> bool" where
  "nv_post c Q \<longleftrightarrow> (\<exists>r w. c = Some (Ret (r, w)) \<and> Q r w)"

named_theorems nv_rules

lemma nv_post_ok [nv_rules]: "Q (Inr x) w \<Longrightarrow> nv_post (nv_ok x w) Q"
  by (simp add: nv_post_def nv_ok_def)

lemma nv_post_err [nv_rules]: "Q (Inl e) w \<Longrightarrow> nv_post (nv_err e w) Q"
  by (simp add: nv_post_def nv_err_def)

lemma nv_post_bind:
  assumes "nv_post c R" and "\<And>e w. R (Inl e) w \<Longrightarrow> Q (Inl e) w" and "\<And>x w. R (Inr x) w \<Longrightarrow> nv_post (f x w) Q"
  shows "nv_post (nv_bind c f) Q"
proof -
  obtain r w where c: "c = Some (Ret (r, w))" "R r w" using assms(1) by (auto simp: nv_post_def)
  then show ?thesis using assms(2,3) by (cases r) (auto simp: nv_bind_def nv_post_def)
qed

lemma nv_post_mono: "nv_post c R \<Longrightarrow> (\<And>r w. R r w \<Longrightarrow> Q r w) \<Longrightarrow> nv_post c Q"
  by (auto simp: nv_post_def)

lemma nvme_up_mem [simp]: "nvme_up F (nv_mem f w) = nvme_up F w"
  by (simp add: nvme_up_def)

lemma nv_alloc_post:
  assumes "nvme_up F w" and "n < 2 ^ 40"
  shows "nv_post (nv_alloc n w) (\<lambda>r w'. nv_mmio w' = nv_mmio w \<and> nv_now w' = nv_now w \<and>
    ADMIN_QUEUE w' = ADMIN_QUEUE w \<and> IO_QUEUE w' = IO_QUEUE w \<and> m_mem (nv_mach w') = m_mem (nv_mach w) \<and>
    (case r of Inl e \<Rightarrow> e = AllocFailed \<and> nvme_up F w'
     | Inr f \<Rightarrow> frames_from f n \<inter> F = {} \<and> nvme_up (F \<union> frames_from f n) w'))"
proof -
  obtain r p' where a: "pmm_alloc_contiguous n (m_pmm (nv_mach w)) = (r, p')" by (cases "pmm_alloc_contiguous n (m_pmm (nv_mach w))")
  have own: "pmm_owns (m_pmm (nv_mach w)) F" using assms(1) by (simp add: nvme_up_def)
  from pmm_owns_contiguous [OF own assms(2) a] assms(1) show ?thesis
    by (cases r) (auto simp: nv_alloc_def alloc_contiguous_frames_def a nv_ok_def nv_err_def nv_post_def nvme_up_def)
qed

text \<open>One bounce page: afterwards it is in use and belongs to nobody else.\<close>

lemma nv_alloc_one:
  assumes "nvme_up F w"
    and "\<And>w'. ADMIN_QUEUE w' = ADMIN_QUEUE w \<Longrightarrow> IO_QUEUE w' = IO_QUEUE w \<Longrightarrow> nvme_up F w' \<Longrightarrow> Q (Inl AllocFailed) w'"
    and "\<And>buf w'. ADMIN_QUEUE w' = ADMIN_QUEUE w \<Longrightarrow> IO_QUEUE w' = IO_QUEUE w \<Longrightarrow> buf \<notin> F \<Longrightarrow>
        nvme_up (insert buf F) w' \<Longrightarrow> nv_post (f buf w') Q"
  shows "nv_post (nv_bind (nv_alloc 1 w) f) Q"
proof -
  have one: "1 < (2 :: nat) ^ 40" by simp
  show ?thesis
    by (rule nv_post_bind [OF nv_alloc_post [OF assms(1) one]]) (use assms(2,3) in \<open>simp_all add: frames_from_1 [unfolded One_nat_def]\<close>)
qed

lemma submit_post:
  assumes "queue_valid q" and "clock_runs d"
  shows "\<exists>r q' w'. submit_and_wait d (cap_timeout_ms d) cmd q w = Some (Ret (r, q', w')) \<and> queue_valid q' \<and>
     r \<noteq> Inl AllocFailed \<and> ADMIN_QUEUE w' = ADMIN_QUEUE w \<and> IO_QUEUE w' = IO_QUEUE w \<and>
     m_pmm (nv_mach w') = m_pmm (nv_mach w)"
proof -
  obtain s c where q: "c \<le> s" "queue_at s c q" using assms(1) by (auto simp: queue_valid_def)
  then have d: "q_depth q \<noteq> 0" by (simp add: queue_at_def)
  obtain n where n: "nv_now w < n" "nv_ms d w + cap_timeout_ms d \<le> ne_ms d n"
    using assms(2) by (auto simp: clock_runs_def nv_ms_def)
  obtain r q' w' where s: "submit_and_wait d (cap_timeout_ms d) cmd q w = Some (Ret (r, q', w'))"
    using submit_returns [OF d n] by blast
  have at: "queue_at (Suc s) (c + consumed r) q'" by (rule submit_queue_at [OF s q(2)])
  have "c + consumed r \<le> Suc s" using q(1) by (simp add: consumed_def)
  then have "queue_valid q'" using at by (auto simp: queue_valid_def)
  moreover have "r \<noteq> Inl AllocFailed \<and> ADMIN_QUEUE w' = ADMIN_QUEUE w \<and> IO_QUEUE w' = IO_QUEUE w \<and>
     m_pmm (nv_mach w') = m_pmm (nv_mach w)"
    using s d by (cases rule: submit_cases) (auto simp: waited_def submitted_def completion_result_cases)
  ultimately show ?thesis using s by blast
qed

lemma submit_admin_post:
  assumes "nvme_up F w" and "ADMIN_QUEUE w = Some st" and "clock_runs d"
  shows "nv_post (submit_admin_and_wait d cmd st w)
    (\<lambda>r w'. r \<noteq> Inl AllocFailed \<and> nvme_up F w' \<and> IO_QUEUE w' = IO_QUEUE w)"
proof -
  have "queue_valid st" using assms(1,2) by (simp add: nvme_up_def)
  from submit_post [OF this assms(3), of cmd w] assms(1) show ?thesis
    by (auto simp: submit_admin_and_wait_def nv_post_def nvme_up_def)
qed

lemma submit_io_post:
  assumes "nvme_up F w" and "IO_QUEUE w = Some st" and "clock_runs d"
  shows "nv_post (submit_io_and_wait d (cap_timeout_ms d) cmd st w)
    (\<lambda>r w'. r \<noteq> Inl AllocFailed \<and> nvme_up F w' \<and> IO_QUEUE w' \<noteq> None)"
proof -
  have "queue_valid st" using assms(1,2) by (simp add: nvme_up_def)
  from submit_post [OF this assms(3), of cmd w] assms(1) show ?thesis
    by (auto simp: submit_io_and_wait_def nv_post_def nvme_up_def)
qed

lemma with_admin_up: "nvme_up F w \<Longrightarrow> (\<And>st. ADMIN_QUEUE w = Some st \<Longrightarrow> nv_post (f st w) Q) \<Longrightarrow> nv_post (with_admin f w) Q"
  by (auto simp: with_admin_def nvme_up_def)

lemma ensure_admin_up [simp]: "nvme_up F w \<Longrightarrow> ensure_admin_queue d w = nv_ok () w"
  by (auto simp: ensure_admin_queue_def nvme_up_def)

lemma nv_bind_ok [simp]: "nv_bind (nv_ok x w) f = f x w"
  by (simp add: nv_bind_def nv_ok_def)

lemma io_timeout_up [simp]: "nvme_up F w \<Longrightarrow> io_timeout_ms d w = Ret (cap_timeout_ms d)"
  by (auto simp: io_timeout_ms_def nvme_up_def)

text \<open>An Identify keeps its page too.\<close>

lemma identify_post:
  assumes "nvme_up F w" and "clock_runs d"
  shows "nv_post (identify d nsid cns w) (\<lambda>r w'. IO_QUEUE w' = IO_QUEUE w \<and>
    (r = Inl AllocFailed \<and> nvme_up F w' \<or> (\<exists>buf. buf \<notin> F \<and> nvme_up (insert buf F) w')))"
  unfolding identify_def ensure_admin_up [OF assms(1)] nv_bind_ok Let_def
proof (rule with_admin_up [OF assms(1)], rule nv_alloc_one [OF assms(1)])
  fix st buf w'
  assume st: "ADMIN_QUEUE w = Some st" and h: "ADMIN_QUEUE w' = ADMIN_QUEUE w" "IO_QUEUE w' = IO_QUEUE w"
    "buf \<notin> F" "nvme_up (insert buf F) w'"
  have up: "nvme_up (insert buf F) (nv_mem f w')" "ADMIN_QUEUE (nv_mem f w') = Some st" for f
    using st h by simp_all
  show "nv_post (nv_bind (submit_admin_and_wait d (build_identify_cmd (q_next_cid st) nsid cns buf) st
        (nv_mem (\<lambda>m. zero_bytes m buf 0x1000) w')) (\<lambda>_ w5. nv_ok (read_bytes (m_mem (nv_mach w5)) buf 0x1000) w5))
    (\<lambda>r w'. IO_QUEUE w' = IO_QUEUE w \<and>
      (r = Inl AllocFailed \<and> nvme_up F w' \<or> (\<exists>buf. buf \<notin> F \<and> nvme_up (insert buf F) w')))"
    by (rule nv_post_bind [OF submit_admin_post [OF up assms(2)]]) (use h(2,3) in \<open>auto intro!: nv_rules\<close>)
qed auto

lemma transfer_post:
  assumes "nvme_up F w" and "IO_QUEUE w \<noteq> None" and "clock_runs d" and "transfer_size_ok block_size n"
  shows "nv_post (io_transfer d opcode nsid lba block_size n fill w) (\<lambda>r w'. IO_QUEUE w' \<noteq> None \<and>
    (r = Inl AllocFailed \<and> nvme_up F w' \<or> (\<exists>buf. buf \<notin> F \<and> nvme_up (insert buf F) w')))"
proof -
  have e: "ensure_io_queue d nsid w = nv_ok () w" using assms(2) by (auto simp: ensure_io_queue_def)
  have s: "(\<not> transfer_size_ok block_size n) = False" using assms(4) by simp
  show ?thesis
    unfolding io_transfer_def e nv_bind_ok Let_def s if_False
  proof (rule nv_alloc_one [OF assms(1)])
    fix buf w2
    let ?w3 = "nv_mem (\<lambda>m. write_bytes (zero_bytes m buf 0x1000) buf fill) w2"
    assume h: "ADMIN_QUEUE w2 = ADMIN_QUEUE w" "IO_QUEUE w2 = IO_QUEUE w" "buf \<notin> F" "nvme_up (insert buf F) w2"
    then have up: "nvme_up (insert buf F) ?w3" by simp
    obtain st where st: "IO_QUEUE ?w3 = Some st" using h(2) assms(2) by auto
    have "nv_post (nv_bind (submit_io_and_wait d (cap_timeout_ms d) (build_rw_cmd opcode (q_next_cid st) nsid lba
           (ucast (of_nat n div block_size - 1)) buf) st ?w3) (\<lambda>_. nv_ok buf))
      (\<lambda>r w'. IO_QUEUE w' \<noteq> None \<and>
        (r = Inl AllocFailed \<and> nvme_up F w' \<or> (\<exists>buf. buf \<notin> F \<and> nvme_up (insert buf F) w')))"
      by (rule nv_post_bind [OF submit_io_post [OF up st assms(3)]]) (use h(3) in \<open>auto intro!: nv_rules\<close>)
    then show "nv_post (case io_timeout_ms d ?w3 of
         Ret timeout \<Rightarrow>
           with_io (\<lambda>st w4. nv_bind (submit_io_and_wait d timeout (build_rw_cmd opcode (q_next_cid st) nsid lba
             (ucast (of_nat n div block_size - 1)) buf) st w4) (\<lambda>_. nv_ok buf)) ?w3
       | Panic e \<Rightarrow> Some (Panic e))
      (\<lambda>r w'. IO_QUEUE w' \<noteq> None \<and>
        (r = Inl AllocFailed \<and> nvme_up F w' \<or> (\<exists>buf. buf \<notin> F \<and> nvme_up (insert buf F) w')))"
      unfolding io_timeout_up [OF up] with_io_def st by simp
  qed (use assms(2) in auto)
qed

text \<open>
  Every transfer ends and keeps a frame. With both queues up and a running clock, a read or write
  returns: a bad size is refused with nothing changed; otherwise either no frame is left, or a
  fresh frame has been taken and is still in use after the call, whether the transfer succeeded,
  failed or timed out. Nothing in the driver holds or frees these frames, so the
  machine runs out of memory after as many transfers as there are free frames. The queues stay
  consistent throughout and no \<open>expect\<close> panics.
\<close>

theorem nvme_transfers_keep_frames:
  assumes "nvme_up F w" and "IO_QUEUE w \<noteq> None" and "clock_runs d"
  shows "(\<exists>r w'. io_write_blocks d nsid lba bs data w = Some (Ret (r, w')) \<and> IO_QUEUE w' \<noteq> None \<and>
      (if transfer_size_ok bs (length data)
       then r = Inl AllocFailed \<and> nvme_up F w' \<or> (\<exists>buf. buf \<notin> F \<and> nvme_up (insert buf F) w')
       else r = Inl InvalidTransferSize \<and> w' = w)) \<and>
    (\<exists>r w'. io_read_blocks d nsid lba bs n w = Some (Ret (r, w')) \<and> IO_QUEUE w' \<noteq> None \<and>
      (if transfer_size_ok bs n
       then r = Inl AllocFailed \<and> nvme_up F w' \<or> (\<exists>buf. buf \<notin> F \<and> nvme_up (insert buf F) w')
       else r = Inl InvalidTransferSize \<and> w' = w))"
proof -
  have e: "ensure_io_queue d nsid w = nv_ok () w" using assms(2) by (auto simp: ensure_io_queue_def)
  have bad: "io_transfer d opcode nsid lba bs k fill w = nv_err InvalidTransferSize w"
    if "\<not> transfer_size_ok bs k" for opcode k fill using that by (simp add: io_transfer_def e)
  have step: "\<exists>r w'. nv_bind (io_transfer d opcode nsid lba bs k fill w) (\<lambda>buf w1. nv_ok (g buf w1) w1) = Some (Ret (r, w')) \<and>
      IO_QUEUE w' \<noteq> None \<and>
      (if transfer_size_ok bs k
       then r = Inl AllocFailed \<and> nvme_up F w' \<or> (\<exists>buf. buf \<notin> F \<and> nvme_up (insert buf F) w')
       else r = Inl InvalidTransferSize \<and> w' = w)" for opcode k fill and g :: "u64 \<Rightarrow> nvme_world \<Rightarrow> 'x"
  proof (cases "transfer_size_ok bs k")
    case True
    have "nv_post (nv_bind (io_transfer d opcode nsid lba bs k fill w) (\<lambda>buf w1. nv_ok (g buf w1) w1))
      (\<lambda>r w'. IO_QUEUE w' \<noteq> None \<and>
        (r = Inl AllocFailed \<and> nvme_up F w' \<or> (\<exists>buf. buf \<notin> F \<and> nvme_up (insert buf F) w')))"
      by (rule nv_post_bind [OF transfer_post [OF assms True]]) (auto intro!: nv_rules)
    then show ?thesis using True by (simp add: nv_post_def)
  next
    case False
    then show ?thesis using bad [OF False] assms(2) by (simp add: nv_bind_def nv_err_def)
  qed
  show ?thesis unfolding io_write_blocks_def io_read_blocks_def by (intro conjI step)
qed

definition demo_up_world :: nvme_world where
  "demo_up_world = demo_nvme_world\<lparr>ADMIN_QUEUE := Some
     \<lparr>q_sq = 0x403000, q_cq = 0x404000, q_tail = 0, q_head = 0, q_phase = True, q_depth = 64,
      q_sq_db = 0xFEB01000, q_cq_db = 0xFEB01004, q_next_cid = 0, aq_regs = 0xFEB00000\<rparr>\<rparr>"

lemma demo_up: "nvme_up {} demo_up_world"
proof -
  show ?thesis
    using owns_pmm [OF demo_owns]
    by (auto simp: nvme_up_def demo_up_world_def demo_nvme_world_def demo_queue_def queue_at_def intro!: queue_valid_start)
qed

lemma demo_clock: "clock_runs (demo_nvme k)"
proof -
  have "ne_ms (demo_nvme k) (n + 18446744073709551616) = - 1" for n by (simp add: demo_nvme_def)
  then have "\<exists>m > n. x \<le> ne_ms (demo_nvme k) m" for n x
    by (intro exI [of _ "n + 18446744073709551616"]) simp
  then show ?thesis by (simp add: clock_runs_def)
qed

lemma nvme_transfers_keep_frames_witness:
  "\<exists>r w'. io_write_blocks (demo_nvme 0) 1 5 512 (replicate 512 7) demo_up_world = Some (Ret (r, w')) \<and>
     (r = Inl AllocFailed \<and> nvme_up {} w' \<or> (\<exists>buf. nvme_up {buf} w'))"
proof -
  have io: "IO_QUEUE demo_up_world \<noteq> None" by (simp add: demo_up_world_def demo_nvme_world_def)
  have "transfer_size_ok 512 512" by (simp add: transfer_size_ok_def)
  then show ?thesis
    using nvme_transfers_keep_frames [OF demo_up io demo_clock, where nsid = 1 and lba = 5 and bs = 512
        and data = "replicate 512 7"] by fastforce
qed

end
