(* ===== verification/ShellParser.thy ===== *)
theory ShellParser
  imports Main
begin

text \<open>
  The command parser of the user shell (\<open>shell/src/parser.rs\<close>): tokens, then pipelines of commands
  with redirections. Text is ASCII (\<open>string\<close>), the environment is an argument. The tokeniser's
  loop is one recursive function over the characters left, with the word being collected as a
  parameter; the parser's loop is a fold over the tokens with the source's local variables as a record.
  The theorems show that a printed script is read back, whatever its quoted words contain, and
  where the parser departs from what its documentation promises.
\<close>

type_synonym env = "string \<Rightarrow> string option"

datatype redirect = Inherit | File string | Append string | Fd int | Pipe

record command =
  argv :: "string list"
  stdin :: redirect
  stdout :: redirect
  stderr :: redirect
  bg :: bool

type_synonym pipeline = "command list"
type_synonym script = "pipeline list"

datatype tok = Word string | PipeTok | Semi | Amp | Redir string | Newline

section \<open>Tokens\<close>

definition is_word_char :: "char \<Rightarrow> bool" where
  "is_word_char c \<longleftrightarrow>
     (let n = of_char c :: nat
      in (97 \<le> n \<and> n \<le> 122) \<or> (65 \<le> n \<and> n \<le> 90) \<or> (48 \<le> n \<and> n \<le> 57) \<or> c = CHR ''_'')"

text \<open>What \<open>for c in chars.by_ref()\<close> up to a stop character takes, and what it leaves after it.\<close>

fun split_at_char :: "char \<Rightarrow> string \<Rightarrow> string \<times> string" where
  "split_at_char stop [] = ([], [])"
| "split_at_char stop (c # cs) =
     (if c = stop then ([], cs) else case split_at_char stop cs of (a, r) \<Rightarrow> (c # a, r))"

definition read_var_name :: "string \<Rightarrow> string \<times> string" where
  "read_var_name cs =
     (case cs of
        c # r \<Rightarrow> if c = CHR ''{'' then split_at_char (CHR ''}'') r else (takeWhile is_word_char cs, dropWhile is_word_char cs)
      | [] \<Rightarrow> ([], []))"

definition ends_word :: "char \<Rightarrow> bool" where
  "ends_word c \<longleftrightarrow> c \<in> {CHR '' '', CHR 0x09, CHR 0x0A, CHR '';'', CHR ''|'', CHR ''&''}"

definition read_word :: "string \<Rightarrow> string \<times> string" where
  "read_word cs = (takeWhile (\<lambda>c. \<not> ends_word c) cs, dropWhile (\<lambda>c. \<not> ends_word c) cs)"

definition skip_spaces :: "string \<Rightarrow> string" where
  "skip_spaces cs = dropWhile (\<lambda>c. c = CHR '' '' \<or> c = CHR 0x09) cs"

lemma length_split_at_char: "length (snd (split_at_char stop cs)) \<le> length cs"
  by (induction stop cs rule: split_at_char.induct) (auto split: prod.splits)

lemma length_read_var_name: "length (snd (read_var_name cs)) \<le> length cs"
  using length_split_at_char by (auto simp: read_var_name_def length_dropWhile_le le_SucI split: list.splits)

lemma length_read_word: "length (snd (read_word cs)) \<le> length cs"
  by (simp add: read_word_def length_dropWhile_le)

lemma length_skip_spaces: "length (skip_spaces cs) \<le> length cs"
  by (simp add: skip_spaces_def length_dropWhile_le)

text \<open>The text of a double-quoted string with its variables expanded, and what follows it.\<close>

function double_quoted :: "env \<Rightarrow> string \<Rightarrow> string \<times> string" where
  "double_quoted env [] = ([], [])"
| "double_quoted env (c # cs) =
     (if c = CHR 0x22 then ([], cs)
      else if c = CHR ''$'' then
        (case read_var_name cs of (var, r) \<Rightarrow>
           (case double_quoted env r of (s, rest) \<Rightarrow>
              ((case env var of Some v \<Rightarrow> v | None \<Rightarrow> []) @ s, rest)))
      else (case double_quoted env cs of (s, rest) \<Rightarrow> (c # s, rest)))"
  by pat_completeness auto
termination
  by (relation "measure (length \<circ> snd)") (auto, metis le_imp_less_Suc length_read_var_name snd_conv)

lemma length_double_quoted: "length (snd (double_quoted env cs)) \<le> length cs"
proof (induction env cs rule: double_quoted.induct)
  case (2 env c cs)
  obtain var r where r: "read_var_name cs = (var, r)" by fastforce
  have "length r \<le> length cs" using length_read_var_name [of cs] r by simp
  then show ?case using 2 r by (auto split: prod.splits)
qed simp

text \<open>The operator that a \<open>>\<close> begins, and what follows it.\<close>

definition after_gt :: "string \<Rightarrow> string \<times> string" where
  "after_gt cs = (case cs of d # r \<Rightarrow> if d = CHR ''>'' then (''>>'', r) else (''>'', cs) | [] \<Rightarrow> (''>'', []))"

lemma length_after_gt: "length (snd (after_gt cs)) \<le> length cs"
  by (auto simp: after_gt_def split: list.splits)

lemma shorter_rest:
  "split_at_char stop cs = (a, r) \<Longrightarrow> length r \<le> length cs"
  "read_var_name cs = (a, r) \<Longrightarrow> length r \<le> length cs"
  "double_quoted env cs = (a, r) \<Longrightarrow> length r \<le> length cs"
  using length_split_at_char [of stop cs] length_read_var_name [of cs] length_double_quoted [of env cs] by simp_all

lemma shorter_redirect: "read_word (skip_spaces cs) = (a, r) \<Longrightarrow> length r \<le> length cs"
  using length_read_word [of "skip_spaces cs"] length_skip_spaces [of cs] by simp

lemma shorter_after_gt:
  "after_gt cs = (g, r1) \<Longrightarrow> read_word (skip_spaces r1) = (a, r) \<Longrightarrow> length r \<le> length cs"
  using shorter_redirect [of r1 a r] length_after_gt [of cs] by simp

definition flush :: "string \<Rightarrow> tok list" where
  "flush w = (if w \<noteq> [] then [Word w] else [])"

function tokens_from :: "env \<Rightarrow> string \<Rightarrow> string \<Rightarrow> tok list" where
  "tokens_from env w [] = flush w"
| "tokens_from env w (c # cs) =
     (if c = CHR '' '' \<or> c = CHR 0x09 then flush w @ tokens_from env [] cs
      else if c = CHR 0x0A then flush w @ Newline # tokens_from env [] cs
      else if c = CHR ''|'' then flush w @ PipeTok # tokens_from env [] cs
      else if c = CHR '';'' then flush w @ Semi # tokens_from env [] cs
      else if c = CHR ''&'' then flush w @ Amp # tokens_from env [] cs
      else if c = CHR 0x27 then (case split_at_char (CHR 0x27) cs of (s, r) \<Rightarrow> tokens_from env (w @ s) r)
      else if c = CHR 0x22 then (case double_quoted env cs of (s, r) \<Rightarrow> tokens_from env (w @ s) r)
      else if c = CHR ''>'' then
        (case after_gt cs of (redir, r1) \<Rightarrow>
           (case read_word (skip_spaces r1) of
              (file, r) \<Rightarrow> flush w @ Redir (redir @ file) # tokens_from env [] r))
      else if c = CHR ''<'' then
        (case read_word (skip_spaces cs) of (file, r) \<Rightarrow> flush w @ Redir (''<'' @ file) # tokens_from env [] r)
      else if c = CHR ''#'' then (case split_at_char (CHR 0x0A) cs of (_, r) \<Rightarrow> flush w @ tokens_from env [] r)
      else if c = CHR ''$'' then
        (case read_var_name cs of (var, r) \<Rightarrow>
           tokens_from env (w @ (case env var of Some v \<Rightarrow> v | None \<Rightarrow> ''$'' @ var)) r)
      else if c = CHR 0x5C then
        (case cs of [] \<Rightarrow> flush w | d # r \<Rightarrow> tokens_from env (if d \<noteq> CHR 0x0A then w @ [d] else w) r)
      else tokens_from env (w @ [c]) cs)"
  by pat_completeness auto
termination
proof (relation "measure (\<lambda>(_, _, cs). length cs)", goal_cases)
  case (9 env w c cs x y xa ya)
  show ?case using shorter_after_gt [OF 9(9) [symmetric] 9(10) [symmetric]] by simp
next
  case (10 env w c cs x y)
  show ?case using shorter_redirect [OF 10(10) [symmetric]] by simp
qed (auto simp: less_Suc_eq_le dest: shorter_rest [OF sym])

definition tokenise :: "env \<Rightarrow> string \<Rightarrow> tok list" where
  "tokenise env input = tokens_from env [] input"

section \<open>Commands and pipelines\<close>

record parse_state =
  ps_pipelines :: "pipeline list"
  ps_stages :: "command list"
  ps_argv :: "string list"
  ps_stdin :: redirect
  ps_stdout :: redirect
  ps_stderr :: redirect
  ps_bg :: bool

definition parse_start :: parse_state where
  "parse_start =
     \<lparr>ps_pipelines = [], ps_stages = [], ps_argv = [], ps_stdin = Inherit, ps_stdout = Inherit,
      ps_stderr = Inherit, ps_bg = False\<rparr>"

definition push_cmd :: "parse_state \<Rightarrow> parse_state" where
  "push_cmd p =
     (if ps_argv p \<noteq> [] then
        p\<lparr>ps_stages := ps_stages p @
             [\<lparr>argv = ps_argv p, stdin = ps_stdin p, stdout = ps_stdout p, stderr = ps_stderr p, bg = ps_bg p\<rparr>],
          ps_argv := [], ps_stdin := Inherit, ps_stdout := Inherit, ps_stderr := Inherit, ps_bg := False\<rparr>
      else p)"

definition push_pipeline :: "parse_state \<Rightarrow> parse_state" where
  "push_pipeline p =
     (let p1 = push_cmd p
      in if ps_stages p1 \<noteq> [] then p1\<lparr>ps_pipelines := ps_pipelines p1 @ [ps_stages p1], ps_stages := []\<rparr> else p1)"

definition pipe_last :: "command list \<Rightarrow> command list" where
  "pipe_last cs = (if cs = [] then [] else butlast cs @ [(last cs)\<lparr>stdout := Pipe\<rparr>])"

fun parse_tok :: "tok \<Rightarrow> parse_state \<Rightarrow> parse_state" where
  "parse_tok (Word w) p = p\<lparr>ps_argv := ps_argv p @ [w]\<rparr>"
| "parse_tok PipeTok p =
     (let p1 = push_cmd p in p1\<lparr>ps_stages := pipe_last (ps_stages p1), ps_stdin := Pipe\<rparr>)"
| "parse_tok Semi p = push_pipeline p"
| "parse_tok Newline p = push_pipeline p"
| "parse_tok Amp p = push_pipeline (p\<lparr>ps_bg := True\<rparr>)"
| "parse_tok (Redir r) p =
     (if take 2 r = ''>>'' then p\<lparr>ps_stdout := Append (drop 2 r)\<rparr>
      else if take 1 r = ''>'' then p\<lparr>ps_stdout := File (drop 1 r)\<rparr>
      else if take 1 r = ''<'' then p\<lparr>ps_stdin := File (drop 1 r)\<rparr>
      else p)"

datatype parse_error = Empty | Unexpected string

definition parse :: "env \<Rightarrow> string \<Rightarrow> parse_error + script" where
  "parse env input =
     (let tokens = tokenise env input
      in if tokens = [] then Inl Empty
      else let p = push_pipeline (fold parse_tok tokens parse_start)
      in if ps_pipelines p = [] then Inl Empty else Inr (ps_pipelines p))"

section \<open>Printing scripts\<close>

text \<open>
  The reference for reading: words in single quotes, stages separated by \<open>|\<close>, redirections after the
  words, pipelines ended by \<open>;\<close> or \<open>&\<close>. Redirection targets are not quoted, the parser does
  not unquote them.
\<close>

definition quoted :: "string \<Rightarrow> string" where
  "quoted w = CHR 0x27 # w @ [CHR 0x27]"

fun show_in :: "redirect \<Rightarrow> string" where
  "show_in (File f) = '' <'' @ f"
| "show_in _ = []"

fun show_out :: "redirect \<Rightarrow> string" where
  "show_out (File f) = '' >'' @ f"
| "show_out (Append f) = '' >>'' @ f"
| "show_out _ = []"

definition show_command :: "command \<Rightarrow> string" where
  "show_command c = concat (map (\<lambda>w. quoted w @ '' '') (argv c)) @ show_in (stdin c) @ show_out (stdout c)"

fun show_stages :: "command list \<Rightarrow> string" where
  "show_stages [] = []"
| "show_stages [c] = show_command c @ (if bg c then '' &'' else '' ;'')"
| "show_stages (c # cs) = show_command c @ '' |'' @ show_stages cs"

definition show_script :: "script \<Rightarrow> string" where
  "show_script s = concat (map show_stages s)"

text \<open>What can be printed: words without a quote and not empty, plain targets, pipes between the stages only.\<close>

definition word_ok :: "string \<Rightarrow> bool" where
  "word_ok w \<longleftrightarrow> w \<noteq> [] \<and> CHR 0x27 \<notin> set w"

definition target_ok :: "string \<Rightarrow> bool" where
  "target_ok f \<longleftrightarrow> f \<noteq> [] \<and> hd f \<noteq> CHR ''>'' \<and> list_all (\<lambda>c. \<not> ends_word c) f"

definition stage_ok :: "bool \<Rightarrow> bool \<Rightarrow> command \<Rightarrow> bool" where
  "stage_ok first final c \<longleftrightarrow> argv c \<noteq> [] \<and> list_all word_ok (argv c) \<and> stderr c = Inherit \<and>
     (if first then stdin c = Inherit \<or> (\<exists>f. stdin c = File f \<and> target_ok f) else stdin c = Pipe) \<and>
     (if final
      then stdout c = Inherit \<or> (\<exists>f. (stdout c = File f \<or> stdout c = Append f) \<and> target_ok f)
      else stdout c = Pipe \<and> \<not> bg c)"

fun stages_ok :: "bool \<Rightarrow> command list \<Rightarrow> bool" where
  "stages_ok first [] = False"
| "stages_ok first [c] = stage_ok first True c"
| "stages_ok first (c # cs) = (stage_ok first False c \<and> stages_ok False cs)"

lemma demo_parse:
  "parse (\<lambda>_. None) ''ls -la | grep 'a b' >out.txt; cargo build &'' =
     Inr [[\<lparr>argv = [''ls'', ''-la''], stdin = Inherit, stdout = Pipe, stderr = Inherit, bg = False\<rparr>,
           \<lparr>argv = [''grep'', ''a b''], stdin = Pipe, stdout = File ''out.txt'', stderr = Inherit, bg = False\<rparr>],
          [\<lparr>argv = [''cargo'', ''build''], stdin = Inherit, stdout = Inherit, stderr = Inherit, bg = True\<rparr>]]"
  by code_simp

section \<open>Reading what was printed\<close>

fun toks_in :: "redirect \<Rightarrow> tok list" where
  "toks_in (File f) = [Redir (''<'' @ f)]"
| "toks_in _ = []"

fun toks_out :: "redirect \<Rightarrow> tok list" where
  "toks_out (File f) = [Redir (''>'' @ f)]"
| "toks_out (Append f) = [Redir (''>>'' @ f)]"
| "toks_out _ = []"

definition toks_command :: "command \<Rightarrow> tok list" where
  "toks_command c = map Word (argv c) @ toks_in (stdin c) @ toks_out (stdout c)"

fun toks_stages :: "command list \<Rightarrow> tok list" where
  "toks_stages [] = []"
| "toks_stages [c] = toks_command c @ [if bg c then Amp else Semi]"
| "toks_stages (c # cs) = toks_command c @ PipeTok # toks_stages cs"

lemma split_at_char_found: "stop \<notin> set a \<Longrightarrow> split_at_char stop (a @ stop # r) = (a, r)"
  by (induction a) auto

lemma tokens_quoted:
  "word_ok w \<Longrightarrow> tokens_from env [] (quoted w @ '' '' @ cs) = Word w # tokens_from env [] cs"
  by (simp add: quoted_def word_ok_def split_at_char_found flush_def)

lemma tokens_words:
  "list_all word_ok ws \<Longrightarrow>
     tokens_from env [] (concat (map (\<lambda>w. quoted w @ '' '') ws) @ cs) = map Word ws @ tokens_from env [] cs"
  by (induction ws) (use tokens_quoted in simp_all)

lemma read_target:
  assumes "target_ok f" and "ends_word c"
  shows "read_word (skip_spaces (f @ c # cs)) = (f, c # cs)"
proof -
  obtain d f' where f: "f = d # f'" using assms(1) by (cases f) (auto simp: target_ok_def)
  then have "\<not> ends_word d" using assms(1) by (simp add: target_ok_def)
  then have "skip_spaces (f @ c # cs) = f @ c # cs" by (auto simp: skip_spaces_def f ends_word_def)
  moreover have "\<forall>x \<in> set f. \<not> ends_word x" using assms(1) by (auto simp: target_ok_def list_all_iff)
  ultimately show ?thesis using assms(2)
    by (simp add: read_word_def takeWhile_append2 dropWhile_append2)
qed

lemma after_gt_target: "target_ok f \<Longrightarrow> after_gt (f @ cs) = (''>'', f @ cs)"
  by (cases f) (auto simp: after_gt_def target_ok_def)

lemma tokens_in:
  assumes "\<And>f. i = File f \<Longrightarrow> target_ok f" and "ends_word c"
  shows "tokens_from env [] (show_in i @ c # cs) = toks_in i @ tokens_from env [] (c # cs)"
proof (cases i)
  case (File f)
  then show ?thesis using read_target [OF assms(1) [OF File] assms(2), of cs] by (simp add: flush_def)
qed simp_all

lemma tokens_out:
  assumes "\<And>f. r = File f \<or> r = Append f \<Longrightarrow> target_ok f" and "ends_word c"
  shows "tokens_from env [] (show_out r @ c # cs) = toks_out r @ tokens_from env [] (c # cs)"
proof (cases r)
  case (File f)
  then have f: "target_ok f" using assms(1) by simp
  show ?thesis
    using read_target [OF f assms(2), of cs] after_gt_target [OF f, of "c # cs"] File by (simp add: flush_def)
next
  case (Append f)
  then have f: "target_ok f" using assms(1) by simp
  have "after_gt (CHR ''>'' # f @ c # cs) = (''>>'', f @ c # cs)" by (simp add: after_gt_def)
  then show ?thesis using read_target [OF f assms(2), of cs] Append by (simp add: flush_def)
qed simp_all

lemma tokens_command:
  assumes "stage_ok first final c" and "ends_word e"
  shows "tokens_from env [] (show_command c @ e # cs) = toks_command c @ tokens_from env [] (e # cs)"
proof -
  have w: "list_all word_ok (argv c)" using assms(1) by (simp add: stage_ok_def)
  have i: "\<And>f. stdin c = File f \<Longrightarrow> target_ok f" and r: "\<And>f. stdout c = File f \<or> stdout c = Append f \<Longrightarrow> target_ok f"
    using assms(1) by (auto simp: stage_ok_def split: if_splits)
  obtain e' cs' where s: "show_out (stdout c) @ e # cs = e' # cs'" "ends_word e'"
    by (cases "stdout c") (use assms(2) in \<open>auto simp: ends_word_def\<close>)
  have "tokens_from env [] (show_command c @ e # cs) =
      map Word (argv c) @ tokens_from env [] (show_in (stdin c) @ e' # cs')"
    by (simp add: show_command_def tokens_words [OF w] s(1))
  also have "\<dots> = map Word (argv c) @ toks_in (stdin c) @ tokens_from env [] (show_out (stdout c) @ e # cs)"
    by (simp only: tokens_in [OF i s(2)] s(1))
  also have "\<dots> = toks_command c @ tokens_from env [] (e # cs)"
    by (simp only: tokens_out [OF r assms(2)] toks_command_def append_assoc)
  finally show ?thesis .
qed

lemma tokens_stages:
  "stages_ok first cs \<Longrightarrow> tokens_from env [] (show_stages cs @ rest) = toks_stages cs @ tokens_from env [] rest"
proof (induction first cs rule: stages_ok.induct)
  case (2 first c)
  then have s: "stage_ok first True c" by simp
  have e: "ends_word (CHR '' '')" by (simp add: ends_word_def)
  show ?case using tokens_command [OF s e, of env "(if bg c then ''&'' else '';'') @ rest"]
    by (cases "bg c") (simp_all add: flush_def)
next
  case (3 first c c' cs)
  then have s: "stage_ok first False c" by simp
  have e: "ends_word (CHR '' '')" by (simp add: ends_word_def)
  show ?case using tokens_command [OF s e, of env "''|'' @ show_stages (c' # cs) @ rest"] 3
    by (simp add: flush_def)
qed simp

lemma tokens_script:
  "list_all (stages_ok True) s \<Longrightarrow> tokenise env (show_script s) = concat (map toks_stages s)"
  unfolding tokenise_def show_script_def
  by (induction s) (simp_all add: tokens_stages [where first = True] flush_def)

text \<open>The parser between two commands: what is complete so far, and where the next command reads from.\<close>

definition between :: "pipeline list \<Rightarrow> command list \<Rightarrow> redirect \<Rightarrow> parse_state" where
  "between ps st i =
     \<lparr>ps_pipelines = ps, ps_stages = st, ps_argv = [], ps_stdin = i, ps_stdout = Inherit,
      ps_stderr = Inherit, ps_bg = False\<rparr>"

lemma fold_words: "fold parse_tok (map Word ws) p = p\<lparr>ps_argv := ps_argv p @ ws\<rparr>"
  by (induction ws arbitrary: p) simp_all

definition after_words :: "pipeline list \<Rightarrow> command list \<Rightarrow> command \<Rightarrow> redirect \<Rightarrow> parse_state" where
  "after_words ps st c out = \<lparr>ps_pipelines = ps, ps_stages = st, ps_argv = argv c, ps_stdin = stdin c, ps_stdout = out,
     ps_stderr = Inherit, ps_bg = False\<rparr>"

lemma fold_command:
  assumes "stage_ok first final c"
  shows "fold parse_tok (toks_command c) (between ps st (if first then Inherit else Pipe)) =
    after_words ps st c (if final then stdout c else Inherit)"
proof -
  have "take (Suc 0) f \<noteq> ''>''" if "target_ok f" for f
    using that by (cases f) (auto simp: target_ok_def)
  then show ?thesis
    using assms
    by (cases "stdin c"; cases "stdout c")
      (auto simp: toks_command_def fold_words between_def after_words_def stage_ok_def split: if_splits)
qed

lemma command_eta:
  "\<lparr>argv = argv c, stdin = stdin c, stdout = stdout c, stderr = stderr c, bg = bg c\<rparr> = (c :: command)"
  by simp

lemma fold_stages:
  "stages_ok first cs \<Longrightarrow>
     fold parse_tok (toks_stages cs) (between ps st (if first then Inherit else Pipe)) =
     between (ps @ [st @ cs]) [] Inherit"
proof (induction first cs arbitrary: st rule: stages_ok.induct)
  case (2 first c)
  then have s: "stage_ok first True c" by simp
  then have a: "argv c \<noteq> []" "stderr c = Inherit" by (simp_all add: stage_ok_def)
  have c: "\<lparr>argv = argv c, stdin = stdin c, stdout = stdout c, stderr = Inherit, bg = b\<rparr> = c" if "bg c = b" for b
    using command_eta [of c] a that by simp
  have "parse_tok (if bg c then Amp else Semi) (after_words ps st c (stdout c)) = between (ps @ [st @ [c]]) [] Inherit"
    by (cases "bg c") (simp_all add: after_words_def push_pipeline_def push_cmd_def a between_def c)
  then show ?case by (simp add: fold_command [OF s])
next
  case (3 first c c' cs)
  then have s: "stage_ok first False c" and r: "stages_ok False (c' # cs)" by simp_all
  then have a: "argv c \<noteq> []" "stderr c = Inherit" "stdout c = Pipe" "\<not> bg c" by (simp_all add: stage_ok_def)
  have c: "\<lparr>argv = argv c, stdin = stdin c, stdout = Pipe, stderr = Inherit, bg = False\<rparr> = c"
    using command_eta [of c] a by simp
  have "parse_tok PipeTok (after_words ps st c Inherit) = between ps (st @ [c]) Pipe"
    by (simp add: after_words_def push_cmd_def a between_def pipe_last_def c)
  then have "fold parse_tok (toks_stages (c # c' # cs)) (between ps st (if first then Inherit else Pipe)) =
      fold parse_tok (toks_stages (c' # cs)) (between ps (st @ [c]) Pipe)"
    by (simp add: fold_command [OF s])
  also have "\<dots> = between (ps @ [(st @ [c]) @ c' # cs]) [] Inherit" using "3.IH" [OF r, of "st @ [c]"] by simp
  finally show ?case by simp
qed simp

lemma fold_script:
  "list_all (stages_ok True) s \<Longrightarrow>
     fold parse_tok (concat (map toks_stages s)) (between ps [] Inherit) = between (ps @ s) [] Inherit"
proof (induction s arbitrary: ps)
  case (Cons cs s)
  then show ?case using fold_stages [of True cs ps "[]"] by simp
qed simp

lemma parse_show_script:
  assumes "s \<noteq> []" and "list_all (stages_ok True) s"
  shows "parse env (show_script s) = Inr s"
proof -
  have f: "fold parse_tok (concat (map toks_stages s)) parse_start = between s [] Inherit"
    using fold_script [OF assms(2), of "[]"] by (simp add: between_def parse_start_def)
  obtain cs s' where s: "s = cs # s'" "stages_ok True cs" using assms by (cases s) auto
  have "concat (map toks_stages s) \<noteq> []"
    using s by (cases cs rule: toks_stages.cases) auto
  moreover have "push_pipeline (between s [] Inherit) = between s [] Inherit"
    by (simp add: push_pipeline_def push_cmd_def between_def)
  ultimately show ?thesis
    using assms(1) by (simp add: parse_def tokens_script [OF assms(2)] f between_def)
qed

text \<open>
  C26. Printing a script and parsing it gives the script back, in any environment: arguments in
  single quotes arrive whole whatever they contain (spaces, separators, redirection signs, variables,
  comments, line breaks), so quoting cannot be escaped; pipes, redirections and background marks
  are attached to the commands they stand at.
\<close>

theorem shell_parse_roundtrip:
  assumes "s \<noteq> []" and "list_all (stages_ok True) s"
  shows "parse env (show_script s) = Inr s"
  using assms by (rule parse_show_script)

lemma shell_parse_roundtrip_witness:
  "parse (\<lambda>_. None) (show_script [[\<lparr>argv = [''rm'', ''a; rm -rf $HOME | x''], stdin = Inherit, stdout = File ''log'',
     stderr = Inherit, bg = True\<rparr>]]) =
   Inr [[\<lparr>argv = [''rm'', ''a; rm -rf $HOME | x''], stdin = Inherit, stdout = File ''log'',
     stderr = Inherit, bg = True\<rparr>]]"
  by (rule shell_parse_roundtrip)
    (simp_all add: stage_ok_def word_ok_def target_ok_def ends_word_def)

text \<open>
  Where the parser departs from what it documents, for every rest of the input. A comment swallows
  the end of its line, so the next line's words become arguments of the command before it. A redirection
  without a command stays pending and is applied to the next command. \<open>2>&1\<close> redirects to a
  file with an empty name, in the background, and runs a command \<open>1\<close>. Command substitution is not
  performed. An empty quoted argument disappears.
\<close>

theorem shell_parse_deviations:
  "tokenise (\<lambda>_. None) (''ls #x'' @ CHR 0x0A # rest) = Word ''ls'' # tokenise (\<lambda>_. None) rest \<and>
   parse (\<lambda>_. None) ''>f ; ls'' =
     Inr [[\<lparr>argv = [''ls''], stdin = Inherit, stdout = File ''f'', stderr = Inherit, bg = False\<rparr>]] \<and>
   parse (\<lambda>_. None) ''cmd 2>&1'' =
     Inr [[\<lparr>argv = [''cmd'', ''2''], stdin = Inherit, stdout = File [], stderr = Inherit, bg = True\<rparr>],
          [\<lparr>argv = [''1''], stdin = Inherit, stdout = Inherit, stderr = Inherit, bg = False\<rparr>]] \<and>
   parse (\<lambda>_. None) ''echo $(date)'' =
     Inr [[\<lparr>argv = [''echo'', ''$(date)''], stdin = Inherit, stdout = Inherit, stderr = Inherit, bg = False\<rparr>]] \<and>
   parse (\<lambda>_. None) (''touch '' @ [CHR 0x27, CHR 0x27] @ '' x'') =
     Inr [[\<lparr>argv = [''touch'', ''x''], stdin = Inherit, stdout = Inherit, stderr = Inherit, bg = False\<rparr>]]"
  by (intro conjI) (simp add: tokenise_def flush_def, code_simp+)

end
