(* ===== verification/ShellHistory.thy ===== *)
theory ShellHistory
  imports Main "HOL-Library.Sublist"
begin

text \<open>
  The command history of the user shell (\<open>shell/src/history.rs\<close>): trimmed, without consecutive
  duplicates, at most \<open>h_max\<close> entries, the oldest evicted. The file's contents are a string; the path
  and the asynchronous file calls are left out. Text is ASCII. The lemmas show the bound, that the history is the most
  recent part of what was entered, and that saving and loading keeps it.
\<close>

record history =
  h_entries :: "string list"
  h_max :: nat

definition is_space :: "char \<Rightarrow> bool" where
  "is_space c \<longleftrightarrow> (let n = of_char c :: nat in n = 32 \<or> (9 \<le> n \<and> n \<le> 13))"

definition trim :: "string \<Rightarrow> string" where
  "trim s = rev (dropWhile is_space (rev (dropWhile is_space s)))"

text \<open>\<open>str::lines\<close>: split after each line feed, without it and without a carriage return before it.\<close>

definition strip_cr :: "string \<Rightarrow> string" where
  "strip_cr l = (if l \<noteq> [] \<and> last l = CHR 0x0D then butlast l else l)"

fun lines_from :: "string \<Rightarrow> string \<Rightarrow> string list" where
  "lines_from cur [] = (if cur = [] then [] else [cur])"
| "lines_from cur (c # cs) =
     (if c = CHR 0x0A then strip_cr cur # lines_from [] cs else lines_from (cur @ [c]) cs)"

definition lines :: "string \<Rightarrow> string list" where
  "lines s = lines_from [] s"

definition history_load :: "string \<Rightarrow> nat \<Rightarrow> history" where
  "history_load contents max_entries =
     (let entries = filter (\<lambda>l. l \<noteq> []) (lines contents);
          entries = (if max_entries < length entries then drop (length entries - max_entries) entries else entries)
      in \<lparr>h_entries = entries, h_max = max_entries\<rparr>)"

definition history_push :: "string \<Rightarrow> history \<Rightarrow> history" where
  "history_push line h =
     (let trimmed = trim line
      in if trimmed = [] then h
      else if h_entries h \<noteq> [] \<and> last (h_entries h) = trimmed then h
      else
        let entries = h_entries h @ [trimmed]
        in h\<lparr>h_entries := (if h_max h < length entries then tl entries else entries)\<rparr>)"

text \<open>\<open>entries.join("\n") + "\n"\<close>.\<close>

definition history_save :: "history \<Rightarrow> string" where
  "history_save h = (case h_entries h of [] \<Rightarrow> [] | e # es \<Rightarrow> e @ concat (map (\<lambda>x. CHR 0x0A # x) es)) @ [CHR 0x0A]"

definition history_len :: "history \<Rightarrow> nat" where
  "history_len h = length (h_entries h)"

definition history_get :: "nat \<Rightarrow> history \<Rightarrow> string option" where
  "history_get i h = (if i < length (h_entries h) then Some (h_entries h ! i) else None)"

definition to_lower :: "char \<Rightarrow> char" where
  "to_lower c = (let n = of_char c :: nat in if 65 \<le> n \<and> n \<le> 90 then char_of (n + 32) else c)"

fun str_contains :: "string \<Rightarrow> string \<Rightarrow> bool" where
  "str_contains [] q \<longleftrightarrow> q = []"
| "str_contains (c # cs) q \<longleftrightarrow> prefix q (c # cs) \<or> str_contains cs q"

definition history_search :: "string \<Rightarrow> history \<Rightarrow> nat list" where
  "history_search query h =
     (let q = map to_lower query
      in map fst (filter (\<lambda>(_, e). str_contains (map to_lower e) q) (enumerate 0 (h_entries h))))"

section \<open>The history is bounded and keeps the most recent entries\<close>

definition history_ok :: "history \<Rightarrow> bool" where
  "history_ok h \<longleftrightarrow> length (h_entries h) \<le> h_max h \<and> [] \<notin> set (h_entries h)"

lemma history_ok_load: "history_ok (history_load contents n)"
proof -
  have "[] \<notin> set (drop k (filter (\<lambda>l. l \<noteq> []) xs))" for k and xs :: "string list"
    using set_drop_subset [of k "filter (\<lambda>l. l \<noteq> []) xs"] by auto
  then show ?thesis by (simp add: history_ok_def history_load_def Let_def)
qed

lemma history_ok_push: "history_ok h \<Longrightarrow> history_ok (history_push line h)"
  by (cases "h_entries h") (auto simp: history_ok_def history_push_def Let_def)

lemma last_dropWhile: "dropWhile P xs \<noteq> [] \<Longrightarrow> last (dropWhile P xs) = last xs"
  by (induction xs) auto

text \<open>A pushed line is the last entry afterwards, and no two neighbours become equal.\<close>

lemma history_push_last:
  assumes "0 < h_max h" and "trim line \<noteq> []" and "length (h_entries h) \<le> h_max h"
  shows "h_entries (history_push line h) \<noteq> [] \<and> last (h_entries (history_push line h)) = trim line"
  using assms by (cases "h_entries h") (auto simp: history_push_def Let_def)

lemma history_push_distinct_adj:
  assumes "distinct_adj (h_entries h)"
  shows "distinct_adj (h_entries (history_push line h))"
proof -
  have "distinct_adj (tl xs)" if "distinct_adj xs" for xs :: "string list"
    using that by (cases xs) (auto simp: distinct_adj_Cons split: list.splits)
  then show ?thesis using assms
    by (auto simp: history_push_def Let_def distinct_adj_append_iff)
qed

section \<open>Saving and loading\<close>

lemma lines_from_line:
  "CHR 0x0A \<notin> set e \<Longrightarrow> lines_from cur (e @ CHR 0x0A # cs) = strip_cr (cur @ e) # lines_from [] cs"
  by (induction e arbitrary: cur) auto

lemma lines_save:
  assumes "\<forall>e \<in> set es. CHR 0x0A \<notin> set e \<and> (e \<noteq> [] \<longrightarrow> last e \<noteq> CHR 0x0D)" and "CHR 0x0A \<notin> set e"
    and "e \<noteq> [] \<longrightarrow> last e \<noteq> CHR 0x0D"
  shows "lines_from [] (e @ concat (map (\<lambda>x. CHR 0x0A # x) es) @ [CHR 0x0A]) = e # es"
  using assms
proof (induction es arbitrary: e)
  case Nil
  then show ?case using lines_from_line [of e "[]" "[]"] by (auto simp: strip_cr_def)
next
  case (Cons x xs)
  have "lines_from [] (e @ CHR 0x0A # (x @ concat (map (\<lambda>x. CHR 0x0A # x) xs) @ [CHR 0x0A])) =
      strip_cr e # lines_from [] (x @ concat (map (\<lambda>x. CHR 0x0A # x) xs) @ [CHR 0x0A])"
    using lines_from_line [OF Cons.prems(2), of "[]"] by simp
  then show ?case using Cons by (auto simp: strip_cr_def)
qed

text \<open>What \<open>save\<close> writes, \<open>load\<close> reads back, when no entry has a line break inside.\<close>

lemma history_save_load:
  assumes "history_ok h" and "\<forall>e \<in> set (h_entries h). CHR 0x0A \<notin> set e \<and> last e \<noteq> CHR 0x0D"
  shows "history_load (history_save h) (h_max h) = h"
proof (cases "h_entries h")
  case Nil
  then show ?thesis by (simp add: history_load_def history_save_def lines_def strip_cr_def)
next
  case (Cons e es)
  have "lines (history_save h) = e # es"
    unfolding lines_def history_save_def Cons list.case append_assoc
    by (rule lines_save) (use assms(2) Cons in auto)
  moreover have "filter (\<lambda>l. l \<noteq> []) (e # es) = e # es"
    by (rule filter_True) (use assms(1) Cons in \<open>auto simp: history_ok_def\<close>)
  ultimately show ?thesis using assms(1) Cons by (simp add: history_load_def history_ok_def)
qed

lemma demo_history:
  "history_search ''GIT'' (history_push '' git status '' (history_load (''ls'' @ CHR 0x0A # ''git add'') 5)) = [1, 2]"
  by code_simp

end
