(* ===== verification/Heap.thy ===== *)
theory Heap
  imports Machine
begin

text \<open>
  The hardened global allocator (\<open>HardenedAllocator\<close> in \<open>kernel/src/main.rs\<close>): every block gets a
  canary before and after it, both are checked on release, and the block is zeroed before it goes
  back. The inner allocator (the third-party \<open>linked_list_allocator\<close>) is a parameter: two
  functions on its own state and the memory, because it keeps its list of holes in the memory it has
  not handed out. What is used of it is the contract of an allocator, the hypotheses
  \<open>inner_alloc_ok\<close> and \<open>inner_free_ok\<close>: a block it answers is aligned, does not wrap around the
  address space and overlaps no live block, and neither operation writes into a block that is live.
  They say nothing of the bytes of a block that has been released, where the allocator does write.
\<close>

definition HEAP_CANARY :: u64 where
  "HEAP_CANARY = 0xDEADC0DEDEADC0DE"

definition align_up :: "u64 \<Rightarrow> u64 \<Rightarrow> u64" where
  "align_up val align = (val + align - 1) AND NOT (align - 1)"

record layout =
  ly_size :: u64
  ly_align :: u64

text \<open>\<open>checked_add\<close>, and the limit of \<open>Layout::from_size_align\<close>: the size rounded up to the alignment
  fits \<open>isize\<close>, the alignment is a power of two.\<close>

definition checked_add :: "u64 \<Rightarrow> u64 \<Rightarrow> u64 option" where
  "checked_add a b = (if unat a + unat b < 2 ^ 64 then Some (a + b) else None)"

definition layout_new :: "u64 \<Rightarrow> u64 \<Rightarrow> layout option" where
  "layout_new sz align =
     (if align \<noteq> 0 \<and> align AND (align - 1) = 0 \<and> unat sz \<le> 2 ^ 63 - unat align
      then Some \<lparr>ly_size = sz, ly_align = align\<rparr> else None)"

definition front :: "layout \<Rightarrow> u64" where
  "front l = align_up 8 (max (ly_align l) 8)"

type_synonym 'h inner_alloc = "layout \<Rightarrow> 'h \<times> memory \<Rightarrow> u64 \<times> 'h \<times> memory"
type_synonym 'h inner_free = "u64 \<Rightarrow> layout \<Rightarrow> 'h \<times> memory \<Rightarrow> 'h \<times> memory"

text \<open>A null pointer is 0.\<close>

definition heap_alloc :: "'h inner_alloc \<Rightarrow> layout \<Rightarrow> 'h \<times> memory \<Rightarrow> u64 \<times> 'h \<times> memory" where
  "heap_alloc inner l hm =
     (case hm of (h, m) \<Rightarrow>
        let align = max (ly_align l) 8; extra_front = front l
        in case Option.bind (checked_add extra_front (ly_size l)) (\<lambda>s. checked_add s 8) of
             None \<Rightarrow> (0, h, m)
           | Some real_size \<Rightarrow>
               (case layout_new real_size align of
                  None \<Rightarrow> (0, h, m)
                | Some real_layout \<Rightarrow>
                    (case inner real_layout (h, m) of (real_ptr, h1, m0) \<Rightarrow>
                       if real_ptr = 0 then (0, h1, m0)
                       else
                         let m1 = store64 m0 real_ptr HEAP_CANARY;
                             user_ptr = real_ptr + extra_front;
                             m2 = store64 m1 (user_ptr + ly_size l) HEAP_CANARY
                         in (user_ptr, h1, m2))))"

definition header_ok :: "layout \<Rightarrow> u64 \<Rightarrow> memory \<Rightarrow> bool" where
  "header_ok l ptr m \<longleftrightarrow> load64 m (ptr - front l) = HEAP_CANARY"

definition trailer_ok :: "layout \<Rightarrow> u64 \<Rightarrow> memory \<Rightarrow> bool" where
  "trailer_ok l ptr m \<longleftrightarrow> load64 m (ptr + ly_size l) = HEAP_CANARY"

definition real_size :: "layout \<Rightarrow> u64" where
  "real_size l = front l + ly_size l + 8"

definition real_layout :: "layout \<Rightarrow> layout" where
  "real_layout l = \<lparr>ly_size = real_size l, ly_align = max (ly_align l) 8\<rparr>"

text \<open>The scrubbing loop: \<open>while p < end\<close>, one byte at a time.\<close>

function scrub_loop :: "u64 \<Rightarrow> u64 \<Rightarrow> memory \<Rightarrow> memory" where
  "scrub_loop p end_ptr m = (if p < end_ptr then scrub_loop (p + 1) end_ptr (m(p := 0)) else m)"
  by pat_completeness auto
termination
proof (relation "measure (\<lambda>(p, end_ptr, m). unat end_ptr - unat p)")
  fix p end_ptr :: u64 and m :: memory
  assume a: "p < end_ptr"
  then have "unat p < unat end_ptr" by (simp add: word_less_nat_alt)
  moreover have "unat end_ptr < 2 ^ LENGTH(64)" by (rule unsigned_less)
  ultimately have "unat (p + 1) = Suc (unat p)" by (subst unat_add_no_wrap) simp_all
  moreover note \<open>unat p < unat end_ptr\<close>
  ultimately show "((p + 1, end_ptr, m(p := 0)), p, end_ptr, m) \<in> measure (\<lambda>(p, end_ptr, m). unat end_ptr - unat p)"
    by simp
qed simp

declare scrub_loop.simps [simp del]

definition heap_dealloc ::
  "'h inner_free \<Rightarrow> u64 \<Rightarrow> layout \<Rightarrow> 'h \<times> memory \<Rightarrow> ('h \<times> memory) outcome" where
  "heap_dealloc inner_free ptr l hm =
     (case hm of (h, m) \<Rightarrow>
        let real_ptr = ptr - front l
        in if \<not> header_ok l ptr m \<or> \<not> trailer_ok l ptr m then Panic ''heap corruption on free''
        else
          let end_ptr = real_ptr + real_size l;
              m1 = scrub_loop real_ptr end_ptr m
          in Ret (inner_free real_ptr (real_layout l) (h, m1)))"

section \<open>The contract of the inner allocator\<close>

text \<open>The bytes of a block, and those of all the live blocks. Which blocks are live is a function of the
  allocator's state.\<close>

definition block :: "u64 \<Rightarrow> layout \<Rightarrow> u64 set" where
  "block r l = {x. unat (x - r) < unat (ly_size l)}"

definition live_bytes :: "(u64 \<times> layout) set \<Rightarrow> u64 set" where
  "live_bytes bs = (\<Union>(r, l) \<in> bs. block r l)"

text \<open>A layout as Rust makes them: the alignment is a power of two, and the size rounded up to it
  fits \<open>isize\<close>.\<close>

definition layout_ok :: "layout \<Rightarrow> bool" where
  "layout_ok l \<longleftrightarrow> (\<exists>k \<in> {0..<63}. ly_align l = 2 ^ k) \<and> unat (ly_size l) \<le> 2 ^ 63 - unat (ly_align l)"

definition inner_alloc_ok :: "('h \<Rightarrow> (u64 \<times> layout) set) \<Rightarrow> 'h inner_alloc \<Rightarrow> bool" where
  "inner_alloc_ok live inner \<longleftrightarrow> (\<forall>l h m r h1 m1. layout_ok l \<longrightarrow> inner l (h, m) = (r, h1, m1) \<longrightarrow>
     (\<forall>x \<in> live_bytes (live h). m1 x = m x) \<and>
     (if r = 0 then live h1 = live h
      else unat r + unat (ly_size l) < 2 ^ 64 \<and> r AND (ly_align l - 1) = 0 \<and>
        live_bytes (live h) \<inter> block r l = {} \<and> live h1 = insert (r, l) (live h)))"

definition inner_free_ok :: "('h \<Rightarrow> (u64 \<times> layout) set) \<Rightarrow> 'h inner_free \<Rightarrow> bool" where
  "inner_free_ok live inner_free \<longleftrightarrow> (\<forall>r l h m h1 m1. (r, l) \<in> live h \<longrightarrow> inner_free r l (h, m) = (h1, m1) \<longrightarrow>
     live h1 = live h - {(r, l)} \<and> (\<forall>x \<in> live_bytes (live h1). m1 x = m x))"

section \<open>Where the canaries lie\<close>

lemma align_up_8:
  assumes "3 \<le> k" "k < 64"
  shows "align_up 8 (2 ^ k) = 2 ^ k"
proof -
  have m: "(2 ^ k - 1 :: u64) = mask k" by (simp add: mask_eq_exp_minus_1)
  have seven: "(7 :: u64) = mask 3" by (simp add: mask_eq_exp_minus_1)
  have "(8 + 2 ^ k - 1 :: u64) = 2 ^ k + 7" by simp
  also have "\<dots> = 2 ^ k OR 7"
    by (rule disjunctive_add_eq_or, rule bit_word_eqI) (use assms in \<open>auto simp: seven bit_simps\<close>)
  finally have e: "(8 + 2 ^ k - 1 :: u64) = 2 ^ k OR mask 3" by (simp only: seven)
  show ?thesis unfolding align_up_def m e
    by (rule bit_word_eqI) (use assms in \<open>auto simp: bit_simps\<close>)
qed

lemma unat_exp: "k < 64 \<Longrightarrow> unat (2 ^ k :: u64) = 2 ^ k"
proof -
  assume "k < 64"
  then have "(2 :: nat) ^ k < 2 ^ 64" by (rule power_strict_increasing) simp
  then show ?thesis using unat_u64_of_nat [of "2 ^ k"] by simp
qed

lemma max_align:
  assumes "layout_ok l"
  obtains j where "max (ly_align l) 8 = 2 ^ j" "3 \<le> j" "j < 63" "\<And>k. k < 63 \<Longrightarrow> ly_align l = 2 ^ k \<Longrightarrow> k \<le> j"
proof -
  obtain k where k: "k < 63" "ly_align l = 2 ^ k" using assms by (auto simp: layout_ok_def)
  have u: "i = k" if "i < 63" "ly_align l = 2 ^ i" for i
  proof -
    have "unat (2 ^ i :: u64) = unat (2 ^ k :: u64)" using that k by simp
    then show ?thesis using that(1) k(1) by (simp add: unat_exp)
  qed
  have eight: "(8 :: u64) = 2 ^ 3" by simp
  show thesis
  proof (cases "k \<le> 3")
    case True
    then have "(2 :: nat) ^ k \<le> 2 ^ 3" by (simp only: power_increasing_iff)
    then have "(2 ^ k :: u64) \<le> 2 ^ 3" unfolding word_le_nat_alt using k(1) by (simp add: unat_exp)
    then have m: "max (ly_align l) 8 = 2 ^ 3" unfolding k(2) eight by (simp add: max_absorb2)
    show thesis
    proof (rule that [OF m])
      fix i assume "i < 63" "ly_align l = 2 ^ i"
      then have "i = k" by (rule u)
      then show "i \<le> 3" using True by simp
    qed simp_all
  next
    case False
    then have "(2 :: nat) ^ 3 \<le> 2 ^ k" by (intro power_increasing) simp_all
    then have "(2 ^ 3 :: u64) \<le> 2 ^ k" unfolding word_le_nat_alt using k(1) by (simp add: unat_exp)
    then have m: "max (ly_align l) 8 = 2 ^ k" unfolding k(2) eight by (simp add: max_absorb1)
    show thesis
    proof (rule that [OF m])
      fix i assume "i < 63" "ly_align l = 2 ^ i"
      then show "i \<le> k" using u by simp
    qed (use False k(1) in simp_all)
  qed
qed

lemma front_eq:
  assumes "layout_ok l"
  shows "front l = max (ly_align l) 8" and "8 \<le> front l"
proof -
  obtain j where j: "max (ly_align l) 8 = 2 ^ j" "3 \<le> j" "j < 63" by (rule max_align [OF assms])
  then have "j < 64" by simp
  then show "front l = max (ly_align l) 8" using align_up_8 [OF j(2)] by (simp add: front_def j(1))
  then show "8 \<le> front l" by simp
qed

lemma le_bytes_from_le:
  fixes w :: u64
  assumes "from_le bs = w" and "length bs = 8"
  shows "le_bytes 8 w = bs"
proof (rule nth_equalityI)
  fix i assume "i < length (le_bytes 8 w)"
  then have i: "i < 8" by simp
  show "le_bytes 8 w ! i = bs ! i"
  proof (rule bit_word_eqI)
    fix k assume "k < LENGTH(8)"
    then have k: "k < 8" by simp
    have "(8 * i + k) div 8 = i" "(8 * i + k) mod 8 = k" "8 * i + k < 64" using k i by simp_all
    then show "bit (le_bytes 8 w ! i) k \<longleftrightarrow> bit (bs ! i) k"
      using i k assms(2) by (simp add: assms(1) [symmetric] bit_simps bit_from_le)
  qed
qed (simp add: assms(2))

text \<open>A canary is intact exactly when its eight bytes are.\<close>

lemma load64_iff: "load64 m a = v \<longleftrightarrow> (\<forall>i < 8. m (a + of_nat i) = le_bytes 8 v ! i)"
proof
  assume "load64 m a = v"
  then have "le_bytes 8 v = read_bytes m a 8" by (intro le_bytes_from_le) (simp_all add: load64_def)
  then show "\<forall>i < 8. m (a + of_nat i) = le_bytes 8 v ! i" by (auto simp del: nth_le_bytes)
next
  assume h: "\<forall>i < 8. m (a + of_nat i) = le_bytes 8 v ! i"
  have "read_bytes m a 8 = le_bytes 8 v" by (rule nth_equalityI) (simp_all add: h del: nth_le_bytes)
  then show "load64 m a = v" by (simp add: load64_def from_le_le_bytes)
qed

text \<open>The scrubbing loop of a block that does not wrap around clears exactly the block. (A block that
  reached the last byte of the address space would have a null end, and the loop would do nothing.)\<close>

lemma scrub_loop_eq:
  "unat r + n < 2 ^ 64 \<Longrightarrow> scrub_loop r (r + of_nat n) m = zero_bytes m r n"
proof (induction n arbitrary: r m)
  case 0
  then show ?case by (subst scrub_loop.simps) (simp add: zero_bytes_def)
next
  case (Suc n)
  have s: "unat (r + 1) = Suc (unat r)" using Suc.prems by (subst unat_add_no_wrap) simp_all
  have u: "unat (r + of_nat (Suc n)) = unat r + Suc n"
    using Suc.prems by (subst unat_add_no_wrap) (simp_all add: unat_u64_of_nat del: of_nat_Suc)
  have lt: "r < r + of_nat (Suc n)" by (simp add: word_less_nat_alt u del: of_nat_Suc)
  have e: "r + of_nat (Suc n) = (r + 1) + of_nat n" by simp
  have "scrub_loop r (r + of_nat (Suc n)) m = scrub_loop (r + 1) (r + of_nat (Suc n)) (m(r := 0))"
    by (subst scrub_loop.simps) (simp add: lt del: of_nat_Suc)
  also have "\<dots> = zero_bytes (m(r := 0)) (r + 1) n" unfolding e by (rule Suc.IH) (use Suc.prems s in simp)
  also have "\<dots> = zero_bytes m r (Suc n)"
  proof
    fix x
    have d: "x - (r + 1) = x - r - 1" by simp
    have "unat (x - (r + 1)) < n \<longleftrightarrow> unat (x - r) < Suc n" if "x \<noteq> r"
    proof -
      have "x - r \<noteq> 0" using that by simp
      then have "unat (x - r - 1) = unat (x - r) - 1" "unat (x - r) \<noteq> 0"
        by (simp_all add: unat_minus_one unat_eq_0)
      then show ?thesis unfolding d by arith
    qed
    then show "zero_bytes (m(r := 0)) (r + 1) n x = zero_bytes m r (Suc n) x" by (simp add: zero_bytes_def)
  qed
  finally show ?case .
qed

text \<open>What a successful allocation has done: the layout it asked for, the block it got, the two stores.\<close>

lemma heap_alloc_cases:
  assumes "heap_alloc inner l (h, m) = (p, h1, m1)" and "p \<noteq> 0" and "layout_ok l"
  obtains m0 where
    "inner (real_layout l) (h, m) = (p - front l, h1, m0)" "p - front l \<noteq> 0"
    "m1 = store64 (store64 m0 (p - front l) HEAP_CANARY) (p + ly_size l) HEAP_CANARY"
    "unat (real_size l) = unat (front l) + unat (ly_size l) + 8" "layout_ok (real_layout l)"
proof -
  obtain a where a: "checked_add (front l) (ly_size l) = Some a"
    using assms(1,2) by (cases "checked_add (front l) (ly_size l)") (auto simp: heap_alloc_def Let_def)
  obtain b where b: "checked_add a 8 = Some b"
    using assms(1,2) a by (cases "checked_add a 8") (auto simp: heap_alloc_def Let_def)
  obtain rl where rl: "layout_new b (max (ly_align l) 8) = Some rl"
    using assms(1,2) a b by (cases "layout_new b (max (ly_align l) 8)") (auto simp: heap_alloc_def Let_def)
  have ab: "unat (front l) + unat (ly_size l) < 2 ^ 64" "a = front l + ly_size l" "unat a + unat (8 :: u64) < 2 ^ 64" "b = a + 8"
    using a b by (auto simp: checked_add_def split: if_splits)
  then have ua: "unat a = unat (front l) + unat (ly_size l)" by (simp add: unat_add_no_wrap)
  have rs: "real_size l = b" by (simp add: real_size_def ab(2,4))
  have ub: "unat (real_size l) = unat (front l) + unat (ly_size l) + 8"
    unfolding rs ab(4) using ab(3) ua by (subst unat_add_no_wrap) simp_all
  have rle: "rl = real_layout l" and sz: "unat b \<le> 2 ^ 63 - unat (max (ly_align l) 8)"
    using rl by (auto simp: layout_new_def real_layout_def rs split: if_splits)
  obtain j where j: "max (ly_align l) 8 = 2 ^ j" "3 \<le> j" "j < 63" by (rule max_align [OF assms(3)])
  have ok: "layout_ok (real_layout l)"
    using sz j by (auto simp: layout_ok_def real_layout_def rs intro!: bexI [of _ j])
  obtain r h' m0 where r: "inner rl (h, m) = (r, h', m0)" by (metis prod_cases3)
  have "r \<noteq> 0" using assms(1,2) a b rl r by (auto simp: heap_alloc_def Let_def)
  then have "p = r + front l" "h1 = h'" "m1 = store64 (store64 m0 r HEAP_CANARY) (r + front l + ly_size l) HEAP_CANARY"
    using assms(1) a b rl r by (auto simp: heap_alloc_def Let_def)
  then show thesis using that [of m0] r ub ok \<open>r \<noteq> 0\<close> by (simp add: rle)
qed

text \<open>The two canaries do not overlap, and lie in the block.\<close>

lemma canaries_apart:
  assumes "unat (real_size l) = unat (front l) + unat (ly_size l) + 8" and "layout_ok l"
  shows "apart (p - front l) 8 (p + ly_size l) 8"
proof -
  have fe: "8 \<le> unat (front l)" using front_eq(2) [OF assms(2)] by (simp add: word_le_nat_alt)
  have "unat (real_size l) < 2 ^ LENGTH(64)" by (rule unsigned_less)
  then have lt: "unat (front l) + unat (ly_size l) + 8 < 2 ^ 64" using assms(1) by simp
  have sum: "unat (front l + ly_size l) = unat (front l) + unat (ly_size l)"
    using lt by (intro unat_add_no_wrap) simp
  let ?r = "p - front l" and ?t = "p + ly_size l"
  have tr: "?t - ?r = front l + ly_size l" by simp
  have d1: "unat (?t - ?r) = unat (front l) + unat (ly_size l)" by (simp only: tr sum)
  then have "unat (0 - (?t - ?r)) = 18446744073709551616 - (unat (front l) + unat (ly_size l))"
    using unat_u64_diff [of 0 "?t - ?r"] fe by (simp only: d1) simp
  moreover have "?r - ?t = 0 - (?t - ?r)" by simp
  ultimately have "unat (?r - ?t) = 18446744073709551616 - (unat (front l) + unat (ly_size l))" by (simp only:)
  then show ?thesis using d1 fe lt by (simp add: apart_def)
qed

lemma store64_outside: "8 \<le> unat (x - a) \<Longrightarrow> store64 m a v x = m x"
  by (simp add: store64_def write_bytes_def)

text \<open>A byte of either canary is a byte of the block.\<close>

lemma canaries_in_block:
  assumes "unat (real_size l) = unat (front l) + unat (ly_size l) + 8"
    and "x \<notin> block (p - front l) (real_layout l)"
  shows "8 \<le> unat (x - (p - front l))" and "8 \<le> unat (x - (p + ly_size l))"
proof -
  let ?r = "p - front l" and ?d = "front l + ly_size l"
  have "unat (real_size l) < 2 ^ LENGTH(64)" by (rule unsigned_less)
  then have lt: "unat (front l) + unat (ly_size l) + 8 < 2 ^ 64" using assms(1) by simp
  have out: "unat (front l) + unat (ly_size l) + 8 \<le> unat (x - ?r)"
    using assms by (simp add: block_def real_layout_def)
  then show "8 \<le> unat (x - ?r)" by simp
  have sum: "unat ?d = unat (front l) + unat (ly_size l)" using lt by (intro unat_add_no_wrap) simp
  have "?d \<le> x - ?r" using out by (simp add: word_le_nat_alt sum)
  moreover have "x - (p + ly_size l) = (x - ?r) - ?d" by (simp add: algebra_simps)
  ultimately have "unat (x - (p + ly_size l)) = unat (x - ?r) - unat ?d" by (simp only: unat_sub)
  then show "8 \<le> unat (x - (p + ly_size l))" using out sum by simp
qed

lemma aligned_user_pointer:
  assumes "(p - front l) AND (ly_align (real_layout l) - 1) = 0" and "layout_ok l"
  shows "p AND (ly_align l - 1) = 0"
proof -
  obtain j where j: "max (ly_align l) 8 = 2 ^ j" "\<And>k. k < 63 \<Longrightarrow> ly_align l = 2 ^ k \<Longrightarrow> k \<le> j"
    using max_align [OF assms(2)] by metis
  obtain k where k: "k < 63" "ly_align l = 2 ^ k" using assms(2) by (auto simp: layout_ok_def)
  have m: "(2 ^ i - 1 :: u64) = mask i" for i by (simp add: mask_eq_exp_minus_1)
  have r: "take_bit j (p - 2 ^ j) = 0"
    using assms(1) front_eq(1) [OF assms(2)] by (simp add: real_layout_def j(1) m take_bit_eq_mask)
  let ?d = "drop_bit j (p - 2 ^ j)"
  have "p - 2 ^ j = push_bit j ?d" using bits_ident [of j "p - 2 ^ j"] r by simp
  then have "p = push_bit j ?d + 2 ^ j" by (simp add: diff_eq_eq)
  also have "\<dots> = push_bit j (?d + 1)" by (simp add: push_bit_eq_mult algebra_simps)
  finally have e: "p = push_bit j (?d + 1)" .
  have "take_bit k (push_bit j (?d + 1)) = 0" using j(2) [OF k] by (simp add: take_bit_push_bit)
  then have "take_bit k p = 0" by (simp only: e [symmetric])
  then show ?thesis by (simp add: k(2) m take_bit_eq_mask [symmetric])
qed

lemma block_scrubbed:
  assumes "unat r + unat (real_size l) < 2 ^ 64"
  shows "scrub_loop r (r + real_size l) m x = (if x \<in> block r (real_layout l) then 0 else m x)"
proof -
  have "scrub_loop r (r + of_nat (unat (real_size l))) m = zero_bytes m r (unat (real_size l))"
    using assms by (rule scrub_loop_eq)
  then show ?thesis by (simp add: zero_bytes_def block_def real_layout_def)
qed

text \<open>The release of a block, and what the contract of the inner allocator adds to it.\<close>

lemma heap_dealloc_eq:
  assumes "unat (p - front l) + unat (real_size l) < 2 ^ 64"
  shows "heap_dealloc inner_free p l (h, m) =
    (if header_ok l p m \<and> trailer_ok l p m
     then Ret (inner_free (p - front l) (real_layout l)
       (h, \<lambda>x. if x \<in> block (p - front l) (real_layout l) then 0 else m x))
     else Panic ''heap corruption on free'')"
proof -
  have "scrub_loop (p - front l) (p - front l + real_size l) m =
      (\<lambda>x. if x \<in> block (p - front l) (real_layout l) then 0 else m x)"
    by (rule ext) (rule block_scrubbed [OF assms])
  then show ?thesis by (simp add: heap_dealloc_def Let_def)
qed

lemma heap_dealloc_releases:
  assumes "unat (p - front l) + unat (real_size l) < 2 ^ 64" and "inner_free_ok live inner_free"
    and "(p - front l, real_layout l) \<in> live h2"
    and "header_ok l p m2 \<and> trailer_ok l p m2"
  shows "\<exists>m3 h4 m4. (\<forall>x. m3 x = (if x \<in> block (p - front l) (real_layout l) then 0 else m2 x)) \<and>
    inner_free (p - front l) (real_layout l) (h2, m3) = (h4, m4) \<and>
    heap_dealloc inner_free p l (h2, m2) = Ret (h4, m4) \<and>
    live h4 = live h2 - {(p - front l, real_layout l)} \<and>
    (\<forall>x \<in> live_bytes (live h4) - block (p - front l) (real_layout l). m4 x = m2 x)"
proof -
  define m3 where "m3 = (\<lambda>x. if x \<in> block (p - front l) (real_layout l) then 0 else m2 x)"
  obtain h4 m4 where e: "inner_free (p - front l) (real_layout l) (h2, m3) = (h4, m4)" by fastforce
  have "heap_dealloc inner_free p l (h2, m2) = Ret (h4, m4)"
    by (simp only: heap_dealloc_eq [OF assms(1)] if_P [OF assms(4)] m3_def [symmetric] e)
  moreover have "live h4 = live h2 - {(p - front l, real_layout l)}" "\<forall>x \<in> live_bytes (live h4). m4 x = m3 x"
    using assms(2)[unfolded inner_free_ok_def, rule_format, OF assms(3) e] by blast+
  ultimately show ?thesis using e
    by (intro exI [of _ m3] exI [of _ h4] exI [of _ m4]) (simp add: m3_def)
qed

text \<open>
  C29. The hardened allocator on top of any inner one that keeps the contract of an allocator. An
  allocation answers an aligned block between two canaries, in memory that was not live, and changes
  no live byte. However the memory has been written since, releasing the block panics exactly when
  one of the sixteen canary bytes has changed. Otherwise the memory the inner allocator is given is the
  old one with exactly the block and its canaries cleared; the release returns what the inner
  allocator makes of it, after which the block is no longer live and every live byte outside
  it is as it was. (Into the released block the inner allocator writes its own bookkeeping.) Bytes
  between the front canary and the user's block, which exist when the alignment exceeds 8, are not
  among those that are checked.
\<close>

theorem heap_canaries:
  assumes "inner_alloc_ok live inner" and "inner_free_ok live inner_free"
    and "heap_alloc inner l (h, m) = (p, h1, m1)" and "p \<noteq> 0" and "layout_ok l"
  shows "header_ok l p m1 \<and> trailer_ok l p m1 \<and> p AND (ly_align l - 1) = 0 \<and>
    live h1 = insert (p - front l, real_layout l) (live h) \<and>
    live_bytes (live h) \<inter> block (p - front l) (real_layout l) = {} \<and>
    (\<forall>x \<in> live_bytes (live h). m1 x = m x) \<and>
    (\<forall>h2 m2. (p - front l, real_layout l) \<in> live h2 \<longrightarrow>
      (if \<forall>i < 8. m2 (p - front l + of_nat i) = m1 (p - front l + of_nat i) \<and>
                m2 (p + ly_size l + of_nat i) = m1 (p + ly_size l + of_nat i)
       then \<exists>m3 h4 m4. (\<forall>x. m3 x = (if x \<in> block (p - front l) (real_layout l) then 0 else m2 x)) \<and>
         inner_free (p - front l) (real_layout l) (h2, m3) = (h4, m4) \<and>
         heap_dealloc inner_free p l (h2, m2) = Ret (h4, m4) \<and>
         live h4 = live h2 - {(p - front l, real_layout l)} \<and>
         (\<forall>x \<in> live_bytes (live h4) - block (p - front l) (real_layout l). m4 x = m2 x)
       else heap_dealloc inner_free p l (h2, m2) = Panic ''heap corruption on free''))"
proof -
  obtain m0 where a: "inner (real_layout l) (h, m) = (p - front l, h1, m0)" "p - front l \<noteq> 0"
    "m1 = store64 (store64 m0 (p - front l) HEAP_CANARY) (p + ly_size l) HEAP_CANARY"
    and rs: "unat (real_size l) = unat (front l) + unat (ly_size l) + 8" and ok: "layout_ok (real_layout l)"
    by (rule heap_alloc_cases [OF assms(3-5)])
  let ?r = "p - front l" and ?t = "p + ly_size l" and ?b = "block (p - front l) (real_layout l)"
  have i: "\<forall>x \<in> live_bytes (live h). m0 x = m x" "unat ?r + unat (real_size l) < 2 ^ 64"
    "?r AND (ly_align (real_layout l) - 1) = 0" "live_bytes (live h) \<inter> ?b = {}"
    "live h1 = insert (?r, real_layout l) (live h)"
    using assms(1)[unfolded inner_alloc_ok_def, rule_format, OF ok a(1)] a(2) by (simp_all add: real_layout_def)
  have al: "p AND (ly_align l - 1) = 0" by (rule aligned_user_pointer [OF i(3) assms(5)])
  have fr: "\<forall>x \<in> live_bytes (live h). m1 x = m x"
  proof
    fix x assume x: "x \<in> live_bytes (live h)"
    then have "x \<notin> ?b" using i(4) by blast
    then show "m1 x = m x" using i(1) x canaries_in_block [OF rs] by (simp add: a(3) store64_outside)
  qed
  have h: "load64 m1 ?r = HEAP_CANARY"
    using canaries_apart [OF rs assms(5)] by (simp add: a(3) load_store_apart)
  have t: "load64 m1 ?t = HEAP_CANARY" by (simp add: a(3))
  have c: "header_ok l p m2 \<and> trailer_ok l p m2 \<longleftrightarrow>
      (\<forall>i < 8. m2 (?r + of_nat i) = m1 (?r + of_nat i) \<and> m2 (?t + of_nat i) = m1 (?t + of_nat i))" for m2
    using h t unfolding header_ok_def trailer_ok_def load64_iff by auto
  have w: "unat ?r + unat (real_size l) < 2 ^ 64" by (rule i(2))
  have rel: "if \<forall>i < 8. m2 (?r + of_nat i) = m1 (?r + of_nat i) \<and> m2 (?t + of_nat i) = m1 (?t + of_nat i)
       then \<exists>m3 h4 m4. (\<forall>x. m3 x = (if x \<in> ?b then 0 else m2 x)) \<and>
         inner_free ?r (real_layout l) (h2, m3) = (h4, m4) \<and> heap_dealloc inner_free p l (h2, m2) = Ret (h4, m4) \<and>
         live h4 = live h2 - {(?r, real_layout l)} \<and> (\<forall>x \<in> live_bytes (live h4) - ?b. m4 x = m2 x)
       else heap_dealloc inner_free p l (h2, m2) = Panic ''heap corruption on free''"
    if lv: "(?r, real_layout l) \<in> live h2" for h2 m2
  proof (cases "header_ok l p m2 \<and> trailer_ok l p m2")
    case True
    show ?thesis unfolding c [symmetric] if_P [OF True]
      by (rule heap_dealloc_releases [OF w assms(2) lv True])
  next
    case False
    show ?thesis unfolding c [symmetric] if_not_P [OF False] by (simp only: heap_dealloc_eq [OF w] if_not_P [OF False])
  qed
  show ?thesis unfolding header_ok_def trailer_ok_def
    by (intro conjI h t al fr i(4,5) allI impI) (rule rel)
qed

text \<open>A concrete inner allocator with one block, which keeps the contract. Like the real one it writes the
  header of a hole (a size and a null link) into the block it takes back. A block of 24 bytes
  aligned to 16, at 0x1000: the bytes are returned scrubbed, and one byte too many is noticed.\<close>

definition one_alloc :: "(u64 \<times> layout) option inner_alloc" where
  "one_alloc l hm = (case hm of (h, m) \<Rightarrow>
     if h = None \<and> ly_size l \<le> 0x1000 \<and> ly_align l \<le> 0x1000 then (0x1000, Some (0x1000, l), m) else (0, h, m))"

definition one_free :: "(u64 \<times> layout) option inner_free" where
  "one_free r l hm = (case hm of (h, m) \<Rightarrow>
     if h = Some (r, l) then (None, store64 (store64 m r (ly_size l)) (r + 8) 0) else (h, m))"

lemma one_alloc_ok: "inner_alloc_ok set_option one_alloc"
proof -
  have "(0x1000 :: u64) AND (ly_align l - 1) = 0" if ok: "layout_ok l" and le: "ly_align l \<le> 0x1000" for l
  proof -
    obtain k where k: "k < 63" "ly_align l = 2 ^ k" using ok by (auto simp: layout_ok_def)
    have "(2 :: nat) ^ k \<le> 2 ^ 12" using le k by (simp add: word_le_nat_alt unat_exp)
    then have k12: "k \<le> 12" by (simp only: power_increasing_iff)
    have e: "(0x1000 :: u64) = push_bit 12 1" by simp
    have m: "(2 ^ k - 1 :: u64) = mask k" by (simp add: mask_eq_exp_minus_1)
    show ?thesis unfolding k(2) m take_bit_eq_mask [symmetric] e take_bit_push_bit using k12 by simp
  qed
  then show ?thesis
    by (auto simp: inner_alloc_ok_def one_alloc_def live_bytes_def word_le_nat_alt split: if_splits)
qed

lemma one_free_ok: "inner_free_ok set_option one_free"
  by (auto simp: inner_free_ok_def one_free_def live_bytes_def)

lemma heap_canaries_witness:
  "\<exists>m1 m4. heap_alloc one_alloc \<lparr>ly_size = 24, ly_align = 16\<rparr> (None, \<lambda>_. 0) =
       (0x1010, Some (0x1000, \<lparr>ly_size = 48, ly_align = 16\<rparr>), m1) \<and>
     heap_dealloc one_free 0x1010 \<lparr>ly_size = 24, ly_align = 16\<rparr>
       (Some (0x1000, \<lparr>ly_size = 48, ly_align = 16\<rparr>), m1(0x1010 := 5)) = Ret (None, m4) \<and>
     heap_dealloc one_free 0x1010 \<lparr>ly_size = 24, ly_align = 16\<rparr>
       (Some (0x1000, \<lparr>ly_size = 48, ly_align = 16\<rparr>), m1(0x1028 := 7)) = Panic ''heap corruption on free''"
proof -
  let ?l = "\<lparr>ly_size = 24, ly_align = 16\<rparr>" and ?rl = "\<lparr>ly_size = 48, ly_align = 16\<rparr>"
  have l: "layout_ok ?l" unfolding layout_ok_def by (auto intro: bexI [of _ 4])
  have f: "front ?l = 16" by (simp add: front_def align_up_def)
  have rl: "real_layout ?l = ?rl" by (simp add: real_layout_def real_size_def f)
  obtain m1 where a: "heap_alloc one_alloc ?l (None, \<lambda>_. 0) = (0x1010, Some (0x1000, ?rl), m1)"
    by (simp add: heap_alloc_def one_alloc_def f checked_add_def layout_new_def Let_def)
  have p: "(0x1010 :: u64) \<noteq> 0" by simp
  note c = heap_canaries [OF one_alloc_ok one_free_ok a p l, unfolded rl f]
  then have r: "if \<forall>i < 8. m2 (0x1000 + of_nat i) = m1 (0x1000 + of_nat i) \<and> m2 (0x1028 + of_nat i) = m1 (0x1028 + of_nat i)
      then \<exists>h4 m4. heap_dealloc one_free 0x1010 ?l (Some (0x1000, ?rl), m2) = Ret (h4, m4) \<and> set_option h4 = {}
      else heap_dealloc one_free 0x1010 ?l (Some (0x1000, ?rl), m2) = Panic ''heap corruption on free''" for m2
    by (auto split: if_splits)
  have off: "unat (a - b) < 8" if "a = b + of_nat i" "i < 8" for a b :: u64 and i
    using that by (simp add: unat_u64_of_nat)
  have "(0x1010 :: u64) \<noteq> 0x1000 + of_nat i \<and> (0x1010 :: u64) \<noteq> 0x1028 + of_nat i" if "i < 8" for i
    using off [of "0x1010" "0x1000" i] off [of "0x1010" "0x1028" i] that by auto
  then have "\<exists>h4 m4. heap_dealloc one_free 0x1010 ?l (Some (0x1000, ?rl), m1(0x1010 := 5)) = Ret (h4, m4) \<and> set_option h4 = {}"
    using r [of "m1(0x1010 := 5)"] by auto
  moreover have "load64 m1 0x1028 = HEAP_CANARY" using c by (simp add: trailer_ok_def)
  then have "m1 0x1028 = le_bytes 8 HEAP_CANARY ! 0" unfolding load64_iff by (drule_tac spec [of _ 0]) simp
  then have "m1 0x1028 \<noteq> 7" by (simp add: HEAP_CANARY_def)
  then have "heap_dealloc one_free 0x1010 ?l (Some (0x1000, ?rl), m1(0x1028 := 7)) = Panic ''heap corruption on free''"
    using r [of "m1(0x1028 := 7)"] by (auto dest: spec [of _ 0] split: if_splits)
  ultimately show ?thesis using a by (auto simp: set_empty_eq)
qed

end
