(* ===== verification/Hal.thy ===== *)
theory Hal
  imports NvmeQueues
begin

text \<open>
  The block layer of the hardware abstraction (\<open>kernel/src/hal/block.rs\<close> and the block part of
  \<open>hal/registry.rs\<close>): a registered device over the NVMe driver, with the driver's errors mapped to
  four. The lemmas show which errors surface and that every block operation re-identifies the
  namespace, which costs a second frame per operation.
\<close>

datatype block_error = Timeout | InvalidLba | ControllerError | NotReady

fun map_nvme_error :: "nvme_error \<Rightarrow> block_error" where
  "map_nvme_error CommandTimeout = Timeout"
| "map_nvme_error NoController = NotReady"
| "map_nvme_error BarNotMmio = NotReady"
| "map_nvme_error AllocFailed = ControllerError"
| "map_nvme_error DisableTimeout = ControllerError"
| "map_nvme_error EnableTimeout = ControllerError"
| "map_nvme_error ControllerFatalStatus = ControllerError"
| "map_nvme_error UnexpectedCid = ControllerError"
| "map_nvme_error (CommandFailed _ _) = ControllerError"
| "map_nvme_error InvalidTransferSize = ControllerError"
| "map_nvme_error PageSizeUnsupported = ControllerError"
| "map_nvme_error QueueDepthUnsupported = ControllerError"

definition NSID :: u32 where "NSID = 1"

type_synonym 'a block_result = "((block_error + 'a) \<times> nvme_world) outcome option"

definition blk_bind ::
  "'a nvme_result \<Rightarrow> ('a \<Rightarrow> nvme_world \<Rightarrow> 'b block_result) \<Rightarrow> 'b block_result" where
  "blk_bind c f =
     (case c of
        None \<Rightarrow> None
      | Some (Panic e) \<Rightarrow> Some (Panic e)
      | Some (Ret (Inl e, w)) \<Rightarrow> Some (Ret (Inl (map_nvme_error e), w))
      | Some (Ret (Inr x, w)) \<Rightarrow> f x w)"

definition nvme_block_size :: "nvme_env \<Rightarrow> nvme_world \<Rightarrow> (u32 \<times> nvme_world) outcome option" where
  "nvme_block_size d w =
     (case identify_namespace d NSID w of
        None \<Rightarrow> None
      | Some (Panic e) \<Rightarrow> Some (Panic e)
      | Some (Ret (Inl e, w1)) \<Rightarrow> Some (Ret (0, w1))
      | Some (Ret (Inr ns, w1)) \<Rightarrow>
          Some (Ret (ucast (case in_block_size ns of Some b \<Rightarrow> b | None \<Rightarrow> 0), w1)))"

definition nvme_block_count :: "nvme_env \<Rightarrow> nvme_world \<Rightarrow> (u64 \<times> nvme_world) outcome option" where
  "nvme_block_count d w =
     (case identify_namespace d NSID w of
        None \<Rightarrow> None
      | Some (Panic e) \<Rightarrow> Some (Panic e)
      | Some (Ret (Inl e, w1)) \<Rightarrow> Some (Ret (0, w1))
      | Some (Ret (Inr ns, w1)) \<Rightarrow> Some (Ret (in_nsze_blocks ns, w1)))"

definition read_block :: "nvme_env \<Rightarrow> u64 \<Rightarrow> nat \<Rightarrow> nvme_world \<Rightarrow> u8 list block_result" where
  "read_block d lba n w =
     blk_bind (identify_namespace d NSID w) (\<lambda>ns w1.
     if in_nsze_blocks ns \<le> lba then Some (Ret (Inl InvalidLba, w1))
     else case in_block_size ns of
       None \<Rightarrow> Some (Ret (Inl ControllerError, w1))
     | Some bs \<Rightarrow> blk_bind (io_read_blocks d NSID lba bs n w1) (\<lambda>out w2. Some (Ret (Inr out, w2))))"

definition write_block :: "nvme_env \<Rightarrow> u64 \<Rightarrow> u8 list \<Rightarrow> nvme_world \<Rightarrow> unit block_result" where
  "write_block d lba buf w =
     blk_bind (identify_namespace d NSID w) (\<lambda>ns w1.
     if in_nsze_blocks ns \<le> lba then Some (Ret (Inl InvalidLba, w1))
     else case in_block_size ns of
       None \<Rightarrow> Some (Ret (Inl ControllerError, w1))
     | Some bs \<Rightarrow> blk_bind (io_write_blocks d NSID lba bs buf w1) (\<lambda>_ w2. Some (Ret (Inr (), w2))))"

section \<open>The registry\<close>

datatype block_device = NvmeBlockDevice

record hal_registry =
  CONSOLE :: bool
  INPUT :: bool
  DISPLAY :: bool
  BLOCK :: "block_device option"

definition registry_new :: hal_registry where
  "registry_new = \<lparr>CONSOLE = False, INPUT = False, DISPLAY = False, BLOCK = None\<rparr>"

definition register_block :: "block_device \<Rightarrow> hal_registry \<Rightarrow> hal_registry" where
  "register_block dev r = r\<lparr>BLOCK := Some dev\<rparr>"

definition hal_init :: "hal_registry \<Rightarrow> hal_registry" where
  "hal_init r = register_block NvmeBlockDevice (r\<lparr>CONSOLE := True, INPUT := True, DISPLAY := True\<rparr>)"

definition hal_block_read :: "nvme_env \<Rightarrow> hal_registry \<Rightarrow> u64 \<Rightarrow> nat \<Rightarrow> nvme_world \<Rightarrow> u8 list block_result" where
  "hal_block_read d r lba n w =
     (case BLOCK r of Some NvmeBlockDevice \<Rightarrow> read_block d lba n w | None \<Rightarrow> Some (Ret (Inl NotReady, w)))"

definition hal_block_write :: "nvme_env \<Rightarrow> hal_registry \<Rightarrow> u64 \<Rightarrow> u8 list \<Rightarrow> nvme_world \<Rightarrow> unit block_result" where
  "hal_block_write d r lba buf w =
     (case BLOCK r of Some NvmeBlockDevice \<Rightarrow> write_block d lba buf w | None \<Rightarrow> Some (Ret (Inl NotReady, w)))"

section \<open>What surfaces, and what it costs\<close>

text \<open>The block size the driver reports is 0 or a power of two from 512 to 2 GiB.\<close>

lemma parse_namespace_block_size:
  "in_block_size (parse_namespace buf) = Some b \<Longrightarrow> \<exists>k \<in> {9..31}. b = push_bit k 1"
proof -
  assume "in_block_size (parse_namespace buf) = Some b"
  then obtain x :: u8 where x: "9 \<le> x" "x \<le> 31" "b = push_bit (unat x) 1"
    by (auto simp: parse_namespace_def Let_def split: if_splits)
  then have "unat x \<in> {9..31}" by (simp add: word_le_nat_alt)
  then show ?thesis using x(3) by blast
qed

lemma identify_namespace_post:
  assumes "nvme_up F w" and "clock_runs d"
  shows "nv_post (identify_namespace d nsid w) (\<lambda>r w'. IO_QUEUE w' = IO_QUEUE w \<and>
    (r = Inl AllocFailed \<and> nvme_up F w' \<or> (\<exists>buf. buf \<notin> F \<and> nvme_up (insert buf F) w')))"
  unfolding identify_namespace_def
  by (rule nv_post_bind [OF identify_post [OF assms]]) (auto intro!: nv_rules)

text \<open>
  Without a device every operation is \<open>NotReady\<close> and touches nothing. With the queues up, a
  successful read or write leaves two more frames in use: one from the Identify, one from the transfer.
\<close>

lemma hal_block_unregistered:
  "hal_block_read d registry_new lba n w = Some (Ret (Inl NotReady, w))"
  "hal_block_write d registry_new lba buf w = Some (Ret (Inl NotReady, w))"
  by (simp_all add: hal_block_read_def hal_block_write_def registry_new_def)

lemma hal_block_write_two_frames:
  assumes "nvme_up F w" and "IO_QUEUE w \<noteq> None" and "clock_runs d"
    and "hal_block_write d (hal_init r) lba buf w = Some (Ret (Inr (), w'))"
  shows "\<exists>a b. a \<notin> F \<and> b \<notin> insert a F \<and> nvme_up (insert b (insert a F)) w'"
proof -
  obtain r1 w1 where i: "identify_namespace d NSID w = Some (Ret (r1, w1))" "IO_QUEUE w1 = IO_QUEUE w"
    "r1 = Inl AllocFailed \<and> nvme_up F w1 \<or> (\<exists>a. a \<notin> F \<and> nvme_up (insert a F) w1)"
    using identify_namespace_post [OF assms(1,3), of NSID] by (auto simp: nv_post_def)
  have wr: "write_block d lba buf w = Some (Ret (Inr (), w'))"
    using assms(4) by (simp add: hal_block_write_def hal_init_def register_block_def)
  then obtain ns bs where ns: "r1 = Inr ns" "in_block_size ns = Some bs"
    "blk_bind (io_write_blocks d NSID lba bs buf w1) (\<lambda>_ w2. Some (Ret (Inr (), w2))) = Some (Ret (Inr (), w'))"
    using i(1) by (cases r1) (auto simp: write_block_def blk_bind_def split: if_splits option.splits)
  obtain a where a: "a \<notin> F" "nvme_up (insert a F) w1" using i(3) ns(1) by auto
  have io: "IO_QUEUE w1 \<noteq> None" using i(2) assms(2) by simp
  from ns(3) have ok: "io_write_blocks d NSID lba bs buf w1 = Some (Ret (Inr (), w'))"
    by (auto simp: blk_bind_def split: option.splits outcome.splits sum.splits)
  have good: "transfer_size_ok bs (length buf)"
  proof (rule ccontr)
    assume "\<not> ?thesis"
    then have "io_write_blocks d NSID lba bs buf w1 = Some (Ret (Inl InvalidTransferSize, w1))"
      using io by (auto simp: io_write_blocks_def io_transfer_def ensure_io_queue_def nv_err_def nv_bind_def nv_ok_def)
    then show False using ok by simp
  qed
  have "nv_post (io_write_blocks d NSID lba bs buf w1) (\<lambda>r w'. IO_QUEUE w' \<noteq> None \<and>
      (r = Inl AllocFailed \<and> nvme_up (insert a F) w' \<or> (\<exists>b. b \<notin> insert a F \<and> nvme_up (insert b (insert a F)) w')))"
    unfolding io_write_blocks_def
    by (rule nv_post_bind [OF transfer_post [OF a(2) io assms(3) good]]) (auto intro!: nv_rules)
  then show ?thesis using ok a(1) by (auto simp: nv_post_def)
qed

end
