(* ===== verification/Fault.thy ===== *)
theory Fault
  imports Prelude
begin

text \<open>
  The fault subsystem (\<open>kernel/src/fault/mod.rs\<close>): the event log, the table of known problems, the
  watchdog, the lock checks and the allocation counters. The calls a fix makes outside the subsystem are
  recorded as actions in \<open>f_actions\<close>, in order; a reboot is an action after which nothing
  more happens. The theorems show what a silent daemon gets, and what the lock checks see. The kernel's
  \<open>main.rs\<close> does not declare this module, so nothing calls it yet.
\<close>

datatype fault_code =
    OutOfMemory | MemoryLeak | UseAfterFree | DoubleFree | StackOverflow
  | Deadlock | LockTimeout | RaceCondition
  | DaemonCrash | DaemonUnresponsive | DaemonOom
  | DeviceTimeout | DmaError | HardwareError
  | NetworkDown | DnsFailure | TlsError
  | AiTimeout | AiModelCorrupt
  | FsCorruption | DiskFull
  | UnknownFault

datatype severity = Info | Warning | ErrorSev | Critical | Fatal

fun severity_rank :: "severity \<Rightarrow> nat" where
  "severity_rank Info = 0"
| "severity_rank Warning = 1"
| "severity_rank ErrorSev = 2"
| "severity_rank Critical = 3"
| "severity_rank Fatal = 4"

instantiation severity :: linorder
begin

definition less_eq_severity :: "severity \<Rightarrow> severity \<Rightarrow> bool" where
  "less_eq_severity a b \<longleftrightarrow> severity_rank a \<le> severity_rank b"

definition less_severity :: "severity \<Rightarrow> severity \<Rightarrow> bool" where
  "less_severity a b \<longleftrightarrow> severity_rank a < severity_rank b"

instance
proof
  fix x y z :: severity
  show "(x < y) = (x \<le> y \<and> \<not> y \<le> x)" by (auto simp: less_eq_severity_def less_severity_def)
  show "x \<le> x" by (simp add: less_eq_severity_def)
  show "x \<le> y \<Longrightarrow> y \<le> z \<Longrightarrow> x \<le> z" by (simp add: less_eq_severity_def)
  show "x \<le> y \<Longrightarrow> y \<le> x \<Longrightarrow> x = y" by (cases x; cases y) (simp_all add: less_eq_severity_def)
  show "x \<le> y \<or> y \<le> x" by (auto simp: less_eq_severity_def)
qed

end

record fault_event =
  fe_code :: fault_code
  fe_severity :: severity
  fe_component :: string
  fe_message :: string
  fe_timestamp :: u64
  fe_fixed :: bool

text \<open>
  What a fix calls. \<open>SpawnUserspace\<close> is a call of \<open>ipc::spawn_userspace\<close>, which is a stub: it
  prints a line and starts nothing. \<open>FallbackDns\<close> and \<open>DumpLocks\<close> only print too, and
  \<open>ClearTmp\<close> writes the file \<open>/tmp/.fault_cleared\<close>.
\<close>

datatype action = SpawnUserspace string | FallbackDns | ClearTmp | DumpLocks | Reboot

record watchdog_entry =
  wd_name :: string
  wd_last_ping_ms :: u64
  wd_timeout_ms :: u64
  wd_restart_count :: u32
  wd_max_restarts :: u32
  wd_enabled :: bool

record lock_record =
  lr_lock_id :: u64
  lr_name :: string
  lr_acquired :: u64

record fault_state =
  EVENT_LOG :: "fault_event list"
  EVENT_COUNT :: u32
  CLOCK :: u64
  WATCHDOG_ENTRIES :: "watchdog_entry list"
  UPTIME_MS :: u64
  HELD_LOCKS :: "lock_record list"
  ALLOC_COUNT :: u64
  ALLOC_BYTES :: u64
  FREE_COUNT :: u64
  f_actions :: "action list"

definition fault_start :: fault_state where
  "fault_start =
     \<lparr>EVENT_LOG = [], EVENT_COUNT = 0, CLOCK = 0, WATCHDOG_ENTRIES = [], UPTIME_MS = 0, HELD_LOCKS = [],
      ALLOC_COUNT = 0, ALLOC_BYTES = 0, FREE_COUNT = 0, f_actions = []\<rparr>"

section \<open>Reporting\<close>

definition act :: "action \<Rightarrow> fault_state \<Rightarrow> fault_state" where
  "act a s = s\<lparr>f_actions := f_actions s @ [a]\<rparr>"

text \<open>\<open>KNOWN_PROBLEMS\<close>: the call of each fix, and whether it claims success; the fixes that ask for a
  daemon claim it without looking whether one started.\<close>

fun known_fix :: "fault_code \<Rightarrow> (string \<Rightarrow> action \<times> bool) option" where
  "known_fix DaemonCrash = Some (\<lambda>c. (SpawnUserspace c, True))"
| "known_fix DaemonUnresponsive = Some (\<lambda>c. (SpawnUserspace c, True))"
| "known_fix NetworkDown = Some (\<lambda>_. (SpawnUserspace ''netd'', True))"
| "known_fix DnsFailure = Some (\<lambda>_. (FallbackDns, True))"
| "known_fix AiTimeout = Some (\<lambda>_. (SpawnUserspace ''aidaemon'', True))"
| "known_fix DiskFull = Some (\<lambda>_. (ClearTmp, True))"
| "known_fix LockTimeout = Some (\<lambda>_. (DumpLocks, False))"
| "known_fix _ = None"

definition report :: "fault_code \<Rightarrow> severity \<Rightarrow> string \<Rightarrow> string \<Rightarrow> fault_state \<Rightarrow> fault_state" where
  "report code sev component message s =
     (let ts = CLOCK s;
          s1 = s\<lparr>CLOCK := CLOCK s + 1\<rparr>;
          (fixed, s2) =
            (if ErrorSev \<le> sev then
               (case known_fix code of
                  Some fix_fun \<Rightarrow> (case fix_fun component of (a, ok) \<Rightarrow> (ok, act a s1))
                | None \<Rightarrow> (False, s1))
             else (False, s1));
          log = EVENT_LOG s2;
          log1 = (if 256 \<le> length log then tl log else log);
          s3 = s2\<lparr>EVENT_LOG := log1 @ [\<lparr>fe_code = code, fe_severity = sev, fe_component = component,
                    fe_message = message, fe_timestamp = ts, fe_fixed = fixed\<rparr>],
                  EVENT_COUNT := EVENT_COUNT s2 + 1\<rparr>
      in if sev = Fatal then act Reboot s3 else s3)"

definition recent_events :: "nat \<Rightarrow> fault_state \<Rightarrow> fault_event list" where
  "recent_events n s = drop (length (EVENT_LOG s) - n) (EVENT_LOG s)"

definition total_count :: "fault_state \<Rightarrow> u32" where
  "total_count s = EVENT_COUNT s"

section \<open>Watchdog\<close>

definition watchdog_register :: "string \<Rightarrow> u64 \<Rightarrow> fault_state \<Rightarrow> fault_state" where
  "watchdog_register name timeout s =
     s\<lparr>WATCHDOG_ENTRIES := WATCHDOG_ENTRIES s @
        [\<lparr>wd_name = name, wd_last_ping_ms = 0, wd_timeout_ms = timeout, wd_restart_count = 0,
          wd_max_restarts = 3, wd_enabled = True\<rparr>]\<rparr>"

fun ping_first :: "string \<Rightarrow> u64 \<Rightarrow> watchdog_entry list \<Rightarrow> watchdog_entry list" where
  "ping_first name now [] = []"
| "ping_first name now (e # es) =
     (if wd_name e = name then e\<lparr>wd_last_ping_ms := now\<rparr> # es else e # ping_first name now es)"

definition watchdog_ping :: "string \<Rightarrow> fault_state \<Rightarrow> fault_state" where
  "watchdog_ping name s = s\<lparr>WATCHDOG_ENTRIES := ping_first name (UPTIME_MS s) (WATCHDOG_ENTRIES s)\<rparr>"

definition sat_sub :: "u64 \<Rightarrow> u64 \<Rightarrow> u64" where
  "sat_sub a b = (if b \<le> a then a - b else 0)"

definition expired :: "u64 \<Rightarrow> watchdog_entry \<Rightarrow> bool" where
  "expired now e \<longleftrightarrow> wd_enabled e \<and> wd_timeout_ms e < sat_sub now (wd_last_ping_ms e)"

text \<open>The loop over the entries: it stops at the first expired one and answers what to report of it.\<close>

fun tick_entries :: "u64 \<Rightarrow> watchdog_entry list \<Rightarrow> watchdog_entry list \<times> (watchdog_entry \<times> bool) option" where
  "tick_entries now [] = ([], None)"
| "tick_entries now (e # es) =
     (if expired now e then
        (if wd_restart_count e < wd_max_restarts e
         then (e\<lparr>wd_restart_count := wd_restart_count e + 1\<rparr> # es, Some (e, False))
         else (e\<lparr>wd_restart_count := wd_restart_count e + 1, wd_enabled := False\<rparr> # es, Some (e, True)))
      else (case tick_entries now es of (es', r) \<Rightarrow> (e # es', r)))"

text \<open>The texts of the two reports carry numbers; their constant parts are kept.\<close>

definition watchdog_tick :: "u64 \<Rightarrow> fault_state \<Rightarrow> fault_state" where
  "watchdog_tick now s =
     (case tick_entries now (WATCHDOG_ENTRIES s) of
        (es, r) \<Rightarrow>
          let s1 = s\<lparr>UPTIME_MS := now, WATCHDOG_ENTRIES := es\<rparr>
          in case r of
               None \<Rightarrow> s1
             | Some (e, False) \<Rightarrow> report DaemonUnresponsive ErrorSev (wd_name e) ''No ping'' s1
             | Some (e, True) \<Rightarrow>
                 report DaemonCrash Critical (wd_name e) ''Exceeded max restarts - daemon isolated'' s1)"

section \<open>Locks and allocation counters\<close>

definition lock_acquire :: "u64 \<Rightarrow> string \<Rightarrow> u64 \<Rightarrow> fault_state \<Rightarrow> (string + unit) \<times> fault_state" where
  "lock_acquire lock_id name timeout s =
     (if list_ex (\<lambda>r. lr_lock_id r = lock_id) (HELD_LOCKS s)
      then (Inl ''deadlock detected'', report Deadlock Critical name ''Attempted to acquire already-held lock'' s)
      else (Inr (), s))"

definition lock_acquired :: "u64 \<Rightarrow> string \<Rightarrow> fault_state \<Rightarrow> fault_state" where
  "lock_acquired lock_id name s =
     (if length (HELD_LOCKS s) < 16
      then s\<lparr>HELD_LOCKS := HELD_LOCKS s @ [\<lparr>lr_lock_id = lock_id, lr_name = name, lr_acquired = UPTIME_MS s\<rparr>]\<rparr>
      else s)"

definition lock_release :: "u64 \<Rightarrow> fault_state \<Rightarrow> fault_state" where
  "lock_release lock_id s = s\<lparr>HELD_LOCKS := filter (\<lambda>r. lr_lock_id r \<noteq> lock_id) (HELD_LOCKS s)\<rparr>"

definition track_alloc :: "u64 \<Rightarrow> fault_state \<Rightarrow> fault_state" where
  "track_alloc bytes s = s\<lparr>ALLOC_COUNT := ALLOC_COUNT s + 1, ALLOC_BYTES := ALLOC_BYTES s + bytes\<rparr>"

definition track_free :: "u64 \<Rightarrow> fault_state \<Rightarrow> fault_state" where
  "track_free bytes s = s\<lparr>FREE_COUNT := FREE_COUNT s + 1, ALLOC_BYTES := ALLOC_BYTES s - bytes\<rparr>"

definition check_memory_health :: "fault_state \<Rightarrow> fault_state" where
  "check_memory_health s =
     (if 512 * 1024 * 1024 < ALLOC_BYTES s then report MemoryLeak Warning ''heap'' ''Live heap'' s else s)"

section \<open>What a report leaves\<close>

lemma report_fields [simp]:
  "WATCHDOG_ENTRIES (report c v n m s) = WATCHDOG_ENTRIES s" "UPTIME_MS (report c v n m s) = UPTIME_MS s"
  "HELD_LOCKS (report c v n m s) = HELD_LOCKS s"
  by (simp_all add: report_def act_def Let_def split: option.splits prod.splits)

lemma report_log:
  "length (EVENT_LOG s) \<le> 256 \<Longrightarrow> length (EVENT_LOG (report c v n m s)) \<le> 256 \<and>
     (\<exists>e. last (EVENT_LOG (report c v n m s)) = e \<and> fe_code e = c \<and> fe_severity e = v \<and> fe_component e = n)"
  by (auto simp: report_def act_def Let_def split: option.splits prod.splits)

lemma report_spawns:
  "f_actions (report DaemonUnresponsive ErrorSev n m s) = f_actions s @ [SpawnUserspace n]"
  "f_actions (report DaemonCrash Critical n m s) = f_actions s @ [SpawnUserspace n]"
  by (simp_all add: report_def act_def Let_def less_eq_severity_def)

section \<open>The life of a silent daemon\<close>

text \<open>Ticks one after the other, each with the time it is called with.\<close>

definition ticks :: "u64 list \<Rightarrow> fault_state \<Rightarrow> fault_state" where
  "ticks ts s = fold watchdog_tick ts s"

definition silent :: "watchdog_entry \<Rightarrow> u64 list \<Rightarrow> bool" where
  "silent e ts \<longleftrightarrow> wd_enabled e \<and> wd_max_restarts e = 3 \<and>
     (\<forall>t \<in> set ts. wd_timeout_ms e < sat_sub t (wd_last_ping_ms e))"

text \<open>The loop passes over the entries that are not expired.\<close>

lemma tick_entries_skip:
  "\<forall>p \<in> set pre. \<not> expired t p \<Longrightarrow>
     tick_entries t (pre @ es) = (case tick_entries t es of (es', r) \<Rightarrow> (pre @ es', r))"
  by (induction pre) (simp_all add: case_prod_beta')

lemma tick_at:
  assumes "WATCHDOG_ENTRIES s = pre @ e # post" and "\<forall>p \<in> set pre. \<not> expired t p" and "expired t e"
  shows "watchdog_tick t s =
       (if wd_restart_count e < wd_max_restarts e
        then report DaemonUnresponsive ErrorSev (wd_name e) ''No ping''
               (s\<lparr>UPTIME_MS := t, WATCHDOG_ENTRIES := pre @ e\<lparr>wd_restart_count := wd_restart_count e + 1\<rparr> # post\<rparr>)
        else report DaemonCrash Critical (wd_name e) ''Exceeded max restarts - daemon isolated''
               (s\<lparr>UPTIME_MS := t, WATCHDOG_ENTRIES :=
                  pre @ e\<lparr>wd_restart_count := wd_restart_count e + 1, wd_enabled := False\<rparr> # post\<rparr>))"
  using assms(3) by (simp add: watchdog_tick_def Let_def assms(1) tick_entries_skip [OF assms(2)])

text \<open>An entry that is not enabled stays as it is.\<close>

lemma tick_entries_disabled:
  "i < length es \<Longrightarrow> \<not> wd_enabled (es ! i) \<Longrightarrow>
     length (fst (tick_entries t es)) = length es \<and> fst (tick_entries t es) ! i = es ! i"
proof (induction es arbitrary: i)
  case (Cons e es)
  show ?case
  proof (cases "expired t e")
    case True
    then have "i \<noteq> 0" using Cons.prems(2) by (cases i) (auto simp: expired_def)
    then show ?thesis using True by (cases i) auto
  next
    case False
    have "length (fst (tick_entries t es)) = length es" for es by (induction es) (simp_all add: case_prod_beta')
    then show ?thesis using False Cons.IH Cons.prems by (cases i) (simp_all add: case_prod_beta')
  qed
qed simp

lemma tick_disabled:
  assumes "i < length (WATCHDOG_ENTRIES s)" and "\<not> wd_enabled (WATCHDOG_ENTRIES s ! i)"
  shows "i < length (WATCHDOG_ENTRIES (watchdog_tick t s)) \<and>
    WATCHDOG_ENTRIES (watchdog_tick t s) ! i = WATCHDOG_ENTRIES s ! i"
proof -
  have "WATCHDOG_ENTRIES (watchdog_tick t s) = fst (tick_entries t (WATCHDOG_ENTRIES s))"
    by (simp add: watchdog_tick_def Let_def split: prod.splits option.splits bool.splits)
  then show ?thesis using tick_entries_disabled [OF assms] assms(1) by simp
qed

lemma ticks_disabled:
  "i < length (WATCHDOG_ENTRIES s) \<Longrightarrow> \<not> wd_enabled (WATCHDOG_ENTRIES s ! i) \<Longrightarrow>
     WATCHDOG_ENTRIES (ticks ts s) ! i = WATCHDOG_ENTRIES s ! i"
proof (induction ts arbitrary: s)
  case (Cons t ts)
  from tick_disabled [OF Cons.prems, of t] Cons.IH [of "watchdog_tick t s"] Cons.prems(2)
  show ?case by (simp add: ticks_def)
qed (simp add: ticks_def)

text \<open>
  C30. What the watchdog does for a daemon that stays silent. As long as no daemon registered before it is
  late as well, its restart is asked for at each of the next four ticks, however close together these
  are: three times as unresponsive, and once more by the very report that declares it isolated, because the
  problem table's fix for a crash is a restart. (Asked for only: the call behind the request is a stub that
  starts nothing, yet each of the four events is logged as fixed.) From then on its entry is disabled and no
  tick at any time changes it.
\<close>

theorem watchdog_silent_daemon:
  assumes "WATCHDOG_ENTRIES s = pre @ e # post" and "wd_restart_count e = 0" and "silent e [t1, t2, t3, t4]"
    and "\<forall>p \<in> set pre. \<forall>t \<in> {t1, t2, t3, t4}. \<not> expired t p"
  shows "f_actions (ticks [t1, t2, t3, t4] s) = f_actions s @ replicate 4 (SpawnUserspace (wd_name e)) \<and>
    WATCHDOG_ENTRIES (ticks [t1, t2, t3, t4] s) = pre @ e\<lparr>wd_restart_count := 4, wd_enabled := False\<rparr> # post \<and>
    (\<forall>ts. WATCHDOG_ENTRIES (ticks ([t1, t2, t3, t4] @ ts) s) ! length pre =
       e\<lparr>wd_restart_count := 4, wd_enabled := False\<rparr>)"
proof -
  have x: "expired t (e\<lparr>wd_restart_count := k\<rparr>)" if "t \<in> {t1, t2, t3, t4}" for t k
    using assms(3) that by (auto simp: expired_def silent_def)
  have m: "wd_max_restarts e = 3" using assms(3) by (simp add: silent_def)
  let ?e = "\<lambda>k. e\<lparr>wd_restart_count := k\<rparr>" and ?a = "SpawnUserspace (wd_name e)"
  have e0: "WATCHDOG_ENTRIES s = pre @ ?e 0 # post" using assms(1,2) by simp
  have step: "WATCHDOG_ENTRIES (watchdog_tick t q) = pre @ (?e (k + 1))\<lparr>wd_enabled := k < 3 \<and> wd_enabled e\<rparr> # post \<and>
      f_actions (watchdog_tick t q) = f_actions q @ [?a]"
    if "WATCHDOG_ENTRIES q = pre @ ?e k # post" "t \<in> {t1, t2, t3, t4}" "k \<le> 3" for q t k
  proof -
    have "\<forall>p \<in> set pre. \<not> expired t p" using assms(4) that(2) by blast
    from tick_at [OF that(1) this x [OF that(2)]] show ?thesis
      using that(3) m by (cases "k < 3") (simp_all add: report_spawns)
  qed
  have en: "wd_enabled e" using assms(3) by (simp add: silent_def)
  let ?s1 = "watchdog_tick t1 s" let ?s2 = "watchdog_tick t2 ?s1" let ?s3 = "watchdog_tick t3 ?s2"
  let ?s4 = "watchdog_tick t4 ?s3" and ?d = "e\<lparr>wd_restart_count := 4, wd_enabled := False\<rparr>"
  have same: "r\<lparr>wd_enabled := True\<rparr> = r" if "wd_enabled r" for r :: watchdog_entry using that by (cases r) simp
  have 1: "WATCHDOG_ENTRIES ?s1 = pre @ ?e 1 # post" "f_actions ?s1 = f_actions s @ [?a]"
    using step [OF e0, of t1] en by (simp_all add: same)
  have 2: "WATCHDOG_ENTRIES ?s2 = pre @ ?e 2 # post" "f_actions ?s2 = f_actions ?s1 @ [?a]"
    using step [OF 1(1), of t2] en by (simp_all add: same)
  have 3: "WATCHDOG_ENTRIES ?s3 = pre @ ?e 3 # post" "f_actions ?s3 = f_actions ?s2 @ [?a]"
    using step [OF 2(1), of t3] en by (simp_all add: same)
  have 4: "WATCHDOG_ENTRIES ?s4 = pre @ ?d # post" "f_actions ?s4 = f_actions ?s3 @ [?a]"
    using step [OF 3(1), of t4] by simp_all
  have t: "ticks ([t1, t2, t3, t4] @ ts) s = ticks ts ?s4" "ticks [t1, t2, t3, t4] s = ?s4" for ts
    by (simp_all add: ticks_def)
  have "WATCHDOG_ENTRIES (ticks ts ?s4) ! length pre = ?d" for ts
    using ticks_disabled [of "length pre" ?s4 ts] 4(1) by simp
  then show ?thesis using 1(2) 2(2) 3(2) 4 unfolding t by (simp add: numeral_eq_Suc)
qed

text \<open>Behind a daemon with a longer timeout, and in front of another one.\<close>

lemma watchdog_silent_daemon_witness:
  "f_actions (ticks [6000, 7000, 8000, 9000] (watchdog_register ''logd'' 1000 (watchdog_register ''netd'' 5000
      (watchdog_register ''aid'' 20000 fault_start)))) = replicate 4 (SpawnUserspace ''netd'')"
proof -
  let ?s = "watchdog_register ''logd'' 1000 (watchdog_register ''netd'' 5000 (watchdog_register ''aid'' 20000 fault_start))"
  let ?w = "\<lambda>n t. \<lparr>wd_name = n, wd_last_ping_ms = 0, wd_timeout_ms = t, wd_restart_count = 0,
       wd_max_restarts = 3, wd_enabled = True\<rparr>"
  have "f_actions (ticks [6000, 7000, 8000, 9000] ?s) = f_actions ?s @ replicate 4 (SpawnUserspace (wd_name (?w ''netd'' 5000)))"
    by (rule conjunct1 [OF watchdog_silent_daemon [where pre = "[?w ''aid'' 20000]" and post = "[?w ''logd'' 1000]"]])
      (simp_all add: watchdog_register_def fault_start_def silent_def sat_sub_def expired_def)
  then show ?thesis by (simp add: watchdog_register_def fault_start_def)
qed

text \<open>A daemon whose last ping is recent enough is left alone.\<close>

lemma watchdog_alive:
  "\<forall>e \<in> set (WATCHDOG_ENTRIES s). \<not> expired t e \<Longrightarrow> watchdog_tick t s = s\<lparr>UPTIME_MS := t\<rparr>"
proof -
  have "\<forall>e \<in> set es. \<not> expired t e \<Longrightarrow> tick_entries t es = (es, None)" for es
    by (induction es) auto
  then show "\<forall>e \<in> set (WATCHDOG_ENTRIES s). \<not> expired t e \<Longrightarrow> ?thesis"
    by (simp add: watchdog_tick_def)
qed

section \<open>What the lock checks see\<close>

definition holds :: "u64 \<Rightarrow> fault_state \<Rightarrow> bool" where
  "holds l s \<longleftrightarrow> (\<exists>r \<in> set (HELD_LOCKS s). lr_lock_id r = l)"

text \<open>
  The deadlock check refuses exactly a lock that is recorded as held, and reports it; it never
  looks at the order, so two tasks that take two locks in opposite orders are both let through. A
  lock taken beyond sixteen is not recorded, so taking it again is not refused. A release forgets
  the lock and nothing else.
\<close>

theorem lock_checks:
  "(fst (lock_acquire l n t s) = Inr () \<longleftrightarrow> \<not> holds l s) \<and>
   (fst (lock_acquire l n t s) = Inr () \<longrightarrow> snd (lock_acquire l n t s) = s) \<and>
   (fst (lock_acquire l n t s) \<noteq> Inr () \<longrightarrow> snd (lock_acquire l n t s) =
      report Deadlock Critical n ''Attempted to acquire already-held lock'' s) \<and>
   (holds k (lock_acquired l n s) \<longleftrightarrow> holds k s \<or> (k = l \<and> length (HELD_LOCKS s) < 16)) \<and>
   (holds k (lock_release l s) \<longleftrightarrow> k \<noteq> l \<and> holds k s)"
  by (auto simp: lock_acquire_def holds_def list_ex_iff lock_acquired_def lock_release_def)

end
