(* ===== verification/Syscalls.thy ===== *)
theory Syscalls
  imports Procs AuditLog
begin

text \<open>
  The system call entry (\<open>syscall_handler\<close>, \<open>checked_sys_write\<close> and \<open>checked_sys_draw\<close> in
  \<open>kernel/src/main.rs\<close>). The assembly handler is split where it can be interrupted: the entry that
  saves the caller's stack pointer in the one global and pushes on the one kernel stack, the
  work, with the frames that calls and interrupts leave below, and the return that pops. Memory is what the caller's page tables show, an argument in the
  state; the serial line and the screen are lists of what was sent to them. Console diagnostics
  and the wait for the transmitter are left out. The theorems show what the capability gate
  lets through and what happens to a caller that is preempted inside the handler.
\<close>

record user_regs =
  ur_rax :: u64
  ur_rcx :: u64
  ur_r11 :: u64
  ur_rdx :: u64
  ur_rsi :: u64
  ur_rsp :: u64

text \<open>What \<open>sysretq\<close> returns to: the result, the flags, the instruction and the stack pointer.\<close>

record sysret =
  sr_rax :: u64
  sr_r11 :: u64
  sr_rip :: u64
  sr_rsp :: u64

record sys =
  y_sched :: sched
  y_log :: audit_ring
  y_tick :: u64
  y_mem :: memory
  y_serial :: "u8 list"
  y_rects :: "(u32 \<times> u32 \<times> u32 \<times> u32 \<times> u32) list"
  SAVED_USER_RSP :: u64
  SYSCALL_KSTACK :: "u64 \<Rightarrow> u64"

definition CAP_WRITE_SERIAL :: u64 where "CAP_WRITE_SERIAL = 1"
definition CAP_DRAW :: u64 where "CAP_DRAW = 2"

definition cap_audit :: "string \<Rightarrow> bool \<Rightarrow> string \<Rightarrow> sys \<Rightarrow> sys" where
  "cap_audit action allowed detail y =
     y\<lparr>y_log := audit_log (y_tick y) ''cap'' action (uid (y_sched y)) allowed detail (y_log y)\<rparr>"

definition serial_write_bytes :: "u64 \<Rightarrow> u64 \<Rightarrow> sys \<Rightarrow> sys" where
  "serial_write_bytes buf len y = y\<lparr>y_serial := y_serial y @ read_bytes (y_mem y) buf (unat len)\<rparr>"

definition draw_success_marker :: "sys \<Rightarrow> sys" where
  "draw_success_marker y = y\<lparr>y_rects := y_rects y @ [(20, 20, 100, 100, 0x00FF00)]\<rparr>"

definition checked_sys_write :: "u64 \<Rightarrow> u64 \<Rightarrow> sys \<Rightarrow> sys" where
  "checked_sys_write buf len y =
     (if caps (y_sched y) AND CAP_WRITE_SERIAL = 0
      then cap_audit ''write'' False ''CAP_WRITE_SERIAL'' y
      else serial_write_bytes buf len (cap_audit ''write'' True ''CAP_WRITE_SERIAL'' y))"

definition checked_sys_draw :: "sys \<Rightarrow> sys" where
  "checked_sys_draw y =
     (if caps (y_sched y) AND CAP_DRAW = 0
      then cap_audit ''draw'' False ''CAP_DRAW'' y
      else draw_success_marker (cap_audit ''draw'' True ''CAP_DRAW'' y))"

section \<open>The handler\<close>

text \<open>\<open>push\<close> on the kernel stack, by offset; the handler starts at offset 8192.\<close>

definition kpush :: "u64 \<Rightarrow> u64 \<times> sys \<Rightarrow> u64 \<times> sys" where
  "kpush v p = (case p of (sp, y) \<Rightarrow> (sp - 8, y\<lparr>SYSCALL_KSTACK := (SYSCALL_KSTACK y)(sp - 8 := v)\<rparr>))"

definition kpop :: "u64 \<times> sys \<Rightarrow> u64 \<times> u64 \<times> sys" where
  "kpop p = (case p of (sp, y) \<Rightarrow> (SYSCALL_KSTACK y sp, sp + 8, y))"

definition syscall_entry :: "user_regs \<Rightarrow> sys \<Rightarrow> u64 \<times> sys" where
  "syscall_entry r y =
     (let y1 = y\<lparr>SAVED_USER_RSP := ur_rsp r\<rparr>; sp = 8192
      in if ur_rax r = 1 then kpush (ur_rdx r) (kpush (ur_r11 r) (kpush (ur_rcx r) (sp, y1)))
      else if ur_rax r = 2 then kpush (ur_r11 r) (kpush (ur_rcx r) (sp, y1))
      else (sp, y1))"

definition syscall_work :: "user_regs \<Rightarrow> sys \<Rightarrow> sys" where
  "syscall_work r y =
     (if ur_rax r = 1 then checked_sys_write (ur_rsi r) (ur_rdx r) y
      else if ur_rax r = 2 then checked_sys_draw y else y)"

definition syscall_return :: "user_regs \<Rightarrow> u64 \<Rightarrow> sys \<Rightarrow> sysret" where
  "syscall_return r sp y =
     (if ur_rax r = 1 then
        (case kpop (sp, y) of (rax, sp1, y1) \<Rightarrow>
         case kpop (sp1, y1) of (r11, sp2, y2) \<Rightarrow>
         case kpop (sp2, y2) of (rcx, _, y3) \<Rightarrow>
           \<lparr>sr_rax = rax, sr_r11 = r11, sr_rip = rcx, sr_rsp = SAVED_USER_RSP y3\<rparr>)
      else if ur_rax r = 2 then
        (case kpop (sp, y) of (r11, sp1, y1) \<Rightarrow>
         case kpop (sp1, y1) of (rcx, _, y2) \<Rightarrow>
           \<lparr>sr_rax = 0, sr_r11 = r11, sr_rip = rcx, sr_rsp = SAVED_USER_RSP y2\<rparr>)
      else
        \<lparr>sr_rax = 0xFFFFFFFFFFFFFFDA, sr_r11 = ur_r11 r, sr_rip = ur_rcx r, sr_rsp = SAVED_USER_RSP y\<rparr>)"

text \<open>
  Below what the handler itself pushes, the same stack takes the return address of the call, the frames of
  the called functions and, when a timer interrupt comes in, its frame and what the context switch
  pushes: \<open>frames\<close>, from the top down. A caller finds its way back through these words; when they
  are no longer what it left, the return path is gone (\<open>Derailed\<close>, after which nothing is
  modelled).
\<close>

definition leave_frames :: "u64 list \<Rightarrow> u64 \<Rightarrow> sys \<Rightarrow> sys" where
  "leave_frames frames sp y = snd (fold kpush frames (sp, y))"

definition frames_at :: "u64 \<Rightarrow> nat \<Rightarrow> sys \<Rightarrow> u64 list" where
  "frames_at sp n y = map (\<lambda>i. SYSCALL_KSTACK y (sp - 8 * of_nat (Suc i))) [0..<n]"

text \<open>
  \<open>sys_exit\<close> (60) does not come back: it hands over to the scheduler's \<open>exit_current\<close>. Every other call
  runs the three parts; \<open>meanwhile\<close> is what other tasks do while the caller is preempted in the handler.
\<close>

datatype syscall_result = Resumed sysret sys | Derailed sys | Exited "(pid \<times> sched) outcome"

definition syscall_handler :: "u64 list \<Rightarrow> (sys \<Rightarrow> sys) \<Rightarrow> user_regs \<Rightarrow> sys \<Rightarrow> syscall_result" where
  "syscall_handler frames meanwhile r y =
     (case syscall_entry r y of (sp, y1) \<Rightarrow>
        if ur_rax r = 60 then Exited (exit_commit (y_sched y1))
        else
          let y2 = meanwhile (leave_frames frames sp (syscall_work r y1))
          in if frames_at sp (length frames) y2 = frames then Resumed (syscall_return r sp y2) y2
             else Derailed y2)"

section \<open>The gate\<close>

lemma cap_audit_fields [simp]:
  "y_sched (cap_audit a b d y) = y_sched y" "y_mem (cap_audit a b d y) = y_mem y"
  "y_serial (cap_audit a b d y) = y_serial y" "y_rects (cap_audit a b d y) = y_rects y"
  "SAVED_USER_RSP (cap_audit a b d y) = SAVED_USER_RSP y" "SYSCALL_KSTACK (cap_audit a b d y) = SYSCALL_KSTACK y"
  "y_tick (cap_audit a b d y) = y_tick y"
  by (simp_all add: cap_audit_def)

lemma checked_sys_write_fields [simp]:
  "SAVED_USER_RSP (checked_sys_write b l y) = SAVED_USER_RSP y"
  "SYSCALL_KSTACK (checked_sys_write b l y) = SYSCALL_KSTACK y"
  by (simp_all add: checked_sys_write_def serial_write_bytes_def)

lemma cap_bits: "x AND CAP_WRITE_SERIAL = 0 \<longleftrightarrow> \<not> bit x 0" "x AND CAP_DRAW = 0 \<longleftrightarrow> \<not> bit x 1" for x :: u64
proof -
  have "x AND CAP_DRAW = 0 \<longleftrightarrow> x AND push_bit 1 1 = 0" by (simp add: CAP_DRAW_def)
  also have "\<dots> \<longleftrightarrow> \<not> bit x 1" by (simp only: bit_iff_and_push_bit_not_eq_0 [of x 1] not_not)
  finally show "x AND CAP_DRAW = 0 \<longleftrightarrow> \<not> bit x 1" .
  show "x AND CAP_WRITE_SERIAL = 0 \<longleftrightarrow> \<not> bit x 0"
    using bit_iff_and_push_bit_not_eq_0 [of x 0] by (simp add: CAP_WRITE_SERIAL_def)
qed

definition cap_event :: "string \<Rightarrow> bool \<Rightarrow> string \<Rightarrow> sys \<Rightarrow> audit_ring" where
  "cap_event action allowed detail y = most_recent LOG_CAPACITY (y_log y @
     [\<lparr>ev_tick = y_tick y, ev_subsystem = ''cap'', ev_action = action, ev_uid = uid (y_sched y),
       ev_allowed = allowed, ev_detail = detail\<rparr>])"

lemma cap_audit_log: "audit_ok (y_log y) \<Longrightarrow> y_log (cap_audit a b d y) = cap_event a b d y"
  by (simp add: cap_audit_def cap_event_def audit_log_def audit_push_most_recent)

text \<open>The frames are where they were left, and the words above them untouched.\<close>

lemma leave_frames_Cons: "leave_frames (f # fs) sp y = leave_frames fs (sp - 8) (snd (kpush f (sp, y)))"
  by (simp add: leave_frames_def kpush_def)

lemma leave_frames_fields [simp]:
  "leave_frames [] sp y = y"
  "y_sched (leave_frames fs sp y) = y_sched y" "y_mem (leave_frames fs sp y) = y_mem y"
  "y_serial (leave_frames fs sp y) = y_serial y" "y_rects (leave_frames fs sp y) = y_rects y"
  "y_log (leave_frames fs sp y) = y_log y" "SAVED_USER_RSP (leave_frames fs sp y) = SAVED_USER_RSP y"
  by (simp add: leave_frames_def, (induction fs arbitrary: sp y, simp add: leave_frames_def,
    simp add: leave_frames_Cons kpush_def)+)

lemma leave_frames_above:
  "8 * length fs \<le> unat sp \<Longrightarrow> sp \<le> a \<Longrightarrow> SYSCALL_KSTACK (leave_frames fs sp y) a = SYSCALL_KSTACK y a"
proof (induction fs arbitrary: sp y)
  case (Cons f fs)
  have u: "unat (sp - 8) = unat sp - 8" using Cons.prems(1) by (simp add: unat_sub word_le_nat_alt)
  have le: "sp - 8 \<le> a" "a \<noteq> sp - 8"
    using Cons.prems u by (auto simp: word_le_nat_alt)
  have "8 * length fs \<le> unat (sp - 8)" using Cons.prems(1) u by simp
  from Cons.IH [OF this le(1)] show ?case using le(2) by (simp add: leave_frames_Cons kpush_def)
qed simp

lemma frames_at_leave:
  "8 * length fs \<le> unat sp \<Longrightarrow> frames_at sp (length fs) (leave_frames fs sp y) = fs"
proof (induction fs arbitrary: sp y)
  case (Cons f fs)
  have u: "unat (sp - 8) = unat sp - 8" using Cons.prems by (simp add: unat_sub word_le_nat_alt)
  then have le: "8 * length fs \<le> unat (sp - 8)" using Cons.prems by simp
  have e: "sp - 8 * of_nat (Suc (Suc i)) = (sp - 8) - 8 * of_nat (Suc i)" for i by (simp add: algebra_simps)
  have "frames_at sp (length (f # fs)) z = SYSCALL_KSTACK z (sp - 8) # frames_at (sp - 8) (length fs) z" for z
    unfolding frames_at_def length_Cons upt_conv_Cons [OF zero_less_Suc]
    by (simp only: list.map map_Suc_upt [symmetric] map_map comp_def e) simp
  then show ?case using Cons.IH [OF le] leave_frames_above [OF le, of "sp - 8"]
    by (simp add: leave_frames_Cons kpush_def)
qed (simp add: frames_at_def)

lemma work_stack [simp]:
  "SYSCALL_KSTACK (syscall_work r y) = SYSCALL_KSTACK y" "SAVED_USER_RSP (syscall_work r y) = SAVED_USER_RSP y"
  by (simp_all add: syscall_work_def checked_sys_draw_def draw_success_marker_def)

text \<open>Frames that begin with the same words leave the same words.\<close>

lemma frames_at_prefix:
  assumes "take n fs = gs" and "n = length gs" and "8 * length fs \<le> unat sp"
  shows "frames_at sp n (leave_frames fs sp y) = gs"
proof -
  have n: "n \<le> length fs" using assms(1,2) by (metis length_take min.cobounded1)
  have "frames_at sp n z = take n (frames_at sp (length fs) z)" for z
    using n by (simp add: frames_at_def take_map take_upt)
  then show ?thesis by (simp add: frames_at_leave [OF assms(3)] assms(1))
qed

text \<open>The handler without preemption, call by call. The stack has room for 1021 words below what the
  handler pushes; what is left there does not matter.\<close>

lemma handler_returns:
  assumes "ur_rax r \<noteq> 60" and "length frames \<le> 1021"
  shows "\<exists>y'. syscall_handler frames id r y = Resumed
      \<lparr>sr_rax = (if ur_rax r = 1 then ur_rdx r else if ur_rax r = 2 then 0 else - 38),
       sr_r11 = ur_r11 r, sr_rip = ur_rcx r, sr_rsp = ur_rsp r\<rparr> y' \<and>
    y' = leave_frames frames (fst (syscall_entry r y)) (syscall_work r (snd (syscall_entry r y)))"
proof -
  define sp where "sp = fst (syscall_entry r y)"
  define y2 where "y2 = leave_frames frames sp (syscall_work r (snd (syscall_entry r y)))"
  have sp: "sp = (if ur_rax r = 1 then 8168 else if ur_rax r = 2 then 8176 else 8192)"
    by (simp add: sp_def syscall_entry_def kpush_def Let_def)
  have len: "8 * length frames \<le> unat sp" using assms(2) by (simp add: sp)
  have "syscall_handler frames id r y = Resumed (syscall_return r sp y2) y2"
    using assms(1) frames_at_leave [OF len]
    by (simp add: syscall_handler_def y2_def sp_def Let_def case_prod_unfold)
  moreover have "syscall_return r sp y2 = \<lparr>sr_rax = (if ur_rax r = 1 then ur_rdx r else if ur_rax r = 2 then 0 else - 38),
       sr_r11 = ur_r11 r, sr_rip = ur_rcx r, sr_rsp = ur_rsp r\<rparr>"
  proof -
    consider "ur_rax r = 1" | "ur_rax r = 2" | "ur_rax r \<noteq> 1" "ur_rax r \<noteq> 2" by blast
    then show ?thesis
      by cases (use leave_frames_above [OF len] sp in
        \<open>simp add: syscall_return_def y2_def kpop_def syscall_entry_def kpush_def Let_def\<close>)+
  qed
  ultimately show ?thesis by (simp add: y2_def sp_def)
qed

lemma work_fields:
  "y_sched (syscall_work r (snd (syscall_entry r y))) = y_sched y"
  "y_serial (syscall_work r (snd (syscall_entry r y))) = y_serial y @
     (if ur_rax r = 1 \<and> bit (caps (y_sched y)) 0 then read_bytes (y_mem y) (ur_rsi r) (unat (ur_rdx r)) else [])"
  "y_rects (syscall_work r (snd (syscall_entry r y))) = y_rects y @
     (if ur_rax r = 2 \<and> bit (caps (y_sched y)) 1 then [(20, 20, 100, 100, 0x00FF00)] else [])"
  "audit_ok (y_log y) \<Longrightarrow> y_log (syscall_work r (snd (syscall_entry r y))) =
     (if ur_rax r = 1 then cap_event ''write'' (bit (caps (y_sched y)) 0) ''CAP_WRITE_SERIAL'' y
      else if ur_rax r = 2 then cap_event ''draw'' (bit (caps (y_sched y)) 1) ''CAP_DRAW'' y else y_log y)"
  by (auto simp: syscall_entry_def syscall_work_def kpush_def checked_sys_write_def serial_write_bytes_def
      checked_sys_draw_def draw_success_marker_def cap_bits cap_audit_log cap_event_def)

lemma handler_write:
  assumes "ur_rax r = 1" and "length frames \<le> 1021"
  shows "\<exists>y'. syscall_handler frames id r y =
     Resumed \<lparr>sr_rax = ur_rdx r, sr_r11 = ur_r11 r, sr_rip = ur_rcx r, sr_rsp = ur_rsp r\<rparr> y' \<and>
     (if bit (caps (y_sched y)) 0
      then y_serial y' = y_serial y @ read_bytes (y_mem y) (ur_rsi r) (unat (ur_rdx r))
      else y_serial y' = y_serial y) \<and> y_rects y' = y_rects y \<and> y_sched y' = y_sched y \<and>
     (if audit_ok (y_log y) then y_log y' = cap_event ''write'' (bit (caps (y_sched y)) 0) ''CAP_WRITE_SERIAL'' y else True)"
  using handler_returns [where r = r and frames = frames and y = y] assms work_fields [where r = r and y = y] by auto

lemma handler_draw:
  assumes "ur_rax r = 2" and "length frames \<le> 1021"
  shows "\<exists>y'. syscall_handler frames id r y =
     Resumed \<lparr>sr_rax = 0, sr_r11 = ur_r11 r, sr_rip = ur_rcx r, sr_rsp = ur_rsp r\<rparr> y' \<and>
     (if bit (caps (y_sched y)) 1 then y_rects y' = y_rects y @ [(20, 20, 100, 100, 0x00FF00)]
      else y_rects y' = y_rects y) \<and> y_serial y' = y_serial y \<and> y_sched y' = y_sched y \<and>
     (if audit_ok (y_log y) then y_log y' = cap_event ''draw'' (bit (caps (y_sched y)) 1) ''CAP_DRAW'' y else True)"
  using handler_returns [where r = r and frames = frames and y = y] assms work_fields [where r = r and y = y] by auto

lemma handler_exit: "ur_rax r = 60 \<Longrightarrow> syscall_handler frames meanwhile r y = Exited (exit_commit (y_sched y))"
  by (simp add: syscall_handler_def syscall_entry_def Let_def)

text \<open>
  C31. The capability gate. Run without preemption, whatever its calls leave on the kernel stack, a
  write or draw reaches the serial line or the screen exactly when the caller holds the bit for
  it, is recorded in the audit log with that decision either way, and returns to the caller's
  instruction, flags and stack. A refused write answers its length all the same, as a successful one does. Any
  other number except exit answers -38 and does nothing.
\<close>

theorem syscall_gate:
  assumes "audit_ok (y_log y)" and "ur_rax r \<noteq> 60" and "length frames \<le> 1021"
  shows "\<exists>y'. syscall_handler frames id r y = Resumed
      \<lparr>sr_rax = (if ur_rax r = 1 then ur_rdx r else if ur_rax r = 2 then 0 else - 38),
       sr_r11 = ur_r11 r, sr_rip = ur_rcx r, sr_rsp = ur_rsp r\<rparr> y' \<and>
    y_sched y' = y_sched y \<and>
    y_serial y' = y_serial y @
      (if ur_rax r = 1 \<and> bit (caps (y_sched y)) 0 then read_bytes (y_mem y) (ur_rsi r) (unat (ur_rdx r)) else []) \<and>
    y_rects y' = y_rects y @
      (if ur_rax r = 2 \<and> bit (caps (y_sched y)) 1 then [(20, 20, 100, 100, 0x00FF00)] else []) \<and>
    y_log y' = (if ur_rax r = 1 then cap_event ''write'' (bit (caps (y_sched y)) 0) ''CAP_WRITE_SERIAL'' y
      else if ur_rax r = 2 then cap_event ''draw'' (bit (caps (y_sched y)) 1) ''CAP_DRAW'' y else y_log y)"
  using handler_returns [OF assms(2,3)] work_fields [where r = r and y = y] assms(1) by fastforce

section \<open>Preemption inside the handler\<close>

text \<open>While a caller is preempted, other tasks run (\<open>switch\<close>, which leaves the kernel stack alone), and one
  of them makes a call that runs through.\<close>

definition second_call :: "(sys \<Rightarrow> sys) \<Rightarrow> u64 list \<Rightarrow> user_regs \<Rightarrow> sys \<Rightarrow> sys" where
  "second_call switch frames r y =
     (case syscall_handler frames id r (switch y) of Resumed _ y' \<Rightarrow> y' | Derailed y' \<Rightarrow> y' | Exited _ \<Rightarrow> y)"

lemma second_call_state:
  assumes "ur_rax b \<noteq> 60" and "length fb \<le> 1021"
  shows "second_call switch fb b y =
    leave_frames fb (fst (syscall_entry b (switch y))) (syscall_work b (snd (syscall_entry b (switch y))))"
  using handler_returns [OF assms, where y = "switch y"] by (auto simp: second_call_def)

text \<open>What the second caller leaves: its stack pointer, and what it pushed in the slots of the first caller's
  return address and flags.\<close>

lemma second_call_leaves:
  assumes "ur_rax b \<noteq> 60" and "length fb \<le> 1021"
  shows "SAVED_USER_RSP (second_call switch fb b y) = ur_rsp b"
    and "ur_rax b = 1 \<or> ur_rax b = 2 \<Longrightarrow> SYSCALL_KSTACK (second_call switch fb b y) 8184 = ur_rcx b \<and>
      SYSCALL_KSTACK (second_call switch fb b y) 8176 = ur_r11 b"
    and "ur_rax b \<noteq> 1 \<Longrightarrow> ur_rax b \<noteq> 2 \<Longrightarrow> fb = [] \<Longrightarrow>
      SYSCALL_KSTACK (second_call switch fb b y) = SYSCALL_KSTACK (switch y)"
proof -
  note s = second_call_state [OF assms, of switch y]
  have len: "8 * length fb \<le> unat (8168 :: u64)" "8 * length fb \<le> unat (8176 :: u64)" using assms(2) by simp_all
  show "SAVED_USER_RSP (second_call switch fb b y) = ur_rsp b"
    by (simp add: s syscall_entry_def kpush_def Let_def)
  show "SYSCALL_KSTACK (second_call switch fb b y) 8184 = ur_rcx b \<and>
      SYSCALL_KSTACK (second_call switch fb b y) 8176 = ur_r11 b" if "ur_rax b = 1 \<or> ur_rax b = 2"
    using that leave_frames_above [OF len(1)] leave_frames_above [OF len(2)]
    by (auto simp: s syscall_entry_def kpush_def Let_def)
  show "SYSCALL_KSTACK (second_call switch fb b y) = SYSCALL_KSTACK (switch y)"
    if "ur_rax b \<noteq> 1" "ur_rax b \<noteq> 2" "fb = []"
    unfolding s using that by (simp add: syscall_entry_def Let_def)
qed

text \<open>
  C32. The handler has one saved stack pointer and one stack for all tasks, and interrupts stay on in
  it. Let a caller of write or draw be preempted inside the handler, with anything left on the stack
  below it, and let another task's call, of any number but exit, run through before it continues. When
  the second call is neither write nor draw, the first caller does return, with its own result, flags
  and instruction, but on the other task's stack. When it is, the first caller never returns to
  its own instruction with its own flags and stack: either the frames it has to return through are no longer
  what it left, or it returns to the other task's instruction, with the other task's flags and stack
  pointer, in its own address space; the latter when both make the same call along the same path.
\<close>

theorem syscall_preempted_returns_elsewhere:
  assumes "ur_rax a = 1 \<or> ur_rax a = 2" and "ur_rax b \<noteq> 60" and "length fa \<le> 1021" and "length fb \<le> 1021"
    and "\<And>z. SYSCALL_KSTACK (switch z) = SYSCALL_KSTACK z"
    and "ur_rax b \<noteq> 1 \<Longrightarrow> ur_rax b \<noteq> 2 \<Longrightarrow> fb = []"
  shows "if ur_rax b = 1 \<or> ur_rax b = 2
    then (\<exists>y'. syscall_handler fa (second_call switch fb b) a y = Derailed y' \<and>
        \<not> (ur_rax a = ur_rax b \<and> take (length fa) fb = fa)) \<or>
      (\<exists>rax y'. syscall_handler fa (second_call switch fb b) a y =
        Resumed \<lparr>sr_rax = rax, sr_r11 = ur_r11 b, sr_rip = ur_rcx b, sr_rsp = ur_rsp b\<rparr> y')
    else \<exists>y'. syscall_handler fa (second_call switch fb b) a y =
      Resumed \<lparr>sr_rax = (if ur_rax a = 1 then ur_rdx a else 0), sr_r11 = ur_r11 a, sr_rip = ur_rcx a,
        sr_rsp = ur_rsp b\<rparr> y'"
proof -
  define sp where "sp = fst (syscall_entry a y)"
  define ya where "ya = leave_frames fa sp (syscall_work a (snd (syscall_entry a y)))"
  define y2 where "y2 = second_call switch fb b ya"
  have sp: "sp = (if ur_rax a = 1 then 8168 else 8176)" using assms(1)
    by (auto simp: sp_def syscall_entry_def kpush_def Let_def)
  have len: "8 * length fa \<le> unat sp" using assms(3) by (simp add: sp)
  have h: "syscall_handler fa (second_call switch fb b) a y =
      (if frames_at sp (length fa) y2 = fa then Resumed (syscall_return a sp y2) y2 else Derailed y2)"
    using assms(1) by (auto simp: syscall_handler_def y2_def ya_def sp_def Let_def case_prod_unfold)
  note leaves = second_call_leaves [OF assms(2,4), of switch ya, folded y2_def]
  have ret: "syscall_return a sp y2 = \<lparr>sr_rax = (if ur_rax a = 1 then SYSCALL_KSTACK y2 8168 else 0),
      sr_r11 = SYSCALL_KSTACK y2 8176, sr_rip = SYSCALL_KSTACK y2 8184, sr_rsp = ur_rsp b\<rparr>"
    using assms(1) by (auto simp: syscall_return_def kpop_def sp leaves(1))
  show ?thesis
  proof (cases "ur_rax b = 1 \<or> ur_rax b = 2")
    case True
    have "frames_at sp (length fa) y2 = fa" if same: "ur_rax a = ur_rax b" "take (length fa) fb = fa"
    proof -
      have e: "fst (syscall_entry b z) = sp" for z using same(1) assms(1)
        by (auto simp: sp syscall_entry_def kpush_def Let_def)
      have "8 * length fb \<le> unat sp" using assms(4) by (simp add: sp)
      then show ?thesis unfolding y2_def second_call_state [OF assms(2,4)] e
        by (rule frames_at_prefix [OF same(2) refl])
    qed
    then show ?thesis unfolding if_P [OF True] h using ret leaves(2) [OF True] by auto
  next
    case False
    then have k: "SYSCALL_KSTACK y2 = SYSCALL_KSTACK ya" using leaves(3) assms(5,6) by simp
    have f: "frames_at sp (length fa) y2 = fa"
      using frames_at_leave [OF len] by (simp add: frames_at_def k ya_def)
    have "SYSCALL_KSTACK ya 8184 = ur_rcx a \<and> SYSCALL_KSTACK ya 8176 = ur_r11 a \<and>
        (ur_rax a = 1 \<longrightarrow> SYSCALL_KSTACK ya 8168 = ur_rdx a)"
      using leave_frames_above [OF len] assms(1)
      by (auto simp: ya_def sp syscall_entry_def kpush_def Let_def split: if_splits)
    then show ?thesis unfolding if_not_P [OF False] h using ret f by (auto simp: k)
  qed
qed

definition demo_sys :: sys where
  "demo_sys = \<lparr>y_sched = sched_new, y_log = [], y_tick = 5, y_mem = (\<lambda>_. 65), y_serial = [], y_rects = [],
     SAVED_USER_RSP = 0, SYSCALL_KSTACK = (\<lambda>_. 0)\<rparr>"

definition demo_call :: "u64 \<Rightarrow> u64 \<Rightarrow> user_regs" where
  "demo_call n base = \<lparr>ur_rax = n, ur_rcx = base, ur_r11 = 0x202, ur_rdx = 2, ur_rsi = base + 0x100, ur_rsp = base + 0xF00\<rparr>"

lemma syscall_gate_witness:
  "\<exists>y'. syscall_handler [0xFFFF800000001234] id (demo_call 1 0x400000) demo_sys =
     Resumed \<lparr>sr_rax = 2, sr_r11 = 0x202, sr_rip = 0x400000, sr_rsp = 0x400F00\<rparr> y' \<and> y_sched y' = y_sched demo_sys"
proof -
  have a: "audit_ok (y_log demo_sys)" "ur_rax (demo_call 1 0x400000) \<noteq> 60" "length [0xFFFF800000001234 :: u64] \<le> 1021"
    by (simp_all add: demo_sys_def demo_call_def)
  show ?thesis using syscall_gate [OF a] by (auto simp: demo_call_def)
qed

text \<open>A writing caller, and a second one that writes along the same path or makes an unknown call.\<close>

lemma syscall_preempted_returns_elsewhere_witness:
  "(\<exists>rax y'. syscall_handler [7, 8] (second_call id [7, 8, 9] (demo_call 1 0x800000)) (demo_call 1 0x400000) demo_sys =
     Resumed \<lparr>sr_rax = rax, sr_r11 = 0x202, sr_rip = 0x800000, sr_rsp = 0x800F00\<rparr> y') \<and>
   (\<exists>y'. syscall_handler [7, 8] (second_call id [] (demo_call 39 0x800000)) (demo_call 1 0x400000) demo_sys =
     Resumed \<lparr>sr_rax = 2, sr_r11 = 0x202, sr_rip = 0x400000, sr_rsp = 0x800F00\<rparr> y')"
proof -
  have a: "ur_rax (demo_call 1 0x400000) = 1 \<or> ur_rax (demo_call 1 0x400000) = 2"
    "ur_rax (demo_call 1 0x800000) \<noteq> 60" "ur_rax (demo_call 39 0x800000) \<noteq> 60"
    "length [7, 8 :: u64] \<le> 1021" "length [7, 8, 9 :: u64] \<le> 1021" "length ([] :: u64 list) \<le> 1021"
    by (simp_all add: demo_call_def)
  have k: "SYSCALL_KSTACK (id z) = SYSCALL_KSTACK z" for z :: sys by simp
  have p: "ur_rax (demo_call 1 0x800000) \<noteq> 1 \<Longrightarrow> ur_rax (demo_call 1 0x800000) \<noteq> 2 \<Longrightarrow> [7, 8, 9 :: u64] = []"
    "ur_rax (demo_call 39 0x800000) \<noteq> 1 \<Longrightarrow> ur_rax (demo_call 39 0x800000) \<noteq> 2 \<Longrightarrow> [] = ([] :: u64 list)"
    by (simp_all add: demo_call_def)
  note w = syscall_preempted_returns_elsewhere [where y = demo_sys]
  show ?thesis
    using w [OF a(1,2,4,5) k p(1)] w [OF a(1,3,4,6) k p(2)] by (auto simp: demo_call_def)
qed

end
