(* ===== verification/HardwareSec.thy ===== *)
theory HardwareSec
  imports Prelude
begin

text \<open>
  The processor's security features (\<open>kernel/src/security/hardware.rs\<close>): NX, SMEP, SMAP and the supervisor
  protection keys. The processor is a record of its CPUID answers, CR4, model-specific registers
  and the AC flag. The lemmas show what initialisation sets, and that leaving a key's domain
  returns to the default exactly when the domain was entered from it.
\<close>

definition CR4_SMEP :: u64 where "CR4_SMEP = push_bit 20 1"
definition CR4_SMAP :: u64 where "CR4_SMAP = push_bit 21 1"
definition MSR_IA32_PKRS :: u32 where "MSR_IA32_PKRS = 0x6E1"
definition MSR_IA32_EFER :: u32 where "MSR_IA32_EFER = 0xC0000080"
definition EFER_NXE :: u64 where "EFER_NXE = push_bit 11 1"

record cpu =
  cpuid :: "u32 \<Rightarrow> u32 \<times> u32 \<times> u32 \<times> u32"
  cr4 :: u64
  msr :: "u32 \<Rightarrow> u64"
  ac_flag :: bool

definition wrmsr :: "u32 \<Rightarrow> u64 \<Rightarrow> cpu \<Rightarrow> cpu" where
  "wrmsr r v c = c\<lparr>msr := (msr c)(r := v)\<rparr>"

definition cpu_supports_feature :: "u32 \<Rightarrow> u8 \<Rightarrow> nat \<Rightarrow> cpu \<Rightarrow> bool" where
  "cpu_supports_feature leaf reg b c =
     (case cpuid c leaf of (eax, ebx, ecx, edx) \<Rightarrow>
        let val = (if reg = 0 then eax else if reg = 1 then ebx else if reg = 2 then ecx else edx)
        in val AND push_bit b 1 \<noteq> 0)"

definition has_smep :: "cpu \<Rightarrow> bool" where "has_smep = cpu_supports_feature 7 1 7"
definition has_smap :: "cpu \<Rightarrow> bool" where "has_smap = cpu_supports_feature 7 1 20"
definition has_pks :: "cpu \<Rightarrow> bool" where "has_pks = cpu_supports_feature 7 2 31"
definition has_rdrand :: "cpu \<Rightarrow> bool" where "has_rdrand = cpu_supports_feature 1 2 30"

definition enable_nx :: "cpu \<Rightarrow> cpu" where
  "enable_nx c = wrmsr MSR_IA32_EFER (msr c MSR_IA32_EFER OR EFER_NXE) c"

definition enable_smep_smap :: "cpu \<Rightarrow> cpu" where
  "enable_smep_smap c =
     (let v = cr4 c;
          v = (if has_smep c then v OR CR4_SMEP else v);
          v = (if has_smap c then v OR CR4_SMAP else v)
      in c\<lparr>cr4 := v\<rparr>)"

definition KEY_CORE :: u8 where "KEY_CORE = 0"
definition KEY_DRIVER :: u8 where "KEY_DRIVER = 1"
definition KEY_AI_BUF :: u8 where "KEY_AI_BUF = 2"
definition KEY_AUDIT :: u8 where "KEY_AUDIT = 3"

definition pkrs_disable_access :: "u8 \<Rightarrow> u64" where
  "pkrs_disable_access key = push_bit (unat key * 2) 1"

definition pkrs_disable_write :: "u8 \<Rightarrow> u64" where
  "pkrs_disable_write key = push_bit (unat key * 2 + 1) 1"

definition DEFAULT_PKRS :: u64 where
  "DEFAULT_PKRS = pkrs_disable_access KEY_DRIVER OR pkrs_disable_access KEY_AI_BUF OR pkrs_disable_write KEY_AUDIT"

definition enable_pks :: "cpu \<Rightarrow> cpu" where
  "enable_pks c = wrmsr MSR_IA32_PKRS DEFAULT_PKRS c"

definition hardware_init :: "cpu \<Rightarrow> cpu" where
  "hardware_init c = (let c1 = enable_smep_smap (enable_nx c) in if has_pks c1 then enable_pks c1 else c1)"

definition pks_enter_domain :: "u8 \<Rightarrow> cpu \<Rightarrow> cpu" where
  "pks_enter_domain key c =
     (if \<not> has_pks c then c
      else let pkrs = msr c MSR_IA32_PKRS; m = pkrs_disable_access key OR pkrs_disable_write key
      in wrmsr MSR_IA32_PKRS (pkrs AND NOT m) c)"

definition pks_exit_domain :: "u8 \<Rightarrow> cpu \<Rightarrow> cpu" where
  "pks_exit_domain key c =
     (if \<not> has_pks c then c
      else let pkrs = msr c MSR_IA32_PKRS;
               default_bits = DEFAULT_PKRS AND (pkrs_disable_access key OR pkrs_disable_write key)
      in wrmsr MSR_IA32_PKRS (pkrs OR default_bits) c)"

definition smap_stac :: "cpu \<Rightarrow> cpu" where
  "smap_stac c = (if has_smap c then c\<lparr>ac_flag := True\<rparr> else c)"

definition smap_clac :: "cpu \<Rightarrow> cpu" where
  "smap_clac c = (if has_smap c then c\<lparr>ac_flag := False\<rparr> else c)"

section \<open>What initialisation sets\<close>

lemma features_stable [simp]:
  "has_pks (wrmsr r v c) = has_pks c" "has_smep (wrmsr r v c) = has_smep c" "has_smap (wrmsr r v c) = has_smap c"
  "has_pks (c\<lparr>cr4 := x\<rparr>) = has_pks c" "has_pks (c\<lparr>msr := f\<rparr>) = has_pks c"
  "has_smep (c\<lparr>msr := f\<rparr>) = has_smep c" "has_smap (c\<lparr>msr := f\<rparr>) = has_smap c"
  by (simp_all add: wrmsr_def has_pks_def has_smep_def has_smap_def cpu_supports_feature_def)

text \<open>
  NX always, SMEP and SMAP as far as the processor has them, the key rights as far as it has keys; no
  other bit of CR4 changes. In particular bit 24, which switches supervisor protection keys on,
  stays as it was: the rights register is written but the feature is not enabled.
\<close>

lemma hardware_init_bits:
  "bit (msr (hardware_init c) MSR_IA32_EFER) 11 \<and>
   bit (cr4 (hardware_init c)) n =
     (bit (cr4 c) n \<or> n = 20 \<and> has_smep c \<or> n = 21 \<and> has_smap c) \<and>
   msr (hardware_init c) MSR_IA32_PKRS = (if has_pks c then DEFAULT_PKRS else msr c MSR_IA32_PKRS)"
proof -
  have e: "bit EFER_NXE 11" by (simp add: EFER_NXE_def)
  have p: "bit CR4_SMEP n \<longleftrightarrow> n = 20" "bit CR4_SMAP n \<longleftrightarrow> n = 21" for n
    unfolding CR4_SMEP_def CR4_SMAP_def by (auto simp only: bit_push_bit_iff bit_1_iff) simp_all
  show ?thesis
    by (auto simp: hardware_init_def enable_nx_def enable_pks_def enable_smep_smap_def wrmsr_def
        MSR_IA32_EFER_def MSR_IA32_PKRS_def bit_or_iff e p Let_def)
qed

section \<open>Entering and leaving a domain\<close>

text \<open>
  From the default rights, entering a domain opens exactly that key and leaving it restores the default.
  From other rights leaving restores only the key's default bits.
\<close>

lemma pks_domain_roundtrip:
  assumes "msr c MSR_IA32_PKRS = DEFAULT_PKRS"
  shows "msr (pks_exit_domain key (pks_enter_domain key c)) MSR_IA32_PKRS = DEFAULT_PKRS"
proof -
  have a: "(x AND NOT m) OR (x AND m) = x" for x m :: u64
    by (rule bit_word_eqI) (auto simp: bit_simps)
  obtain m where m: "pkrs_disable_access key OR pkrs_disable_write key = m" by simp
  show ?thesis using assms by (simp add: pks_exit_domain_def pks_enter_domain_def wrmsr_def Let_def m a)
qed

lemma pks_enter_opens:
  assumes "has_pks c"
  shows "msr (pks_enter_domain key c) MSR_IA32_PKRS AND (pkrs_disable_access key OR pkrs_disable_write key) = 0"
proof -
  have "(x AND NOT m) AND m = 0" for x m :: u64 by (rule bit_word_eqI) (auto simp: bit_simps)
  moreover obtain m where m: "pkrs_disable_access key OR pkrs_disable_write key = m" by simp
  ultimately show ?thesis using assms by (simp add: pks_enter_domain_def wrmsr_def Let_def m)
qed

text \<open>Leaving a domain that was closed for writing by hand leaves it open: the driver key ends writable.\<close>

lemma pks_exit_not_restoring:
  "has_pks c \<Longrightarrow> msr c MSR_IA32_PKRS = pkrs_disable_write KEY_DRIVER \<Longrightarrow>
     msr (pks_exit_domain KEY_DRIVER (pks_enter_domain KEY_DRIVER c)) MSR_IA32_PKRS = pkrs_disable_access KEY_DRIVER"
  by (simp add: pks_exit_domain_def pks_enter_domain_def wrmsr_def Let_def DEFAULT_PKRS_def
      pkrs_disable_access_def pkrs_disable_write_def KEY_DRIVER_def KEY_AI_BUF_def KEY_AUDIT_def)

end
