(* ===== verification/CompletionTrie.thy ===== *)
theory CompletionTrie
  imports Prelude "HOL-Library.List_Lexorder" "HOL-Library.Product_Lexorder" "HOL-Library.Sublist"
    "HOL-Library.Multiset"
begin

text \<open>
  The completion trie of the editor's engine (\<open>ai_engine/src/trie.rs\<close>): a vector of nodes whose
  children are a hash map from characters to node numbers.

  A Rust string is a list of Unicode scalar values, and Rust orders strings by their UTF-8 bytes,
  which is the lexicographic order of the scalar values. Which scalar values beyond ASCII are
  alphanumeric is the argument \<open>uni\<close>. Scores are hundredths: every score of the engine is a literal
  with at most two decimals, and only comparisons are made. The order in which a hash map
  iterates over its values is not specified; it is the argument \<open>vals\<close>, any permutation of each
  node's children. A child map is the association list of its entries.
\<close>

section \<open>Strings\<close>

type_synonym rstr = "nat list"

definition lit :: "string \<Rightarrow> rstr" where
  "lit s = map of_char s"

definition utf8_len :: "nat \<Rightarrow> nat" where
  "utf8_len c = (if c < 0x80 then 1 else if c < 0x800 then 2 else if c < 0x10000 then 3 else 4)"

definition str_len :: "rstr \<Rightarrow> nat" where
  "str_len s = sum_list (map utf8_len s)"

text \<open>\<open>&s[k..]\<close> counts bytes and panics inside a character or behind the end.\<close>

fun slice_from :: "nat \<Rightarrow> rstr \<Rightarrow> rstr outcome" where
  "slice_from k [] = (if k = 0 then Ret [] else Panic ''byte index out of range'')"
| "slice_from k (c # cs) =
     (if k = 0 then Ret (c # cs)
      else if k < utf8_len c then Panic ''byte index is not a char boundary''
      else slice_from (k - utf8_len c) cs)"

text \<open>\<open>rfind\<close>: the byte position of the last character with a property.\<close>

definition rfind :: "(nat \<Rightarrow> bool) \<Rightarrow> rstr \<Rightarrow> nat option" where
  "rfind p s =
     (let after = takeWhile (\<lambda>c. \<not> p c) (rev s); before = take (length s - length after) s
      in if before = [] then None else Some (str_len (butlast before)))"

definition is_alphanumeric :: "(nat \<Rightarrow> bool) \<Rightarrow> nat \<Rightarrow> bool" where
  "is_alphanumeric uni c =
     (if c < 128 then 48 \<le> c \<and> c \<le> 57 \<or> 65 \<le> c \<and> c \<le> 90 \<or> 97 \<le> c \<and> c \<le> 122 else uni c)"

section \<open>The trie\<close>

datatype category = Keyword | Builtin | Snippet | Stdlib | Identifier | Path

type_synonym score = int

record node =
  nd_children :: "(nat \<times> nat) list"
  nd_terminal :: "(rstr \<times> score \<times> category) option"

type_synonym trie = "node list"

definition node_new :: node where
  "node_new = \<lparr>nd_children = [], nd_terminal = None\<rparr>"

definition trie_new :: trie where
  "trie_new = [node_new]"

text \<open>The loop of \<open>insert\<close>: the node of the text, with the nodes that were missing on the way.\<close>

fun make_path :: "rstr \<Rightarrow> nat \<Rightarrow> trie \<Rightarrow> nat \<times> trie" where
  "make_path [] idx t = (idx, t)"
| "make_path (ch # cs) idx t =
     (case map_of (nd_children (t ! idx)) ch of
        Some nx \<Rightarrow> make_path cs nx t
      | None \<Rightarrow>
          let nx = length t;
              t1 = t @ [node_new];
              t2 = t1[idx := (t1 ! idx)\<lparr>nd_children := nd_children (t1 ! idx) @ [(ch, nx)]\<rparr>]
          in make_path cs nx t2)"

definition trie_insert :: "rstr \<Rightarrow> score \<Rightarrow> category \<Rightarrow> trie \<Rightarrow> trie" where
  "trie_insert text score cat t =
     (case make_path text 0 t of (idx, t1) \<Rightarrow>
        let replace = (case nd_terminal (t1 ! idx) of None \<Rightarrow> True | Some (_, s, _) \<Rightarrow> s < score)
        in if replace then t1[idx := (t1 ! idx)\<lparr>nd_terminal := Some (text, score, cat)\<rparr>] else t1)"

text \<open>
  The token under the cursor: everything after the last character that cannot be part of a
  token. The slice starts one byte after the start of that character, which is inside it when it is longer
  than a byte, and then slicing panics.
\<close>

definition token_char :: "(nat \<Rightarrow> bool) \<Rightarrow> nat \<Rightarrow> bool" where
  "token_char uni c \<longleftrightarrow> is_alphanumeric uni c \<or> c \<in> set (lit ''_:./!('')"

definition current_token :: "(nat \<Rightarrow> bool) \<Rightarrow> rstr \<Rightarrow> rstr outcome" where
  "current_token uni line =
     (let start = (case rfind (\<lambda>c. \<not> token_char uni c) line of None \<Rightarrow> 0 | Some i \<Rightarrow> i + 1)
      in slice_from start line)"

fun walk :: "trie \<Rightarrow> nat \<Rightarrow> rstr \<Rightarrow> nat option" where
  "walk t idx [] = Some idx"
| "walk t idx (ch # cs) =
     (case map_of (nd_children (t ! idx)) ch of Some nx \<Rightarrow> walk t nx cs | None \<Rightarrow> None)"

text \<open>One level of the breadth-first search: its completions in order, and the next level.\<close>

definition level_results :: "trie \<Rightarrow> nat list \<Rightarrow> (rstr \<times> score) list" where
  "level_results t queue =
     List.map_filter (\<lambda>idx. map_option (\<lambda>(text, score, _). (text, score)) (nd_terminal (t ! idx))) queue"

definition next_level :: "(nat \<Rightarrow> nat list) \<Rightarrow> nat list \<Rightarrow> nat list" where
  "next_level vals queue = concat (map vals queue)"

partial_function (option) collect ::
  "(nat \<Rightarrow> nat list) \<Rightarrow> trie \<Rightarrow> nat \<Rightarrow> nat list \<Rightarrow> (rstr \<times> score) list \<Rightarrow> (rstr \<times> score) list option" where
  "collect vals t limit queue results =
     (if queue \<noteq> [] \<and> length results < limit
      then collect vals t limit (next_level vals queue) (results @ level_results t queue)
      else Some results)"

definition rank :: "(rstr \<times> score) list \<Rightarrow> (rstr \<times> score) list" where
  "rank = sort_key (\<lambda>(text, score). (- score, text))"

text \<open>\<open>complete\<close> returns None if its loop does not end.\<close>

definition complete ::
  "(nat \<Rightarrow> bool) \<Rightarrow> (nat \<Rightarrow> nat list) \<Rightarrow> trie \<Rightarrow> rstr \<Rightarrow> nat \<Rightarrow> (rstr \<times> score) list option outcome" where
  "complete uni vals t line mx =
     bind_outcome (current_token uni line) (\<lambda>token.
       Ret (if token = [] then Some []
            else case walk t 0 token of
              None \<Rightarrow> Some []
            | Some idx \<Rightarrow> map_option (\<lambda>results. take mx (rank results)) (collect vals t (mx * 8) [idx] [])))"

definition learn :: "(nat \<Rightarrow> bool) \<Rightarrow> rstr \<Rightarrow> trie \<Rightarrow> trie" where
  "learn uni ident t =
     (if 3 \<le> str_len ident \<and> list_all (\<lambda>c. is_alphanumeric uni c \<or> c = 95) ident
      then trie_insert ident 65 Identifier t else t)"

definition node_count :: "trie \<Rightarrow> nat" where
  "node_count t = length t"

section \<open>The built-in completions\<close>

definition rust_keywords :: "string list" where
  "rust_keywords = [
   ''fn'', ''let'', ''mut'', ''pub'', ''use'', ''mod'', ''struct'', ''enum'', ''trait'', ''impl'',
   ''for'', ''in'', ''if'', ''else'', ''match'', ''loop'', ''while'', ''return'', ''async'', ''await'',
   ''move'', ''ref'', ''dyn'', ''where'', ''type'', ''const'', ''static'', ''unsafe'', ''extern'',
   ''self'', ''Self'', ''super'', ''crate'', ''Box'', ''Arc'', ''Rc'', ''Vec'', ''HashMap'',
   ''HashSet'', ''Option'', ''Result'', ''Some'', ''None'', ''Ok'', ''Err'', ''true'', ''false'']"

definition rust_stdlib :: "string list" where
  "rust_stdlib = [
   ''Vec::new()'', ''Vec::with_capacity('', ''HashMap::new()'', ''Arc::new('', ''Mutex::new('',
   ''RwLock::new('', ''String::new()'', ''String::from('', ''format!('', ''println!('', ''eprintln!('',
   ''todo!()'', ''unimplemented!()'', ''std::fs::read_to_string('', ''std::fs::write('',
   ''std::env::var('', ''std::path::Path::new('', ''tokio::spawn('', ''anyhow::bail!('',
   ''anyhow::anyhow!('']"

definition rust_snippets :: "(string \<times> score) list" where
  "rust_snippets = [
   (''fn main() {\<newline>    \<newline>}'', 95),
   (''#[derive(Debug, Clone, PartialEq, Eq)]\<newline>'', 89),
   (''#[tokio::main]\<newline>async fn main() -> anyhow::Result<()> {\<newline>    Ok(())\<newline>}'', 88),
   (''impl Default for  {\<newline>    fn default() -> Self {\<newline>        Self {}\<newline>    }\<newline>}'', 84),
   (''for item in iter {\<newline>    \<newline>}'', 85),
   (''match expr {\<newline>    Some(v) => v,\<newline>    None    => return,\<newline>}'', 84),
   (''if let Some(x) =  {\<newline>    \<newline>}'', 83)]"

definition python_keywords :: "string list" where
  "python_keywords = [
   ''def'', ''class'', ''import'', ''from'', ''return'', ''if'', ''elif'', ''else'', ''for'', ''while'',
   ''with'', ''as'', ''try'', ''except'', ''finally'', ''raise'', ''yield'', ''async'', ''await'',
   ''lambda'', ''pass'', ''None'', ''True'', ''False'', ''print('', ''len('', ''range('',
   ''enumerate('', ''zip('', ''isinstance('', ''type('', ''list('', ''dict('', ''set('', ''tuple('',
   ''int('', ''str('', ''float('']"

definition python_snippets :: "(string \<times> score) list" where
  "python_snippets = [
   (''def func(args):\<newline>    pass'', 87),
   (''class MyClass:\<newline>    def __init__(self):\<newline>        pass'', 85),
   (''if __name__ == '__main__':\<newline>    main()'', 91), (''import numpy as np'', 83),
   (''import pandas as pd'', 83)]"

definition shell_commands :: "string list" where
  "shell_commands = [
   ''ls'', ''ls -la'', ''ls -lh'', ''cd'', ''pwd'', ''echo'', ''cat'', ''grep'', ''find'', ''sed'',
   ''awk'', ''curl'', ''wget'', ''git'', ''make'', ''cargo'', ''cargo build'',
   ''cargo build --release'', ''cargo test'', ''cargo run'', ''cargo clippy'', ''rustc'', ''python3'',
   ''node'', ''npm'', ''docker'', ''kubectl'', ''ssh'', ''scp'', ''git status'', ''git add .'',
   ''git commit -m '', ''git push'', ''git pull'', ''git log --oneline'', ''git diff'', ''git stash'',
   ''git checkout -b '']"

definition path_prefixes :: "string list" where
  "path_prefixes = [
   ''/usr/'', ''/usr/bin/'', ''/usr/lib/'', ''/etc/'', ''/home/'', ''/var/'', ''/tmp/'', ''/proc/'',
   ''/sys/'', ''/usr/share/nexus-os/'', ''/usr/share/nexus-os/models/'']"

definition insert_all :: "string list \<Rightarrow> score \<Rightarrow> category \<Rightarrow> trie \<Rightarrow> trie" where
  "insert_all ss score cat t = fold (\<lambda>s. trie_insert (lit s) score cat) ss t"

definition insert_scored :: "(string \<times> score) list \<Rightarrow> category \<Rightarrow> trie \<Rightarrow> trie" where
  "insert_scored ss cat t = fold (\<lambda>(s, score). trie_insert (lit s) score cat) ss t"

definition load_rust :: "trie \<Rightarrow> trie" where
  "load_rust t = insert_scored rust_snippets Snippet (insert_all rust_stdlib 82 Stdlib (insert_all rust_keywords 90 Keyword t))"

definition load_python :: "trie \<Rightarrow> trie" where
  "load_python t = insert_scored python_snippets Snippet (insert_all python_keywords 88 Keyword t)"

definition load_shell :: "trie \<Rightarrow> trie" where
  "load_shell t = insert_all shell_commands 85 Builtin t"

definition load_paths :: "trie \<Rightarrow> trie" where
  "load_paths t = insert_all path_prefixes 60 Path t"

definition load_builtins :: "trie \<Rightarrow> trie" where
  "load_builtins t = load_paths (load_shell (load_python (load_rust t)))"

section \<open>Well-formed tries\<close>

text \<open>
  Children lie behind their parents, every node has one way in, keys are distinct, and a completion sits
  at the node its text leads to.
\<close>

abbreviation child :: "trie \<Rightarrow> nat \<Rightarrow> nat \<Rightarrow> nat option" where
  "child t i c \<equiv> map_of (nd_children (t ! i)) c"

definition trie_wf :: "trie \<Rightarrow> bool" where
  "trie_wf t \<longleftrightarrow> t \<noteq> [] \<and>
     (\<forall>i < length t. distinct (map fst (nd_children (t ! i)))) \<and>
     (\<forall>i < length t. \<forall>c j. child t i c = Some j \<longrightarrow> i < j \<and> j < length t) \<and>
     (\<forall>i < length t. \<forall>k < length t. \<forall>c d j. child t i c = Some j \<and> child t k d = Some j \<longrightarrow> i = k \<and> c = d) \<and>
     (\<forall>i < length t. \<forall>w s c. nd_terminal (t ! i) = Some (w, s, c) \<longrightarrow> walk t 0 w = Some i)"

text \<open>What a trie stores: the score and category of each text.\<close>

definition entries :: "trie \<Rightarrow> rstr \<Rightarrow> (score \<times> category) option" where
  "entries t w = (case walk t 0 w of None \<Rightarrow> None | Some i \<Rightarrow> map_option snd (nd_terminal (t ! i)))"

lemma trie_wfD:
  assumes "trie_wf t" and "i < length t"
  shows "distinct (map fst (nd_children (t ! i)))"
    and "child t i c = Some j \<Longrightarrow> i < j \<and> j < length t"
    and "nd_terminal (t ! i) = Some (w, s, k) \<Longrightarrow> walk t 0 w = Some i"
  using assms unfolding trie_wf_def by blast+

lemma one_parent:
  "trie_wf t \<Longrightarrow> i < length t \<Longrightarrow> k < length t \<Longrightarrow> child t i c = Some j \<Longrightarrow> child t k d = Some j \<Longrightarrow>
     i = k \<and> c = d"
  unfolding trie_wf_def by blast

lemma trie_wf_pos: "trie_wf t \<Longrightarrow> 0 < length t"
  unfolding trie_wf_def by simp

lemma trie_wf_new: "trie_wf trie_new"
  by (simp add: trie_wf_def trie_new_def node_new_def)

lemma walk_append: "walk t i (v @ w) = (case walk t i v of None \<Rightarrow> None | Some j \<Rightarrow> walk t j w)"
  by (induction v arbitrary: i) (auto split: option.splits)

lemma walk_snoc: "walk t i (v @ [c]) = (case walk t i v of None \<Rightarrow> None | Some j \<Rightarrow> child t j c)"
  by (auto simp: walk_append split: option.splits)

lemma walk_bound:
  "trie_wf t \<Longrightarrow> i < length t \<Longrightarrow> walk t i w = Some j \<Longrightarrow> j < length t \<and> i + length w \<le> j"
proof (induction w arbitrary: i)
  case (Cons c w)
  then obtain n where n: "child t i c = Some n" "walk t n w = Some j" by (auto split: option.splits)
  then show ?case using trie_wfD(2) [OF Cons.prems(1,2) n(1)] Cons.IH [OF Cons.prems(1) _ n(2)] by simp
qed simp

lemma walk_inj:
  "trie_wf t \<Longrightarrow> i < length t \<Longrightarrow> walk t i v = Some j \<Longrightarrow> walk t i w = Some j \<Longrightarrow> v = w"
proof (induction v arbitrary: j w rule: rev_induct)
  case Nil
  then show ?case using walk_bound [OF Nil(1,2,4)] by simp
next
  case (snoc c v)
  obtain k where k: "walk t i v = Some k" "child t k c = Some j"
    using snoc.prems(3) by (auto simp: walk_snoc split: option.splits)
  have "w \<noteq> []" using walk_bound [OF snoc.prems(1-3)] snoc.prems(4) by auto
  then obtain u d where w: "w = u @ [d]" by (metis rev_exhaust)
  obtain l where l: "walk t i u = Some l" "child t l d = Some j"
    using snoc.prems(4) unfolding w by (auto simp: walk_snoc split: option.splits)
  have "k = l \<and> c = d"
    using one_parent [OF snoc.prems(1) _ _ k(2) l(2)] walk_bound [OF snoc.prems(1,2)] k(1) l(1) by blast
  then show ?case using snoc.IH [OF snoc.prems(1,2) k(1)] l(1) w by simp
qed

lemma terminal_text:
  assumes "trie_wf t" and "walk t 0 w = Some i" and "nd_terminal (t ! i) = Some (v, s, c)"
  shows "v = w"
proof -
  have 0: "0 < length t" by (rule trie_wf_pos [OF assms(1)])
  have "walk t 0 v = Some i" using trie_wfD(3) [OF assms(1) _ assms(3)] walk_bound [OF assms(1) 0 assms(2)] by simp
  then show ?thesis using walk_inj [OF assms(1) 0 _ assms(2)] by simp
qed

section \<open>Insertion\<close>

text \<open>Growing a trie by empty nodes.\<close>

definition grown :: "trie \<Rightarrow> trie \<Rightarrow> bool" where
  "grown t t' \<longleftrightarrow> length t \<le> length t' \<and>
     (\<forall>i < length t. nd_terminal (t' ! i) = nd_terminal (t ! i) \<and>
        (\<forall>c j. child t i c = Some j \<longrightarrow> child t' i c = Some j)) \<and>
     (\<forall>i < length t'. length t \<le> i \<longrightarrow> nd_terminal (t' ! i) = None)"

lemma grown_refl [simp]: "grown t t"
  by (simp add: grown_def)

lemma grown_trans: "grown t t1 \<Longrightarrow> grown t1 t2 \<Longrightarrow> grown t t2"
proof -
  assume a: "grown t t1" and b: "grown t1 t2"
  have "nd_terminal (t2 ! i) = None" if "i < length t2" "length t \<le> i" for i
    using a b that by (cases "length t1 \<le> i") (auto simp: grown_def)
  then show ?thesis using a b by (auto simp: grown_def)
qed

lemma walk_grown:
  "grown t t' \<Longrightarrow> trie_wf t \<Longrightarrow> i < length t \<Longrightarrow> walk t i w = Some j \<Longrightarrow> walk t' i w = Some j"
proof (induction w arbitrary: i)
  case (Cons c w)
  then obtain n where n: "child t i c = Some n" "walk t n w = Some j" by (auto split: option.splits)
  have "child t' i c = Some n" using Cons.prems(1,3) n(1) by (simp add: grown_def)
  then show ?case using Cons.IH [OF Cons.prems(1,2) _ n(2)] trie_wfD(2) [OF Cons.prems(2,3) n(1)] by simp
qed simp

lemma walk_cong: "(\<And>i. nd_children (t' ! i) = nd_children (t ! i)) \<Longrightarrow> walk t' i w = walk t i w"
  by (induction w arbitrary: i) (auto split: option.splits)

definition add_child :: "nat \<Rightarrow> nat \<Rightarrow> trie \<Rightarrow> trie" where
  "add_child idx ch t =
     (t @ [node_new])[idx := (t ! idx)\<lparr>nd_children := nd_children (t ! idx) @ [(ch, length t)]\<rparr>]"

lemma make_path_Cons:
  "idx < length t \<Longrightarrow> make_path (ch # cs) idx t =
     (case child t idx ch of Some nx \<Rightarrow> make_path cs nx t | None \<Rightarrow> make_path cs (length t) (add_child idx ch t))"
  by (simp add: add_child_def Let_def nth_append split: option.splits)

lemma length_add_child [simp]: "length (add_child idx ch t) = Suc (length t)"
  by (simp add: add_child_def)

lemma add_child_nth:
  assumes "idx < length t" and "i \<le> length t"
  shows "add_child idx ch t ! i =
    (if i = idx then (t ! idx)\<lparr>nd_children := nd_children (t ! idx) @ [(ch, length t)]\<rparr>
     else if i = length t then node_new else t ! i)"
  using assms by (auto simp: add_child_def nth_list_update nth_append)

lemma child_add_child:
  assumes "idx < length t" and "child t idx ch = None" and "i \<le> length t"
  shows "child (add_child idx ch t) i c =
    (if i = idx \<and> c = ch then Some (length t) else if i < length t then child t i c else None)"
  using assms by (auto simp: add_child_nth node_new_def map_add_def split: option.splits)

lemma grown_add_child:
  "idx < length t \<Longrightarrow> child t idx ch = None \<Longrightarrow> grown t (add_child idx ch t)"
  by (auto simp: grown_def child_add_child) (auto simp: add_child_nth node_new_def)

lemma trie_wf_add_child:
  assumes wf: "trie_wf t" and i: "idx < length t" and n: "child t idx ch = None"
  shows "trie_wf (add_child idx ch t)"
proof -
  let ?t = "add_child idx ch t"
  note ch = child_add_child [OF i n]
  have "distinct (map fst (nd_children (?t ! k)))" if "k < length ?t" for k
    using that trie_wfD(1) [OF wf, of k] n i
    by (auto simp: add_child_nth node_new_def map_of_eq_None_iff)
  moreover have "k < j \<and> j < length ?t" if "k < length ?t" "child ?t k c = Some j" for k c j
    using that trie_wfD(2) [OF wf, of k c j] i by (auto simp: ch split: if_splits)
  moreover have "k = l \<and> c = d"
    if "k < length ?t" "l < length ?t" "child ?t k c = Some j" "child ?t l d = Some j" for k l c d j
    using that one_parent [OF wf, of k l c j d] trie_wfD(2) [OF wf, of k c j] trie_wfD(2) [OF wf, of l d j]
    by (auto simp: ch split: if_splits)
  moreover have "walk ?t 0 w = Some k" if "k < length ?t" "nd_terminal (?t ! k) = Some (w, s, c)" for k w s c
  proof -
    have k: "k < length t" "nd_terminal (t ! k) = Some (w, s, c)"
      using that i by (auto simp: add_child_nth node_new_def split: if_splits)
    show ?thesis using trie_wf_pos [OF wf] walk_grown [OF grown_add_child [OF i n] wf] trie_wfD(3) [OF wf k] by simp
  qed
  moreover have "?t \<noteq> []" using length_add_child [of idx ch t] by (metis length_0_conv nat.simps(3))
  ultimately show ?thesis unfolding trie_wf_def by blast
qed

lemma make_path_spec:
  "trie_wf t \<Longrightarrow> idx < length t \<Longrightarrow> make_path w idx t = (i, t') \<Longrightarrow>
     trie_wf t' \<and> grown t t' \<and> walk t' idx w = Some i \<and> i < length t'"
proof (induction w arbitrary: idx t)
  case (Cons c w)
  show ?case
  proof (cases "child t idx c")
    case (Some n)
    have n: "n < length t" using trie_wfD(2) [OF Cons.prems(1,2) Some] by simp
    have s: "trie_wf t'" "grown t t'" "walk t' n w = Some i" "i < length t'"
      using Cons.IH [OF Cons.prems(1) n] Cons.prems(2,3) Some by (auto simp: make_path_Cons simp del: make_path.simps(2))
    moreover have "child t' idx c = Some n" using s(2) Some Cons.prems(2) by (simp add: grown_def)
    ultimately show ?thesis by simp
  next
    case None
    let ?t = "add_child idx c t"
    have g: "grown t ?t" by (rule grown_add_child [OF Cons.prems(2) None])
    have s: "trie_wf t'" "grown ?t t'" "walk t' (length t) w = Some i" "i < length t'"
      using Cons.IH [OF trie_wf_add_child [OF Cons.prems(1,2) None], of "length t"] Cons.prems(2,3) None
      by (auto simp: make_path_Cons simp del: make_path.simps(2))
    have "child ?t idx c = Some (length t)" using child_add_child [OF Cons.prems(2) None] Cons.prems(2) by simp
    then have "child t' idx c = Some (length t)" using s(2) Cons.prems(2) by (simp add: grown_def)
    then show ?thesis using s grown_trans [OF g s(2)] by simp
  qed
qed simp

lemma entries_grown:
  assumes "trie_wf t" and "trie_wf t'" and "grown t t'"
  shows "entries t' = entries t"
proof
  fix w
  have 0: "0 < length t" "0 < length t'" using trie_wf_pos [OF assms(1)] trie_wf_pos [OF assms(2)] by simp_all
  show "entries t' w = entries t w"
  proof (cases "walk t 0 w")
    case (Some i)
    then have "i < length t" using walk_bound [OF assms(1) 0(1)] by blast
    then show ?thesis using walk_grown [OF assms(3,1) 0(1) Some] Some assms(3) by (simp add: entries_def grown_def)
  next
    case None
    have "nd_terminal (t' ! i) = None" if i: "walk t' 0 w = Some i" for i
    proof (rule ccontr)
      assume "nd_terminal (t' ! i) \<noteq> None"
      then obtain v s c where v: "nd_terminal (t' ! i) = Some (v, s, c)" by auto
      have "i < length t'" using walk_bound [OF assms(2) 0(2) i] by simp
      then have "i < length t" "nd_terminal (t ! i) = Some (v, s, c)" using v assms(3) by (auto simp: grown_def)
      then show False using trie_wfD(3) [OF assms(1)] terminal_text [OF assms(2) i v] None by auto
    qed
    then show ?thesis using None by (auto simp: entries_def split: option.splits)
  qed
qed

lemma set_terminal:
  assumes wf: "trie_wf t" and w: "walk t 0 w = Some i"
  shows "trie_wf (t[i := (t ! i)\<lparr>nd_terminal := Some (w, s, c)\<rparr>])"
    and "entries (t[i := (t ! i)\<lparr>nd_terminal := Some (w, s, c)\<rparr>]) = (entries t)(w \<mapsto> (s, c))"
proof -
  let ?t = "t[i := (t ! i)\<lparr>nd_terminal := Some (w, s, c)\<rparr>]"
  have i: "i < length t" using walk_bound [OF wf trie_wf_pos [OF wf] w] by simp
  have ch: "nd_children (?t ! k) = nd_children (t ! k)" for k using i by (cases "k = i") simp_all
  have wk: "walk ?t k v = walk t k v" for k v by (rule walk_cong) (rule ch)
  have tm: "nd_terminal (?t ! k) = (if k = i then Some (w, s, c) else nd_terminal (t ! k))" for k
    using i by (cases "k = i") simp_all
  have "walk t 0 v = Some k" if "k < length t" "nd_terminal (?t ! k) = Some (v, s', c')" for k v s' c'
    using that trie_wfD(3) [OF wf, of k v s' c'] w by (auto simp: tm split: if_splits)
  moreover have "?t \<noteq> []" using i by auto
  ultimately show "trie_wf ?t"
    using wf unfolding trie_wf_def ch wk length_list_update by blast
  show "entries ?t = (entries t)(w \<mapsto> (s, c))"
  proof
    fix v
    have "walk t 0 v = Some i \<longleftrightarrow> v = w" using w walk_inj [OF wf trie_wf_pos [OF wf]] by blast
    then show "entries ?t v = ((entries t)(w \<mapsto> (s, c))) v"
      by (auto simp: entries_def wk tm split: option.splits simp del: nth_list_update)
  qed
qed

definition improves :: "trie \<Rightarrow> rstr \<Rightarrow> score \<Rightarrow> bool" where
  "improves t w s \<longleftrightarrow> (case entries t w of None \<Rightarrow> True | Some (s', _) \<Rightarrow> s' < s)"

lemma trie_insert_spec:
  assumes wf: "trie_wf t"
  shows "trie_wf (trie_insert w s c t)"
    and "entries (trie_insert w s c t) = (if improves t w s then (entries t)(w \<mapsto> (s, c)) else entries t)"
proof -
  obtain i t1 where m: "make_path w 0 t = (i, t1)" by (cases "make_path w 0 t")
  note p = make_path_spec [OF wf trie_wf_pos [OF wf] m]
  have e: "entries t1 = entries t" using entries_grown [OF wf] p by blast
  have "entries t w = map_option snd (nd_terminal (t1 ! i))" using p by (simp add: entries_def flip: e)
  then have r: "improves t w s \<longleftrightarrow> (case nd_terminal (t1 ! i) of None \<Rightarrow> True | Some (_, s', _) \<Rightarrow> s' < s)"
    by (simp add: improves_def split: option.splits prod.splits)
  have w: "walk t1 0 w = Some i" using p by blast
  have t: "trie_insert w s c t =
      (if improves t w s then t1[i := (t1 ! i)\<lparr>nd_terminal := Some (w, s, c)\<rparr>] else t1)"
    by (simp add: trie_insert_def m r Let_def)
  show "trie_wf (trie_insert w s c t)" unfolding t using p set_terminal(1) [OF _ w] by simp
  show "entries (trie_insert w s c t) = (if improves t w s then (entries t)(w \<mapsto> (s, c)) else entries t)"
    unfolding t using p set_terminal(2) [OF _ w] by (simp add: e)
qed

lemma learn_spec:
  "trie_wf t \<Longrightarrow> trie_wf (learn uni w t)"
  by (simp add: learn_def trie_insert_spec)

lemma load_builtins_wf: "trie_wf t \<Longrightarrow> trie_wf (load_builtins t)"
proof -
  have a: "trie_wf t \<Longrightarrow> trie_wf (insert_all ss s c t)" for ss s c t
    unfolding insert_all_def by (induction ss arbitrary: t) (simp_all add: trie_insert_spec)
  have b: "trie_wf t \<Longrightarrow> trie_wf (insert_scored ss c t)" for ss c t
    unfolding insert_scored_def by (induction ss arbitrary: t) (auto simp: trie_insert_spec)
  show "trie_wf t \<Longrightarrow> trie_wf (load_builtins t)"
    by (simp add: load_builtins_def load_paths_def load_shell_def load_python_def load_rust_def a b)
qed

section \<open>The search\<close>

definition vals_ok :: "(nat \<Rightarrow> nat list) \<Rightarrow> trie \<Rightarrow> bool" where
  "vals_ok vals t \<longleftrightarrow> (\<forall>i < length t. mset (vals i) = mset (map snd (nd_children (t ! i))))"

definition level :: "(nat \<Rightarrow> nat list) \<Rightarrow> nat \<Rightarrow> nat \<Rightarrow> nat list" where
  "level vals p k = (next_level vals ^^ k) [p]"

definition found :: "(nat \<Rightarrow> nat list) \<Rightarrow> trie \<Rightarrow> nat \<Rightarrow> nat \<Rightarrow> (rstr \<times> score) list" where
  "found vals t p m = concat (map (\<lambda>k. level_results t (level vals p k)) [0..<m])"

lemma level_Suc: "level vals p (Suc k) = next_level vals (level vals p k)"
  by (simp add: level_def)

lemma found_Suc: "found vals t p (Suc m) = found vals t p m @ level_results t (level vals p m)"
  by (simp add: found_def)

lemma distinct_snd:
  "distinct (map fst xs) \<Longrightarrow> (\<And>c d j. (c, j) \<in> set xs \<Longrightarrow> (d, j) \<in> set xs \<Longrightarrow> c = d) \<Longrightarrow> distinct (map snd xs)"
proof (induction xs)
  case (Cons x xs)
  have "snd x \<notin> snd ` set xs"
  proof
    assume "snd x \<in> snd ` set xs"
    then obtain d where d: "(d, snd x) \<in> set xs" by auto
    then have "fst x = d" using Cons.prems(2) [of "fst x" "snd x" d] by simp
    then show False using d Cons.prems(1) by force
  qed
  moreover have "distinct (map snd xs)"
    by (rule Cons.IH) (use Cons.prems in \<open>simp, meson list.set_intros(2)\<close>)
  ultimately show ?case by simp
qed simp

lemma vals_children:
  assumes "trie_wf t" and "vals_ok vals t" and "i < length t"
  shows "j \<in> set (vals i) \<longleftrightarrow> (\<exists>c. child t i c = Some j)" and "distinct (vals i)"
proof -
  have m: "mset (vals i) = mset (map snd (nd_children (t ! i)))" using assms by (simp add: vals_ok_def)
  note d = trie_wfD(1) [OF assms(1,3)]
  have "set (vals i) = snd ` set (nd_children (t ! i))" using m by (metis set_map set_mset_mset)
  then show "j \<in> set (vals i) \<longleftrightarrow> (\<exists>c. child t i c = Some j)" using d by (force simp: map_of_eq_Some_iff)
  have "distinct (map snd (nd_children (t ! i)))"
    by (rule distinct_snd [OF d]) (use one_parent [OF assms(1,3,3)] d in \<open>auto simp: map_of_eq_Some_iff\<close>)
  then show "distinct (vals i)" using m mset_eq_imp_distinct_iff by blast
qed

lemma next_level_spec:
  assumes wf: "trie_wf t" and v: "vals_ok vals t"
  shows "\<forall>i \<in> set q. i < length t \<Longrightarrow> j \<in> set (next_level vals q) \<longleftrightarrow> (\<exists>i \<in> set q. \<exists>c. child t i c = Some j)"
    and "\<forall>i \<in> set q. i < length t \<Longrightarrow> distinct q \<Longrightarrow> distinct (next_level vals q)"
proof -
  show "\<forall>i \<in> set q. i < length t \<Longrightarrow> j \<in> set (next_level vals q) \<longleftrightarrow> (\<exists>i \<in> set q. \<exists>c. child t i c = Some j)"
    using vals_children(1) [OF wf v] by (auto simp: next_level_def)
  show "\<forall>i \<in> set q. i < length t \<Longrightarrow> distinct q \<Longrightarrow> distinct (next_level vals q)"
  proof (induction q)
    case (Cons i q)
    have "j \<notin> set (vals k)" if "j \<in> set (vals i)" "k \<in> set q" for j k
    proof
      assume "j \<in> set (vals k)"
      moreover have "i < length t" "k < length t" "i \<noteq> k" using Cons.prems that by auto
      ultimately show False using that(1) vals_children(1) [OF wf v] one_parent [OF wf] by meson
    qed
    then have "set (vals i) \<inter> (\<Union>k \<in> set q. set (vals k)) = {}" by blast
    then show ?case using Cons vals_children(2) [OF wf v, of i] by (simp add: next_level_def)
  qed (simp add: next_level_def)
qed

lemma level_spec:
  assumes wf: "trie_wf t" and v: "vals_ok vals t" and p: "p < length t"
  shows "(\<forall>j. j \<in> set (level vals p k) \<longleftrightarrow> (\<exists>w. length w = k \<and> walk t p w = Some j)) \<and>
    distinct (level vals p k)"
proof (induction k)
  case (Suc k)
  let ?q = "level vals p k"
  have q: "\<forall>i \<in> set ?q. i < length t" using Suc walk_bound [OF wf p] by blast
  have "j \<in> set (level vals p (Suc k)) \<longleftrightarrow> (\<exists>w. length w = Suc k \<and> walk t p w = Some j)" for j
  proof -
    have "j \<in> set (level vals p (Suc k)) \<longleftrightarrow> (\<exists>u c. length u = k \<and> walk t p (u @ [c]) = Some j)"
      unfolding level_Suc next_level_spec(1) [OF wf v q] using Suc
      by (force simp: walk_snoc split: option.splits)
    also have "\<dots> \<longleftrightarrow> (\<exists>w. length w = Suc k \<and> walk t p w = Some j)"
      by (metis length_append_singleton length_Suc_conv_rev)
    finally show ?thesis .
  qed
  then show ?case using next_level_spec(2) [OF wf v q] Suc by (simp add: level_Suc)
qed (auto simp: level_def)

lemma level_empty:
  assumes "trie_wf t" and "vals_ok vals t" and "p < length t" and "length t \<le> k"
  shows "level vals p k = []"
proof -
  have "j \<notin> set (level vals p k)" for j
    using level_spec [OF assms(1-3), of k] walk_bound [OF assms(1,3)] assms(4) by fastforce
  then show ?thesis by (metis list.set_sel(1))
qed

lemma level_stays_empty: "level vals p m = [] \<Longrightarrow> m \<le> k \<Longrightarrow> level vals p k = []"
  by (induction k) (auto simp: level_Suc next_level_def le_Suc_eq)

text \<open>The loop ends, after a level that is empty or that fills the limit.\<close>

lemma collect_levels:
  assumes "trie_wf t" and "vals_ok vals t" and "p < length t"
  shows "\<exists>m \<ge> k. collect vals t lim (level vals p k) (found vals t p k) = Some (found vals t p m) \<and>
    (level vals p m = [] \<or> lim \<le> length (found vals t p m))"
proof (induction "length t - k" arbitrary: k rule: less_induct)
  case less
  show ?case
  proof (cases "level vals p k = [] \<or> lim \<le> length (found vals t p k)")
    case True
    then have "collect vals t lim (level vals p k) (found vals t p k) = Some (found vals t p k)"
      by (subst collect.simps) auto
    then show ?thesis using True by blast
  next
    case False
    then have "k < length t" using level_empty [OF assms] by (meson linorder_not_less)
    then obtain m where "Suc k \<le> m" "collect vals t lim (level vals p (Suc k)) (found vals t p (Suc k)) = Some (found vals t p m)"
      "level vals p m = [] \<or> lim \<le> length (found vals t p m)"
      using less [of "Suc k"] by (metis diff_less_mono2 lessI)
    moreover have "collect vals t lim (level vals p k) (found vals t p k) =
        collect vals t lim (level vals p (Suc k)) (found vals t p (Suc k))"
      using False by (subst collect.simps) (simp add: level_Suc found_Suc)
    ultimately show ?thesis by (metis Suc_leD)
  qed
qed

text \<open>The stored completions that begin with the token.\<close>

definition matches :: "trie \<Rightarrow> rstr \<Rightarrow> (rstr \<times> score) set" where
  "matches t tok = {(w, s). prefix tok w \<and> (\<exists>c. entries t w = Some (s, c))}"

lemma in_map_filter: "y \<in> set (List.map_filter f xs) \<longleftrightarrow> (\<exists>x \<in> set xs. f x = Some y)"
  by (induction xs) (auto simp: map_filter_simps split: option.splits)

lemma level_results_iff:
  assumes wf: "trie_wf t" and q: "\<forall>i \<in> set q. \<exists>w. walk t 0 w = Some i"
  shows "(w, s) \<in> set (level_results t q) \<longleftrightarrow> (\<exists>i \<in> set q. walk t 0 w = Some i \<and> (\<exists>c. entries t w = Some (s, c)))"
proof -
  have "(w, s) \<in> set (level_results t q) \<longleftrightarrow> (\<exists>i \<in> set q. \<exists>c. nd_terminal (t ! i) = Some (w, s, c))"
    by (force simp: level_results_def in_map_filter)
  moreover have "(\<exists>c. nd_terminal (t ! i) = Some (w, s, c)) \<longleftrightarrow> walk t 0 w = Some i \<and> (\<exists>c. entries t w = Some (s, c))"
    if "i \<in> set q" for i
  proof
    assume "\<exists>c. nd_terminal (t ! i) = Some (w, s, c)"
    then obtain c where c: "nd_terminal (t ! i) = Some (w, s, c)" by blast
    obtain v where v: "walk t 0 v = Some i" using q \<open>i \<in> set q\<close> by blast
    show "walk t 0 w = Some i \<and> (\<exists>c. entries t w = Some (s, c))"
      using terminal_text [OF wf v c] v c by (simp add: entries_def)
  next
    assume "walk t 0 w = Some i \<and> (\<exists>c. entries t w = Some (s, c))"
    then obtain c u where w: "walk t 0 w = Some i" and u: "nd_terminal (t ! i) = Some (u, s, c)"
      by (auto simp: entries_def)
    show "\<exists>c. nd_terminal (t ! i) = Some (w, s, c)" using terminal_text [OF wf w u] u by blast
  qed
  ultimately show ?thesis by blast
qed

lemma level_results_distinct:
  assumes wf: "trie_wf t"
  shows "distinct q \<Longrightarrow> \<forall>i \<in> set q. \<exists>w. walk t 0 w = Some i \<Longrightarrow> distinct (map fst (level_results t q))"
proof (induction q)
  case (Cons i q)
  have q: "\<forall>i \<in> set q. \<exists>w. walk t 0 w = Some i" using Cons.prems by simp
  have "v \<notin> fst ` set (level_results t q)" if v: "nd_terminal (t ! i) = Some (v, s, c)" for v s c
  proof
    assume "v \<in> fst ` set (level_results t q)"
    then have "\<exists>k \<in> set q. walk t 0 v = Some k" using level_results_iff [OF wf q] by auto
    moreover obtain w where w: "walk t 0 w = Some i" using Cons.prems by auto
    ultimately show False using terminal_text [OF wf w v] Cons.prems(1) by auto
  qed
  then show ?case using Cons.IH [OF _ q] Cons.prems(1)
    by (auto simp: level_results_def map_filter_simps split: option.splits)
qed (simp add: level_results_def map_filter_simps)

lemma found_spec:
  assumes wf: "trie_wf t" and v: "vals_ok vals t" and p: "walk t 0 tok = Some p"
  shows "set (found vals t p m) = {(w, s) \<in> matches t tok. length w < length tok + m} \<and>
    distinct (map fst (found vals t p m))"
proof (induction m)
  case 0
  show ?case by (auto simp: found_def matches_def dest: prefix_length_le)
next
  case (Suc m)
  have pl: "p < length t" using walk_bound [OF wf trie_wf_pos [OF wf] p] by simp
  note l = level_spec [OF wf v pl, of m]
  have via: "i \<in> set (level vals p m) \<longleftrightarrow> (\<exists>u. length u = m \<and> walk t 0 (tok @ u) = Some i)" for i
    using l p by (simp add: walk_append)
  then have q: "\<forall>i \<in> set (level vals p m). \<exists>w. walk t 0 w = Some i" by blast
  have "(w, s) \<in> set (level_results t (level vals p m)) \<longleftrightarrow>
      (w, s) \<in> matches t tok \<and> length w = length tok + m" for w s
  proof -
    have "(w, s) \<in> set (level_results t (level vals p m)) \<longleftrightarrow>
        (\<exists>i u. length u = m \<and> walk t 0 (tok @ u) = Some i \<and> walk t 0 w = Some i \<and> (\<exists>c. entries t w = Some (s, c)))"
      unfolding level_results_iff [OF wf q] using via by blast
    also have "\<dots> \<longleftrightarrow> (\<exists>u. length u = m \<and> w = tok @ u \<and> (\<exists>c. entries t w = Some (s, c)))"
    proof -
      have "\<exists>i. walk t 0 w = Some i" if "entries t w = Some x" for x
        using that by (auto simp: entries_def split: option.splits)
      then show ?thesis using walk_inj [OF wf trie_wf_pos [OF wf]] by metis
    qed
    also have "\<dots> \<longleftrightarrow> (w, s) \<in> matches t tok \<and> length w = length tok + m"
      by (auto simp: matches_def prefix_def)
    finally show ?thesis .
  qed
  then have r: "set (level_results t (level vals p m)) = {(w, s) \<in> matches t tok. length w = length tok + m}" by auto
  have "distinct (map fst (level_results t (level vals p m)))"
    using level_results_distinct [OF wf _ q] l by blast
  moreover have "fst ` set (found vals t p m) \<inter> fst ` set (level_results t (level vals p m)) = {}"
    using Suc r by auto
  ultimately show ?case using Suc r by (auto simp: found_Suc)
qed

section \<open>Ranking\<close>

text \<open>Higher scores come first, and among equal scores the smaller text.\<close>

definition before :: "rstr \<times> score \<Rightarrow> rstr \<times> score \<Rightarrow> bool" where
  "before x y \<longleftrightarrow> snd y < snd x \<or> (snd x = snd y \<and> fst x < fst y)"

lemma rank_spec:
  "set (rank xs) = set xs" "length (rank xs) = length xs"
  "distinct xs \<Longrightarrow> distinct (rank xs) \<and> sorted_wrt before (rank xs)"
proof -
  let ?k = "\<lambda>(text, score). (- score, text) :: score \<times> rstr"
  show "set (rank xs) = set xs" "length (rank xs) = length xs" by (simp_all add: rank_def)
  assume d: "distinct xs"
  have inj: "inj_on ?k A" for A by (rule inj_onI) (simp split: prod.splits)
  have "sorted (map ?k (rank xs))" unfolding rank_def by (rule sorted_sort_key)
  moreover have d': "distinct (rank xs)" using d by (simp add: rank_def)
  moreover have "distinct (map ?k (rank xs))" using d' inj by (simp only: distinct_map)
  ultimately have "sorted_wrt (<) (map ?k (rank xs))" unfolding strict_sorted_iff by blast
  then have s: "sorted_wrt (\<lambda>x y. ?k x < ?k y) (rank xs)" unfolding sorted_wrt_map .
  have b: "before x y" if "?k x < ?k y" for x y
    using that by (cases x; cases y) (auto simp: before_def)
  have "sorted_wrt before (rank xs)" by (rule sorted_wrt_mono_rel [OF _ s]) (rule b)
  then show "distinct (rank xs) \<and> sorted_wrt before (rank xs)" using d' by blast
qed

definition top :: "nat \<Rightarrow> (rstr \<times> score) set \<Rightarrow> (rstr \<times> score) list \<Rightarrow> bool" where
  "top n M r \<longleftrightarrow> set r \<subseteq> M \<and> distinct r \<and> sorted_wrt before r \<and> length r = min n (card M)"

lemma take_rank:
  assumes "distinct xs" and "set xs \<subseteq> M" and "finite M" and "length xs = card M \<or> n \<le> length xs"
  shows "top n M (take n (rank xs))"
proof -
  have "length xs \<le> card M" using assms(1-3) by (metis card_mono distinct_card)
  then have "length (take n (rank xs)) = min n (card M)" using assms(4) rank_spec(2) [of xs] by auto
  moreover have "set (take n (rank xs)) \<subseteq> M" using assms(2) rank_spec(1) [of xs] set_take_subset by fastforce
  ultimately show ?thesis using rank_spec(3) [OF assms(1)] unfolding top_def
    by (simp add: sorted_wrt_take)
qed

lemma take_rank_best:
  assumes "distinct xs" and "x \<in> set xs" and "x \<notin> set (take n (rank xs))" and "y \<in> set (take n (rank xs))"
  shows "before y x"
proof -
  have "x \<in> set (drop n (rank xs))"
    using assms(2,3) rank_spec(1) [of xs] by (metis Un_iff append_take_drop_id set_append)
  moreover have "sorted_wrt before (take n (rank xs) @ drop n (rank xs))"
    using rank_spec(3) [OF assms(1)] by simp
  ultimately show ?thesis using assms(4) unfolding sorted_wrt_append by blast
qed

lemma matches_found:
  assumes wf: "trie_wf t" and v: "vals_ok vals t" and p: "walk t 0 tok = Some p"
    and e: "level vals p m = []"
  shows "set (found vals t p m) = matches t tok"
proof -
  have pl: "p < length t" using walk_bound [OF wf trie_wf_pos [OF wf] p] by simp
  have "length w < length tok + m" if w: "(w, s) \<in> matches t tok" for w s
  proof (rule ccontr)
    assume n: "\<not> length w < length tok + m"
    from w obtain u c where u: "w = tok @ u" "entries t w = Some (s, c)" by (auto simp: matches_def prefix_def)
    then obtain i where "walk t p u = Some i" using p by (auto simp: entries_def walk_append split: option.splits)
    then have "i \<in> set (level vals p (length u))" using level_spec [OF wf v pl] by blast
    moreover have "level vals p (length u) = []" by (rule level_stays_empty [OF e]) (use n u in simp)
    ultimately show False by simp
  qed
  then show ?thesis using found_spec [OF wf v p, of m] by auto
qed

lemma finite_matches:
  assumes wf: "trie_wf t"
  shows "finite (matches t tok)"
proof (cases "walk t 0 tok")
  case None
  then have "matches t tok = {}" by (auto simp: matches_def prefix_def entries_def walk_append)
  then show ?thesis by simp
next
  case (Some p)
  let ?vals = "\<lambda>i. map snd (nd_children (t ! i))"
  have v: "vals_ok ?vals t" by (simp add: vals_ok_def)
  have pl: "p < length t" using walk_bound [OF wf trie_wf_pos [OF wf] Some] by simp
  show ?thesis using matches_found [OF wf v Some level_empty [OF wf v pl order.refl]] by (metis List.finite_set)
qed

section \<open>What the trie promises\<close>

text \<open>
  C33. The type of the trie. The new trie is well formed and insertion, learning and loading the
  built-in completions keep it so: no child map points outside the vector or backwards, every
  node has one way in, and every completion sits where its text leads.
\<close>

theorem trie_wf_preserved:
  assumes "trie_wf t"
  shows "trie_wf trie_new \<and> trie_wf (trie_insert w s c t) \<and> trie_wf (learn uni w t) \<and> trie_wf (load_builtins t)"
  using assms by (simp add: trie_wf_new trie_insert_spec learn_spec load_builtins_wf)

lemma trie_wf_preserved_witness: "trie_wf (load_builtins trie_new)"
  using trie_wf_preserved [OF trie_wf_new] by blast

text \<open>
  C34. The trie implements a finite map from texts to a score and category: the new trie is empty, and
  insertion overwrites an entry exactly when there was none or the new score is higher, and touches no other text.
  Learning inserts an identifier of at least three bytes, not characters, with score 65.
\<close>

theorem trie_refines_map:
  assumes "trie_wf t"
  shows "entries trie_new = Map.empty \<and>
    entries (trie_insert w s c t) =
      (case entries t w of
         Some (s', _) \<Rightarrow> if s' < s then (entries t)(w \<mapsto> (s, c)) else entries t
       | None \<Rightarrow> (entries t)(w \<mapsto> (s, c))) \<and>
    entries (learn uni w t) =
      (if 3 \<le> str_len w \<and> list_all (\<lambda>c. is_alphanumeric uni c \<or> c = 95) w \<and> improves t w 65
       then (entries t)(w \<mapsto> (65, Identifier)) else entries t)"
proof (intro conjI)
  have "entries trie_new v = None" for v
    by (cases v) (simp_all add: entries_def trie_new_def node_new_def)
  then show "entries trie_new = Map.empty" by blast
qed (use trie_insert_spec(2) [OF assms] in \<open>auto simp: learn_def improves_def split: option.splits\<close>)

lemma trie_refines_map_witness:
  "entries (trie_insert (lit ''for'') 85 Keyword (trie_insert (lit ''for'') 90 Keyword trie_new)) (lit ''for'') =
     Some (90, Keyword)"
proof -
  have e: "entries (trie_insert (lit ''for'') 90 Keyword trie_new) = [lit ''for'' \<mapsto> (90, Keyword)]"
    using trie_refines_map [OF trie_wf_new, of "lit ''for''" 90 Keyword] by simp
  show ?thesis
    using trie_refines_map [OF trie_insert_spec(1) [OF trie_wf_new], of "lit ''for''" 85 Keyword] by (simp add: e)
qed

lemma complete_spec:
  assumes "trie_wf t" and "vals_ok vals t" and "current_token uni line = Ret tok" and "tok \<noteq> []"
  shows "\<exists>r. complete uni vals t line mx = Ret (Some r) \<and> top mx (matches t tok) r \<and>
    (card (matches t tok) \<le> 8 * mx \<longrightarrow> (\<forall>x \<in> matches t tok - set r. \<forall>y \<in> set r. before y x))"
proof (cases "walk t 0 tok")
  case None
  then have "matches t tok = {}" by (auto simp: matches_def prefix_def entries_def walk_append)
  then show ?thesis using None assms(3,4) by (simp add: complete_def top_def)
next
  case (Some p)
  have pl: "p < length t" using walk_bound [OF assms(1) trie_wf_pos [OF assms(1)] Some] by simp
  obtain m where m: "collect vals t (mx * 8) [p] [] = Some (found vals t p m)"
    "level vals p m = [] \<or> mx * 8 \<le> length (found vals t p m)"
    using collect_levels [OF assms(1,2) pl, of 0] by (auto simp: level_def found_def)
  let ?xs = "found vals t p m" and ?M = "matches t tok"
  have f: "finite ?M" by (rule finite_matches [OF assms(1)])
  have s: "set ?xs \<subseteq> ?M" using found_spec [OF assms(1,2) Some, of m] by auto
  have d: "distinct ?xs" using found_spec [OF assms(1,2) Some, of m] by (simp add: distinct_map)
  have l: "length ?xs = card (set ?xs)" using d by (simp add: distinct_card)
  have full: "set ?xs = ?M" if "level vals p m = [] \<or> card ?M \<le> length ?xs"
    using that matches_found [OF assms(1,2) Some] card_seteq [OF f s] l by metis
  have "length ?xs = card ?M \<or> mx \<le> length ?xs" using m(2) full l by (elim disjE) (simp, linarith)
  then have t: "top mx ?M (take mx (rank ?xs))" by (rule take_rank [OF d s f])
  have "before y x" if "card ?M \<le> 8 * mx" "x \<in> ?M - set (take mx (rank ?xs))" "y \<in> set (take mx (rank ?xs))" for x y
  proof (rule take_rank_best [OF d _ _ that(3)])
    have "set ?xs = ?M" using full m(2) that(1) by linarith
    then show "x \<in> set ?xs" using that(2) by blast
  qed (use that(2) in blast)
  then show ?thesis using t m(1) Some assms(3,4) by (simp add: complete_def)
qed

text \<open>
  C35. Completion agrees with the reference: on a well-formed trie, whatever order the hash maps
  iterate in, the search ends, and what it returns are stored completions of the token, each once, ranked by
  score and then text, as many as are asked for or exist. When at most eight times as many exist
  as are asked for, they are the best ones; beyond that a better but longer one may be left out.
\<close>

theorem complete_is_top:
  assumes "trie_wf t" and "vals_ok vals t" and "current_token uni line = Ret tok" and "tok \<noteq> []"
  shows "\<exists>r. complete uni vals t line mx = Ret (Some r) \<and> top mx (matches t tok) r \<and>
    (card (matches t tok) \<le> 8 * mx \<longrightarrow> (\<forall>x \<in> matches t tok - set r. \<forall>y \<in> set r. before y x))"
  by (rule complete_spec [OF assms])

text \<open>A trie with three completions; the search visits the children in the order they were added.\<close>

definition demo_trie :: trie where
  "demo_trie = trie_insert (lit ''format'') 80 Stdlib (trie_insert (lit ''for'') 85 Keyword
     (trie_insert (lit ''fn'') 90 Keyword trie_new))"

lemma demo_entries:
  "entries demo_trie = [lit ''fn'' \<mapsto> (90, Keyword), lit ''for'' \<mapsto> (85, Keyword), lit ''format'' \<mapsto> (80, Stdlib)]"
proof -
  have new: "entries trie_new v = None" for v
    by (cases v) (simp_all add: entries_def trie_new_def node_new_def)
  show ?thesis
    by (rule ext) (simp add: demo_trie_def trie_insert_spec trie_wf_new improves_def new lit_def)
qed

lemma complete_is_top_witness:
  "complete (\<lambda>_. False) (\<lambda>i. map snd (nd_children (demo_trie ! i))) demo_trie (lit ''let fo'') 1 =
     Ret (Some [(lit ''for'', 85)])"
proof -
  let ?vals = "\<lambda>i. map snd (nd_children (demo_trie ! i))"
  have wf: "trie_wf demo_trie" by (simp add: demo_trie_def trie_insert_spec trie_wf_new)
  have v: "vals_ok ?vals demo_trie" by (simp add: vals_ok_def)
  have tok: "current_token (\<lambda>_. False) (lit ''let fo'') = Ret (lit ''fo'')" by code_simp
  have M: "matches demo_trie (lit ''fo'') = {(lit ''for'', 85), (lit ''format'', 80)}"
    by (auto simp: matches_def demo_entries lit_def split: if_splits)
  have c: "card (matches demo_trie (lit ''fo'')) = 2" unfolding M by (simp add: lit_def)
  have "lit ''fo'' \<noteq> []" by (simp add: lit_def)
  from complete_is_top [OF wf v tok this, of 1] obtain r where
    r: "complete (\<lambda>_. False) ?vals demo_trie (lit ''let fo'') 1 = Ret (Some r)"
      "top 1 (matches demo_trie (lit ''fo'')) r"
      "\<forall>x \<in> matches demo_trie (lit ''fo'') - set r. \<forall>y \<in> set r. before y x"
    by (auto simp: c)
  obtain x where x: "r = [x]" using r(2) by (auto simp: top_def c length_Suc_conv)
  then have "x \<in> {(lit ''for'', 85), (lit ''format'', 80)}" using r(2) by (auto simp: top_def M)
  moreover have "x \<noteq> (lit ''format'', 80)" using r(3) unfolding M x by (force simp: before_def lit_def)
  ultimately show ?thesis using r(1) x by blast
qed

lemma slice_from_skip [simp]: "slice_from (str_len a + k) (a @ s) = slice_from k s"
proof (induction a)
  case (Cons c a)
  have "0 < utf8_len c" by (simp add: utf8_len_def)
  then show ?case using Cons by (simp add: str_len_def)
qed (simp add: str_len_def)

lemma slice_from_0 [simp]: "slice_from 0 s = Ret s"
  by (cases s) simp_all

lemma current_token_eq:
  "list_all (token_char uni) tok \<Longrightarrow> current_token uni tok = Ret tok"
  "list_all (token_char uni) tok \<Longrightarrow> \<not> token_char uni c \<Longrightarrow> current_token uni (pre @ c # tok) =
     (if c < 128 then Ret tok else Panic ''byte index is not a char boundary'')"
proof -
  assume a: "list_all (token_char uni) tok"
  then have tw: "takeWhile (token_char uni) (rev tok) = rev tok" by (simp add: takeWhile_eq_all_conv list_all_iff)
  have "rfind (\<lambda>c. \<not> token_char uni c) tok = None" by (simp add: rfind_def tw)
  then show "current_token uni tok = Ret tok" by (simp add: current_token_def)
  assume c: "\<not> token_char uni c"
  have "takeWhile (token_char uni) (rev (pre @ c # tok)) = rev tok"
    using a c takeWhile_append2 [of "rev tok" "token_char uni" "c # rev pre"] by (auto simp: list_all_iff)
  then have "rfind (\<lambda>c. \<not> token_char uni c) (pre @ c # tok) = Some (str_len pre)"
    by (simp add: rfind_def Let_def butlast_append)
  then have "current_token uni (pre @ c # tok) = slice_from 1 (c # tok)"
    using slice_from_skip [of pre 1 "c # tok"] by (simp add: current_token_def del: slice_from.simps)
  then show "current_token uni (pre @ c # tok) =
      (if c < 128 then Ret tok else Panic ''byte index is not a char boundary'')"
    by (simp add: utf8_len_def)
qed

lemma split_token:
  obtains "list_all (token_char uni) line" |
    pre c tok where "line = pre @ c # tok" "\<not> token_char uni c" "list_all (token_char uni) tok"
proof (cases "list_all (token_char uni) line")
  case False
  then obtain pre c tok where "line = pre @ c # tok" "\<not> token_char uni c" "\<forall>x \<in> set tok. token_char uni x"
    using split_list_last_prop [of line "\<lambda>c. \<not> token_char uni c"] by (auto simp: list_all_iff)
  then show ?thesis using that(2) by (simp add: list_all_iff)
qed (rule that(1))

text \<open>
  The cursor token. When the nearest character that cannot be part of a token is ASCII, the
  token is what follows it; when it is any longer character, completing and taking the token panic,
  because the slice begins one byte after the start of that character.
\<close>

theorem completion_panics_after_non_ascii:
  assumes "list_all (token_char uni) tok" and "\<not> token_char uni c"
  shows "current_token uni (pre @ c # tok) =
      (if c < 128 then Ret tok else Panic ''byte index is not a char boundary'') \<and>
    (complete uni vals t (pre @ c # tok) mx = Panic ''byte index is not a char boundary'' \<longleftrightarrow> 128 \<le> c)"
  using current_token_eq(2) [OF assms] by (cases "c < 128") (simp_all add: complete_def)

text \<open>An en dash before the cursor, as in a comment.\<close>

lemma completion_panics_after_non_ascii_witness:
  "complete (\<lambda>_. False) vals t (lit ''// a '' @ 0x2013 # lit ''fo'') 5 = Panic ''byte index is not a char boundary''"
proof -
  have "list_all (token_char (\<lambda>_. False)) (lit ''fo'')" "\<not> token_char (\<lambda>_. False) 0x2013" by code_simp+
  from completion_panics_after_non_ascii [OF this] show ?thesis by simp
qed

text \<open>
  A text that does not begin with a token character is never offered, whatever is typed: the snippets of
  the built-in set that begin with a number sign are dead.
\<close>

lemma never_offered:
  assumes "trie_wf t" and "vals_ok vals t" and "complete uni vals t line mx = Ret (Some r)" and "w \<in> fst ` set r"
  shows "token_char uni (hd w)"
proof -
  obtain tok where t: "current_token uni line = Ret tok" using assms(3) by (auto simp: complete_def)
  then have ne: "tok \<noteq> []" using assms(3,4) by (auto simp: complete_def)
  have "list_all (token_char uni) tok"
    by (rule split_token [of uni line]) (use t in \<open>auto simp: current_token_eq split: if_splits\<close>)
  moreover have "prefix tok w" using complete_spec [OF assms(1,2) t ne, of mx] assms(3,4)
    by (auto simp: top_def matches_def)
  ultimately show ?thesis using ne by (cases tok) (auto simp: prefix_def)
qed

text \<open>The limit at work: eight short matches hide a longer one with the highest score.\<close>

definition limit_trie :: trie where
  "limit_trie = trie_insert [97, 98, 99] 95 Snippet (fold (\<lambda>c. trie_insert [97, c] 60 Path) [98..<106] trie_new)"

lemma search_limit_hides_best:
  "entries limit_trie [97, 98, 99] = Some (95, Snippet) \<and>
   complete (\<lambda>_. False) (\<lambda>i. map snd (nd_children (limit_trie ! i))) limit_trie [97] 1 = Ret (Some [([97, 98], 60)])"
proof
  show "entries limit_trie [97, 98, 99] = Some (95, Snippet)" by code_simp
  let ?v = "\<lambda>i. map snd (nd_children (limit_trie ! i))"
  have l: "next_level ?v [1] = [2..<10]" "level_results limit_trie [1] = []"
    "level_results limit_trie [2..<10] = map (\<lambda>c. ([97, c], 60)) [98..<106]" by code_simp+
  have "collect ?v limit_trie 8 [1] [] = Some (map (\<lambda>c. ([97, c], 60)) [98..<106])"
  proof -
    have "collect ?v limit_trie 8 [1] [] = collect ?v limit_trie 8 [2..<10] []"
      unfolding collect.simps [of ?v limit_trie 8 "[1]"] l by simp
    also have "\<dots> = collect ?v limit_trie 8 (next_level ?v [2..<10]) (map (\<lambda>c. ([97, c], 60)) [98..<106])"
      unfolding collect.simps [of ?v limit_trie 8 "[2..<10]"] l by simp
    also have "\<dots> = Some (map (\<lambda>c. ([97, c], 60)) [98..<106])"
      unfolding collect.simps [of ?v limit_trie 8 "next_level ?v [2..<10]"] by simp
    finally show ?thesis .
  qed
  moreover have "current_token (\<lambda>_. False) [97] = Ret [97]" "walk limit_trie 0 [97] = Some 1"
    "take 1 (rank (map (\<lambda>c. ([97, c], 60)) [98..<106])) = [([97, 98], 60)]" by code_simp+
  ultimately show "complete (\<lambda>_. False) ?v limit_trie [97] 1 = Ret (Some [([97, 98], 60)])"
    by (simp add: complete_def)
qed

end
