(* ===== verification/AiOnline.thy ===== *)
theory AiOnline
  imports CompletionTrie
begin

text \<open>
  The remote providers of the completion engine (\<open>ai_engine/src/online.rs\<close>) with the request and response
  types of \<open>ai_engine/src/lib.rs\<close>. The HTTP client and the JSON library are not part of the repository: \<open>net\<close> holds
  what the code asks of them, sending a request in a world that moves on, reading the clock in
  milliseconds, and looking into a response. A request is the record of the parts the code puts in.
  Log lines are left out.
\<close>

section \<open>Requests and responses\<close>

record completion_req =
  cr_prefix :: rstr
  cr_line :: rstr
  cr_language :: "rstr option"
  cr_max_tokens :: nat
  cr_n :: nat

datatype source = TrieSource | OfflineSource | OnlineSource

record completion_res =
  cs_text :: rstr
  cs_score :: score
  cs_source :: source
  cs_latency_ms :: u32

record correction_req =
  kr_code :: rstr
  kr_language :: rstr
  kr_error :: "rstr option"

record correction_res =
  ks_fixed_code :: rstr
  ks_explanation :: rstr

section \<open>Providers\<close>

datatype provider = Anthropic | OpenAI | Ollama

fun api_base :: "provider \<Rightarrow> rstr" where
  "api_base Anthropic = lit ''https://api.anthropic.com''"
| "api_base OpenAI = lit ''https://api.openai.com''"
| "api_base Ollama = lit ''http://localhost:11434''"

fun model :: "provider \<Rightarrow> rstr" where
  "model Anthropic = lit ''claude-opus-4-6''"
| "model OpenAI = lit ''gpt-4o''"
| "model Ollama = lit ''codellama''"

section \<open>The circuit breaker\<close>

record breaker =
  cb_failures :: u32
  cb_limit :: u32
  cb_open_until :: "nat option"

definition breaker_new :: breaker where
  "breaker_new = \<lparr>cb_failures = 0, cb_limit = 3, cb_open_until = None\<rparr>"

definition is_open :: "nat \<Rightarrow> breaker \<Rightarrow> bool \<times> breaker" where
  "is_open now b =
     (case cb_open_until b of
        Some until \<Rightarrow> if until \<le> now then (False, b\<lparr>cb_open_until := None, cb_failures := 0\<rparr>) else (True, b)
      | None \<Rightarrow> (False, b))"

definition success :: "breaker \<Rightarrow> breaker" where
  "success b = b\<lparr>cb_failures := 0, cb_open_until := None\<rparr>"

definition failure :: "nat \<Rightarrow> breaker \<Rightarrow> breaker" where
  "failure now b =
     (let b1 = b\<lparr>cb_failures := cb_failures b + 1\<rparr>
      in if cb_limit b1 \<le> cb_failures b1 then b1\<lparr>cb_open_until := Some (now + 30000)\<rparr> else b1)"

type_synonym breakers = "(provider \<times> breaker) list"

definition breakers_new :: breakers where
  "breakers_new = [(Anthropic, breaker_new), (OpenAI, breaker_new), (Ollama, breaker_new)]"

definition breaker_open :: "provider \<Rightarrow> nat \<Rightarrow> breakers \<Rightarrow> bool \<times> breakers" where
  "breaker_open p now bs =
     (case map_of bs p of
        None \<Rightarrow> (False, bs)
      | Some b \<Rightarrow> (case is_open now b of (r, b') \<Rightarrow> (r, vec_put bs p b')))"

definition breaker_success :: "provider \<Rightarrow> breakers \<Rightarrow> breakers" where
  "breaker_success p bs = (case map_of bs p of None \<Rightarrow> bs | Some b \<Rightarrow> vec_put bs p (success b))"

definition breaker_failure :: "provider \<Rightarrow> nat \<Rightarrow> breakers \<Rightarrow> breakers" where
  "breaker_failure p now bs = (case map_of bs p of None \<Rightarrow> bs | Some b \<Rightarrow> vec_put bs p (failure now b))"

section \<open>Calling a provider\<close>

record http_request =
  hq_url :: rstr
  hq_auth :: "rstr \<times> rstr"
  hq_version :: rstr
  hq_model :: rstr
  hq_max_tokens :: "nat option"
  hq_system :: "rstr option"
  hq_messages :: "(rstr \<times> rstr) list"
  hq_prompt :: "rstr option"
  hq_stream :: "bool option"

record ('w, 'v) net =
  nt_send :: "http_request \<Rightarrow> 'w \<Rightarrow> (rstr + 'v) \<times> 'w"
  nt_now :: "'w \<Rightarrow> nat"
  nt_key :: "'v \<Rightarrow> string \<Rightarrow> 'v"
  nt_idx :: "'v \<Rightarrow> nat \<Rightarrow> 'v"
  nt_str :: "'v \<Rightarrow> rstr option"
  nt_parse :: "rstr \<Rightarrow> rstr + 'v"

text \<open>The characters with the Unicode property \<open>White_Space\<close>.\<close>

definition is_whitespace :: "nat \<Rightarrow> bool" where
  "is_whitespace c \<longleftrightarrow> 9 \<le> c \<and> c \<le> 13 \<or> 0x2000 \<le> c \<and> c \<le> 0x200A \<or>
     c \<in> {0x20, 0x85, 0xA0, 0x1680, 0x2028, 0x2029, 0x202F, 0x205F, 0x3000}"

definition trim_end :: "rstr \<Rightarrow> rstr" where
  "trim_end s = rev (dropWhile is_whitespace (rev s))"

definition trim :: "rstr \<Rightarrow> rstr" where
  "trim s = trim_end (dropWhile is_whitespace s)"

definition unwrap_str :: "rstr \<Rightarrow> rstr option \<Rightarrow> rstr" where
  "unwrap_str d s = (case s of None \<Rightarrow> d | Some x \<Rightarrow> x)"

fun extract_text :: "('w, 'v) net \<Rightarrow> 'v \<Rightarrow> provider \<Rightarrow> rstr" where
  "extract_text d resp Anthropic = unwrap_str [] (nt_str d (nt_key d (nt_idx d (nt_key d resp ''content'') 0) ''text''))"
| "extract_text d resp OpenAI =
     unwrap_str [] (nt_str d (nt_key d (nt_key d (nt_idx d (nt_key d resp ''choices'') 0) ''message'') ''content''))"
| "extract_text d resp Ollama = unwrap_str [] (nt_str d (nt_key d resp ''response''))"

definition fenced :: "rstr \<Rightarrow> rstr \<Rightarrow> rstr" where
  "fenced lang ctx = lit ''```'' @ lang @ [10] @ ctx @ [10] @ lit ''```''"

fun complete_request :: "provider \<Rightarrow> rstr \<Rightarrow> rstr \<Rightarrow> rstr \<Rightarrow> nat \<Rightarrow> http_request" where
  "complete_request Anthropic key lang ctx max_tokens =
     \<lparr>hq_url = api_base Anthropic @ lit ''/v1/messages'', hq_auth = (lit ''x-api-key'', key),
      hq_version = lit ''2023-06-01'', hq_model = model Anthropic, hq_max_tokens = Some max_tokens,
      hq_system = Some (lit ''You are a code completion assistant. Complete the '' @ lang @
        lit '' code. Return ONLY the completion text, no explanation, no markdown.''),
      hq_messages = [(lit ''user'', fenced lang ctx)], hq_prompt = None, hq_stream = None\<rparr>"
| "complete_request OpenAI key lang ctx max_tokens =
     \<lparr>hq_url = api_base OpenAI @ lit ''/v1/chat/completions'',
      hq_auth = (lit ''Authorization'', lit ''Bearer '' @ key),
      hq_version = lit ''2023-06-01'', hq_model = model OpenAI, hq_max_tokens = Some max_tokens, hq_system = None,
      hq_messages = [(lit ''system'', lit ''Complete '' @ lang @ lit '' code. Return completion only.''),
        (lit ''user'', fenced lang ctx)], hq_prompt = None, hq_stream = None\<rparr>"
| "complete_request Ollama key lang ctx max_tokens =
     \<lparr>hq_url = api_base Ollama @ lit ''/api/generate'', hq_auth = (lit ''Content-Type'', lit ''application/json''),
      hq_version = lit ''2023-06-01'', hq_model = model Ollama, hq_max_tokens = None, hq_system = None, hq_messages = [],
      hq_prompt = Some (lit ''Complete this '' @ lang @ lit '' code:'' @ [10] @ ctx), hq_stream = Some False\<rparr>"

definition call_complete ::
  "('w, 'v) net \<Rightarrow> rstr option \<Rightarrow> provider \<Rightarrow> completion_req \<Rightarrow> 'w \<Rightarrow> ((rstr + completion_res list) \<times> 'w) outcome" where
  "call_complete d api_key p req w =
     (let key = unwrap_str [] api_key; lang = unwrap_str (lit ''text'') (cr_language req)
      in bind_outcome (slice_from (str_len (cr_prefix req) - 2000) (cr_prefix req)) (\<lambda>ctx.
        Ret (case nt_send d (complete_request p key lang ctx (cr_max_tokens req)) w of
          (Inl e, w1) \<Rightarrow> (Inl e, w1)
        | (Inr resp, w1) \<Rightarrow>
            (Inr [\<lparr>cs_text = trim (extract_text d resp p), cs_score = 92, cs_source = OnlineSource, cs_latency_ms = 0\<rparr>], w1))))"

fun complete_via ::
  "('w, 'v) net \<Rightarrow> rstr option \<Rightarrow> completion_req \<Rightarrow> provider list \<Rightarrow> breakers \<times> 'w \<Rightarrow>
     ((rstr + completion_res list) \<times> breakers \<times> 'w) outcome" where
  "complete_via d key req [] (bs, w) = Ret (Inl (lit ''All online providers unavailable''), bs, w)"
| "complete_via d key req (p # ps) (bs, w) =
     (case breaker_open p (nt_now d w) bs of (opened, bs1) \<Rightarrow>
        if opened then complete_via d key req ps (bs1, w)
        else bind_outcome (call_complete d key p req w) (\<lambda>(r, w1).
          case r of
            Inr x \<Rightarrow> Ret (Inr x, breaker_success p bs1, w1)
          | Inl _ \<Rightarrow> complete_via d key req ps (breaker_failure p (nt_now d w1) bs1, w1)))"

definition online_complete ::
  "('w, 'v) net \<Rightarrow> rstr option \<Rightarrow> completion_req \<Rightarrow> nat \<Rightarrow> breakers \<times> 'w \<Rightarrow>
     ((rstr + completion_res list) \<times> breakers \<times> 'w) outcome" where
  "online_complete d key req n = complete_via d key req [Anthropic, OpenAI, Ollama]"

section \<open>Corrections\<close>

definition correct_request :: "provider \<Rightarrow> rstr \<Rightarrow> correction_req \<Rightarrow> http_request" where
  "correct_request p key req =
     (let err = unwrap_str (lit ''unknown error'') (kr_error req);
          prompt = lit ''Fix this '' @ kr_language req @ lit '' code.'' @ [10] @ lit ''Error: '' @ err @ [10, 10] @
            lit ''Code:'' @ [10] @ lit ''```'' @ kr_language req @ [10] @ kr_code req @ [10] @ lit ''```'' @ [10] @
            lit ''Reply with ONLY a JSON object: {'' @ [34] @ lit ''fixed'' @ [34] @ lit '':<string>,'' @ [34] @
            lit ''explanation'' @ [34] @ lit '':<string>}'';
          (url, auth) =
            (case p of
               Anthropic \<Rightarrow> (api_base p @ lit ''/v1/messages'', (lit ''x-api-key'', key))
             | _ \<Rightarrow> (api_base p @ lit ''/v1/chat/completions'', (lit ''Authorization'', lit ''Bearer '' @ key)))
      in \<lparr>hq_url = url, hq_auth = auth, hq_version = lit ''2023-06-01'', hq_model = model p,
          hq_max_tokens = Some 1024, hq_system = None, hq_messages = [(lit ''user'', prompt)],
          hq_prompt = None, hq_stream = None\<rparr>)"

definition call_correct ::
  "('w, 'v) net \<Rightarrow> rstr option \<Rightarrow> provider \<Rightarrow> correction_req \<Rightarrow> 'w \<Rightarrow> (rstr + correction_res) \<times> 'w" where
  "call_correct d api_key p req w =
     (case nt_send d (correct_request p (unwrap_str [] api_key) req) w of
        (Inl e, w1) \<Rightarrow> (Inl e, w1)
      | (Inr resp, w1) \<Rightarrow>
          (case nt_parse d (trim (extract_text d resp p)) of
             Inl e \<Rightarrow> (Inl e, w1)
           | Inr json \<Rightarrow>
               (Inr \<lparr>ks_fixed_code = unwrap_str (kr_code req) (nt_str d (nt_key d json ''fixed'')),
                     ks_explanation = unwrap_str [] (nt_str d (nt_key d json ''explanation''))\<rparr>, w1)))"

fun correct_via ::
  "('w, 'v) net \<Rightarrow> rstr option \<Rightarrow> correction_req \<Rightarrow> provider list \<Rightarrow> breakers \<times> 'w \<Rightarrow>
     (rstr + correction_res) \<times> breakers \<times> 'w" where
  "correct_via d key req [] (bs, w) = (Inl (lit ''All online providers unavailable for correction''), bs, w)"
| "correct_via d key req (p # ps) (bs, w) =
     (case breaker_open p (nt_now d w) bs of (opened, bs1) \<Rightarrow>
        if opened then correct_via d key req ps (bs1, w)
        else case call_correct d key p req w of
          (Inr x, w1) \<Rightarrow> (Inr x, breaker_success p bs1, w1)
        | (Inl _, w1) \<Rightarrow> correct_via d key req ps (breaker_failure p (nt_now d w1) bs1, w1))"

definition online_correct ::
  "('w, 'v) net \<Rightarrow> rstr option \<Rightarrow> correction_req \<Rightarrow> breakers \<times> 'w \<Rightarrow> (rstr + correction_res) \<times> breakers \<times> 'w" where
  "online_correct d key req = correct_via d key req [Anthropic, OpenAI]"

section \<open>What the breaker does\<close>

text \<open>
  One attempt at a provider: the breaker is asked at the first time, and if it lets the attempt through, the
  answer arrives at the second time and is recorded. The log lists the attempts that went out.
\<close>

type_synonym attempt = "nat \<times> nat \<times> bool"

fun breaker_attempt :: "attempt \<Rightarrow> breaker \<times> (nat \<times> bool) list \<Rightarrow> breaker \<times> (nat \<times> bool) list" where
  "breaker_attempt (asked, answered, ok) (b, log) =
     (case is_open asked b of
        (True, b1) \<Rightarrow> (b1, log)
      | (False, b1) \<Rightarrow> (if ok then success b1 else failure answered b1, log @ [(answered, ok)]))"

definition breaker_run :: "attempt list \<Rightarrow> breaker \<times> (nat \<times> bool) list" where
  "breaker_run hs = fold breaker_attempt hs (breaker_new, [])"

definition all_failed :: "(nat \<times> bool) list \<Rightarrow> bool" where
  "all_failed log \<longleftrightarrow> (\<forall>x \<in> set log. \<not> snd x)"

text \<open>A closed breaker counts the failures at the end of the log; an open one follows three of them.\<close>

definition breaker_inv :: "breaker \<Rightarrow> (nat \<times> bool) list \<Rightarrow> bool" where
  "breaker_inv b log \<longleftrightarrow> cb_limit b = 3 \<and>
     (case cb_open_until b of
        None \<Rightarrow> cb_failures b < 3 \<and> (\<exists>pre fs. log = pre @ fs \<and> length fs = unat (cb_failures b) \<and> all_failed fs)
      | Some u \<Rightarrow> \<exists>pre fs t. log = pre @ fs @ [(t, False)] \<and> length fs = 2 \<and> all_failed fs \<and> u = t + 30000)"

lemma is_open_inv:
  "breaker_inv b log \<Longrightarrow> is_open t b = (opened, b1) \<Longrightarrow>
     breaker_inv b1 log \<and> (if opened then b1 = b else cb_open_until b1 = None)"
  by (auto simp: is_open_def breaker_inv_def all_failed_def split: option.splits if_splits)

lemma failure_inv:
  assumes "breaker_inv b log" and "cb_open_until b = None"
  shows "breaker_inv (failure t b) (log @ [(t, False)])"
proof -
  obtain pre fs where f: "cb_limit b = 3" "cb_failures b < 3" "log = pre @ fs" "length fs = unat (cb_failures b)"
    "all_failed fs"
    using assms by (auto simp: breaker_inv_def)
  have "unat (cb_failures b) < 3" using f(2) by (simp add: word_less_nat_alt)
  then have u: "unat (cb_failures b + 1) = unat (cb_failures b) + 1" by (simp add: unat_word_ariths)
  show ?thesis
  proof (cases "unat (cb_failures b) = 2")
    case True
    then have "cb_limit b \<le> cb_failures b + 1" using f(1) u by (simp add: word_le_nat_alt)
    then show ?thesis using f True assms(2) by (fastforce simp: breaker_inv_def failure_def)
  next
    case False
    then have l: "unat (cb_failures b) < 2" using \<open>unat (cb_failures b) < 3\<close> by simp
    then have "cb_failures b + 1 < 3" using u by (simp add: word_less_nat_alt)
    moreover have "all_failed (fs @ [(t, False)])" "length (fs @ [(t, False)]) = unat (cb_failures b + 1)"
      using f u by (simp_all add: all_failed_def)
    ultimately have "\<exists>pre' fs'. log @ [(t, False)] = pre' @ fs' \<and> length fs' = unat (cb_failures b + 1) \<and> all_failed fs'"
      using f(3) by (intro exI [of _ pre] exI [of _ "fs @ [(t, False)]"]) simp
    moreover have "failure t b = b\<lparr>cb_failures := cb_failures b + 1\<rparr>"
      using f(1) \<open>cb_failures b + 1 < 3\<close> by (simp add: failure_def not_le Let_def)
    ultimately show ?thesis using f(1) assms(2) \<open>cb_failures b + 1 < 3\<close> by (simp add: breaker_inv_def)
  qed
qed

lemma breaker_run_inv:
  "breaker_inv (fst (breaker_run hs)) (snd (breaker_run hs))"
proof (induction hs rule: rev_induct)
  case Nil
  show ?case by (auto simp: breaker_run_def breaker_inv_def breaker_new_def all_failed_def)
next
  case (snoc h hs)
  obtain b log where r: "breaker_run hs = (b, log)" by (cases "breaker_run hs")
  obtain asked answered ok where h: "h = (asked, answered, ok)" by (cases h)
  obtain opened b1 where o: "is_open asked b = (opened, b1)" by (cases "is_open asked b")
  have i: "breaker_inv b1 log" "opened \<or> cb_open_until b1 = None"
    using is_open_inv [OF _ o, of log] snoc r by (cases opened; simp)+
  have s: "breaker_inv (success b1) l" for l
    using i(1) by (auto simp: breaker_inv_def success_def all_failed_def split: option.splits)
  have "breaker_run (hs @ [h]) = breaker_attempt h (b, log)" using r by (simp add: breaker_run_def)
  then show ?case using i s failure_inv [OF i(1)] by (cases opened) (auto simp: h o)
qed

text \<open>A closed breaker that has counted nothing stands three failures.\<close>

lemma three_failures:
  assumes "is_open t b = (False, b0)" and "cb_limit b0 = 3" and "cb_failures b0 = 0" and "cb_open_until b0 = None"
    and "s1 = breaker_attempt (t, a1, False) (b, log)" and "s2 = breaker_attempt (t', a2, False) s1"
    and "s3 = breaker_attempt (t'', a3, False) s2"
  shows "\<not> fst (is_open x (fst s1))" and "\<not> fst (is_open x (fst s2))"
    and "fst (is_open x (fst s3)) \<longleftrightarrow> x < a3 + 30000"
    and "snd s3 = log @ [(a1, False), (a2, False), (a3, False)]"
proof -
  have le: "\<not> (3 :: u32) \<le> 1" "\<not> (3 :: u32) \<le> 2" by (simp_all add: word_le_nat_alt)
  have 1: "s1 = (b0\<lparr>cb_failures := 1\<rparr>, log @ [(a1, False)])"
    using assms(1-5) le by (simp add: failure_def Let_def)
  have 2: "s2 = (b0\<lparr>cb_failures := 2\<rparr>, log @ [(a1, False), (a2, False)])"
    using assms(2,4,6) le by (simp add: 1 is_open_def failure_def Let_def)
  have 3: "s3 = (b0\<lparr>cb_failures := 3, cb_open_until := Some (a3 + 30000)\<rparr>, log @ [(a1, False), (a2, False), (a3, False)])"
    using assms(2,4,7) by (simp add: 2 is_open_def failure_def Let_def)
  show "\<not> fst (is_open x (fst s1))" "\<not> fst (is_open x (fst s2))" "fst (is_open x (fst s3)) \<longleftrightarrow> x < a3 + 30000"
    "snd s3 = log @ [(a1, False), (a2, False), (a3, False)]"
    using assms(4) by (auto simp: 1 2 3 is_open_def)
qed

text \<open>The breaker has counted nothing when the time of refusal is over, at the start and after a success.\<close>

lemma breaker_fresh:
  assumes "breaker_inv b log" and "(\<exists>u. cb_open_until b = Some u \<and> u \<le> t) \<or> log = [] \<or> snd (last log)"
  obtains b0 where "is_open t b = (False, b0)" "cb_limit b0 = 3" "cb_failures b0 = 0" "cb_open_until b0 = None"
proof (cases "cb_open_until b")
  case (Some u)
  then have "u \<le> t" using assms by (auto simp: breaker_inv_def)
  then show thesis using that [of "b\<lparr>cb_open_until := None, cb_failures := 0\<rparr>"] Some assms(1)
    by (simp add: is_open_def breaker_inv_def)
next
  case None
  then obtain pre fs where f: "log = pre @ fs" "length fs = unat (cb_failures b)" "all_failed fs" "cb_limit b = 3"
    using assms(1) by (auto simp: breaker_inv_def)
  have "fs = []"
  proof (rule ccontr)
    assume n: "fs \<noteq> []"
    then have "last log = last fs" "last fs \<in> set fs" "log \<noteq> []" using f(1) by simp_all
    then show False using assms(2) None f(3) by (auto simp: all_failed_def)
  qed
  then have "cb_failures b = 0" using f(2) by (simp add: unat_eq_0)
  then show thesis using that [of b] None f(4) by (simp add: is_open_def)
qed

text \<open>
  C37. The circuit breaker. Whatever attempts were made, when a provider is refused the last three attempts that
  reached it failed and the last of them failed less than 30 seconds ago. The count is fresh at the start,
  after a success and when the 30 seconds have passed: from there, whenever the attempts are made, the first and
  the second failure leave the provider open to further attempts and the third closes it for 30
  seconds. So the half-open state, meant for one probe, is a new count of three.
\<close>

theorem breaker_opens_after_three:
  assumes "breaker_run hs = (b, log)"
  shows "(fst (is_open t b) \<longrightarrow> (\<exists>pre t1 t2 t3. log = pre @ [(t1, False), (t2, False), (t3, False)] \<and> t < t3 + 30000)) \<and>
    ((\<exists>u. cb_open_until b = Some u \<and> u \<le> t) \<or> log = [] \<or> snd (last log) \<longrightarrow>
      (\<forall>a1 t' a2 t'' a3 s1 s2 s3. s1 = breaker_attempt (t, a1, False) (b, log) \<longrightarrow>
         s2 = breaker_attempt (t', a2, False) s1 \<longrightarrow> s3 = breaker_attempt (t'', a3, False) s2 \<longrightarrow>
         (\<forall>x. \<not> fst (is_open x (fst s1)) \<and> \<not> fst (is_open x (fst s2)) \<and> (fst (is_open x (fst s3)) \<longleftrightarrow> x < a3 + 30000)) \<and>
         snd s3 = log @ [(a1, False), (a2, False), (a3, False)]))"
proof -
  have i: "breaker_inv b log" using breaker_run_inv [of hs] assms by simp
  have "\<exists>pre t1 t2 t3. log = pre @ [(t1, False), (t2, False), (t3, False)] \<and> t < t3 + 30000" if opened: "fst (is_open t b)"
  proof -
    obtain u where u: "cb_open_until b = Some u" "t < u"
      using opened by (cases "cb_open_until b") (auto simp: is_open_def split: if_splits)
    then obtain pre fs t3 where f: "log = pre @ fs @ [(t3, False)]" "length fs = 2" "all_failed fs" "u = t3 + 30000"
      using i by (auto simp: breaker_inv_def)
    obtain x y where "fs = [x, y]" using f(2) by (auto simp: length_Suc_conv numeral_2_eq_2)
    then have "fs = [(fst x, False), (fst y, False)]" using f(3) by (cases x; cases y) (simp add: all_failed_def)
    then show ?thesis using f(1,4) u(2) by auto
  qed
  moreover have "(\<forall>x. \<not> fst (is_open x (fst s1)) \<and> \<not> fst (is_open x (fst s2)) \<and> (fst (is_open x (fst s3)) \<longleftrightarrow> x < a3 + 30000)) \<and>
      snd s3 = log @ [(a1, False), (a2, False), (a3, False)]"
    if fresh: "(\<exists>u. cb_open_until b = Some u \<and> u \<le> t) \<or> log = [] \<or> snd (last log)"
      and st: "s1 = breaker_attempt (t, a1, False) (b, log)" "s2 = breaker_attempt (t', a2, False) s1"
      "s3 = breaker_attempt (t'', a3, False) s2" for a1 t' a2 t'' a3 s1 s2 s3
  proof -
    obtain b0 where b0: "is_open t b = (False, b0)" "cb_limit b0 = 3" "cb_failures b0 = 0" "cb_open_until b0 = None"
      by (rule breaker_fresh [OF i fresh])
    show ?thesis using three_failures [OF b0 st] by blast
  qed
  ultimately show ?thesis by blast
qed

text \<open>Three failures within a second: refused at once; when half a minute has passed, three more are let through.\<close>

lemma breaker_opens_after_three_witness:
  "\<exists>b log. breaker_run [(0, 100, False), (200, 300, False), (400, 500, False)] = (b, log) \<and>
     fst (is_open 600 b) \<and> (\<exists>pre t1 t2 t3. log = pre @ [(t1, False), (t2, False), (t3, False)] \<and> 600 < t3 + 30000) \<and>
     \<not> fst (is_open 30900 (fst (breaker_attempt (30700, 30800, False) (breaker_attempt (30500, 30600, False) (b, log)))))"
proof -
  let ?hs = "[(0, 100, False), (200, 300, False), (400, 500, False)]"
  obtain b log where r: "breaker_run ?hs = (b, log)" by (cases "breaker_run ?hs")
  have "\<not> (3 :: u32) \<le> 1" "\<not> (3 :: u32) \<le> 2" by (simp_all add: word_le_nat_alt)
  then have "fst (is_open 600 (fst (breaker_run ?hs)))" "cb_open_until (fst (breaker_run ?hs)) = Some 30500"
    by (simp_all add: breaker_run_def breaker_new_def is_open_def failure_def Let_def)
  then have o: "fst (is_open 600 b)" "\<exists>u. cb_open_until b = Some u \<and> u \<le> 30500" using r by simp_all
  have "\<exists>pre t1 t2 t3. log = pre @ [(t1, False), (t2, False), (t3, False)] \<and> 600 < t3 + 30000"
    by (rule mp [OF conjunct1 [OF breaker_opens_after_three [OF r, of 600]] o(1)])
  moreover have "\<not> fst (is_open 30900 (fst (breaker_attempt (30700, 30800, False) (breaker_attempt (30500, 30600, False) (b, log)))))"
    using mp [OF conjunct2 [OF breaker_opens_after_three [OF r, of 30500]] disjI1 [OF o(2)], rule_format, OF refl refl refl,
      THEN conjunct1, THEN spec] by blast
  ultimately show ?thesis using r o(1) by blast
qed

section \<open>What the chain returns\<close>

text \<open>Whatever number of completions is asked for, a successful call delivers exactly one.\<close>

lemma call_complete_one:
  assumes "call_complete d key p req w = Ret (Inr x, w1)"
  shows "\<exists>t. x = [\<lparr>cs_text = t, cs_score = 92, cs_source = OnlineSource, cs_latency_ms = 0\<rparr>]"
proof -
  obtain ctx where c: "(case nt_send d (complete_request p (unwrap_str [] key) (unwrap_str (lit ''text'') (cr_language req)) ctx
        (cr_max_tokens req)) w of
      (Inl e, w1) \<Rightarrow> (Inl e, w1)
    | (Inr resp, w1) \<Rightarrow>
        (Inr [\<lparr>cs_text = trim (extract_text d resp p), cs_score = 92, cs_source = OnlineSource, cs_latency_ms = 0\<rparr>], w1)) = (Inr x, w1)"
    using assms by (auto simp: call_complete_def Let_def)
  then show ?thesis by (auto split: prod.splits sum.splits)
qed

lemma complete_via_one:
  "complete_via d key req ps (bs, w) = Ret (Inr rs, bs', w') \<Longrightarrow> \<exists>r. rs = [r] \<and> cs_score r = 92 \<and> cs_source r = OnlineSource"
proof (induction ps arbitrary: bs w)
  case (Cons p ps)
  obtain opened bs1 where o: "breaker_open p (nt_now d w) bs = (opened, bs1)" by (cases "breaker_open p (nt_now d w) bs")
  show ?case
  proof (cases opened)
    case True
    then show ?thesis using Cons o by simp
  next
    case False
    then obtain r w1 where c: "call_complete d key p req w = Ret (r, w1)"
      using Cons.prems o by auto
    show ?thesis
    proof (cases r)
      case (Inl e)
      then show ?thesis using Cons False o c by simp
    next
      case (Inr x)
      then have "rs = x" using Cons.prems False o c by simp
      moreover have "\<exists>t. x = [\<lparr>cs_text = t, cs_score = 92, cs_source = OnlineSource, cs_latency_ms = 0\<rparr>]"
        using c unfolding Inr by (rule call_complete_one)
      ultimately show ?thesis by auto
    qed
  qed
qed simp

text \<open>One key serves both hosted providers: when the first one fails, its key is sent to the second.\<close>

lemma key_sent_to_both:
  "hq_auth (complete_request Anthropic key lang ctx n) = (lit ''x-api-key'', key)"
  "hq_auth (complete_request OpenAI key lang ctx n) = (lit ''Authorization'', lit ''Bearer '' @ key)"
  by simp_all

text \<open>A prefix of more than 2000 bytes is cut at a byte count, which panics inside a character.\<close>

lemma call_complete_panics:
  assumes "str_len pre < str_len (cr_prefix req) - 2000" and "cr_prefix req = pre @ c # rest"
    and "str_len (cr_prefix req) - 2000 < str_len pre + utf8_len c"
  shows "call_complete d key p req w = Panic ''byte index is not a char boundary''"
proof -
  let ?k = "str_len (cr_prefix req) - 2000"
  let ?i = "?k - str_len pre"
  have i: "?k = str_len pre + ?i" "0 < ?i" "?i < utf8_len c" using assms(1,3) by simp_all
  have "slice_from ?k (cr_prefix req) = slice_from ?i (c # rest)"
    using slice_from_skip [of pre ?i "c # rest"] i(1) assms(2) by (simp del: slice_from.simps slice_from_skip)
  also have "\<dots> = Panic ''byte index is not a char boundary''" using i(2,3) by simp
  finally show ?thesis by (simp add: call_complete_def)
qed

end
