(* ===== verification/AiEngine.thy ===== *)
theory AiEngine
  imports AiOnline
begin

text \<open>
  The completion pipeline (\<open>ai_engine/src/lib.rs\<close>) over the trie, the local engine with its rule-based
  fallback (\<open>ai_engine/src/offline.rs\<close>) and the remote providers. The least-recently-used cache, the
  string hash and the test for the model file belong to libraries and are arguments; the GGML backend is
  the stub of the source, which always fails. The engine's locks and tasks are left out: operations run one
  after the other, and \<open>en_online_ok\<close> is whatever the background probe stored last.
\<close>

section \<open>The local engine\<close>

record 'c lru =
  lru_get :: "u64 \<Rightarrow> 'c \<Rightarrow> (rstr \<times> score) list option \<times> 'c"
  lru_put :: "u64 \<Rightarrow> (rstr \<times> score) list \<Rightarrow> 'c \<Rightarrow> 'c"
  lru_new :: "nat \<Rightarrow> 'c"

record 'c offline =
  of_model_path :: rstr
  of_loaded :: bool
  of_cache :: 'c

definition hash_str :: "(rstr \<Rightarrow> u64) \<Rightarrow> rstr \<Rightarrow> u64 outcome" where
  "hash_str hash s = bind_outcome (slice_from (str_len s - 512) s) (\<lambda>x. Ret (hash x))"

definition offline_new :: "'c lru \<Rightarrow> (rstr \<Rightarrow> bool) \<Rightarrow> rstr \<Rightarrow> 'c offline" where
  "offline_new L exists model_path = \<lparr>of_model_path = model_path, of_loaded = exists model_path, of_cache = lru_new L 4096\<rparr>"

definition run_ggml :: "rstr \<Rightarrow> rstr \<Rightarrow> rstr \<Rightarrow> u32 \<Rightarrow> rstr + rstr" where
  "run_ggml model_path prompt lang max_tokens =
     Inl (lit ''GGML backend not linked (set feature = 'offline' and provide libnexus_ai.so)'')"

definition run_ggml_topk :: "rstr \<Rightarrow> rstr \<Rightarrow> u32 \<Rightarrow> rstr + (rstr \<times> score) list" where
  "run_ggml_topk model_path ctx k = Inl (lit ''GGML backend not linked'')"

definition run_ggml_fix :: "rstr \<Rightarrow> rstr \<Rightarrow> rstr \<Rightarrow> rstr \<Rightarrow> rstr + rstr" where
  "run_ggml_fix model_path code lang err = Inl (lit ''GGML backend not linked'')"

definition offline_result :: "rstr \<times> score \<Rightarrow> completion_res" where
  "offline_result ts = \<lparr>cs_text = fst ts, cs_score = snd ts, cs_source = OfflineSource, cs_latency_ms = 0\<rparr>"

definition contains :: "rstr \<Rightarrow> rstr \<Rightarrow> bool" where
  "contains needle s = list_ex (\<lambda>i. prefix needle (drop i s)) [0..<Suc (length s)]"

definition rule_complete :: "completion_req \<Rightarrow> nat \<Rightarrow> completion_res list" where
  "rule_complete req n =
     (let line = trim_end (cr_line req);
          candidates =
            (if suffix (lit ''fn '') line then
               [(lit ''main() {\<newline>    \<newline>}'', 70), (lit ''new() -> Self { Self {} }'', 65)]
             else if contains (lit ''Vec'') line \<and> suffix (lit ''::'') line then
               [(lit ''new()'', 90), (lit ''with_capacity('', 85), (lit ''from('', 70)]
             else if contains (lit ''HashMap'') line \<and> suffix (lit ''::'') line then
               [(lit ''new()'', 90), (lit ''with_capacity('', 83)]
             else if suffix (lit ''for '') line then
               [(lit ''item in iter {\<newline>    \<newline>}'', 72), (lit ''i in 0..n {\<newline>    \<newline>}'', 68)]
             else if suffix (lit ''if '') line then
               [(lit ''let Some(x) = val {\<newline>    \<newline>}'', 75), (lit ''condition {\<newline>    \<newline>}'', 65)]
             else [])
      in map offline_result (take n candidates))"

text \<open>\<open>split_whitespace().last().unwrap_or("")\<close>.\<close>

definition last_word :: "rstr \<Rightarrow> rstr" where
  "last_word s = rev (takeWhile (\<lambda>c. \<not> is_whitespace c) (dropWhile is_whitespace (rev s)))"

definition rule_next :: "rstr \<Rightarrow> nat \<Rightarrow> (rstr \<times> score) list" where
  "rule_next context k =
     (let last = last_word context;
          preds =
            (if last = lit ''let'' then [(lit ''mut'', 55), (lit ''x'', 30), (lit ''result'', 25)]
             else if last = lit ''fn'' then [(lit ''main'', 40), (lit ''new'', 35), (lit ''init'', 25)]
             else if last = lit ''for'' then [(lit ''item'', 45), (lit ''i'', 40), (lit ''chunk'', 15)]
             else if last = lit ''if'' then [(lit ''let'', 50), (lit ''condition'', 30), (lit ''self'', 20)]
             else if last = lit ''return'' then [(lit ''Ok('', 50), (lit ''Some('', 35), (lit ''None'', 15)]
             else if last = lit ''use'' then [(lit ''std::'', 45), (lit ''crate::'', 35), (lit ''super::'', 20)]
             else [(lit ''let'', 35), (lit ''fn'', 25), (lit ''return'', 25), (lit ''for'', 15)])
      in take k preds)"

definition offline_complete ::
  "'c lru \<Rightarrow> (rstr \<Rightarrow> u64) \<Rightarrow> completion_req \<Rightarrow> nat \<Rightarrow> 'c offline \<Rightarrow> ((rstr + completion_res list) \<times> 'c offline) outcome" where
  "offline_complete L hash req n s =
     (if \<not> of_loaded s then Ret (Inr (rule_complete req n), s)
      else bind_outcome (hash_str hash (cr_prefix req)) (\<lambda>key.
        case lru_get L key (of_cache s) of
          (Some cached, c1) \<Rightarrow> Ret (Inr (map offline_result (take n cached)), s\<lparr>of_cache := c1\<rparr>)
        | (None, c1) \<Rightarrow>
            (case run_ggml (of_model_path s) (cr_prefix req) (unwrap_str [] (cr_language req)) (of_nat (cr_max_tokens req)) of
               Inl e \<Rightarrow> Ret (Inl e, s\<lparr>of_cache := c1\<rparr>)
             | Inr text \<Rightarrow>
                 let results = [(trim text, 82)]
                 in Ret (Inr (map offline_result (take n results)), s\<lparr>of_cache := lru_put L key results c1\<rparr>))))"

definition top_k_next ::
  "'c lru \<Rightarrow> (rstr \<Rightarrow> u64) \<Rightarrow> rstr \<Rightarrow> nat \<Rightarrow> 'c offline \<Rightarrow> ((rstr + (rstr \<times> score) list) \<times> 'c offline) outcome" where
  "top_k_next L hash context k s =
     (if \<not> of_loaded s then Ret (Inr (rule_next context k), s)
      else bind_outcome (hash_str hash context) (\<lambda>key.
        case lru_get L key (of_cache s) of
          (Some cached, c1) \<Rightarrow> Ret (Inr cached, s\<lparr>of_cache := c1\<rparr>)
        | (None, c1) \<Rightarrow>
            (case run_ggml_topk (of_model_path s) context (of_nat k) of
               Inl e \<Rightarrow> Ret (Inl e, s\<lparr>of_cache := c1\<rparr>)
             | Inr result \<Rightarrow> Ret (Inr result, s\<lparr>of_cache := lru_put L key result c1\<rparr>))))"

definition offline_correct :: "correction_req \<Rightarrow> 'c offline \<Rightarrow> rstr + correction_res" where
  "offline_correct req s =
     (if \<not> of_loaded s then Inl (lit ''Offline model not loaded '' @ 0x2014 # lit '' cannot perform code correction'')
      else case run_ggml_fix (of_model_path s) (kr_code req) (kr_language req) (unwrap_str [] (kr_error req)) of
        Inl e \<Rightarrow> Inl e
      | Inr fixed \<Rightarrow> Inr \<lparr>ks_fixed_code = fixed, ks_explanation = lit ''Fixed by local model''\<rparr>)"

section \<open>The pipeline\<close>

record engine_config =
  cf_prefer_online :: bool
  cf_offline_fallback :: bool
  cf_trie_first :: bool
  cf_api_key :: "rstr option"
  cf_model_path :: rstr
  cf_ctx_tokens :: u32
  cf_gpu_layers :: int

definition config_default :: "rstr option \<Rightarrow> engine_config" where
  "config_default env_key =
     \<lparr>cf_prefer_online = True, cf_offline_fallback = True, cf_trie_first = True, cf_api_key = env_key,
      cf_model_path = lit ''/usr/share/nexus-os/models/phi3-mini-q4.gguf'', cf_ctx_tokens = 2048, cf_gpu_layers = - 1\<rparr>"

record 'c engine =
  en_trie :: trie
  en_offline :: "'c offline"
  en_api_key :: "rstr option"
  en_breakers :: breakers
  en_online_ok :: bool
  en_config :: engine_config

definition engine_new :: "'c lru \<Rightarrow> (rstr \<Rightarrow> bool) \<Rightarrow> engine_config \<Rightarrow> 'c engine" where
  "engine_new L exists config =
     \<lparr>en_trie = load_builtins trie_new, en_offline = offline_new L exists (cf_model_path config),
      en_api_key = cf_api_key config, en_breakers = breakers_new, en_online_ok = False, en_config = config\<rparr>"

text \<open>What the engine is given: the Unicode table, the hash maps' iteration order, and the libraries.\<close>

record ('w, 'v, 'c) ai_env =
  ae_uni :: "nat \<Rightarrow> bool"
  ae_vals :: "trie \<Rightarrow> nat \<Rightarrow> nat list"
  ae_net :: "('w, 'v) net"
  ae_lru :: "'c lru"
  ae_hash :: "rstr \<Rightarrow> u64"

definition by_score :: "completion_res list \<Rightarrow> completion_res list" where
  "by_score = sort_key (\<lambda>r. - cs_score r)"

definition use_online :: "'c engine \<Rightarrow> bool" where
  "use_online e \<longleftrightarrow> cf_prefer_online (en_config e) \<and> en_online_ok e"

definition ask_offline ::
  "('w, 'v, 'c) ai_env \<Rightarrow> completion_req \<Rightarrow> nat \<Rightarrow> 'c engine \<times> 'w \<Rightarrow> ((rstr + completion_res list) \<times> 'c engine \<times> 'w) outcome" where
  "ask_offline d req n ew =
     (case ew of (e, w) \<Rightarrow> bind_outcome (offline_complete (ae_lru d) (ae_hash d) req n (en_offline e)) (\<lambda>(r, s).
        Ret (r, e\<lparr>en_offline := s\<rparr>, w)))"

text \<open>Stages 1 and 2: what the language models add, or the error that ends the call.\<close>

definition ask_models ::
  "('w, 'v, 'c) ai_env \<Rightarrow> completion_req \<Rightarrow> nat \<Rightarrow> 'c engine \<times> 'w \<Rightarrow> ((rstr + completion_res list) \<times> 'c engine \<times> 'w) outcome" where
  "ask_models d req remaining ew =
     (case ew of (e, w) \<Rightarrow>
        if use_online e then
          bind_outcome (online_complete (ae_net d) (en_api_key e) req remaining (en_breakers e, w)) (\<lambda>(r, bs, w1).
            let e1 = e\<lparr>en_breakers := bs\<rparr>
            in case r of
                 Inr x \<Rightarrow> Ret (Inr x, e1, w1)
               | Inl _ \<Rightarrow> if cf_offline_fallback (en_config e) then ask_offline d req remaining (e1, w1) else Ret (Inr [], e1, w1))
        else ask_offline d req remaining (e, w))"

text \<open>\<open>ms\<close> is the time the trie took. \<open>Ret None\<close> would be a search of the trie that does not end.\<close>

definition trie_hits ::
  "('w, 'v, 'c) ai_env \<Rightarrow> u32 \<Rightarrow> completion_req \<Rightarrow> 'c engine \<Rightarrow> completion_res list option outcome" where
  "trie_hits d ms req e =
     (if cf_trie_first (en_config e) then
        bind_outcome (complete (ae_uni d) (ae_vals d (en_trie e)) (en_trie e) (cr_line req) (cr_n req)) (\<lambda>hits.
          Ret (map_option (map (\<lambda>(text, score).
            \<lparr>cs_text = text, cs_score = score, cs_source = TrieSource, cs_latency_ms = ms\<rparr>)) hits))
      else Ret (Some []))"

definition engine_complete ::
  "('w, 'v, 'c) ai_env \<Rightarrow> u32 \<Rightarrow> completion_req \<Rightarrow> 'c engine \<times> 'w \<Rightarrow>
     ((rstr + completion_res list) \<times> 'c engine \<times> 'w) option outcome" where
  "engine_complete d ms req ew =
     (case ew of (e, w) \<Rightarrow>
        bind_outcome (trie_hits d ms req e) (\<lambda>hits. case hits of None \<Rightarrow> Ret None | Some results \<Rightarrow>
          if cf_trie_first (en_config e) \<and> cr_n req \<le> length results then Ret (Some (Inr (by_score results), e, w))
          else
            let remaining = cr_n req - length results
            in bind_outcome (ask_models d req remaining (e, w)) (\<lambda>(r, ew1).
                 Ret (Some (case r of
                   Inl err \<Rightarrow> (Inl err, ew1)
                 | Inr added \<Rightarrow> (Inr (take (cr_n req) (by_score (results @ added))), ew1))))))"

definition engine_next_word ::
  "('w, 'v, 'c) ai_env \<Rightarrow> rstr \<Rightarrow> nat \<Rightarrow> 'c engine \<Rightarrow> ((rstr \<times> score) list \<times> 'c engine) option outcome" where
  "engine_next_word d context k e =
     bind_outcome (complete (ae_uni d) (ae_vals d (en_trie e)) (en_trie e) context k) (\<lambda>hits.
       case hits of
         None \<Rightarrow> Ret None
       | Some res \<Rightarrow>
           if res \<noteq> [] then Ret (Some (res, e))
           else bind_outcome (top_k_next (ae_lru d) (ae_hash d) context k (en_offline e)) (\<lambda>(r, s).
             Ret (Some (case r of Inl _ \<Rightarrow> [] | Inr x \<Rightarrow> x, e\<lparr>en_offline := s\<rparr>))))"

definition engine_correct ::
  "('w, 'v, 'c) ai_env \<Rightarrow> correction_req \<Rightarrow> 'c engine \<times> 'w \<Rightarrow> (rstr + correction_res) \<times> 'c engine \<times> 'w" where
  "engine_correct d req ew =
     (case ew of (e, w) \<Rightarrow>
        if use_online e then
          (case online_correct (ae_net d) (en_api_key e) req (en_breakers e, w) of
             (Inr r, bs, w1) \<Rightarrow> (Inr r, e\<lparr>en_breakers := bs\<rparr>, w1)
           | (Inl _, bs, w1) \<Rightarrow> (offline_correct req (en_offline e), e\<lparr>en_breakers := bs\<rparr>, w1))
        else (offline_correct req (en_offline e), e, w))"

definition engine_learn :: "('w, 'v, 'c) ai_env \<Rightarrow> rstr \<Rightarrow> 'c engine \<Rightarrow> 'c engine" where
  "engine_learn d identifier e = e\<lparr>en_trie := learn (ae_uni d) identifier (en_trie e)\<rparr>"

definition is_online :: "'c engine \<Rightarrow> bool" where
  "is_online e = en_online_ok e"

section \<open>The rules\<close>

lemma trim_end_last: "trim_end s \<noteq> [] \<Longrightarrow> \<not> is_whitespace (last (trim_end s))"
  by (simp add: trim_end_def last_rev hd_dropWhile)

lemma trim_end_no_space: "suffix (u @ [32]) (trim_end s) = False"
proof -
  have "last (trim_end s) = 32" "trim_end s \<noteq> []" if "suffix (u @ [32]) (trim_end s)"
    using that by (auto simp: suffix_def)
  then show ?thesis using trim_end_last [of s] by (auto simp: is_whitespace_def)
qed

text \<open>Trimming the line first makes every rule that asks for a final blank dead; only the paths of two types are left.\<close>

lemma rule_complete_live:
  "rule_complete req n =
     (let line = trim_end (cr_line req)
      in map offline_result (take n
           (if contains (lit ''Vec'') line \<and> suffix (lit ''::'') line then
              [(lit ''new()'', 90), (lit ''with_capacity('', 85), (lit ''from('', 70)]
            else if contains (lit ''HashMap'') line \<and> suffix (lit ''::'') line then
              [(lit ''new()'', 90), (lit ''with_capacity('', 83)]
            else [])))"
proof -
  have l: "lit ''fn '' = lit ''fn'' @ [32]" "lit ''for '' = lit ''for'' @ [32]" "lit ''if '' = lit ''if'' @ [32]"
    by (simp_all add: lit_def)
  show ?thesis unfolding rule_complete_def l Let_def trim_end_no_space by (simp only: if_False)
qed

section \<open>The pipeline\<close>

text \<open>Whatever happens, an answer has at most the requested number of completions, best first.\<close>

definition ranked :: "nat \<Rightarrow> completion_res list \<Rightarrow> bool" where
  "ranked n rs \<longleftrightarrow> length rs \<le> n \<and> sorted_wrt (\<lambda>x y. cs_score y \<le> cs_score x) rs"

lemma by_score_sorted: "sorted_wrt (\<lambda>x y. cs_score y \<le> cs_score x) (by_score rs)"
proof -
  have "sorted (map (\<lambda>r. - cs_score r) (by_score rs))" unfolding by_score_def by (rule sorted_sort_key)
  then show ?thesis by (simp add: sorted_map)
qed

lemma length_by_score [simp]: "length (by_score rs) = length rs"
  by (simp add: by_score_def)

lemma set_by_score [simp]: "set (by_score rs) = set rs"
  by (simp add: by_score_def)

lemma ranked_take: "ranked n (take n (by_score rs))"
  using by_score_sorted [of rs] by (simp add: ranked_def sorted_wrt_take)

lemma trie_hits_bound:
  "trie_hits d ms req e = Ret (Some rs) \<Longrightarrow> length rs \<le> cr_n req"
  by (auto simp: trie_hits_def complete_def split: if_splits option.splits)

lemma engine_complete_ranked:
  assumes "engine_complete d ms req (e, w) = Ret (Some (Inr rs, ew'))"
  shows "ranked (cr_n req) rs"
proof -
  obtain hits where h: "trie_hits d ms req e = Ret (Some hits)"
    using assms by (auto simp: engine_complete_def split: option.splits)
  show ?thesis
  proof (cases "cf_trie_first (en_config e) \<and> cr_n req \<le> length hits")
    case True
    then have "rs = by_score hits" using assms h by (simp add: engine_complete_def)
    then show ?thesis using trie_hits_bound [OF h] by_score_sorted by (simp add: ranked_def)
  next
    case False
    then obtain r ew1 where "ask_models d req (cr_n req - length hits) (e, w) = Ret (r, ew1)"
      "(case r of Inl err \<Rightarrow> (Inl err, ew1) | Inr added \<Rightarrow> (Inr (take (cr_n req) (by_score (hits @ added))), ew1)) = (Inr rs, ew')"
      using assms h by (auto simp: engine_complete_def)
    then show ?thesis using ranked_take by (cases r) auto
  qed
qed

lemma trie_hits_return:
  assumes "trie_wf (en_trie e)" and "vals_ok (ae_vals d (en_trie e)) (en_trie e)"
    and "current_token (ae_uni d) (cr_line req) = Ret tok"
  obtains hits where "trie_hits d ms req e = Ret (Some hits)"
    "cf_trie_first (en_config e) \<Longrightarrow> tok \<noteq> [] \<Longrightarrow> length hits = min (cr_n req) (card (matches (en_trie e) tok))"
proof (cases "cf_trie_first (en_config e) \<and> tok \<noteq> []")
  case True
  then obtain r where r: "complete (ae_uni d) (ae_vals d (en_trie e)) (en_trie e) (cr_line req) (cr_n req) = Ret (Some r)"
    "top (cr_n req) (matches (en_trie e) tok) r"
    using complete_spec [OF assms] by blast
  let ?hits = "map (\<lambda>(text, score).
      \<lparr>cs_text = text, cs_score = score, cs_source = TrieSource, cs_latency_ms = ms\<rparr>) r"
  have "trie_hits d ms req e = Ret (Some ?hits)" using True r by (simp add: trie_hits_def)
  moreover have "length ?hits = min (cr_n req) (card (matches (en_trie e) tok))"
    using r(2) by (simp add: top_def)
  ultimately show ?thesis using that by blast
next
  case False
  then show ?thesis using that assms(3) by (auto simp: trie_hits_def complete_def)
qed

lemma slice_short: "str_len s \<le> k \<Longrightarrow> slice_from (str_len s - k) s = Ret s"
  by simp

lemma complete_via_returns:
  assumes "str_len (cr_prefix req) \<le> 2000"
  shows "\<exists>r bs' w'. complete_via d key req ps (bs, w) = Ret (r, bs', w')"
proof (induction ps arbitrary: bs w)
  case (Cons p ps)
  obtain opened bs1 where o: "breaker_open p (nt_now d w) bs = (opened, bs1)" by (cases "breaker_open p (nt_now d w) bs")
  have "\<exists>y. call_complete d key p req w = Ret y" using assms by (simp add: call_complete_def Let_def)
  then obtain r w1 where c: "call_complete d key p req w = Ret (r, w1)" by (metis surj_pair)
  show ?case using Cons o c by (cases opened; cases r) auto
qed simp

lemma ask_models_returns:
  assumes "\<not> of_loaded (en_offline e)" and "cf_offline_fallback (en_config e)" and "str_len (cr_prefix req) \<le> 2000"
  obtains x e1 w1 where "ask_models d req n (e, w) = Ret (Inr x, e1, w1)"
proof -
  have off: "\<exists>x e1 w1. ask_offline d req n (e\<lparr>en_breakers := bs\<rparr>, w') = Ret (Inr x, e1, w1)" for bs w'
    using assms(1) by (simp add: ask_offline_def offline_complete_def)
  show ?thesis
  proof (cases "use_online e")
    case True
    obtain r bs w1 where r: "online_complete (ae_net d) (en_api_key e) req n (en_breakers e, w) = Ret (r, bs, w1)"
      using complete_via_returns [OF assms(3), of "ae_net d" "en_api_key e" _ "en_breakers e" w]
      unfolding online_complete_def by metis
    show ?thesis using that off [of bs w1] True r assms(2) by (cases r) (auto simp: ask_models_def Let_def)
  next
    case False
    then show ?thesis using that off [of "en_breakers e" w] by (auto simp: ask_models_def)
  qed
qed

text \<open>
  A world without network or cache, and the request the daemon of \<open>ai_engine/src/daemon.rs\<close> makes.
\<close>

definition no_net :: "(unit, unit) net" where
  "no_net = \<lparr>nt_send = \<lambda>_ w. (Inl [], w), nt_now = \<lambda>_. 0, nt_key = \<lambda>v _. v, nt_idx = \<lambda>v _. v, nt_str = \<lambda>_. None,
     nt_parse = \<lambda>_. Inl []\<rparr>"

definition no_cache :: "unit lru" where
  "no_cache = \<lparr>lru_get = \<lambda>_ c. (None, c), lru_put = \<lambda>_ _ c. c, lru_new = \<lambda>_. ()\<rparr>"

definition demo_env :: "(unit, unit, unit) ai_env" where
  "demo_env = \<lparr>ae_uni = \<lambda>_. False, ae_vals = \<lambda>t i. map snd (nd_children (t ! i)), ae_net = no_net,
     ae_lru = no_cache, ae_hash = \<lambda>_. 0\<rparr>"

definition daemon_request :: completion_req where
  "daemon_request = \<lparr>cr_prefix = lit ''fn main() {\<newline>    let x = Vec::'', cr_line = lit ''    let x = Vec::'',
     cr_language = Some (lit ''rust''), cr_max_tokens = 64, cr_n = 5\<rparr>"

lemma demo_vals: "vals_ok (ae_vals demo_env t) t"
  by (simp add: vals_ok_def demo_env_def)

text \<open>
  C38. The pipeline answers. Without a local model and with the fallback on, a completion on a line whose
  cursor token can be taken, with at most 2000 bytes of context, always returns, whatever the remote
  providers do: no error, no panic, no endless search, and the answer is ranked by score and no longer than asked.
\<close>

theorem engine_always_answers:
  assumes "trie_wf (en_trie e)" and "vals_ok (ae_vals d (en_trie e)) (en_trie e)"
    and "current_token (ae_uni d) (cr_line req) = Ret tok"
    and "\<not> of_loaded (en_offline e)" and "cf_offline_fallback (en_config e)" and "str_len (cr_prefix req) \<le> 2000"
  shows "\<exists>rs e' w'. engine_complete d ms req (e, w) = Ret (Some (Inr rs, e', w')) \<and> ranked (cr_n req) rs"
proof -
  obtain hits where h: "trie_hits d ms req e = Ret (Some hits)"
    by (rule trie_hits_return [OF assms(1-3)]) (erule that)
  obtain x e1 w1 where m: "ask_models d req (cr_n req - length hits) (e, w) = Ret (Inr x, e1, w1)"
    by (rule ask_models_returns [OF assms(4-6)])
  have "\<exists>rs e' w'. engine_complete d ms req (e, w) = Ret (Some (Inr rs, e', w'))"
    by (simp add: engine_complete_def h m)
  then obtain rs e' w' where r: "engine_complete d ms req (e, w) = Ret (Some (Inr rs, e', w'))" by blast
  then show ?thesis using engine_complete_ranked [OF r] by blast
qed

text \<open>A fresh engine, without a model and with every provider failing, answers the daemon's request.\<close>

lemma engine_always_answers_witness:
  "\<exists>rs e' w'. engine_complete demo_env 0 daemon_request
     ((engine_new no_cache (\<lambda>_. False) (config_default None))\<lparr>en_online_ok := True\<rparr>, ()) =
       Ret (Some (Inr rs, e', w')) \<and> ranked 5 rs"
proof -
  let ?e = "(engine_new no_cache (\<lambda>_. False) (config_default None))\<lparr>en_online_ok := True\<rparr>"
  have tok: "current_token (ae_uni demo_env) (cr_line daemon_request) = Ret (lit ''Vec::'')" by code_simp
  have len: "str_len (cr_prefix daemon_request) \<le> 2000" by (simp add: daemon_request_def lit_def str_len_def utf8_len_def)
  have wf: "trie_wf (en_trie ?e)" by (simp add: engine_new_def load_builtins_wf trie_wf_new)
  have "\<not> of_loaded (en_offline ?e)" "cf_offline_fallback (en_config ?e)"
    by (simp_all add: engine_new_def offline_new_def config_default_def)
  from engine_always_answers [OF wf demo_vals tok this len] show ?thesis by (simp add: daemon_request_def)
qed

text \<open>
  Installing the model breaks it. When the model file exists, the remote providers are not used, the cache has no
  entry and the trie has fewer completions than asked for, the call fails with the backend's error
  and the completions the trie did find are lost.
\<close>

theorem installed_model_fails:
  assumes "trie_wf (en_trie e)" and "vals_ok (ae_vals d (en_trie e)) (en_trie e)"
    and "current_token (ae_uni d) (cr_line req) = Ret tok" and "tok \<noteq> []" and "cf_trie_first (en_config e)"
    and "card (matches (en_trie e) tok) < cr_n req"
    and "of_loaded (en_offline e)" and "\<not> use_online e"
    and "hash_str (ae_hash d) (cr_prefix req) = Ret key" and "lru_get (ae_lru d) key (of_cache (en_offline e)) = (None, c)"
  shows "\<exists>hits err. trie_hits d ms req e = Ret (Some hits) \<and> length hits = card (matches (en_trie e) tok) \<and>
    engine_complete d ms req (e, w) = Ret (Some (Inl err, e\<lparr>en_offline := (en_offline e)\<lparr>of_cache := c\<rparr>\<rparr>, w))"
proof -
  obtain hits where h: "trie_hits d ms req e = Ret (Some hits)"
    "length hits = min (cr_n req) (card (matches (en_trie e) tok))"
    using trie_hits_return [OF assms(1-3)] assms(4,5) by metis
  then have "length hits = card (matches (en_trie e) tok)" using assms(6) by simp
  then show ?thesis using h(1) assms(6-10)
    by (simp add: engine_complete_def ask_models_def ask_offline_def offline_complete_def run_ggml_def)
qed

lemma installed_model_fails_witness:
  "\<exists>hits err e'. trie_hits demo_env 0 (daemon_request\<lparr>cr_line := lit ''let fo''\<rparr>)
       ((engine_new no_cache (\<lambda>_. True) (config_default None))\<lparr>en_trie := demo_trie\<rparr>) = Ret (Some hits) \<and> length hits = 2 \<and>
     engine_complete demo_env 0 (daemon_request\<lparr>cr_line := lit ''let fo''\<rparr>)
       ((engine_new no_cache (\<lambda>_. True) (config_default None))\<lparr>en_trie := demo_trie\<rparr>, ()) = Ret (Some (Inl err, e', ()))"
proof -
  let ?e = "(engine_new no_cache (\<lambda>_. True) (config_default None))\<lparr>en_trie := demo_trie\<rparr>"
  let ?r = "daemon_request\<lparr>cr_line := lit ''let fo''\<rparr>"
  have tok: "current_token (ae_uni demo_env) (cr_line ?r) = Ret (lit ''fo'')" by code_simp
  have ne: "lit ''fo'' \<noteq> []" by (simp add: lit_def)
  have wf: "trie_wf (en_trie ?e)" by (simp add: demo_trie_def trie_insert_spec trie_wf_new)
  have M: "matches (en_trie ?e) (lit ''fo'') = {(lit ''for'', 85), (lit ''format'', 80)}"
    by (auto simp: matches_def demo_entries lit_def split: if_splits)
  have c: "card (matches (en_trie ?e) (lit ''fo'')) = 2" unfolding M by (simp add: lit_def)
  then have n: "card (matches (en_trie ?e) (lit ''fo'')) < cr_n ?r" by (simp add: daemon_request_def)
  have e: "cf_trie_first (en_config ?e)" "of_loaded (en_offline ?e)" "\<not> use_online ?e"
    by (simp_all add: engine_new_def offline_new_def config_default_def use_online_def)
  have h: "hash_str (ae_hash demo_env) (cr_prefix ?r) = Ret 0"
    by (simp add: hash_str_def daemon_request_def lit_def str_len_def utf8_len_def demo_env_def)
  have l: "lru_get (ae_lru demo_env) 0 (of_cache (en_offline ?e)) = (None, ())"
    by (simp add: demo_env_def no_cache_def)
  show ?thesis using installed_model_fails [OF wf demo_vals tok ne e(1) n e(2,3) h l] unfolding c by blast
qed

end
