(* ===== verification/Compositor.thy ===== *)
theory Compositor
  imports Prelude
begin

text \<open>
  The window manager (\<open>compositor/src/main.rs\<close>): rectangles, snap zones, the binary space partition
  that tiles a screen, windows, and the operations on the compositor's state. Coordinates are 32-bit words
  read as signed integers, sizes 32-bit words read as unsigned ones, and the casts between them
  keep the bits. The 32-bit floating-point arithmetic of the animations is an argument. The start-up of the main
  function, which waits for timer ticks, is left out.
\<close>

section \<open>Geometry\<close>

type_synonym i32 = "32 word"

record rect =
  rx :: i32
  ry :: i32
  rw :: u32
  rh :: u32

definition rect_new :: "i32 \<Rightarrow> i32 \<Rightarrow> u32 \<Rightarrow> u32 \<Rightarrow> rect" where
  "rect_new x y w h = \<lparr>rx = x, ry = y, rw = w, rh = h\<rparr>"

definition rect_contains :: "rect \<Rightarrow> i32 \<Rightarrow> i32 \<Rightarrow> bool" where
  "rect_contains r px py \<longleftrightarrow>
     sint (rx r) \<le> sint px \<and> sint px < sint (rx r + rw r) \<and> sint (ry r) \<le> sint py \<and> sint py < sint (ry r + rh r)"

text \<open>Rust's signed division by two rounds towards zero.\<close>

definition half :: "i32 \<Rightarrow> i32" where
  "half v = word_of_int (if sint v < 0 then - (- sint v div 2) else sint v div 2)"

definition rect_center :: "rect \<Rightarrow> i32 \<times> i32" where
  "rect_center r = (rx r + half (rw r), ry r + half (rh r))"

section \<open>Snap zones\<close>

datatype snap_zone =
  SnapLeft | SnapRight | SnapTop | SnapBottom |
  TopLeft | TopRight | BottomLeft | BottomRight |
  SnapCenter |
  ThirdLeft | ThirdMid | ThirdRight

definition snap_rect :: "snap_zone \<Rightarrow> rect \<Rightarrow> rect" where
  "snap_rect zone screen =
     (let sx = rx screen; sy = ry screen; sw = rw screen; sh = rh screen;
          hw = sw div 2; hh = sh div 2; tw = sw div 3
      in case zone of
           SnapLeft \<Rightarrow> rect_new sx sy hw sh
         | SnapRight \<Rightarrow> rect_new (sx + hw) sy hw sh
         | SnapTop \<Rightarrow> rect_new sx sy sw hh
         | SnapBottom \<Rightarrow> rect_new sx (sy + hh) sw hh
         | TopLeft \<Rightarrow> rect_new sx sy hw hh
         | TopRight \<Rightarrow> rect_new (sx + hw) sy hw hh
         | BottomLeft \<Rightarrow> rect_new sx (sy + hh) hw hh
         | BottomRight \<Rightarrow> rect_new (sx + hw) (sy + hh) hw hh
         | SnapCenter \<Rightarrow> rect_new (sx + sw div 8) (sy + sh div 8) (sw * 3 div 4) (sh * 3 div 4)
         | ThirdLeft \<Rightarrow> rect_new sx sy tw sh
         | ThirdMid \<Rightarrow> rect_new (sx + tw) sy tw sh
         | ThirdRight \<Rightarrow> rect_new (sx + 2 * tw) sy tw sh)"

definition detect_snap :: "i32 \<Rightarrow> i32 \<Rightarrow> rect \<Rightarrow> snap_zone option" where
  "detect_snap px py screen =
     (let t = 24;
          right = rx screen + rw screen;
          bot = ry screen + rh screen;
          near_l = sint px < sint (rx screen + t);
          near_r = sint (right - t) < sint px;
          near_t = sint py < sint (ry screen + t);
          near_b = sint (bot - t) < sint py
      in case (near_l, near_r, near_t, near_b) of
           (True, False, True, False) \<Rightarrow> Some TopLeft
         | (False, True, True, False) \<Rightarrow> Some TopRight
         | (True, False, False, True) \<Rightarrow> Some BottomLeft
         | (False, True, False, True) \<Rightarrow> Some BottomRight
         | (True, False, False, False) \<Rightarrow> Some SnapLeft
         | (False, True, False, False) \<Rightarrow> Some SnapRight
         | (False, False, True, False) \<Rightarrow> Some SnapTop
         | (False, False, False, True) \<Rightarrow> Some SnapBottom
         | _ \<Rightarrow> None)"

section \<open>Tiling\<close>

definition saturating_sub :: "u32 \<Rightarrow> u32 \<Rightarrow> u32" where
  "saturating_sub a b = (if b \<le> a then a - b else 0)"

text \<open>The two halves of an area: the gap is taken from the end of the first.\<close>

definition bsp_split :: "rect \<Rightarrow> i32 \<Rightarrow> rect \<times> rect" where
  "bsp_split area gap =
     (if rh area \<le> rw area then
        let mid = rw area div 2
        in (rect_new (rx area) (ry area) (saturating_sub mid (gap div 2)) (rh area),
            rect_new (rx area + mid) (ry area) (rw area - mid) (rh area))
      else
        let mid = rh area div 2
        in (rect_new (rx area) (ry area) (rw area) (saturating_sub mid (gap div 2)),
            rect_new (rx area) (ry area + mid) (rw area) (rh area - mid)))"

function bsp_rects :: "rect \<Rightarrow> nat \<Rightarrow> i32 \<Rightarrow> rect list" where
  "bsp_rects area n gap =
     (if n = 0 then []
      else if n = 1 then [area]
      else let (a, b) = bsp_split area gap; left = n div 2; right = n - left
           in bsp_rects a left gap @ bsp_rects b right gap)"
  by pat_completeness auto
termination by (relation "measure (\<lambda>(_, n, _). n)") auto

declare bsp_rects.simps [simp del]

section \<open>Windows\<close>

text \<open>
  The floating-point part: \<open>fl_advance t dt speed\<close> is \<open>t + dt * speed\<close>, \<open>fl_finished t\<close> is
  \<open>t >= 1.0\<close>, and \<open>fl_between a b t\<close> is \<open>lerp_rect(a, b, ease_out_cubic(t.min(1.0)))\<close>.
\<close>

record 'f floats =
  fl_zero :: 'f
  fl_one :: 'f
  fl_four :: 'f
  fl_advance :: "'f \<Rightarrow> 'f \<Rightarrow> 'f \<Rightarrow> 'f"
  fl_finished :: "'f \<Rightarrow> bool"
  fl_between :: "rect \<Rightarrow> rect \<Rightarrow> 'f \<Rightarrow> rect"

type_synonym wid = u32

record 'f window =
  wn_id :: wid
  wn_title :: string
  wn_app_id :: string
  wn_rect :: rect
  wn_visible :: bool
  wn_focused :: bool
  wn_floating :: bool
  wn_opacity :: 'f
  wn_snap :: "snap_zone option"
  wn_desktop :: u32
  wn_anim_from :: "rect option"
  wn_anim_to :: "rect option"
  wn_anim_t :: 'f
  wn_anim_speed :: 'f

definition window_new :: "'f floats \<Rightarrow> wid \<Rightarrow> string \<Rightarrow> string \<Rightarrow> rect \<Rightarrow> u32 \<Rightarrow> 'f window" where
  "window_new fl wid title app_id r desktop =
     \<lparr>wn_id = wid, wn_title = title, wn_app_id = app_id, wn_rect = r, wn_visible = True, wn_focused = False,
      wn_floating = True, wn_opacity = fl_one fl, wn_snap = None, wn_desktop = desktop,
      wn_anim_from = Some (rect_new (fst (rect_center r)) (snd (rect_center r)) 0 0), wn_anim_to = Some r,
      wn_anim_t = fl_zero fl, wn_anim_speed = fl_four fl\<rparr>"

definition window_tick :: "'f floats \<Rightarrow> 'f \<Rightarrow> 'f window \<Rightarrow> bool \<times> 'f window" where
  "window_tick fl dt w =
     (case wn_anim_from w of
        None \<Rightarrow> (False, w)
      | Some start \<Rightarrow>
          let w1 = w\<lparr>wn_anim_t := fl_advance fl (wn_anim_t w) dt (wn_anim_speed w)\<rparr>;
              w2 = (case wn_anim_to w1 of
                      Some target \<Rightarrow> w1\<lparr>wn_rect := fl_between fl start target (wn_anim_t w1)\<rparr>
                    | None \<Rightarrow> w1)
          in if fl_finished fl (wn_anim_t w2) then (False, w2\<lparr>wn_anim_from := None, wn_anim_to := None\<rparr>)
             else (True, w2))"

definition animate_to :: "'f floats \<Rightarrow> rect \<Rightarrow> 'f window \<Rightarrow> 'f window" where
  "animate_to fl target w = w\<lparr>wn_anim_from := Some (wn_rect w), wn_anim_to := Some target, wn_anim_t := fl_zero fl\<rparr>"

section \<open>The compositor\<close>

record desktop =
  dk_id :: u32
  dk_name :: string

record 'f compositor =
  co_windows :: "'f window list"
  co_next_wid :: wid
  co_desktops :: "desktop list"
  co_active_desk :: u32
  co_focused :: "wid option"
  co_screen :: rect
  co_cursor :: "i32 \<times> i32"
  co_gap :: i32
  co_tiling :: bool

definition compositor_new :: "rect \<Rightarrow> 'f compositor" where
  "compositor_new screen =
     \<lparr>co_windows = [], co_next_wid = 1,
      co_desktops = [\<lparr>dk_id = 0, dk_name = ''Desktop 1''\<rparr>, \<lparr>dk_id = 1, dk_name = ''Desktop 2''\<rparr>,
        \<lparr>dk_id = 2, dk_name = ''Desktop 3''\<rparr>, \<lparr>dk_id = 3, dk_name = ''Desktop 4''\<rparr>],
      co_active_desk = 0, co_focused = None, co_screen = screen, co_cursor = (0, 0), co_gap = 4, co_tiling = False\<rparr>"

text \<open>\<open>iter_mut().find(|w| w.id == id)\<close>: change the first window with the number.\<close>

fun on_window :: "wid \<Rightarrow> ('f window \<Rightarrow> 'f window) \<Rightarrow> 'f window list \<Rightarrow> 'f window list" where
  "on_window i f [] = []"
| "on_window i f (w # ws) = (if wn_id w = i then f w # ws else w # on_window i f ws)"

definition on_desktop :: "u32 \<Rightarrow> 'f window \<Rightarrow> bool" where
  "on_desktop d w \<longleftrightarrow> wn_visible w \<and> wn_desktop w = d"

text \<open>The loop of \<open>retile\<close>: the rectangles are handed out to the shown windows in order.\<close>

fun place :: "'f floats \<Rightarrow> u32 \<Rightarrow> 'f window list \<Rightarrow> rect list \<Rightarrow> 'f window list" where
  "place fl d (w # ws) (r # rs) =
     (if on_desktop d w then (animate_to fl r w)\<lparr>wn_floating := False\<rparr> # place fl d ws rs
      else w # place fl d ws (r # rs))"
| "place fl d ws rs = ws"

definition retile :: "'f floats \<Rightarrow> 'f compositor \<Rightarrow> 'f compositor" where
  "retile fl c =
     (let n = length (filter (on_desktop (co_active_desk c)) (co_windows c))
      in if n = 0 then c
         else c\<lparr>co_windows := place fl (co_active_desk c) (co_windows c) (bsp_rects (co_screen c) n (co_gap c))\<rparr>)"

definition focus :: "wid \<Rightarrow> 'f compositor \<Rightarrow> 'f compositor" where
  "focus i c =
     c\<lparr>co_windows := on_window i (\<lambda>w. w\<lparr>wn_focused := True\<rparr>) (map (\<lambda>w. w\<lparr>wn_focused := False\<rparr>) (co_windows c)),
       co_focused := Some i\<rparr>"

definition create_window :: "'f floats \<Rightarrow> string \<Rightarrow> string \<Rightarrow> rect \<Rightarrow> 'f compositor \<Rightarrow> wid \<times> 'f compositor" where
  "create_window fl title app_id r c =
     (let i = co_next_wid c;
          c1 = c\<lparr>co_next_wid := co_next_wid c + 1,
                 co_windows := co_windows c @ [window_new fl i title app_id r (co_active_desk c)]\<rparr>;
          c2 = focus i c1
      in (i, if co_tiling c2 then retile fl c2 else c2))"

definition close_window :: "'f floats \<Rightarrow> wid \<Rightarrow> 'f compositor \<Rightarrow> 'f compositor" where
  "close_window fl i c =
     (let c1 = c\<lparr>co_windows := filter wn_visible (on_window i (\<lambda>w. w\<lparr>wn_visible := False\<rparr>) (co_windows c))\<rparr>
      in if co_tiling c1 then retile fl c1 else c1)"

definition move_pointer :: "i32 \<Rightarrow> i32 \<Rightarrow> 'f compositor \<Rightarrow> 'f compositor" where
  "move_pointer x y c = c\<lparr>co_cursor := (x, y)\<rparr>"

definition move_window :: "wid \<Rightarrow> i32 \<Rightarrow> i32 \<Rightarrow> 'f compositor \<Rightarrow> 'f compositor" where
  "move_window i dx dy c =
     c\<lparr>co_windows := on_window i (\<lambda>w.
         let r = (wn_rect w)\<lparr>rx := rx (wn_rect w) + dx, ry := ry (wn_rect w) + dy\<rparr>
         in w\<lparr>wn_rect := r, wn_snap := detect_snap (rx r) (ry r) (co_screen c)\<rparr>) (co_windows c)\<rparr>"

definition release_window :: "'f floats \<Rightarrow> wid \<Rightarrow> 'f compositor \<Rightarrow> 'f compositor" where
  "release_window fl i c =
     (case find (\<lambda>w. wn_id w = i) (co_windows c) of
        None \<Rightarrow> c
      | Some w \<Rightarrow>
          (case wn_snap w of
             None \<Rightarrow> c
           | Some zone \<Rightarrow> c\<lparr>co_windows := on_window i (animate_to fl (snap_rect zone (co_screen c))) (co_windows c)\<rparr>))"

definition snap :: "'f floats \<Rightarrow> wid \<Rightarrow> snap_zone \<Rightarrow> 'f compositor \<Rightarrow> 'f compositor" where
  "snap fl i zone c =
     c\<lparr>co_windows := on_window i (\<lambda>w. (animate_to fl (snap_rect zone (co_screen c)) w)\<lparr>wn_snap := Some zone\<rparr>) (co_windows c)\<rparr>"

definition toggle_tiling :: "'f floats \<Rightarrow> 'f compositor \<Rightarrow> 'f compositor" where
  "toggle_tiling fl c =
     (let c1 = c\<lparr>co_tiling := \<not> co_tiling c\<rparr> in if co_tiling c1 then retile fl c1 else c1)"

definition switch_desktop :: "u32 \<Rightarrow> 'f compositor \<Rightarrow> 'f compositor" where
  "switch_desktop n c = (if n < of_nat (length (co_desktops c)) then c\<lparr>co_active_desk := n\<rparr> else c)"

definition compositor_tick :: "'f floats \<Rightarrow> 'f \<Rightarrow> 'f compositor \<Rightarrow> 'f compositor" where
  "compositor_tick fl dt c = c\<lparr>co_windows := map (\<lambda>w. snd (window_tick fl dt w)) (co_windows c)\<rparr>"

definition windows_on_active_desktop :: "'f compositor \<Rightarrow> 'f window list" where
  "windows_on_active_desktop c = filter (on_desktop (co_active_desk c)) (co_windows c)"

section \<open>Points\<close>

text \<open>The pixels of a rectangle as integer points; a rectangle fits when its far corner is a 32-bit coordinate.\<close>

definition fits :: "rect \<Rightarrow> bool" where
  "fits r \<longleftrightarrow> sint (rx r) + uint (rw r) < 2 ^ 31 \<and> sint (ry r) + uint (rh r) < 2 ^ 31"

definition cells :: "rect \<Rightarrow> (int \<times> int) set" where
  "cells r = {sint (rx r)..<sint (rx r) + uint (rw r)} \<times> {sint (ry r)..<sint (ry r) + uint (rh r)}"

lemma sint_add_size:
  "sint x + uint m < 2 ^ 31 \<Longrightarrow> sint (x + m) = sint x + uint m" for x m :: i32
proof -
  assume a: "sint x + uint m < 2 ^ 31"
  have "- (2 ^ 31) \<le> sint x" using sint_greater_eq [of x] by simp
  then have "- (2 ^ 31) \<le> sint x + uint m" using uint_ge_0 [of m] by linarith
  then have "signed_take_bit 31 (sint x + uint m) = sint x + uint m"
    using a by (intro signed_take_bit_int_eq_self)
  moreover have "x + m = word_of_int (sint x + uint m)" by simp
  ultimately show ?thesis by (simp only: sint_sbintrunc') simp
qed

lemma contains_cells: "fits r \<Longrightarrow> rect_contains r px py \<longleftrightarrow> (sint px, sint py) \<in> cells r"
  by (auto simp: rect_contains_def cells_def fits_def sint_add_size)

lemma uint_div: "uint (a div b) = uint a div uint b" for a b :: u32
  by (simp add: uint_div_distrib)

lemma uint_minus_le: "b \<le> a \<Longrightarrow> uint (a - b) = uint a - uint b" for a b :: u32
  by (simp add: word_le_def uint_sub_if')

lemma saturating_sub_le: "uint (saturating_sub a b) \<le> uint a"
  by (simp add: saturating_sub_def uint_minus_le)

lemma half_le: "m div 2 \<le> m" for m :: u32
proof -
  have "uint m div 2 \<le> uint m" using uint_ge_0 [of m] by presburger
  then show ?thesis by (simp add: word_le_def uint_div)
qed

lemma half_rest: "uint (m - m div 2) = uint m - uint m div 2" for m :: u32
  by (simp add: uint_minus_le [OF half_le] uint_div)

lemma sint_add_half:
  fixes x m :: i32
  assumes "sint x + uint m < 2 ^ 31"
  shows "sint (x + m div 2) = sint x + uint m div 2"
proof -
  have "uint (m div 2) \<le> uint m" using half_le [of m] by (simp add: word_le_def)
  then have "sint x + uint (m div 2) < 2 ^ 31" using assms by linarith
  then show ?thesis by (simp add: sint_add_size uint_div)
qed

lemma first_half:
  "uint (saturating_sub (m div 2) g) \<le> uint m div 2"
  "g = 0 \<Longrightarrow> uint (saturating_sub (m div 2) g) = uint m div 2" for m g :: u32
  using saturating_sub_le [of "m div 2" g] by (simp_all add: uint_div saturating_sub_def)

lemma bsp_split_spec:
  assumes "fits area" and "bsp_split area gap = (a, b)"
  shows "fits a \<and> fits b \<and> cells a \<subseteq> cells area \<and> cells b \<subseteq> cells area \<and> cells a \<inter> cells b = {} \<and>
    (gap div 2 = 0 \<longrightarrow> cells a \<union> cells b = cells area)"
proof (cases "rh area \<le> rw area")
  case True
  let ?g = "uint (saturating_sub (rw area div 2) (gap div 2))"
  have f: "sint (rx area) + uint (rw area) < 2 ^ 31" "sint (ry area) + uint (rh area) < 2 ^ 31"
    using assms(1) by (simp_all add: fits_def)
  have s: "rx a = rx area" "ry a = ry area" "uint (rw a) = ?g" "rh a = rh area"
    "sint (rx b) = sint (rx area) + uint (rw area) div 2" "ry b = ry area"
    "uint (rw b) = uint (rw area) - uint (rw area) div 2" "rh b = rh area"
    using assms(2) True sint_add_half [OF f(1)] half_rest by (auto simp: bsp_split_def rect_new_def Let_def)
  have g: "0 \<le> ?g" "?g \<le> uint (rw area) div 2" "0 \<le> uint (rw area)" using first_half(1) by auto
  have h: "uint (rw area) div 2 \<le> uint (rw area)" using g(3) by presburger
  have "gap div 2 = 0 \<Longrightarrow> ?g = uint (rw area) div 2" using first_half(2) by blast
  then show ?thesis using f g h by (auto simp: fits_def cells_def s)
next
  case False
  let ?g = "uint (saturating_sub (rh area div 2) (gap div 2))"
  have f: "sint (rx area) + uint (rw area) < 2 ^ 31" "sint (ry area) + uint (rh area) < 2 ^ 31"
    using assms(1) by (simp_all add: fits_def)
  have s: "rx a = rx area" "ry a = ry area" "uint (rh a) = ?g" "rw a = rw area"
    "sint (ry b) = sint (ry area) + uint (rh area) div 2" "rx b = rx area"
    "uint (rh b) = uint (rh area) - uint (rh area) div 2" "rw b = rw area"
    using assms(2) False sint_add_half [OF f(2)] half_rest by (auto simp: bsp_split_def rect_new_def Let_def)
  have g: "0 \<le> ?g" "?g \<le> uint (rh area) div 2" "0 \<le> uint (rh area)" using first_half(1) by auto
  have h: "uint (rh area) div 2 \<le> uint (rh area)" using g(3) by presburger
  have "gap div 2 = 0 \<Longrightarrow> ?g = uint (rh area) div 2" using first_half(2) by blast
  then show ?thesis using f g h by (auto simp: fits_def cells_def s)
qed

lemma bsp_rects_eq:
  "bsp_rects area 0 gap = []" "bsp_rects area (Suc 0) gap = [area]"
  "2 \<le> n \<Longrightarrow> bsp_split area gap = (a, b) \<Longrightarrow>
     bsp_rects area n gap = bsp_rects a (n div 2) gap @ bsp_rects b (n - n div 2) gap"
  by (simp_all add: bsp_rects.simps [of area] Let_def)

definition apart_from :: "rect \<Rightarrow> rect \<Rightarrow> bool" where
  "apart_from r s \<longleftrightarrow> cells r \<inter> cells s = {}"

definition tiled :: "rect \<Rightarrow> nat \<Rightarrow> i32 \<Rightarrow> rect list \<Rightarrow> bool" where
  "tiled area n gap rs \<longleftrightarrow> length rs = n \<and> (\<forall>r \<in> set rs. fits r \<and> cells r \<subseteq> cells area) \<and>
     sorted_wrt apart_from rs \<and> (gap div 2 = 0 \<and> 0 < n \<longrightarrow> \<Union> (cells ` set rs) = cells area)"

lemma tiled_append:
  assumes s: "fits a \<and> fits b \<and> cells a \<subseteq> cells area \<and> cells b \<subseteq> cells area \<and> cells a \<inter> cells b = {} \<and>
      (gap div 2 = 0 \<longrightarrow> cells a \<union> cells b = cells area)"
    and l: "tiled a n gap ls" "0 < n" and r: "tiled b m gap rs" "0 < m"
  shows "tiled area (n + m) gap (ls @ rs)"
proof -
  have cl: "\<forall>x \<in> set ls. fits x \<and> cells x \<subseteq> cells a" and cr: "\<forall>x \<in> set rs. fits x \<and> cells x \<subseteq> cells b"
    using l(1) r(1) by (simp_all add: tiled_def)
  have "apart_from x y" if "x \<in> set ls" "y \<in> set rs" for x y
  proof -
    have "cells x \<subseteq> cells a" "cells y \<subseteq> cells b" using cl cr that by blast+
    then show ?thesis using s unfolding apart_from_def by blast
  qed
  then have "sorted_wrt apart_from (ls @ rs)" using l(1) r(1) by (simp add: sorted_wrt_append tiled_def)
  moreover have "fits x \<and> cells x \<subseteq> cells area" if "x \<in> set (ls @ rs)" for x
  proof (cases "x \<in> set ls")
    case True
    then show ?thesis using cl s by blast
  next
    case False
    then show ?thesis using cr s that by auto
  qed
  moreover have "\<Union> (cells ` set (ls @ rs)) = cells area" if g: "gap div 2 = 0"
  proof -
    have "\<Union> (cells ` set ls) = cells a" "\<Union> (cells ` set rs) = cells b"
      using l r g by (simp_all add: tiled_def)
    then show ?thesis using s g by (simp only: set_append image_Un Union_Un_distrib)
  qed
  moreover have "length (ls @ rs) = n + m" using l(1) r(1) by (simp add: tiled_def)
  ultimately show ?thesis unfolding tiled_def by blast
qed

lemma bsp_rects_spec: "fits area \<Longrightarrow> tiled area n gap (bsp_rects area n gap)"
proof (induction n arbitrary: area rule: less_induct)
  case (less n)
  show ?case
  proof (cases "2 \<le> n")
    case True
    obtain a b where ab: "bsp_split area gap = (a, b)" by (cases "bsp_split area gap")
    note s = bsp_split_spec [OF less.prems ab]
    have m: "n div 2 < n" "n - n div 2 < n" "0 < n div 2" "0 < n - n div 2" "n div 2 + (n - n div 2) = n"
      using True by auto
    have "tiled a (n div 2) gap (bsp_rects a (n div 2) gap)" "tiled b (n - n div 2) gap (bsp_rects b (n - n div 2) gap)"
      using less.IH m(1,2) s by blast+
    then have "tiled area (n div 2 + (n - n div 2)) gap (bsp_rects a (n div 2) gap @ bsp_rects b (n - n div 2) gap)"
      using tiled_append [OF s] m(3,4) by blast
    then show ?thesis unfolding m(5) bsp_rects_eq(3) [OF True ab] .
  next
    case False
    then have "n = 0 \<or> n = Suc 0" by auto
    then show ?thesis using less.prems by (auto simp: bsp_rects_eq tiled_def)
  qed
qed

section \<open>Tiling the desktop\<close>

lemma animate_fields [simp]:
  "wn_id (animate_to fl r w) = wn_id w" "wn_visible (animate_to fl r w) = wn_visible w"
  "wn_desktop (animate_to fl r w) = wn_desktop w" "wn_focused (animate_to fl r w) = wn_focused w"
  "wn_anim_to (animate_to fl r w) = Some r" "wn_rect (animate_to fl r w) = wn_rect w"
  "on_desktop d (animate_to fl r w) = on_desktop d w"
  by (simp_all add: animate_to_def on_desktop_def)

lemma on_desktop_floating [simp]: "on_desktop d (w\<lparr>wn_floating := b\<rparr>) = on_desktop d w"
  by (simp add: on_desktop_def)

lemma place_keeps:
  "map wn_id (place fl d ws rs) = map wn_id ws" "map wn_visible (place fl d ws rs) = map wn_visible ws"
  "map wn_desktop (place fl d ws rs) = map wn_desktop ws" "map wn_focused (place fl d ws rs) = map wn_focused ws"
  "filter (\<lambda>w. \<not> on_desktop d w) (place fl d ws rs) = filter (\<lambda>w. \<not> on_desktop d w) ws"
  "map wn_id (filter (on_desktop d) (place fl d ws rs)) = map wn_id (filter (on_desktop d) ws)"
  by (induction fl d ws rs rule: place.induct) auto

lemma place_targets:
  "length rs = length (filter (on_desktop d) ws) \<Longrightarrow>
     map wn_anim_to (filter (on_desktop d) (place fl d ws rs)) = map Some rs"
  by (induction fl d ws rs rule: place.induct) auto

lemma retile_fields [simp]:
  "co_active_desk (retile fl c) = co_active_desk c" "co_desktops (retile fl c) = co_desktops c"
  "co_focused (retile fl c) = co_focused c" "co_next_wid (retile fl c) = co_next_wid c"
  "co_screen (retile fl c) = co_screen c" "co_tiling (retile fl c) = co_tiling c" "co_gap (retile fl c) = co_gap c"
  "map wn_id (co_windows (retile fl c)) = map wn_id (co_windows c)"
  "map wn_visible (co_windows (retile fl c)) = map wn_visible (co_windows c)"
  "map wn_desktop (co_windows (retile fl c)) = map wn_desktop (co_windows c)"
  "map wn_focused (co_windows (retile fl c)) = map wn_focused (co_windows c)"
  by (simp_all add: retile_def Let_def place_keeps)

text \<open>
  C39. Tiling. When the screen's far corner is a coordinate, tiling sends every window shown on the active desktop
  to a rectangle of its own: the rectangles lie inside the screen, no two share a pixel, and
  with a gap below two they cover it; the windows of the other desktops are not touched.
\<close>

theorem retile_layout:
  assumes "fits (co_screen c)"
  shows "\<exists>rs. map wn_anim_to (windows_on_active_desktop (retile fl c)) = map Some rs \<and>
    length rs = length (windows_on_active_desktop c) \<and>
    map wn_id (windows_on_active_desktop (retile fl c)) = map wn_id (windows_on_active_desktop c) \<and>
    (\<forall>r \<in> set rs. cells r \<subseteq> cells (co_screen c)) \<and> sorted_wrt (\<lambda>r s. cells r \<inter> cells s = {}) rs \<and>
    (co_gap c div 2 = 0 \<and> rs \<noteq> [] \<longrightarrow> \<Union> (cells ` set rs) = cells (co_screen c)) \<and>
    filter (\<lambda>w. \<not> on_desktop (co_active_desk c) w) (co_windows (retile fl c)) =
      filter (\<lambda>w. \<not> on_desktop (co_active_desk c) w) (co_windows c)"
proof -
  let ?n = "length (windows_on_active_desktop c)" and ?d = "co_active_desk c"
  let ?rs = "bsp_rects (co_screen c) ?n (co_gap c)"
  have t: "tiled (co_screen c) ?n (co_gap c) ?rs" by (rule bsp_rects_spec [OF assms])
  then have l: "length ?rs = length (filter (on_desktop ?d) (co_windows c))"
    by (simp add: tiled_def windows_on_active_desktop_def)
  have w: "co_windows (retile fl c) = place fl ?d (co_windows c) ?rs"
  proof (cases "?n = 0")
    case True
    have "place fl d ws [] = ws" for d and ws :: "'a window list" by (cases ws) simp_all
    then show ?thesis using True by (simp add: retile_def windows_on_active_desktop_def bsp_rects_eq)
  qed (simp add: retile_def windows_on_active_desktop_def Let_def)
  have "sorted_wrt (\<lambda>r s. cells r \<inter> cells s = {}) ?rs"
    using t by (simp add: tiled_def apart_from_def [abs_def])
  moreover have "map wn_anim_to (windows_on_active_desktop (retile fl c)) = map Some ?rs"
    using place_targets [OF l, of fl] by (simp add: windows_on_active_desktop_def w)
  moreover have "map wn_id (windows_on_active_desktop (retile fl c)) = map wn_id (windows_on_active_desktop c)"
    by (simp add: windows_on_active_desktop_def w place_keeps(6))
  ultimately show ?thesis using t
    by (intro exI [of _ ?rs]) (auto simp: tiled_def w place_keeps(5))
qed

text \<open>The two windows the main function opens.\<close>

definition demo_floats :: "unit floats" where
  "demo_floats = \<lparr>fl_zero = (), fl_one = (), fl_four = (), fl_advance = \<lambda>_ _ _. (), fl_finished = \<lambda>_. True,
     fl_between = \<lambda>_ b _. b\<rparr>"

definition demo_screen :: rect where
  "demo_screen = rect_new 0 0 1920 1080"

definition demo_compositor :: "unit compositor" where
  "demo_compositor =
     snd (create_window demo_floats ''Firefox'' ''org.mozilla.firefox'' (rect_new 200 150 1200 800)
       (snd (create_window demo_floats ''Terminal'' ''nexus.terminal'' (rect_new 100 100 800 600)
         (compositor_new demo_screen))))"

lemma demo_screen_fits: "fits demo_screen"
  by (simp add: fits_def demo_screen_def rect_new_def)

lemma demo_compositor_fields:
  "co_screen demo_compositor = demo_screen" "length (windows_on_active_desktop demo_compositor) = 2"
  by (simp_all add: demo_compositor_def compositor_new_def create_window_def focus_def window_new_def
      windows_on_active_desktop_def on_desktop_def Let_def)

lemma retile_layout_witness:
  "\<exists>rs. map wn_anim_to (windows_on_active_desktop (retile demo_floats demo_compositor)) = map Some rs \<and> length rs = 2 \<and>
     (\<forall>r \<in> set rs. cells r \<subseteq> cells demo_screen) \<and> sorted_wrt (\<lambda>r s. cells r \<inter> cells s = {}) rs"
proof -
  have "fits (co_screen demo_compositor)" by (simp add: demo_compositor_fields demo_screen_fits)
  from retile_layout [OF this, of demo_floats] show ?thesis unfolding demo_compositor_fields by blast
qed

section \<open>Snapping\<close>

lemma uint_small_mult: "uint m * k < 2 ^ 32 \<Longrightarrow> uint (m * word_of_int k) = uint m * k" if "0 \<le> k" "k < 2 ^ 32" for m :: u32
  using that by (simp add: uint_word_ariths unsigned_of_int take_bit_eq_mod)

lemma snap_rect_fields:
  assumes "fits s" and "uint (rw s) < 2 ^ 30" and "uint (rh s) < 2 ^ 30"
  shows "sint (rx s + rw s div 2) = sint (rx s) + uint (rw s) div 2"
    and "sint (ry s + rh s div 2) = sint (ry s) + uint (rh s) div 2"
    and "sint (rx s + rw s div 3) = sint (rx s) + uint (rw s) div 3"
    and "sint (rx s + 2 * (rw s div 3)) = sint (rx s) + 2 * (uint (rw s) div 3)"
    and "sint (rx s + rw s div 8) = sint (rx s) + uint (rw s) div 8"
    and "sint (ry s + rh s div 8) = sint (ry s) + uint (rh s) div 8"
    and "uint (rw s * 3) = uint (rw s) * 3" and "uint (rh s * 3) = uint (rh s) * 3"
proof -
  have f: "sint (rx s) + uint (rw s) < 2 ^ 31" "sint (ry s) + uint (rh s) < 2 ^ 31" using assms(1) by (simp_all add: fits_def)
  have d: "uint (m div k) \<le> uint m" for m k :: u32
  proof -
    have "m div k \<le> m" by (simp add: word_le_nat_alt unat_div div_le_dividend)
    then show ?thesis by (simp add: word_le_def)
  qed
  have a: "sint x + uint m < 2 ^ 31 \<Longrightarrow> sint (x + m div k) = sint x + uint m div uint k" for x m k :: u32
    using d [of m k] by (simp add: sint_add_size uint_div)
  show "sint (rx s + rw s div 2) = sint (rx s) + uint (rw s) div 2"
    "sint (ry s + rh s div 2) = sint (ry s) + uint (rh s) div 2"
    "sint (rx s + rw s div 3) = sint (rx s) + uint (rw s) div 3"
    "sint (rx s + rw s div 8) = sint (rx s) + uint (rw s) div 8"
    "sint (ry s + rh s div 8) = sint (ry s) + uint (rh s) div 8"
    using a [OF f(1)] a [OF f(2)] by simp_all
  have t: "uint (2 * (rw s div 3)) = 2 * (uint (rw s) div 3)"
    using uint_small_mult [of 2 "rw s div 3"] d [of "rw s" 3] assms(2) by (simp add: uint_div mult.commute)
  show "sint (rx s + 2 * (rw s div 3)) = sint (rx s) + 2 * (uint (rw s) div 3)"
  proof -
    have "2 * (uint (rw s) div 3) \<le> uint (rw s)" using uint_ge_0 [of "rw s"] by presburger
    then have "sint (rx s) + uint (2 * (rw s div 3)) < 2 ^ 31" unfolding t using f(1) by linarith
    then show ?thesis by (simp only: sint_add_size t)
  qed
  have m: "uint (m * 3) = uint m * 3" if "uint m < 2 ^ 30" for m :: u32
    using uint_small_mult [of 3 m] that by simp
  show "uint (rw s * 3) = uint (rw s) * 3" "uint (rh s * 3) = uint (rh s) * 3"
    using m assms(2,3) by simp_all
qed

lemma size_divisions:
  "0 \<le> uint m div 2" "uint m div 2 \<le> uint m" "uint m div 2 + uint m div 2 \<le> uint m"
  "0 \<le> uint m div 3" "3 * (uint m div 3) \<le> uint m" "0 \<le> uint m div 8"
  "uint m div 8 + uint m * 3 div 4 \<le> uint m" "0 \<le> uint m * 3 div 4" for m :: u32
  using uint_ge_0 [of m] by presburger+

lemma box_sub:
  "x \<le> a \<Longrightarrow> b \<le> y \<Longrightarrow> z \<le> c \<Longrightarrow> d \<le> w \<Longrightarrow> {a..<b} \<times> {c..<d} \<subseteq> {x..<y} \<times> {z..<w :: int}" for x :: int
  by (intro Sigma_mono) auto

lemma box_apart:
  "b \<le> x \<Longrightarrow> ({a..<b} \<times> {c..<d}) \<inter> ({x..<y} \<times> {z..<w :: int}) = {}"
  "y \<le> a \<Longrightarrow> ({a..<b} \<times> {c..<d}) \<inter> ({x..<y} \<times> {z..<w :: int}) = {}"
  "d \<le> z \<Longrightarrow> ({a..<b} \<times> {c..<d}) \<inter> ({x..<y} \<times> {z..<w :: int}) = {}" for x :: int
  by auto

lemma snap_cells:
  assumes "fits s" and "uint (rw s) < 2 ^ 30" and "uint (rh s) < 2 ^ 30"
  defines "X \<equiv> sint (rx s)" and "Y \<equiv> sint (ry s)" and "W \<equiv> uint (rw s)" and "H \<equiv> uint (rh s)"
  shows "cells s = {X..<X + W} \<times> {Y..<Y + H}"
    and "cells (snap_rect SnapLeft s) = {X..<X + W div 2} \<times> {Y..<Y + H}"
    and "cells (snap_rect SnapRight s) = {X + W div 2..<X + W div 2 + W div 2} \<times> {Y..<Y + H}"
    and "cells (snap_rect SnapTop s) = {X..<X + W} \<times> {Y..<Y + H div 2}"
    and "cells (snap_rect SnapBottom s) = {X..<X + W} \<times> {Y + H div 2..<Y + H div 2 + H div 2}"
    and "cells (snap_rect TopLeft s) = {X..<X + W div 2} \<times> {Y..<Y + H div 2}"
    and "cells (snap_rect TopRight s) = {X + W div 2..<X + W div 2 + W div 2} \<times> {Y..<Y + H div 2}"
    and "cells (snap_rect BottomLeft s) = {X..<X + W div 2} \<times> {Y + H div 2..<Y + H div 2 + H div 2}"
    and "cells (snap_rect BottomRight s) =
      {X + W div 2..<X + W div 2 + W div 2} \<times> {Y + H div 2..<Y + H div 2 + H div 2}"
    and "cells (snap_rect SnapCenter s) =
      {X + W div 8..<X + W div 8 + W * 3 div 4} \<times> {Y + H div 8..<Y + H div 8 + H * 3 div 4}"
    and "cells (snap_rect ThirdLeft s) = {X..<X + W div 3} \<times> {Y..<Y + H}"
    and "cells (snap_rect ThirdMid s) = {X + W div 3..<X + W div 3 + W div 3} \<times> {Y..<Y + H}"
    and "cells (snap_rect ThirdRight s) = {X + 2 * (W div 3)..<X + 2 * (W div 3) + W div 3} \<times> {Y..<Y + H}"
  unfolding cells_def snap_rect_def rect_new_def Let_def X_def Y_def W_def H_def
  by (simp_all only: snap_zone.case rect.select_convs snap_rect_fields [OF assms(1-3)] uint_div)
    (simp_all add: snap_rect_fields [OF assms(1-3)] uint_div)

text \<open>
  Snap zones. On a screen of less than a thousand million pixels a side whose far corner is a coordinate, every
  zone lies on the screen; the two halves, the upper and the lower half, the four corners and the three thirds do not overlap.
\<close>

theorem snap_zones:
  assumes "fits s" and "uint (rw s) < 2 ^ 30" and "uint (rh s) < 2 ^ 30"
  shows "cells (snap_rect zone s) \<subseteq> cells s \<and>
    (\<forall>group \<in> {[SnapLeft, SnapRight], [SnapTop, SnapBottom], [TopLeft, TopRight, BottomLeft, BottomRight],
        [ThirdLeft, ThirdMid, ThirdRight]}.
      sorted_wrt (\<lambda>a b. cells (snap_rect a s) \<inter> cells (snap_rect b s) = {}) group)"
proof -
  obtain w2 w3 w8 w4 h2 h3 h8 h4 where e:
    "uint (rw s) div 2 = w2" "uint (rw s) div 3 = w3" "uint (rw s) div 8 = w8" "uint (rw s) * 3 div 4 = w4"
    "uint (rh s) div 2 = h2" "uint (rh s) div 3 = h3" "uint (rh s) div 8 = h8" "uint (rh s) * 3 div 4 = h4"
    by blast
  note c = snap_cells [OF assms, unfolded e] and d = size_divisions [of "rw s", unfolded e] size_divisions [of "rh s", unfolded e]
  have "cells (snap_rect zone s) \<subseteq> cells s"
    by (cases zone; simp only: c; rule box_sub; use d in linarith)
  moreover have "cells (snap_rect SnapLeft s) \<inter> cells (snap_rect SnapRight s) = {}"
    "cells (snap_rect SnapTop s) \<inter> cells (snap_rect SnapBottom s) = {}"
    "cells (snap_rect TopLeft s) \<inter> cells (snap_rect TopRight s) = {}"
    "cells (snap_rect TopLeft s) \<inter> cells (snap_rect BottomLeft s) = {}"
    "cells (snap_rect TopLeft s) \<inter> cells (snap_rect BottomRight s) = {}"
    "cells (snap_rect TopRight s) \<inter> cells (snap_rect BottomLeft s) = {}"
    "cells (snap_rect TopRight s) \<inter> cells (snap_rect BottomRight s) = {}"
    "cells (snap_rect BottomLeft s) \<inter> cells (snap_rect BottomRight s) = {}"
    "cells (snap_rect ThirdLeft s) \<inter> cells (snap_rect ThirdMid s) = {}"
    "cells (snap_rect ThirdLeft s) \<inter> cells (snap_rect ThirdRight s) = {}"
    "cells (snap_rect ThirdMid s) \<inter> cells (snap_rect ThirdRight s) = {}"
    unfolding c by ((rule box_apart(1), use d in linarith) | (rule box_apart(2), use d in linarith) |
        (rule box_apart(3), use d in linarith))+
  ultimately show ?thesis by simp
qed

lemma snap_zones_witness:
  "cells (snap_rect SnapCenter demo_screen) \<subseteq> cells demo_screen"
proof -
  have "uint (rw demo_screen) < 2 ^ 30" "uint (rh demo_screen) < 2 ^ 30"
    by (simp_all add: demo_screen_def rect_new_def)
  from snap_zones [OF demo_screen_fits this] show ?thesis by blast
qed

text \<open>
  Dragging takes the window's own corner for the pointer, so the right half is offered only when all but
  a strip of the window has left the screen, wherever the pointer is.
\<close>

lemma snap_right_needs_far_corner:
  assumes "detect_snap px py s = Some SnapRight"
  shows "sint (rx s + rw s - 24) < sint px"
proof (rule ccontr)
  assume "\<not> sint (rx s + rw s - 24) < sint px"
  then show False using assms unfolding detect_snap_def Let_def
    by (cases "sint px < sint (rx s + 24)"; cases "sint py < sint (ry s + 24)";
        cases "sint (ry s + rh s - 24) < sint py") simp_all
qed

section \<open>The state\<close>

text \<open>
  Window numbers are unique and below the next one, every window is visible and on one of the desktops, and only the
  window the compositor takes for focused is marked so.
\<close>

definition comp_ok :: "'f compositor \<Rightarrow> bool" where
  "comp_ok c \<longleftrightarrow> distinct (map wn_id (co_windows c)) \<and>
     (\<forall>w \<in> set (co_windows c). unat (wn_id w) < unat (co_next_wid c) \<and> wn_visible w \<and>
        unat (wn_desktop w) < length (co_desktops c) \<and> (wn_focused w \<longrightarrow> co_focused c = Some (wn_id w))) \<and>
     unat (co_active_desk c) < length (co_desktops c) \<and> length (co_desktops c) = 4"

datatype 'f comp_op =
  Create string string rect | Close wid | Focus wid | MovePointer i32 i32 | MoveWindow wid i32 i32 |
  Release wid | Snap wid snap_zone | ToggleTiling | SwitchDesktop u32 | Tick 'f

fun comp_step :: "'f floats \<Rightarrow> 'f comp_op \<Rightarrow> 'f compositor \<Rightarrow> 'f compositor" where
  "comp_step fl (Create t a r) c = snd (create_window fl t a r c)"
| "comp_step fl (Close i) c = close_window fl i c"
| "comp_step fl (Focus i) c = focus i c"
| "comp_step fl (MovePointer x y) c = move_pointer x y c"
| "comp_step fl (MoveWindow i dx dy) c = move_window i dx dy c"
| "comp_step fl (Release i) c = release_window fl i c"
| "comp_step fl (Snap i z) c = snap fl i z c"
| "comp_step fl ToggleTiling c = toggle_tiling fl c"
| "comp_step fl (SwitchDesktop n) c = switch_desktop n c"
| "comp_step fl (Tick dt) c = compositor_tick fl dt c"

text \<open>What the invariant reads of a window.\<close>

definition frame :: "'f window \<Rightarrow> wid \<times> bool \<times> u32 \<times> bool" where
  "frame w = (wn_id w, wn_visible w, wn_desktop w, wn_focused w)"

definition frames_ok :: "(wid \<times> bool \<times> u32 \<times> bool) list \<Rightarrow> wid \<Rightarrow> wid option \<Rightarrow> nat \<Rightarrow> bool" where
  "frames_ok fs nx foc n \<longleftrightarrow> distinct (map fst fs) \<and>
     (\<forall>(i, v, d, f) \<in> set fs. unat i < unat nx \<and> v \<and> unat d < n \<and> (f \<longrightarrow> foc = Some i))"

lemma comp_ok_frames:
  "comp_ok c \<longleftrightarrow> frames_ok (map frame (co_windows c)) (co_next_wid c) (co_focused c) (length (co_desktops c)) \<and>
     unat (co_active_desk c) < length (co_desktops c) \<and> length (co_desktops c) = 4"
  by (auto simp: comp_ok_def frames_ok_def frame_def comp_def)

lemma frame_on_window: "(\<And>w. frame (f w) = frame w) \<Longrightarrow> map frame (on_window i f ws) = map frame ws"
  by (induction i f ws rule: on_window.induct) auto

lemma frame_animate [simp]: "frame (animate_to fl r w) = frame w"
  by (simp add: frame_def)

lemma frame_tick [simp]: "frame (snd (window_tick fl dt w)) = frame w"
  by (simp add: window_tick_def frame_def Let_def split: option.splits)

lemma frame_retile [simp]: "map frame (co_windows (retile fl c)) = map frame (co_windows c)"
proof -
  have "map frame ws = zip (map wn_id ws) (zip (map wn_visible ws) (zip (map wn_desktop ws) (map wn_focused ws)))"
    for ws :: "'a window list" by (induction ws) (simp_all add: frame_def)
  then show ?thesis by simp
qed

lemma comp_ok_retile [simp]: "comp_ok (retile fl c) = comp_ok c"
  by (simp add: comp_ok_frames)

lemma on_window_absent: "i \<notin> wn_id ` set ws \<Longrightarrow> on_window i f ws = ws"
  by (induction i f ws rule: on_window.induct) auto

lemma ids_on_window: "(\<And>w. wn_id (f w) = wn_id w) \<Longrightarrow> map wn_id (on_window i f ws) = map wn_id ws"
  by (induction i f ws rule: on_window.induct) auto

lemma in_on_window:
  "distinct (map wn_id ws) \<Longrightarrow> w \<in> set (on_window i f ws) \<Longrightarrow>
     \<exists>v \<in> set ws. w = (if wn_id v = i then f v else v)"
proof (induction i f ws rule: on_window.induct)
  case (2 i f v ws)
  show ?case
  proof (cases "wn_id v = i")
    case True
    then have n: "i \<notin> wn_id ` set ws" using 2(2) by auto
    show ?thesis
    proof (cases "w = f v")
      case False
      then have "w \<in> set ws" using 2(3) True by simp
      moreover have "wn_id w \<noteq> i" using n \<open>w \<in> set ws\<close> by blast
      ultimately show ?thesis by (intro bexI [of _ w]) simp_all
    qed (use True in simp)
  next
    case False
    then show ?thesis using 2 by (cases "w = v") auto
  qed
qed simp

lemma comp_ok_focus:
  assumes "comp_ok c"
  shows "comp_ok (focus i c)"
proof -
  let ?f = "\<lambda>w. w\<lparr>wn_focused := True\<rparr>" and ?g = "\<lambda>w. w\<lparr>wn_focused := False\<rparr>"
  have g: "map wn_id (map ?g (co_windows c)) = map wn_id (co_windows c)" by simp
  then have ids: "map wn_id (co_windows (focus i c)) = map wn_id (co_windows c)"
    unfolding focus_def by (simp add: ids_on_window del: map_map)
  have d: "distinct (map wn_id (map ?g (co_windows c)))" using assms unfolding g comp_ok_def by blast
  have "unat (wn_id w) < unat (co_next_wid c) \<and> wn_visible w \<and> unat (wn_desktop w) < length (co_desktops c) \<and>
      (wn_focused w \<longrightarrow> wn_id w = i)" if w: "w \<in> set (co_windows (focus i c))" for w
  proof -
    have "w \<in> set (on_window i ?f (map ?g (co_windows c)))" using w by (simp add: focus_def)
    from in_on_window [OF d this] obtain v where v: "v \<in> set (co_windows c)"
      and e: "w = (if wn_id v = i then ?f (?g v) else ?g v)" by auto
    have "unat (wn_id v) < unat (co_next_wid c) \<and> wn_visible v \<and> unat (wn_desktop v) < length (co_desktops c)"
      using assms v unfolding comp_ok_def by blast
    then show ?thesis unfolding e by auto
  qed
  then show ?thesis using assms ids unfolding comp_ok_def by (simp add: focus_def)
qed

lemma comp_ok_windows:
  "comp_ok (c\<lparr>co_windows := ws\<rparr>) \<longleftrightarrow> distinct (map wn_id ws) \<and>
     (\<forall>w \<in> set ws. unat (wn_id w) < unat (co_next_wid c) \<and> wn_visible w \<and>
        unat (wn_desktop w) < length (co_desktops c) \<and> (wn_focused w \<longrightarrow> co_focused c = Some (wn_id w))) \<and>
     unat (co_active_desk c) < length (co_desktops c) \<and> length (co_desktops c) = 4"
  by (simp add: comp_ok_def)

lemma comp_ok_close:
  assumes "comp_ok c"
  shows "comp_ok (close_window fl i c)" and "i \<notin> wn_id ` set (co_windows (close_window fl i c))"
proof -
  let ?f = "\<lambda>w. w\<lparr>wn_visible := False\<rparr>"
  let ?ws = "on_window i ?f (co_windows c)"
  let ?c = "c\<lparr>co_windows := filter wn_visible ?ws\<rparr>"
  have d: "distinct (map wn_id (co_windows c))" using assms unfolding comp_ok_def by blast
  have "map wn_id ?ws = map wn_id (co_windows c)" by (rule ids_on_window) simp
  then have d': "distinct (map wn_id (filter wn_visible ?ws))" using d by (simp add: distinct_map_filter)
  have old: "w \<in> set (co_windows c) \<and> wn_id w \<noteq> i" if w: "w \<in> set (filter wn_visible ?ws)" for w
  proof -
    have "w \<in> set ?ws" "wn_visible w" using w by simp_all
    from in_on_window [OF d this(1)] obtain v where v: "v \<in> set (co_windows c)" "w = (if wn_id v = i then ?f v else v)"
      by (elim bexE)
    then have "wn_id v \<noteq> i" using \<open>wn_visible w\<close> by (cases "wn_id v = i") auto
    then show ?thesis using v by simp
  qed
  let ?P = "\<lambda>w. unat (wn_id w) < unat (co_next_wid c) \<and> wn_visible w \<and> unat (wn_desktop w) < length (co_desktops c) \<and>
      (wn_focused w \<longrightarrow> co_focused c = Some (wn_id w))"
  have "\<forall>w \<in> set (co_windows c). ?P w" using assms unfolding comp_ok_def by blast
  then have "\<forall>w \<in> set (filter wn_visible ?ws). ?P w" using old by blast
  moreover have "unat (co_active_desk c) < length (co_desktops c) \<and> length (co_desktops c) = 4"
    using assms unfolding comp_ok_def by blast
  ultimately have c: "comp_ok ?c" using d' unfolding comp_ok_windows by blast
  then show "comp_ok (close_window fl i c)" by (simp add: close_window_def Let_def)
  have "i \<notin> wn_id ` set (co_windows ?c)" using old by auto
  moreover have "wn_id ` set (co_windows (retile fl ?c)) = wn_id ` set (co_windows ?c)"
    by (simp only: set_map [symmetric] retile_fields(8))
  ultimately show "i \<notin> wn_id ` set (co_windows (close_window fl i c))" by (simp add: close_window_def Let_def)
qed

lemma comp_ok_create:
  assumes "comp_ok c" and "unat (co_next_wid c) + 1 < 2 ^ 32"
  shows "comp_ok (snd (create_window fl t a r c))" and "co_next_wid (snd (create_window fl t a r c)) = co_next_wid c + 1"
proof -
  let ?c = "c\<lparr>co_next_wid := co_next_wid c + 1,
      co_windows := co_windows c @ [window_new fl (co_next_wid c) t a r (co_active_desk c)]\<rparr>"
  have u: "unat (co_next_wid c + 1) = unat (co_next_wid c) + 1" using assms(2) by (simp add: unat_word_ariths)
  have "co_next_wid c \<notin> wn_id ` set (co_windows c)" using assms(1) by (auto simp: comp_ok_def)
  then have "comp_ok ?c" using assms(1) u by (auto simp: comp_ok_def window_new_def less_Suc_eq)
  then have "comp_ok (focus (co_next_wid c) ?c)" by (rule comp_ok_focus)
  then show "comp_ok (snd (create_window fl t a r c))" by (simp add: create_window_def Let_def)
  show "co_next_wid (snd (create_window fl t a r c)) = co_next_wid c + 1"
    by (simp add: create_window_def focus_def Let_def)
qed

definition is_create :: "'f comp_op \<Rightarrow> bool" where
  "is_create x \<longleftrightarrow> (case x of Create _ _ _ \<Rightarrow> True | _ \<Rightarrow> False)"

lemma comp_step_ok:
  assumes "comp_ok c" and "unat (co_next_wid c) + 1 < 2 ^ 32"
  shows "comp_ok (comp_step fl x c) \<and>
    unat (co_next_wid (comp_step fl x c)) \<le> unat (co_next_wid c) + 1"
proof (cases x)
  case (Create t a r)
  then show ?thesis using comp_ok_create [OF assms, of fl t a r] assms(2) by (simp add: unat_word_ariths)
next
  case (Close i)
  then show ?thesis using comp_ok_close(1) [OF assms(1), of fl i] by (simp add: close_window_def Let_def)
next
  case (Focus i)
  then show ?thesis using comp_ok_focus [OF assms(1), of i] by (simp add: focus_def)
next
  case (SwitchDesktop n)
  have "length (co_desktops c) = 4" using assms(1) by (simp add: comp_ok_def)
  then show ?thesis using SwitchDesktop assms(1) by (auto simp: switch_desktop_def comp_ok_def word_less_nat_alt)
next
  case ToggleTiling
  have "comp_ok (c\<lparr>co_tiling := b\<rparr>) = comp_ok c" for b by (simp add: comp_ok_def)
  then show ?thesis using ToggleTiling assms(1) by (simp add: toggle_tiling_def Let_def)
next
  case (MoveWindow i dx dy)
  have "map frame (co_windows (move_window i dx dy c)) = map frame (co_windows c)"
    unfolding move_window_def by (simp add: Let_def, rule frame_on_window, simp add: frame_def)
  then show ?thesis using MoveWindow assms(1) unfolding comp_ok_frames by (auto simp: move_window_def Let_def)
next
  case (Release i)
  have "map frame (co_windows (release_window fl i c)) = map frame (co_windows c)"
    unfolding release_window_def by (simp add: frame_on_window split: option.splits)
  then show ?thesis using Release assms(1) unfolding comp_ok_frames
    by (simp add: release_window_def split: option.splits)
next
  case (Snap i z)
  have "map frame (co_windows (snap fl i z c)) = map frame (co_windows c)"
    unfolding snap_def by (simp, rule frame_on_window, simp add: frame_def)
  then show ?thesis using Snap assms(1) unfolding comp_ok_frames by (auto simp: snap_def)
qed (use assms(1) in \<open>auto simp: comp_ok_frames move_pointer_def compositor_tick_def comp_def\<close>)

lemma comp_run_ok:
  "comp_ok c \<Longrightarrow> unat (co_next_wid c) + length xs < 2 ^ 32 \<Longrightarrow> comp_ok (fold (comp_step fl) xs c)"
proof (induction xs arbitrary: c)
  case (Cons x xs)
  have s: "comp_ok (comp_step fl x c)" "unat (co_next_wid (comp_step fl x c)) \<le> unat (co_next_wid c) + 1"
    using comp_step_ok [OF Cons.prems(1), of fl x] Cons.prems(2) by auto
  show ?case using Cons.IH [OF s(1)] s(2) Cons.prems(2) by simp
qed simp

text \<open>
  C40. The state of the window manager. After any sequence of fewer than four thousand million
  operations window numbers are unique, every window is visible and on an existing desktop, and at most the window the compositor
  calls focused is marked focused. A closed window is gone, but closing the focused one leaves its number in the focus.
\<close>

theorem compositor_invariant:
  assumes "length xs < 2 ^ 32 - 1"
  shows "comp_ok (fold (comp_step fl) xs (compositor_new screen)) \<and>
    (let c = fold (comp_step fl) xs (compositor_new screen)
     in i \<notin> wn_id ` set (co_windows (close_window fl i c)) \<and> co_focused (close_window fl i c) = co_focused c)"
proof -
  let ?c = "fold (comp_step fl) xs (compositor_new screen)"
  have "comp_ok (compositor_new screen)" by (simp add: comp_ok_def compositor_new_def)
  then have c: "comp_ok ?c" by (rule comp_run_ok) (use assms in \<open>simp add: compositor_new_def\<close>)
  have "co_focused (close_window fl i ?c) = co_focused ?c" by (simp add: close_window_def Let_def)
  then show ?thesis using c comp_ok_close(2) [OF c, of i fl] by (simp add: Let_def)
qed

lemma compositor_invariant_witness:
  "comp_ok (fold (comp_step demo_floats) [Create ''a'' ''b'' demo_screen, Focus 1, ToggleTiling, Close 1] (compositor_new demo_screen))"
  by (rule conjunct1 [OF compositor_invariant]) simp

end
