(* ===== verification/Config.thy ===== *)
theory Config
  imports CompletionTrie
begin

text \<open>
  The configuration engine (\<open>config_engine/src/lib.rs\<close>): the settings, the functions it registers for Lua scripts,
  and loading scripts. The Lua interpreter is not part of the repository; \<open>lua\<close> gives the calls a
  script makes to the registered functions, in order, and the error it ends with, if any. A Lua
  string that is not UTF-8 has no text. The conversion of a Lua number to 32-bit floating point is an argument.
  The calls made by the built-in script \<open>plugins/api.lua\<close> are \<open>stdlib_calls\<close>.
\<close>

section \<open>Settings\<close>

record theme =
  tm_bg :: rstr
  tm_fg :: rstr
  tm_accent :: rstr
  tm_border :: rstr

definition theme_default :: theme where
  "theme_default = \<lparr>tm_bg = lit ''#0f1117'', tm_fg = lit ''#e2e8f0'', tm_accent = lit ''#7c3aed'', tm_border = lit ''#2d3748''\<rparr>"

record key_binding =
  kb_keys :: rstr
  kb_action :: rstr

record 'f config =
  cg_theme :: theme
  cg_gap :: u32
  cg_border_width :: u32
  cg_border_radius :: u32
  cg_animations :: bool
  cg_anim_speed :: 'f
  cg_blur :: bool
  cg_blur_radius :: u32
  cg_layout :: rstr
  cg_desktop_count :: u32
  cg_keybindings :: "key_binding list"

text \<open>The configuration \<open>new\<close> starts from; \<open>one\<close> is \<open>1.0\<close>.\<close>

definition config_initial :: "'f \<Rightarrow> 'f config" where
  "config_initial one =
     \<lparr>cg_theme = theme_default, cg_gap = 4, cg_border_width = 1, cg_border_radius = 8, cg_animations = True,
      cg_anim_speed = one, cg_blur = True, cg_blur_radius = 10, cg_layout = lit ''float'', cg_desktop_count = 4,
      cg_keybindings = []\<rparr>"

section \<open>The functions scripts can call\<close>

datatype 'd lua_value = LNil | LBool bool | LInteger "64 word" | LNumber 'd | LString "rstr option" | LOther

definition lua_text :: "rstr \<Rightarrow> rstr option \<Rightarrow> rstr" where
  "lua_text d s = (case s of None \<Rightarrow> d | Some x \<Rightarrow> x)"

definition themed :: "'d lua_value \<Rightarrow> rstr \<Rightarrow> rstr" where
  "themed v old = (case v of LString s \<Rightarrow> lua_text [] s | _ \<Rightarrow> old)"

definition apply_theme :: "(string \<Rightarrow> 'd lua_value) \<Rightarrow> 'f config \<Rightarrow> 'f config" where
  "apply_theme t c =
     c\<lparr>cg_theme := \<lparr>tm_bg = themed (t ''bg'') (tm_bg (cg_theme c)), tm_fg = themed (t ''fg'') (tm_fg (cg_theme c)),
         tm_accent = themed (t ''accent'') (tm_accent (cg_theme c)), tm_border = themed (t ''border'') (tm_border (cg_theme c))\<rparr>\<rparr>"

definition set_option :: "('d \<Rightarrow> 'f) \<Rightarrow> string \<Rightarrow> 'd lua_value \<Rightarrow> 'f config \<Rightarrow> 'f config" where
  "set_option as_f32 k v c =
     (if k = ''gap'' then (case v of LInteger n \<Rightarrow> c\<lparr>cg_gap := ucast n\<rparr> | _ \<Rightarrow> c)
      else if k = ''border_width'' then (case v of LInteger n \<Rightarrow> c\<lparr>cg_border_width := ucast n\<rparr> | _ \<Rightarrow> c)
      else if k = ''border_radius'' then (case v of LInteger n \<Rightarrow> c\<lparr>cg_border_radius := ucast n\<rparr> | _ \<Rightarrow> c)
      else if k = ''animations'' then (case v of LBool b \<Rightarrow> c\<lparr>cg_animations := b\<rparr> | _ \<Rightarrow> c)
      else if k = ''anim_speed'' then (case v of LNumber f \<Rightarrow> c\<lparr>cg_anim_speed := as_f32 f\<rparr> | _ \<Rightarrow> c)
      else if k = ''blur'' then (case v of LBool b \<Rightarrow> c\<lparr>cg_blur := b\<rparr> | _ \<Rightarrow> c)
      else if k = ''blur_radius'' then (case v of LInteger n \<Rightarrow> c\<lparr>cg_blur_radius := ucast n\<rparr> | _ \<Rightarrow> c)
      else if k = ''layout'' then (case v of LString s \<Rightarrow> c\<lparr>cg_layout := lua_text (lit ''float'') s\<rparr> | _ \<Rightarrow> c)
      else if k = ''desktop_count'' then (case v of LInteger n \<Rightarrow> c\<lparr>cg_desktop_count := ucast n\<rparr> | _ \<Rightarrow> c)
      else c)"

definition bind_key :: "rstr \<Rightarrow> rstr \<Rightarrow> 'f config \<Rightarrow> 'f config" where
  "bind_key keys action c = c\<lparr>cg_keybindings := cg_keybindings c @ [\<lparr>kb_keys = keys, kb_action = action\<rparr>]\<rparr>"

text \<open>\<open>_log\<close> only logs.\<close>

datatype 'd api_call =
  ApplyTheme "string \<Rightarrow> 'd lua_value" | SetOption string "'d lua_value" | BindKey rstr rstr | LogLine rstr rstr

fun call_api :: "('d \<Rightarrow> 'f) \<Rightarrow> 'd api_call \<Rightarrow> 'f config \<Rightarrow> 'f config" where
  "call_api as_f32 (ApplyTheme t) c = apply_theme t c"
| "call_api as_f32 (SetOption k v) c = set_option as_f32 k v c"
| "call_api as_f32 (BindKey ks a) c = bind_key ks a c"
| "call_api as_f32 (LogLine l m) c = c"

section \<open>Scripts\<close>

definition exec_script :: "('d \<Rightarrow> 'f) \<Rightarrow> 'd api_call list \<times> rstr option \<Rightarrow> 'f config \<Rightarrow> (rstr + unit) \<times> 'f config" where
  "exec_script as_f32 run c =
     (case run of (calls, err) \<Rightarrow>
        (case err of None \<Rightarrow> Inr () | Some e \<Rightarrow> Inl e, fold (call_api as_f32) calls c))"

definition str_table :: "(string \<times> string) list \<Rightarrow> string \<Rightarrow> 'd lua_value" where
  "str_table t k = (case map_of t k of None \<Rightarrow> LNil | Some s \<Rightarrow> LString (Some (lit s)))"

definition stdlib_calls :: "'d \<Rightarrow> 'd api_call list" where
  "stdlib_calls one =
     [ApplyTheme (str_table [(''bg'', ''#0f1117''), (''fg'', ''#e2e8f0''), (''accent'', ''#7c3aed''), (''border'', ''#2d3748'')]),
      SetOption ''gap'' (LInteger 4), SetOption ''border_width'' (LInteger 1), SetOption ''border_radius'' (LInteger 8),
      SetOption ''animations'' (LBool True), SetOption ''anim_speed'' (LNumber one),
      SetOption ''blur'' (LBool True), SetOption ''blur_radius'' (LInteger 10),
      SetOption ''layout'' (LString (Some (lit ''float''))), SetOption ''desktop_count'' (LInteger 4)] @
     map (\<lambda>(k, a). BindKey (lit k) (lit a))
       [(''super+return'', ''terminal''), (''super+b'', ''browser''), (''super+q'', ''close_window''),
        (''super+f'', ''toggle_fullscreen''), (''super+space'', ''launcher''), (''super+tab'', ''next_window''),
        (''super+left'', ''snap_left''), (''super+right'', ''snap_right''), (''super+up'', ''maximize''),
        (''super+down'', ''restore''), (''super+1'', ''desktop_1''), (''super+2'', ''desktop_2''),
        (''super+3'', ''desktop_3''), (''super+4'', ''desktop_4''), (''super+shift+r'', ''lua_cb_super+shift+r''),
        (''ctrl+alt+t'', ''terminal''), (''super+l'', ''lock_screen''), (''super+shift+s'', ''screenshot'')] @
     [SetOption ''hot_corner_0'' (LString (Some (lit ''overview''))), SetOption ''hot_corner_3'' (LString (Some (lit ''launcher''))),
      SetOption ''hot_corner_2'' (LString (Some (lit ''desktop''))),
      LogLine (lit ''INFO'') (lit ''NexusOS config API loaded'')]"

definition config_new :: "('d \<Rightarrow> 'f) \<Rightarrow> 'd \<Rightarrow> 'f config" where
  "config_new as_f32 one = snd (exec_script as_f32 (stdlib_calls one, None) (config_initial (as_f32 one)))"

text \<open>
  The user's file: absent, unreadable, or a text that \<open>lua\<close> runs. An error in the script keeps the calls made before it.
\<close>

datatype user_file = Missing | Unreadable rstr | Readable rstr

definition load_user_config ::
  "('d \<Rightarrow> 'f) \<Rightarrow> (rstr \<Rightarrow> 'd api_call list \<times> rstr option) \<Rightarrow> user_file \<Rightarrow> 'f config \<Rightarrow> (rstr + unit) \<times> 'f config" where
  "load_user_config as_f32 lua file c =
     (case file of
        Missing \<Rightarrow> (Inr (), c)
      | Unreadable e \<Rightarrow> (Inl e, c)
      | Readable src \<Rightarrow> exec_script as_f32 (lua src) c)"

definition reload ::
  "('d \<Rightarrow> 'f) \<Rightarrow> (rstr \<Rightarrow> 'd api_call list \<times> rstr option) \<Rightarrow> user_file \<Rightarrow> 'f config \<Rightarrow> (rstr + unit) \<times> 'f config" where
  "reload = load_user_config"

section \<open>Reloading\<close>

fun bindings :: "'d api_call list \<Rightarrow> key_binding list" where
  "bindings [] = []"
| "bindings (BindKey k a # cs) = \<lparr>kb_keys = k, kb_action = a\<rparr> # bindings cs"
| "bindings (_ # cs) = bindings cs"

lemma call_api_bindings: "cg_keybindings (call_api f x c) = cg_keybindings c @ bindings [x]"
  by (cases x) (auto simp: apply_theme_def set_option_def bind_key_def split: lua_value.splits)

lemma bindings_Cons: "bindings (x # xs) = bindings [x] @ bindings xs"
  by (cases x) simp_all

lemma fold_bindings: "cg_keybindings (fold (call_api f) cs c) = cg_keybindings c @ bindings cs"
proof (induction cs arbitrary: c)
  case (Cons x cs)
  then show ?case using bindings_Cons [of x cs] by (simp add: call_api_bindings)
qed simp

text \<open>A part of the state that each call either sets to a value of its own or leaves alone is settled after one run.\<close>

definition steady :: "('d \<Rightarrow> 'f) \<Rightarrow> ('f config \<Rightarrow> 'v) \<Rightarrow> bool" where
  "steady f part \<longleftrightarrow> (\<forall>x. (\<forall>c. part (call_api f x c) = part c) \<or> (\<exists>v. \<forall>c. part (call_api f x c) = v))"

lemma settled:
  assumes "steady f part"
  shows "part (fold (call_api f) xs (fold (call_api f) xs c)) = part (fold (call_api f) xs c)"
proof -
  have "(\<exists>v. \<forall>c. part (fold (call_api f) xs c) = v) \<or> (\<forall>c. part (fold (call_api f) xs c) = part c)"
  proof (induction xs rule: rev_induct)
    case (snoc x xs)
    then show ?case using assms unfolding steady_def by (simp, metis)
  qed simp
  then show ?thesis by metis
qed

lemma steady_by:
  fixes f :: "'d \<Rightarrow> 'f" and part :: "'f config \<Rightarrow> 'v"
    and conv :: "'d lua_value \<Rightarrow> 'v option" and tval :: "(string \<Rightarrow> 'd lua_value) \<Rightarrow> 'v option"
  assumes "\<And>k v c. part (set_option f k v c) = (if k = key then (case conv v of Some w \<Rightarrow> w | None \<Rightarrow> part c) else part c)"
    and "\<And>t c. part (apply_theme t c) = (case tval t of Some w \<Rightarrow> w | None \<Rightarrow> part c)"
    and "\<And>k a c. part (bind_key k a c) = part c"
  shows "steady f part"
  unfolding steady_def
proof
  fix x
  show "(\<forall>c. part (call_api f x c) = part c) \<or> (\<exists>v. \<forall>c. part (call_api f x c) = v)"
  proof (cases x)
    case (ApplyTheme t)
    then show ?thesis using assms(2) by (cases "tval t") simp_all
  next
    case (SetOption k v)
    then show ?thesis using assms(1) by (cases "k = key"; cases "conv v") simp_all
  qed (simp_all add: assms(3))
qed

definition as_int :: "'d lua_value \<Rightarrow> u32 option" where
  "as_int v = (case v of LInteger n \<Rightarrow> Some (ucast n) | _ \<Rightarrow> None)"

definition as_bool :: "'d lua_value \<Rightarrow> bool option" where
  "as_bool v = (case v of LBool b \<Rightarrow> Some b | _ \<Rightarrow> None)"

definition as_number :: "('d \<Rightarrow> 'f) \<Rightarrow> 'd lua_value \<Rightarrow> 'f option" where
  "as_number f v = (case v of LNumber d \<Rightarrow> Some (f d) | _ \<Rightarrow> None)"

definition as_text :: "rstr \<Rightarrow> 'd lua_value \<Rightarrow> rstr option" where
  "as_text d v = (case v of LString s \<Rightarrow> Some (lua_text d s) | _ \<Rightarrow> None)"

lemmas steady_defs = set_option_def apply_theme_def bind_key_def as_int_def as_bool_def as_number_def as_text_def themed_def

lemma steady_parts:
  "steady f cg_gap" "steady f cg_border_width" "steady f cg_border_radius" "steady f cg_blur_radius"
  "steady f cg_desktop_count" "steady f cg_animations" "steady f cg_blur" "steady f cg_anim_speed" "steady f cg_layout"
  by (-, (rule steady_by [where conv = as_int and key = "''gap''" and tval = "\<lambda>_. None"]
      steady_by [where conv = as_int and key = "''border_width''" and tval = "\<lambda>_. None"]
      steady_by [where conv = as_int and key = "''border_radius''" and tval = "\<lambda>_. None"]
      steady_by [where conv = as_int and key = "''blur_radius''" and tval = "\<lambda>_. None"]
      steady_by [where conv = as_int and key = "''desktop_count''" and tval = "\<lambda>_. None"]
      steady_by [where conv = as_bool and key = "''animations''" and tval = "\<lambda>_. None"]
      steady_by [where conv = as_bool and key = "''blur''" and tval = "\<lambda>_. None"]
      steady_by [where conv = "as_number f" and key = "''anim_speed''" and tval = "\<lambda>_. None"]
      steady_by [where conv = "as_text (lit ''float'')" and key = "''layout''" and tval = "\<lambda>_. None"];
      simp add: steady_defs split: lua_value.splits; fail)+)

lemma steady_theme:
  "steady f (\<lambda>c. tm_bg (cg_theme c))" "steady f (\<lambda>c. tm_fg (cg_theme c))"
  "steady f (\<lambda>c. tm_accent (cg_theme c))" "steady f (\<lambda>c. tm_border (cg_theme c))"
  by (-, (rule steady_by [where conv = "\<lambda>_. None" and tval = "\<lambda>t. as_text [] (t ''bg'')"]
      steady_by [where conv = "\<lambda>_. None" and tval = "\<lambda>t. as_text [] (t ''fg'')"]
      steady_by [where conv = "\<lambda>_. None" and tval = "\<lambda>t. as_text [] (t ''accent'')"]
      steady_by [where conv = "\<lambda>_. None" and tval = "\<lambda>t. as_text [] (t ''border'')"];
      simp add: steady_defs split: lua_value.splits; fail)+)

lemma settings_settled:
  "(fold (call_api f) cs (fold (call_api f) cs c))\<lparr>cg_keybindings := []\<rparr> = (fold (call_api f) cs c)\<lparr>cg_keybindings := []\<rparr>"
  by (intro config.equality theme.equality)
    (simp_all add: steady_parts [THEN settled] steady_theme [THEN settled])

text \<open>
  Hot reload. Running the user's script a second time reports the same, leaves every setting as the first run left
  it, and adds every key binding of the script once more; nothing ever removes a binding. A script that
  fails keeps what it did before the error, and a missing file changes nothing.
\<close>

theorem reload_repeats_bindings:
  assumes "lua src = (calls, err)"
  shows "\<exists>c1 c2. load_user_config f lua (Readable src) c = (case_option (Inr ()) Inl err, c1) \<and>
    reload f lua (Readable src) c1 = (case_option (Inr ()) Inl err, c2) \<and>
    c2\<lparr>cg_keybindings := []\<rparr> = c1\<lparr>cg_keybindings := []\<rparr> \<and>
    cg_keybindings c1 = cg_keybindings c @ bindings calls \<and>
    cg_keybindings c2 = cg_keybindings c @ bindings calls @ bindings calls \<and>
    reload f lua Missing c = (Inr (), c)"
  using assms settings_settled [of f calls c]
  by (cases err) (simp_all add: load_user_config_def reload_def exec_script_def fold_bindings)

text \<open>A script that sets the gap and binds one key, on top of the built-in bindings.\<close>

lemma reload_repeats_bindings_witness:
  "\<exists>c1 c2. load_user_config id (\<lambda>_. ([SetOption ''gap'' (LInteger 8), BindKey (lit ''super+e'') (lit ''editor'')], None))
       (Readable []) (config_new id (1 :: nat)) = (Inr (), c1) \<and>
     reload id (\<lambda>_. ([SetOption ''gap'' (LInteger 8), BindKey (lit ''super+e'') (lit ''editor'')], None)) (Readable []) c1 = (Inr (), c2) \<and>
     length (cg_keybindings c1) = 19 \<and> length (cg_keybindings c2) = 20"
proof -
  let ?cs = "[SetOption ''gap'' (LInteger 8), BindKey (lit ''super+e'') (lit ''editor'')] :: nat api_call list"
  have "cg_keybindings (config_new id (1 :: nat)) = bindings (stdlib_calls (1 :: nat))"
    by (simp add: config_new_def exec_script_def fold_bindings config_initial_def)
  then have n: "length (cg_keybindings (config_new id (1 :: nat))) = 18" by (simp add: stdlib_calls_def)
  show ?thesis
    using reload_repeats_bindings [of "\<lambda>_. (?cs, None)" "[]" ?cs None id "config_new id (1 :: nat)"] n by auto
qed

text \<open>The built-in script changes no setting: it only adds its 18 bindings to the initial configuration.\<close>

lemma config_new_settings:
  "(config_new f one)\<lparr>cg_keybindings := []\<rparr> = config_initial (f one)"
  by (simp add: config_new_def exec_script_def stdlib_calls_def config_initial_def set_option_def apply_theme_def
      bind_key_def str_table_def themed_def lua_text_def theme_default_def)

text \<open>Settings the engine does not know are ignored, and a negative or large number loses its high bits.\<close>

lemma set_option_ignores:
  "set_option f ''reload'' v c = c" "set_option f ''ai_key'' v c = c" "set_option f ''hot_corner_0'' v c = c"
  "set_option f ''anim_speed'' (LInteger n) c = c"
  "cg_gap (set_option f ''gap'' (LInteger (- 1)) c) = 0xFFFFFFFF"
proof -
  have "ucast (- 1 :: 64 word) = (0xFFFFFFFF :: u32)" by code_simp
  then show "cg_gap (set_option f ''gap'' (LInteger (- 1)) c) = 0xFFFFFFFF" by (simp add: set_option_def)
qed (simp_all add: set_option_def)

end
