(* ===== verification/ShellLine.thy ===== *)
theory ShellLine
  imports AiEngine ShellHistory ShellParser
begin

text \<open>
  The line editor and the command loop of the user shell (\<open>shell/src/main.rs\<close>). The buffer is a vector of
  characters; the history and the parser, whose models are ASCII, get its characters one by one. What is
  drawn on the terminal is left out, and so are the banner, the help text and the terminal modes. An operation that calls
  the engine may panic or, in principle, not return: its result is \<open>Ret None\<close> then. Running a command is the list of what
  is asked of the operating system, whose answers the shell only prints.
\<close>

section \<open>State and keys\<close>

record 'c shell =
  sl_ai :: "'c engine"
  sl_history :: history
  sl_buf :: rstr
  sl_cursor :: nat
  sl_ghost :: "rstr option"
  sl_hist_idx :: "nat option"
  sl_hist_saved :: rstr

datatype key =
  KChar nat | KTab | KEnter | KBackspace | KUp | KDown | KLeft | KRight |
  KCtrlA | KCtrlC | KCtrlD | KCtrlE | KCtrlK | KCtrlL | KCtrlR | KCtrlU | KCtrlW |
  KAltB | KAltF | KUnknown

datatype key_action = ActContinue | ActExecute | ActQuit

definition to_ascii :: "rstr \<Rightarrow> string" where
  "to_ascii s = map char_of s"

text \<open>The bytes of one read; \<open>decode\<close> is \<open>from_utf8\<close>.\<close>

definition read_key :: "(u8 list \<Rightarrow> rstr option) \<Rightarrow> u8 list \<Rightarrow> key" where
  "read_key decode bs =
     (if bs = [] then KUnknown
      else if bs = [0x0D] \<or> bs = [0x0A] then KEnter
      else if bs = [0x09] then KTab
      else if bs = [0x7F] \<or> bs = [0x08] then KBackspace
      else if bs = [0x01] then KCtrlA
      else if bs = [0x03] then KCtrlC
      else if bs = [0x04] then KCtrlD
      else if bs = [0x05] then KCtrlE
      else if bs = [0x0B] then KCtrlK
      else if bs = [0x0C] then KCtrlL
      else if bs = [0x12] then KCtrlR
      else if bs = [0x15] then KCtrlU
      else if bs = [0x17] then KCtrlW
      else if bs = [0x1B, 0x62] then KAltB
      else if bs = [0x1B, 0x66] then KAltF
      else if bs = [0x1B, 0x5B, 0x41] then KUp
      else if bs = [0x1B, 0x5B, 0x42] then KDown
      else if bs = [0x1B, 0x5B, 0x43] then KRight
      else if bs = [0x1B, 0x5B, 0x44] then KLeft
      else if length bs = 1 \<and> (hd bs < 0x20 \<or> 0x7F \<le> hd bs \<and> hd bs < 0xA0) then KUnknown
      else case decode bs of
        Some (ch # _) \<Rightarrow> KChar ch
      | _ \<Rightarrow> KUnknown)"

section \<open>Vectors of characters\<close>

definition vec_insert :: "nat \<Rightarrow> nat \<Rightarrow> rstr \<Rightarrow> rstr outcome" where
  "vec_insert i c xs = (if i \<le> length xs then Ret (take i xs @ c # drop i xs) else Panic ''insertion index'')"

definition vec_remove :: "nat \<Rightarrow> rstr \<Rightarrow> rstr outcome" where
  "vec_remove i xs = (if i < length xs then Ret (take i xs @ drop (Suc i) xs) else Panic ''removal index'')"

definition vec_drain :: "nat \<Rightarrow> nat \<Rightarrow> rstr \<Rightarrow> rstr outcome" where
  "vec_drain a b xs =
     (if a \<le> b \<and> b \<le> length xs then Ret (take a xs @ drop b xs) else Panic ''drain range'')"

fun insert_chars :: "nat \<Rightarrow> rstr \<Rightarrow> rstr \<Rightarrow> rstr outcome" where
  "insert_chars pos [] buf = Ret buf"
| "insert_chars pos (c # cs) buf = bind_outcome (vec_insert pos c buf) (insert_chars (Suc pos) cs)"

text \<open>\<open>while cursor > 0 && p(buf[cursor - 1])\<close> and its mirror image.\<close>

fun back_while :: "(nat \<Rightarrow> bool) \<Rightarrow> rstr \<Rightarrow> nat \<Rightarrow> nat outcome" where
  "back_while p buf 0 = Ret 0"
| "back_while p buf (Suc k) =
     (if length buf \<le> k then Panic ''index out of bounds''
      else if p (buf ! k) then back_while p buf k else Ret (Suc k))"

definition forward_while :: "(nat \<Rightarrow> bool) \<Rightarrow> rstr \<Rightarrow> nat \<Rightarrow> nat" where
  "forward_while p buf k = k + length (takeWhile p (drop k buf))"

section \<open>Editing\<close>

definition insert_at_cursor :: "rstr \<Rightarrow> 'c shell \<Rightarrow> 'c shell outcome" where
  "insert_at_cursor cs s =
     bind_outcome (insert_chars (sl_cursor s) cs (sl_buf s)) (\<lambda>buf.
       Ret (s\<lparr>sl_buf := buf, sl_cursor := sl_cursor s + length cs\<rparr>))"

definition accept_ghost :: "rstr \<Rightarrow> 'c shell \<Rightarrow> 'c shell outcome" where
  "accept_ghost ghost s = insert_at_cursor ghost s"

definition some_rest :: "rstr \<Rightarrow> rstr option" where
  "some_rest r = (if r = [] then None else Some r)"

text \<open>The ghost text up to and with its first blank.\<close>

definition ghost_word :: "rstr \<Rightarrow> rstr \<times> rstr" where
  "ghost_word g =
     (let e = (if 32 \<in> set g then length (takeWhile (\<lambda>c. c \<noteq> 32) g) + 1 else length g)
      in (take e g, drop e g))"

definition key_right :: "'c shell \<Rightarrow> 'c shell outcome" where
  "key_right s =
     (if sl_cursor s < length (sl_buf s) then Ret (s\<lparr>sl_cursor := sl_cursor s + 1\<rparr>)
      else case sl_ghost s of
        None \<Rightarrow> Ret s
      | Some ghost \<Rightarrow>
          (case ghost_word ghost of (word, rest) \<Rightarrow>
             bind_outcome (insert_at_cursor word (s\<lparr>sl_ghost := None\<rparr>)) (\<lambda>s1. Ret (s1\<lparr>sl_ghost := some_rest rest\<rparr>))))"

definition key_backspace :: "'c shell \<Rightarrow> 'c shell outcome" where
  "key_backspace s =
     (let s1 = s\<lparr>sl_ghost := None\<rparr>
      in if 0 < sl_cursor s1 then
           bind_outcome (vec_remove (sl_cursor s1 - 1) (sl_buf s1)) (\<lambda>buf.
             Ret (s1\<lparr>sl_cursor := sl_cursor s1 - 1, sl_buf := buf\<rparr>))
         else Ret s1)"

definition delete_word :: "'c shell \<Rightarrow> 'c shell outcome" where
  "delete_word s =
     bind_outcome (back_while is_whitespace (sl_buf s) (sl_cursor s)) (\<lambda>c1.
     bind_outcome (back_while (\<lambda>c. \<not> is_whitespace c) (sl_buf s) c1) (\<lambda>c2.
     bind_outcome (vec_drain c2 (sl_cursor s) (sl_buf s)) (\<lambda>buf. Ret (s\<lparr>sl_cursor := c2, sl_buf := buf\<rparr>))))"

definition move_word :: "(nat \<Rightarrow> bool) \<Rightarrow> bool \<Rightarrow> 'c shell \<Rightarrow> 'c shell outcome" where
  "move_word uni forward s =
     (if forward then
        let c1 = forward_while (\<lambda>c. \<not> is_alphanumeric uni c) (sl_buf s) (sl_cursor s)
        in Ret (s\<lparr>sl_cursor := forward_while (is_alphanumeric uni) (sl_buf s) c1\<rparr>)
      else if sl_cursor s = 0 then Ret s
      else
        bind_outcome (back_while (\<lambda>c. \<not> is_alphanumeric uni c) (sl_buf s) (sl_cursor s - 1)) (\<lambda>c1.
        bind_outcome (back_while (is_alphanumeric uni) (sl_buf s) c1) (\<lambda>c2. Ret (s\<lparr>sl_cursor := c2\<rparr>))))"

definition set_line :: "rstr \<Rightarrow> 'c shell \<Rightarrow> 'c shell" where
  "set_line l s = s\<lparr>sl_buf := l, sl_cursor := length l\<rparr>"

definition reset :: "'c shell \<Rightarrow> 'c shell" where
  "reset s = s\<lparr>sl_buf := [], sl_cursor := 0, sl_ghost := None, sl_hist_idx := None\<rparr>"

section \<open>History\<close>

definition show_entry :: "nat \<Rightarrow> 'c shell \<Rightarrow> 'c shell" where
  "show_entry i s = (case history_get i (sl_history s) of None \<Rightarrow> s | Some e \<Rightarrow> set_line (lit e) s)"

definition hist_prev :: "'c shell \<Rightarrow> 'c shell" where
  "hist_prev s =
     (if history_len (sl_history s) = 0 then s
      else
        let s1 = (if sl_hist_idx s = None then s\<lparr>sl_hist_saved := sl_buf s\<rparr> else s);
            i = (case sl_hist_idx s1 of None \<Rightarrow> history_len (sl_history s) - 1 | Some i \<Rightarrow> i - 1)
        in show_entry i (s1\<lparr>sl_hist_idx := Some i\<rparr>))"

definition hist_next :: "'c shell \<Rightarrow> 'c shell" where
  "hist_next s =
     (case sl_hist_idx s of
        None \<Rightarrow> s
      | Some i \<Rightarrow>
          if history_len (sl_history s) \<le> i + 1 then set_line (sl_hist_saved s) (s\<lparr>sl_hist_idx := None\<rparr>)
          else show_entry (i + 1) (s\<lparr>sl_hist_idx := Some (i + 1)\<rparr>))"

definition search_history :: "'c shell \<Rightarrow> 'c shell" where
  "search_history s =
     (let hits = history_search (to_ascii (sl_buf s)) (sl_history s)
      in if hits = [] then s else show_entry (last hits) s)"

section \<open>Completion\<close>

definition bind_run :: "'a option outcome \<Rightarrow> ('a \<Rightarrow> 'b option outcome) \<Rightarrow> 'b option outcome" where
  "bind_run m f = bind_outcome m (\<lambda>r. case r of None \<Rightarrow> Ret None | Some x \<Rightarrow> f x)"

definition done_run :: "'a outcome \<Rightarrow> 'a option outcome" where
  "done_run m = bind_outcome m (\<lambda>x. Ret (Some x))"

text \<open>\<open>ghost := " word"\<close> when the first prediction scores above 0.60.\<close>

definition request_ghost :: "('w, 'v, 'c) ai_env \<Rightarrow> 'c shell \<Rightarrow> 'c shell option outcome" where
  "request_ghost d s =
     (if AiOnline.trim (sl_buf s) = [] then Ret (Some s)
      else bind_run (engine_next_word d (sl_buf s) 1 (sl_ai s)) (\<lambda>(suggestions, ai).
        let s1 = s\<lparr>sl_ai := ai\<rparr>
        in Ret (Some (case suggestions of
             [] \<Rightarrow> s1
           | (word, score) # _ \<Rightarrow> if 60 < score then s1\<lparr>sl_ghost := Some (32 # word)\<rparr> else s1))))"

definition key_char :: "('w, 'v, 'c) ai_env \<Rightarrow> nat \<Rightarrow> 'c shell \<Rightarrow> 'c shell option outcome" where
  "key_char d c s =
     (case sl_ghost s of
        Some (g # rest) \<Rightarrow>
          if g = c then
            done_run (bind_outcome (vec_insert (sl_cursor s) c (sl_buf s)) (\<lambda>buf.
              Ret (s\<lparr>sl_buf := buf, sl_cursor := sl_cursor s + 1, sl_ghost := some_rest rest\<rparr>)))
          else bind_run (done_run (insert_at_cursor [c] (s\<lparr>sl_ghost := None\<rparr>))) (request_ghost d)
      | _ \<Rightarrow> bind_run (done_run (insert_at_cursor [c] (s\<lparr>sl_ghost := None\<rparr>))) (request_ghost d))"

definition shell_token_char :: "(nat \<Rightarrow> bool) \<Rightarrow> nat \<Rightarrow> bool" where
  "shell_token_char uni c \<longleftrightarrow> is_alphanumeric uni c \<or> c \<in> set (lit ''_:.'')"

definition current_token_len :: "(nat \<Rightarrow> bool) \<Rightarrow> rstr \<Rightarrow> nat" where
  "current_token_len uni line =
     (case rfind (\<lambda>c. \<not> shell_token_char uni c) line of None \<Rightarrow> 0 | Some i \<Rightarrow> str_len line - i - 1)"

definition tab_request :: "rstr \<Rightarrow> completion_req" where
  "tab_request line = \<lparr>cr_prefix = line, cr_line = line, cr_language = Some (lit ''shell''), cr_max_tokens = 64, cr_n = 12\<rparr>"

text \<open>One result is put in, several are shown, none rings the bell.\<close>

definition do_tab_complete :: "('w, 'v, 'c) ai_env \<Rightarrow> u32 \<Rightarrow> 'c shell \<times> 'w \<Rightarrow> ('c shell \<times> 'w) option outcome" where
  "do_tab_complete d ms sw =
     (case sw of (s, w) \<Rightarrow>
        bind_run (engine_complete d ms (tab_request (sl_buf s)) (sl_ai s, w)) (\<lambda>(r, ai, w1).
          let s1 = s\<lparr>sl_ai := ai\<rparr>
          in case r of
               Inr [x] \<Rightarrow>
                 done_run (bind_outcome (slice_from (current_token_len (ae_uni d) (sl_buf s)) (cs_text x)) (\<lambda>suf.
                   bind_outcome (insert_at_cursor suf s1) (\<lambda>s2. Ret (s2, w1))))
             | _ \<Rightarrow> Ret (Some (s1, w1))))"

section \<open>The key handler\<close>

definition pure_key :: "'c shell \<times> 'w \<Rightarrow> 'c shell outcome \<Rightarrow> (key_action \<times> 'c shell \<times> 'w) option outcome" where
  "pure_key sw m = done_run (bind_outcome m (\<lambda>s. Ret (ActContinue, s, snd sw)))"

fun handle :: "('w, 'v, 'c) ai_env \<Rightarrow> u32 \<Rightarrow> key \<Rightarrow> 'c shell \<times> 'w \<Rightarrow> (key_action \<times> 'c shell \<times> 'w) option outcome" where
  "handle d ms KTab (s, w) =
     (case sl_ghost s of
        Some ghost \<Rightarrow> pure_key (s, w) (accept_ghost ghost (s\<lparr>sl_ghost := None\<rparr>))
      | None \<Rightarrow> bind_run (do_tab_complete d ms (s, w)) (\<lambda>sw. Ret (Some (ActContinue, sw))))"
| "handle d ms KRight (s, w) = pure_key (s, w) (key_right s)"
| "handle d ms (KChar c) (s, w) = bind_run (key_char d c s) (\<lambda>s1. Ret (Some (ActContinue, s1, w)))"
| "handle d ms KBackspace (s, w) = pure_key (s, w) (key_backspace s)"
| "handle d ms KEnter (s, w) = Ret (Some (ActExecute, s, w))"
| "handle d ms KCtrlC (s, w) = pure_key (s, w) (Ret (reset s))"
| "handle d ms KCtrlD (s, w) =
     (if sl_buf s = [] then Ret (Some (ActQuit, s, w)) else pure_key (s, w) (Ret (reset s)))"
| "handle d ms KUp (s, w) = pure_key (s, w) (Ret (hist_prev s))"
| "handle d ms KDown (s, w) = pure_key (s, w) (Ret (hist_next s))"
| "handle d ms KLeft (s, w) = pure_key (s, w) (Ret (if 0 < sl_cursor s then s\<lparr>sl_cursor := sl_cursor s - 1\<rparr> else s))"
| "handle d ms KCtrlA (s, w) = pure_key (s, w) (Ret (s\<lparr>sl_cursor := 0\<rparr>))"
| "handle d ms KCtrlE (s, w) = pure_key (s, w) (Ret (s\<lparr>sl_cursor := length (sl_buf s)\<rparr>))"
| "handle d ms KCtrlK (s, w) = pure_key (s, w) (Ret (s\<lparr>sl_buf := take (sl_cursor s) (sl_buf s)\<rparr>))"
| "handle d ms KCtrlU (s, w) =
     pure_key (s, w) (bind_outcome (vec_drain 0 (sl_cursor s) (sl_buf s)) (\<lambda>buf. Ret (s\<lparr>sl_buf := buf, sl_cursor := 0\<rparr>)))"
| "handle d ms KCtrlW (s, w) = pure_key (s, w) (delete_word s)"
| "handle d ms KCtrlL (s, w) = pure_key (s, w) (Ret s)"
| "handle d ms KCtrlR (s, w) = pure_key (s, w) (Ret (search_history s))"
| "handle d ms KAltB (s, w) = pure_key (s, w) (move_word (ae_uni d) False s)"
| "handle d ms KAltF (s, w) = pure_key (s, w) (move_word (ae_uni d) True s)"
| "handle d ms KUnknown (s, w) = pure_key (s, w) (Ret s)"

section \<open>The editor as two strings\<close>

text \<open>The cursor is inside the buffer; what the user sees is the text before it and the text behind it.\<close>

definition cursor_ok :: "'c shell \<Rightarrow> bool" where
  "cursor_ok s \<longleftrightarrow> sl_cursor s \<le> length (sl_buf s)"

definition sides :: "'c shell \<Rightarrow> rstr \<times> rstr" where
  "sides s = (take (sl_cursor s) (sl_buf s), drop (sl_cursor s) (sl_buf s))"

definition drop_back :: "(nat \<Rightarrow> bool) \<Rightarrow> rstr \<Rightarrow> rstr" where
  "drop_back p l = rev (dropWhile p (rev l))"

fun edit :: "(nat \<Rightarrow> bool) \<Rightarrow> key \<Rightarrow> rstr \<times> rstr \<Rightarrow> rstr \<times> rstr" where
  "edit uni KBackspace (l, r) = (butlast l, r)"
| "edit uni KLeft (l, r) = (if l = [] then (l, r) else (butlast l, last l # r))"
| "edit uni KRight (l, r) = (if r = [] then (l, r) else (l @ [hd r], tl r))"
| "edit uni KCtrlA (l, r) = ([], l @ r)"
| "edit uni KCtrlE (l, r) = (l @ r, [])"
| "edit uni KCtrlK (l, r) = (l, [])"
| "edit uni KCtrlU (l, r) = ([], r)"
| "edit uni KCtrlW (l, r) = (drop_back (\<lambda>c. \<not> is_whitespace c) (drop_back is_whitespace l), r)"
| "edit uni KAltB (l, r) =
     (let k = drop_back (is_alphanumeric uni) (drop_back (\<lambda>c. \<not> is_alphanumeric uni c) (butlast l))
      in (k, drop (length k) l @ r))"
| "edit uni KAltF (l, r) =
     (let a = takeWhile (\<lambda>c. \<not> is_alphanumeric uni c) r; b = takeWhile (is_alphanumeric uni) (drop (length a) r)
      in (l @ a @ b, drop (length a + length b) r))"
| "edit uni (KChar c) (l, r) = (l @ [c], r)"
| "edit uni _ lr = lr"

lemma length_drop_back: "length (drop_back p l) \<le> length l"
  using length_dropWhile_le [of p "rev l"] by (simp add: drop_back_def)

lemma take_drop_back: "take (length (drop_back p l)) l = drop_back p l"
proof -
  have "l = rev (takeWhile p (rev l) @ dropWhile p (rev l))" by simp
  then have "l = drop_back p l @ rev (takeWhile p (rev l))" unfolding drop_back_def by (metis rev_append)
  then show ?thesis by (metis append_eq_conv_conj)
qed

lemma back_while_eq: "k \<le> length buf \<Longrightarrow> back_while p buf k = Ret (length (drop_back p (take k buf)))"
proof (induction k)
  case (Suc k)
  have "take (Suc k) buf = take k buf @ [buf ! k]" using Suc.prems by (simp add: take_Suc_conv_app_nth)
  then show ?case using Suc by (auto simp: drop_back_def)
qed (simp add: drop_back_def)

lemma insert_chars_eq:
  "pos \<le> length buf \<Longrightarrow> insert_chars pos cs buf = Ret (take pos buf @ cs @ drop pos buf)"
  by (induction cs arbitrary: pos buf) (simp_all add: vec_insert_def)

lemma insert_at_cursor_eq:
  assumes "cursor_ok s"
  shows "\<exists>s'. insert_at_cursor cs s = Ret s' \<and> cursor_ok s' \<and> sides s' = (fst (sides s) @ cs, snd (sides s)) \<and>
    s' = s\<lparr>sl_buf := sl_buf s', sl_cursor := sl_cursor s'\<rparr>"
  using assms by (simp add: insert_at_cursor_def insert_chars_eq cursor_ok_def sides_def)

lemma key_backspace_sides:
  assumes "cursor_ok s"
  shows "\<exists>s'. key_backspace s = Ret s' \<and> cursor_ok s' \<and> sides s' = edit uni KBackspace (sides s)"
proof (cases "sl_cursor s")
  case 0
  then show ?thesis by (simp add: key_backspace_def Let_def cursor_ok_def sides_def)
next
  case (Suc k)
  then have "k < length (sl_buf s)" using assms by (simp add: cursor_ok_def)
  then show ?thesis using Suc
    by (simp add: key_backspace_def Let_def cursor_ok_def sides_def vec_remove_def butlast_take min_def)
qed

lemma delete_word_sides:
  assumes "cursor_ok s"
  shows "\<exists>s'. delete_word s = Ret s' \<and> cursor_ok s' \<and> sides s' = edit uni KCtrlW (sides s)"
proof -
  let ?l = "take (sl_cursor s) (sl_buf s)"
  let ?a = "drop_back is_whitespace ?l" let ?b = "drop_back (\<lambda>c. \<not> is_whitespace c) ?a"
  have c: "sl_cursor s \<le> length (sl_buf s)" using assms by (simp add: cursor_ok_def)
  have a: "length ?a \<le> sl_cursor s" using length_drop_back [of is_whitespace ?l] c by simp
  have "take (length ?a) (sl_buf s) = ?a" using take_drop_back [of is_whitespace ?l] a by (simp add: min_def)
  then have b: "back_while (\<lambda>c. \<not> is_whitespace c) (sl_buf s) (length ?a) = Ret (length ?b)"
    using back_while_eq [of "length ?a" "sl_buf s"] a c by simp
  have l: "length ?b \<le> length ?a" by (rule length_drop_back)
  have "take (length ?b) (take (length ?a) (sl_buf s)) = ?b"
    using take_drop_back [of "\<lambda>c. \<not> is_whitespace c" ?a] \<open>take (length ?a) (sl_buf s) = ?a\<close> by simp
  then have t: "take (length ?b) (sl_buf s) = ?b" using l by (simp add: min_def)
  have "delete_word s = Ret (s\<lparr>sl_cursor := length ?b, sl_buf := ?b @ drop (sl_cursor s) (sl_buf s)\<rparr>)"
    using a l c by (simp add: delete_word_def back_while_eq [OF c] b vec_drain_def t)
  then show ?thesis by (simp add: cursor_ok_def sides_def)
qed

lemma drop_split:
  assumes "n \<le> c" and "c \<le> length xs"
  shows "drop n xs = drop n (take c xs) @ drop c xs"
proof -
  have "drop n xs = drop n (take c xs @ drop c xs)" by simp
  also have "\<dots> = drop n (take c xs) @ drop c xs" using assms by (simp only: drop_append length_take) simp
  finally show ?thesis .
qed

lemma move_word_sides:
  assumes "cursor_ok s"
  shows "\<exists>s'. move_word uni False s = Ret s' \<and> cursor_ok s' \<and> sides s' = edit uni KAltB (sides s)"
    and "\<exists>s'. move_word uni True s = Ret s' \<and> cursor_ok s' \<and> sides s' = edit uni KAltF (sides s)"
proof -
  let ?buf = "sl_buf s" and ?c = "sl_cursor s" and ?p = "is_alphanumeric uni" and ?n = "\<lambda>c. \<not> is_alphanumeric uni c"
  have c: "?c \<le> length ?buf" using assms by (simp add: cursor_ok_def)
  show "\<exists>s'. move_word uni False s = Ret s' \<and> cursor_ok s' \<and> sides s' = edit uni KAltB (sides s)"
  proof (cases "?c = 0")
    case True
    then show ?thesis by (simp add: move_word_def cursor_ok_def sides_def drop_back_def Let_def)
  next
    case False
    let ?l = "take (?c - 1) ?buf" let ?a = "drop_back ?n ?l" let ?b = "drop_back ?p ?a"
    have a: "length ?a \<le> ?c - 1" using length_drop_back [of ?n ?l] c by simp
    have t: "take (length ?a) ?buf = ?a" using take_drop_back [of ?n ?l] a by (simp add: min_def)
    then have b: "back_while ?p ?buf (length ?a) = Ret (length ?b)"
      using back_while_eq [of "length ?a" ?buf] a c by simp
    have l: "length ?b \<le> length ?a" by (rule length_drop_back)
    have "take (length ?b) (take (length ?a) ?buf) = ?b" using take_drop_back [of ?p ?a] t by simp
    then have tb: "take (length ?b) ?buf = ?b" using l by (simp add: min_def)
    have m: "move_word uni False s = Ret (s\<lparr>sl_cursor := length ?b\<rparr>)"
      using False c by (simp add: move_word_def back_while_eq b del: One_nat_def)
    have bl: "butlast (take ?c ?buf) = ?l" using c by (simp add: butlast_take)
    have "drop (length ?b) ?buf = drop (length ?b) (take ?c ?buf) @ drop ?c ?buf"
      by (rule drop_split) (use l a c in linarith)+
    moreover have "length ?b \<le> length ?buf" using l a c by linarith
    ultimately show ?thesis using m by (simp add: cursor_ok_def sides_def Let_def bl tb del: One_nat_def)
  qed
  let ?r = "drop ?c ?buf"
  let ?x = "takeWhile ?n ?r" let ?y = "takeWhile ?p (drop (length ?x) ?r)"
  have m: "move_word uni True s = Ret (s\<lparr>sl_cursor := ?c + length ?x + length ?y\<rparr>)"
    by (simp add: move_word_def forward_while_def Let_def add.commute)
  have lx: "length ?x \<le> length ?r" by (rule length_takeWhile_le)
  have ly: "length ?y \<le> length ?r - length ?x" using length_takeWhile_le [of ?p "drop (length ?x) ?r"] by simp
  have "take (length ?x + length ?y) ?r = ?x @ ?y"
    by (simp add: take_add flip: takeWhile_eq_take)
  then have "take (?c + (length ?x + length ?y)) ?buf = take ?c ?buf @ ?x @ ?y" by (simp add: take_add)
  then show "\<exists>s'. move_word uni True s = Ret s' \<and> cursor_ok s' \<and> sides s' = edit uni KAltF (sides s)"
    using m lx ly c by (simp add: cursor_ok_def sides_def Let_def add.assoc add.commute)
qed

definition editing_key :: "key \<Rightarrow> 'c shell \<Rightarrow> bool" where
  "editing_key k s \<longleftrightarrow> k \<in> {KBackspace, KLeft, KCtrlA, KCtrlE, KCtrlK, KCtrlU, KCtrlW, KCtrlL, KAltB, KAltF, KUnknown} \<or>
     (k = KRight \<and> (sl_cursor s < length (sl_buf s) \<or> sl_ghost s = None))"

lemma take_Suc_sides:
  assumes "Suc k \<le> length xs"
  shows "last (take (Suc k) xs) # drop (Suc k) xs = drop k xs" and "butlast (take (Suc k) xs) = take k xs"
  using assms by (simp_all add: take_Suc_conv_app_nth Cons_nth_drop_Suc)

lemma handle_sides:
  assumes "cursor_ok s" and "editing_key k s"
  shows "\<exists>s'. handle d ms k (s, w) = Ret (Some (ActContinue, s', w)) \<and> cursor_ok s' \<and>
    sides s' = edit (ae_uni d) k (sides s)"
proof -
  have c: "sl_cursor s \<le> length (sl_buf s)" using assms(1) by (simp add: cursor_ok_def)
  have p: "\<exists>s'. pure_key (s, w) m = Ret (Some (ActContinue, s', w)) \<and> cursor_ok s' \<and> sides s' = e"
    if "\<exists>s'. m = Ret s' \<and> cursor_ok s' \<and> sides s' = e" for m and e
    using that by (auto simp: pure_key_def done_run_def)
  have right: "\<exists>s'. key_right s = Ret s' \<and> cursor_ok s' \<and> sides s' = edit (ae_uni d) KRight (sides s)"
    if "sl_cursor s < length (sl_buf s) \<or> sl_ghost s = None"
  proof (cases "sl_cursor s < length (sl_buf s)")
    case True
    then show ?thesis
      by (simp add: key_right_def cursor_ok_def sides_def take_Suc_conv_app_nth hd_drop_conv_nth tl_drop drop_Suc)
  next
    case False
    then show ?thesis using that c by (simp add: key_right_def cursor_ok_def sides_def)
  qed
  have left: "\<exists>s'. Ret (if 0 < sl_cursor s then s\<lparr>sl_cursor := sl_cursor s - 1\<rparr> else s) = Ret s' \<and> cursor_ok s' \<and>
      sides s' = edit (ae_uni d) KLeft (sides s)"
  proof (cases "sl_cursor s")
    case (Suc k)
    then show ?thesis using c take_Suc_sides [of k "sl_buf s"] by (auto simp: cursor_ok_def sides_def)
  qed (simp add: cursor_ok_def sides_def)
  have ctrl_u: "\<exists>s'. bind_outcome (vec_drain 0 (sl_cursor s) (sl_buf s)) (\<lambda>buf. Ret (s\<lparr>sl_buf := buf, sl_cursor := 0\<rparr>)) = Ret s' \<and>
      cursor_ok s' \<and> sides s' = edit (ae_uni d) KCtrlU (sides s)"
    using c by (simp add: vec_drain_def cursor_ok_def sides_def)
  show ?thesis
    using assms(2) unfolding editing_key_def
    by (elim disjE conjE insertE emptyE; simp only: handle.simps; intro p)
      (use key_backspace_sides [OF assms(1)] delete_word_sides [OF assms(1)] move_word_sides [OF assms(1)] left ctrl_u right assms(1) c
        in \<open>auto simp: cursor_ok_def sides_def\<close>)
qed

section \<open>Running a line\<close>

text \<open>What is asked of the operating system. The standard streams of a program are those of the shell.\<close>

datatype sh_effect =
  ChangeDir string | SetEnv string string | RunProgram string "string list" | ShowHelp | ReportError parse_error | ExitProcess

text \<open>\<open>split_once('=')\<close>.\<close>

definition split_eq :: "string \<Rightarrow> (string \<times> string) option" where
  "split_eq a =
     (if CHR ''='' \<in> set a then
        Some (takeWhile (\<lambda>c. c \<noteq> CHR ''='') a, tl (dropWhile (\<lambda>c. c \<noteq> CHR ''='') a))
      else None)"

text \<open>The standard library panics for an empty name and for a name or value with a zero byte.\<close>

definition set_var :: "string \<Rightarrow> string \<Rightarrow> env \<Rightarrow> env outcome" where
  "set_var k v env =
     (if k = [] \<or> CHR ''='' \<in> set k \<or> CHR 0x00 \<in> set k \<or> CHR 0x00 \<in> set v then Panic ''failed to set environment variable''
      else Ret (env(k \<mapsto> v)))"

fun run_export :: "string list \<Rightarrow> env \<Rightarrow> (sh_effect list \<times> env) outcome" where
  "run_export [] env = Ret ([], env)"
| "run_export (a # as) env =
     (case split_eq a of
        None \<Rightarrow> run_export as env
      | Some (k, v) \<Rightarrow>
          bind_outcome (set_var k v env) (\<lambda>env1.
            bind_outcome (run_export as env1) (\<lambda>(es, env2). Ret (SetEnv k v # es, env2))))"

definition run_command :: "string list \<Rightarrow> env \<Rightarrow> (sh_effect list \<times> env) outcome" where
  "run_command av env =
     (case av of
        [] \<Rightarrow> Ret ([], env)
      | name # args \<Rightarrow>
          if name = ''cd'' then
            let dir = (case args of [] \<Rightarrow> ''~'' | a # _ \<Rightarrow> a);
                path = (if dir = ''~'' then case env ''HOME'' of None \<Rightarrow> ''/'' | Some h \<Rightarrow> h else dir)
            in Ret ([ChangeDir path], env)
          else if name = ''export'' then run_export args env
          else Ret ([RunProgram name args], env))"

fun run_commands :: "string list list \<Rightarrow> env \<Rightarrow> (sh_effect list \<times> env) outcome" where
  "run_commands [] env = Ret ([], env)"
| "run_commands (av # avs) env =
     bind_outcome (run_command av env) (\<lambda>(es, env1).
       bind_outcome (run_commands avs env1) (\<lambda>(es', env2). Ret (es @ es', env2)))"

fun run_stages :: "pipeline \<Rightarrow> env \<Rightarrow> (sh_effect list \<times> env) outcome" where
  "run_stages [] env = Ret ([], env)"
| "run_stages (cmd # cmds) env =
     bind_outcome (run_command (argv cmd) env) (\<lambda>(es, env1).
       bind_outcome (run_stages cmds env1) (\<lambda>(es', env2). Ret (es @ es', env2)))"

fun run_script :: "script \<Rightarrow> env \<Rightarrow> (sh_effect list \<times> env) outcome" where
  "run_script [] env = Ret ([], env)"
| "run_script (p # ps) env =
     bind_outcome (run_stages p env) (\<lambda>(es, env1).
       bind_outcome (run_script ps env1) (\<lambda>(es', env2). Ret (es @ es', env2)))"

definition execute :: "string \<Rightarrow> env \<Rightarrow> (sh_effect list \<times> env) outcome" where
  "execute line env =
     (let t = ShellHistory.trim line
      in if t = ''exit'' \<or> t = ''quit'' then Ret ([ExitProcess], env)
      else if t = ''help'' then Ret ([ShowHelp], env)
      else case parse env line of
        Inr script \<Rightarrow> run_script script env
      | Inl e \<Rightarrow> Ret ([ReportError e], env))"

text \<open>The command loop on the keys that are read; it ends with the keys, with \<open>Action::Quit\<close>, or in \<open>exit\<close>.\<close>

fun shell_run :: "('w, 'v, 'c) ai_env \<Rightarrow> u32 \<Rightarrow> key list \<Rightarrow> 'c shell \<times> 'w \<times> env \<Rightarrow>
    (sh_effect list \<times> 'c shell \<times> 'w \<times> env) option outcome" where
  "shell_run d ms [] st = Ret (Some ([], st))"
| "shell_run d ms (k # ks) (s, w, env) =
     bind_run (handle d ms k (s, w)) (\<lambda>(action, s1, w1).
       case action of
         ActContinue \<Rightarrow> shell_run d ms ks (s1, w1, env)
       | ActQuit \<Rightarrow> Ret (Some ([], s1, w1, env))
       | ActExecute \<Rightarrow>
           let line = to_ascii (sl_buf s1)
           in if ShellHistory.trim line = [] then shell_run d ms ks (reset s1, w1, env)
              else
                let s2 = s1\<lparr>sl_history := history_push line (sl_history s1)\<rparr>
                in bind_run (done_run (execute line env)) (\<lambda>(es, env1).
                     if ExitProcess \<in> set es then Ret (Some (es, s2, w1, env1))
                     else bind_run (shell_run d ms ks (reset s2, w1, env1)) (\<lambda>(es', st). Ret (Some (es @ es', st)))))"

section \<open>Typing\<close>

text \<open>
  The engine is at hand, and no character of the line makes it panic: a character that cannot be part of a
  token must be ASCII.
\<close>

definition ai_ok :: "('w, 'v, 'c) ai_env \<Rightarrow> 'c engine \<Rightarrow> bool" where
  "ai_ok d e \<longleftrightarrow> trie_wf (en_trie e) \<and> vals_ok (ae_vals d (en_trie e)) (en_trie e) \<and> \<not> of_loaded (en_offline e)"

definition safe_char :: "(nat \<Rightarrow> bool) \<Rightarrow> nat \<Rightarrow> bool" where
  "safe_char uni c \<longleftrightarrow> c < 128 \<or> token_char uni c"

definition editor_ok :: "('w, 'v, 'c) ai_env \<Rightarrow> 'c shell \<Rightarrow> bool" where
  "editor_ok d s \<longleftrightarrow> cursor_ok s \<and> ai_ok d (sl_ai s) \<and> list_all (safe_char (ae_uni d)) (sl_buf s)"

lemma current_token_returns:
  assumes "list_all (safe_char uni) line"
  obtains tok where "current_token uni line = Ret tok"
proof (cases rule: split_token [of uni line])
  case 1
  then show ?thesis using that current_token_eq(1) by blast
next
  case (2 pre c tok)
  then have "c < 128" using assms by (simp add: safe_char_def)
  then show ?thesis using that current_token_eq(2) [OF 2(3,2), of pre] 2(1) by simp
qed

lemma next_word_returns:
  assumes "ai_ok d e" and "list_all (safe_char (ae_uni d)) line"
  obtains r where "engine_next_word d line k e = Ret (Some (r, e))"
proof -
  obtain tok where tok: "current_token (ae_uni d) line = Ret tok" using current_token_returns [OF assms(2)] .
  have ok: "trie_wf (en_trie e)" "vals_ok (ae_vals d (en_trie e)) (en_trie e)" "\<not> of_loaded (en_offline e)"
    using assms(1) by (simp_all add: ai_ok_def)
  have "\<exists>r. complete (ae_uni d) (ae_vals d (en_trie e)) (en_trie e) line k = Ret (Some r)"
    using complete_spec [OF ok(1,2) tok, of k] tok by (cases "tok = []") (simp add: complete_def, blast)
  then obtain r where "complete (ae_uni d) (ae_vals d (en_trie e)) (en_trie e) line k = Ret (Some r)" ..
  then have "\<exists>r. engine_next_word d line k e = Ret (Some (r, e))"
    using ok(3) by (simp add: engine_next_word_def top_k_next_def)
  then show ?thesis using that by blast
qed

lemma request_ghost_returns:
  assumes "editor_ok d s"
  shows "\<exists>g. request_ghost d s = Ret (Some (s\<lparr>sl_ghost := g\<rparr>))"
proof (cases "AiOnline.trim (sl_buf s) = []")
  case True
  then have "request_ghost d s = Ret (Some (s\<lparr>sl_ghost := sl_ghost s\<rparr>))" by (simp add: request_ghost_def)
  then show ?thesis ..
next
  case False
  obtain r where r: "engine_next_word d (sl_buf s) (Suc 0) (sl_ai s) = Ret (Some (r, sl_ai s))"
    using next_word_returns [of d "sl_ai s" "sl_buf s"] assms by (auto simp: editor_ok_def)
  let ?g = "case r of [] \<Rightarrow> sl_ghost s | (word, score) # _ \<Rightarrow> if 60 < score then Some (32 # word) else sl_ghost s"
  have "request_ghost d s = Ret (Some (s\<lparr>sl_ghost := ?g\<rparr>))"
    using False by (simp add: request_ghost_def bind_run_def r Let_def split: list.split prod.split)
  then show ?thesis ..
qed

text \<open>A character goes in at the cursor, whether it meets the ghost text, replaces it, or asks for a new one.\<close>

lemma key_char_sides:
  assumes "editor_ok d s" and "safe_char (ae_uni d) c"
  shows "\<exists>s'. key_char d c s = Ret (Some s') \<and> editor_ok d s' \<and> sides s' = (fst (sides s) @ [c], snd (sides s)) \<and>
    sl_history s' = sl_history s"
proof -
  let ?k = "sl_cursor s"
  let ?b = "take ?k (sl_buf s) @ c # drop ?k (sl_buf s)"
  let ?s = "\<lambda>g. s\<lparr>sl_buf := ?b, sl_cursor := ?k + 1, sl_ghost := g\<rparr>"
  have k: "?k \<le> length (sl_buf s)" using assms(1) by (simp add: editor_ok_def cursor_ok_def)
  have b: "list_all (safe_char (ae_uni d)) ?b"
    using assms by (auto simp: editor_ok_def list_all_iff dest: in_set_takeD in_set_dropD)
  have ok: "editor_ok d (?s g)" for g using assms(1) b k by (simp add: editor_ok_def cursor_ok_def)
  have sides: "sides (?s g) = (fst (sides s) @ [c], snd (sides s))" for g using k by (simp add: sides_def)
  have "\<exists>g. key_char d c s = Ret (Some (?s g))"
  proof (cases "\<exists>rest. sl_ghost s = Some (c # rest)")
    case True
    then show ?thesis using k by (auto simp: key_char_def done_run_def vec_insert_def)
  next
    case False
    have ins: "insert_at_cursor [c] (s\<lparr>sl_ghost := None\<rparr>) = Ret (?s None)"
      using k by (simp add: insert_at_cursor_def vec_insert_def)
    have "key_char d c s = bind_run (done_run (insert_at_cursor [c] (s\<lparr>sl_ghost := None\<rparr>))) (request_ghost d)"
      using False by (auto simp: key_char_def split: option.split list.split)
    then show ?thesis using request_ghost_returns [OF ok, of None] ins
      by (simp add: bind_run_def done_run_def)
  qed
  then obtain g where "key_char d c s = Ret (Some (?s g))" ..
  then show ?thesis using ok [of g] sides [of g] by (intro exI [of _ "?s g"]) simp
qed

text \<open>The keys that edit the line, whatever the state: all but Tab, Right, the history and the keys that end the line.\<close>

definition plain_key :: "(nat \<Rightarrow> bool) \<Rightarrow> key \<Rightarrow> bool" where
  "plain_key uni k \<longleftrightarrow> k \<in> {KBackspace, KLeft, KCtrlA, KCtrlE, KCtrlK, KCtrlU, KCtrlW, KCtrlL, KAltB, KAltF, KUnknown} \<or>
     (\<exists>c. k = KChar c \<and> safe_char uni c)"

lemma edit_subset:
  assumes "plain_key uni k" and "k \<notin> range KChar"
  shows "set (fst (edit uni k (l, r))) \<union> set (snd (edit uni k (l, r))) \<subseteq> set l \<union> set r"
proof -
  have db: "set (drop_back p x) \<subseteq> set x" for p :: "nat \<Rightarrow> bool" and x
    using set_dropWhileD by (force simp: drop_back_def)
  have bl: "set (butlast l) \<subseteq> set l" by (auto dest: in_set_butlastD)
  note d = db [THEN subsetD]
  show ?thesis
    using assms unfolding plain_key_def
    by (elim disjE insertE emptyE)
      (auto simp: Let_def dest!: d bl [THEN subsetD] set_takeWhileD dest: in_set_dropD split: if_splits)
qed

lemma sides_set: "set (sl_buf s) = set (fst (sides s)) \<union> set (snd (sides s))"
  by (metis append_take_drop_id fst_conv set_append sides_def snd_conv)

lemma handle_keeps_ai:
  assumes "handle d ms k (s, w) = Ret (Some (a, s', w'))" and "plain_key uni k" and "k \<notin> range KChar"
  shows "sl_ai s' = sl_ai s \<and> sl_history s' = sl_history s"
  using assms unfolding plain_key_def
  by (elim disjE insertE emptyE)
    (auto simp: pure_key_def done_run_def key_backspace_def delete_word_def move_word_def Let_def split: if_splits)

lemma plain_cases:
  assumes "plain_key uni k"
  obtains c where "k = KChar c" "safe_char uni c" | "k \<notin> range KChar" "editing_key k s"
  using assms unfolding plain_key_def editing_key_def by (elim disjE exE conjE insertE emptyE) auto

lemma handle_typed:
  assumes "editor_ok d s" and "safe_char (ae_uni d) c"
  shows "\<exists>s'. handle d ms (KChar c) (s, w) = Ret (Some (ActContinue, s', w)) \<and> editor_ok d s' \<and>
    sides s' = edit (ae_uni d) (KChar c) (sides s) \<and> sl_history s' = sl_history s"
proof -
  obtain s' where s': "key_char d c s = Ret (Some s')" "editor_ok d s'" "sides s' = (fst (sides s) @ [c], snd (sides s))"
    "sl_history s' = sl_history s"
    using key_char_sides [OF assms] by blast
  have e: "edit (ae_uni d) (KChar c) (sides s) = (fst (sides s) @ [c], snd (sides s))" by (cases "sides s") simp
  have "handle d ms (KChar c) (s, w) = Ret (Some (ActContinue, s', w))" by (simp add: bind_run_def s'(1))
  then show ?thesis unfolding e using s'(2-4) by blast
qed

lemma handle_edited:
  assumes "editor_ok d s" and "plain_key (ae_uni d) k" and "k \<notin> range KChar" and "editing_key k s"
  shows "\<exists>s'. handle d ms k (s, w) = Ret (Some (ActContinue, s', w)) \<and> editor_ok d s' \<and>
    sides s' = edit (ae_uni d) k (sides s) \<and> sl_history s' = sl_history s"
proof -
  have co: "cursor_ok s" using assms(1) by (simp add: editor_ok_def)
  obtain s' where s': "handle d ms k (s, w) = Ret (Some (ActContinue, s', w))" "cursor_ok s'"
    "sides s' = edit (ae_uni d) k (sides s)"
    using handle_sides [OF co assms(4), where d = d and ms = ms and w = w] by blast
  have ai: "sl_ai s' = sl_ai s" "sl_history s' = sl_history s"
    using handle_keeps_ai [OF s'(1) assms(2,3)] by (rule conjunct1, rule conjunct2)
  have "set (sl_buf s') \<subseteq> set (sl_buf s)"
    unfolding sides_set s'(3) using edit_subset [OF assms(2,3), of "fst (sides s)" "snd (sides s)"]
    by (simp only: prod.collapse)
  then have "editor_ok d s'" using assms(1) s'(2) ai(1) by (auto simp: editor_ok_def list_all_iff)
  then show ?thesis using s'(1,3) ai(2) by blast
qed

lemma handle_plain:
  assumes "editor_ok d s" and "plain_key (ae_uni d) k"
  shows "\<exists>s'. handle d ms k (s, w) = Ret (Some (ActContinue, s', w)) \<and> editor_ok d s' \<and>
    sides s' = edit (ae_uni d) k (sides s) \<and> sl_history s' = sl_history s"
proof (cases rule: plain_cases [OF assms(2), where s = s])
  case (1 c)
  then show ?thesis using handle_typed [OF assms(1) 1(2), where ms = ms and w = w] by simp
next
  case 2
  then show ?thesis by (rule handle_edited [OF assms])
qed

lemma shell_run_plain:
  assumes "editor_ok d s" and "list_all (plain_key (ae_uni d)) ks"
  shows "\<exists>s'. editor_ok d s' \<and> sides s' = fold (edit (ae_uni d)) ks (sides s) \<and> sl_history s' = sl_history s \<and>
    (\<forall>more. shell_run d ms (ks @ more) (s, w, env) = shell_run d ms more (s', w, env))"
  using assms
proof (induction ks arbitrary: s)
  case (Cons k ks)
  obtain s1 where s1: "handle d ms k (s, w) = Ret (Some (ActContinue, s1, w))" "editor_ok d s1"
    "sides s1 = edit (ae_uni d) k (sides s)" "sl_history s1 = sl_history s"
    using handle_plain [of d s k ms w] Cons.prems by auto
  obtain s' where "editor_ok d s'" "sides s' = fold (edit (ae_uni d)) ks (sides s1)" "sl_history s' = sl_history s1"
    "\<forall>more. shell_run d ms (ks @ more) (s1, w, env) = shell_run d ms more (s', w, env)"
    using Cons.IH [OF s1(2)] Cons.prems(2) by auto
  then show ?case using s1 by (intro exI [of _ s']) (simp add: bind_run_def)
next
  case Nil
  then show ?case by (intro exI [of _ s]) simp
qed

text \<open>
  C28. The line editor implements its abstract specification, a pair of strings. From any state whose cursor is
  inside the line, with the engine at hand, and for any sequence of editing keys and typed characters, the command
  loop returns, asks nothing of the system, and what is before and behind the cursor is what the keys do to the pair, one after
  the other: the cursor never leaves the line, no index is out of bounds, and neither the suggestions of the engine
  nor the text it shows ahead change what is typed.
\<close>

theorem editor_refines_zipper:
  assumes "editor_ok d s" and "list_all (plain_key (ae_uni d)) ks"
  shows "\<exists>s'. shell_run d ms ks (s, w, env) = Ret (Some ([], s', w, env)) \<and> editor_ok d s' \<and>
    sides s' = fold (edit (ae_uni d)) ks (sides s)"
proof -
  obtain s' where "editor_ok d s'" "sides s' = fold (edit (ae_uni d)) ks (sides s)"
    "\<forall>more. shell_run d ms (ks @ more) (s, w, env) = shell_run d ms more (s', w, env)"
    using shell_run_plain [OF assms] by blast
  then show ?thesis by (metis append_Nil2 shell_run.simps(1))
qed

definition demo_shell :: "unit shell" where
  "demo_shell = \<lparr>sl_ai = engine_new no_cache (\<lambda>_. False) (config_default None), sl_history = history_load [] 5,
     sl_buf = [], sl_cursor = 0, sl_ghost = None, sl_hist_idx = None, sl_hist_saved = []\<rparr>"

lemma demo_editor_ok: "editor_ok demo_env demo_shell"
  by (simp add: editor_ok_def cursor_ok_def ai_ok_def demo_shell_def engine_new_def offline_new_def
      load_builtins_wf trie_wf_new demo_vals)

text \<open>\<open>git add\<close>, back one word, \<open>-v \<close>, and Control-K.\<close>

lemma editor_refines_zipper_witness:
  "\<exists>s'. shell_run demo_env 0 (map KChar (lit ''git add'') @ [KAltB] @ map KChar (lit ''-v '') @ [KCtrlK]) (demo_shell, (), \<lambda>_. None) =
     Ret (Some ([], s', (), \<lambda>_. None)) \<and> editor_ok demo_env s' \<and> sides s' = (lit ''git -v '', [])"
proof -
  let ?ks = "map KChar (lit ''git add'') @ [KAltB] @ map KChar (lit ''-v '') @ [KCtrlK]"
  have ks: "list_all (plain_key (ae_uni demo_env)) ?ks" by (simp add: plain_key_def safe_char_def lit_def)
  have "fold (edit (\<lambda>_. False)) ?ks ([], []) = (lit ''git -v '', [])" by code_simp
  then have "fold (edit (ae_uni demo_env)) ?ks (sides demo_shell) = (lit ''git -v '', [])"
    by (simp only: demo_env_def demo_shell_def sides_def shell.select_convs ai_env.select_convs take_Nil drop_Nil)
  with editor_refines_zipper [OF demo_editor_ok ks, of 0 "()" "\<lambda>_. None"] show ?thesis by simp
qed

section \<open>From the keys to the commands\<close>

lemma run_commands_append:
  "run_commands (xs @ ys) env =
     bind_outcome (run_commands xs env) (\<lambda>(es, env1).
       bind_outcome (run_commands ys env1) (\<lambda>(es', env2). Ret (es @ es', env2)))"
proof (induction xs arbitrary: env)
  case Nil
  then show ?case by (cases "run_commands ys env") auto
next
  case (Cons x xs)
  show ?case
  proof (cases "run_command x env")
    case (Ret r)
    obtain es env1 where r: "r = (es, env1)" by (cases r)
    show ?thesis
    proof (cases "run_commands xs env1")
      case (Ret r1)
      obtain es1 env2 where "r1 = (es1, env2)" by (cases r1)
      then show ?thesis using \<open>run_command x env = Ret r\<close> r Ret Cons by (cases "run_commands ys env2") auto
    qed (simp add: Ret r Cons)
  qed simp
qed

lemma run_stages_argv: "run_stages p env = run_commands (map argv p) env"
  by (induction p arbitrary: env) simp_all

text \<open>Only the words of the commands are read: no stream is redirected, nothing is piped, nothing runs in the background.\<close>

lemma run_script_argv: "run_script sc env = run_commands (map argv (concat sc)) env"
  by (induction sc arbitrary: env) (simp_all add: run_stages_argv run_commands_append)

lemma run_export_no_exit: "run_export as env = Ret (es, env') \<Longrightarrow> ExitProcess \<notin> set es"
  by (induction as arbitrary: env es) (auto split: option.splits)

lemma run_command_no_exit: "run_command av env = Ret (es, env') \<Longrightarrow> ExitProcess \<notin> set es"
  by (auto simp: run_command_def Let_def simp del: run_export.simps dest: run_export_no_exit split: list.splits if_splits)

lemma run_commands_no_exit: "run_commands avs env = Ret (es, env') \<Longrightarrow> ExitProcess \<notin> set es"
  by (induction avs arbitrary: env es) (auto dest: run_command_no_exit)

lemma trim_Cons:
  assumes "\<not> ShellHistory.is_space c"
  shows "ShellHistory.trim (c # cs) = c # rev (dropWhile ShellHistory.is_space (rev cs))"
  using assms by (auto simp: ShellHistory.trim_def dropWhile_append)

lemma show_script_quote:
  assumes "sc \<noteq> []" and "list_all (stages_ok True) sc"
  obtains r where "show_script sc = CHR 0x27 # r"
proof -
  obtain p ps where sc: "sc = p # ps" "stages_ok True p" using assms by (cases sc) auto
  then obtain c cs where p: "p = c # cs" "argv c \<noteq> []" by (cases p rule: toks_stages.cases) (auto simp: stage_ok_def)
  obtain a as where "argv c = a # as" using p(2) by (cases "argv c") auto
  then have "\<exists>r. show_command c = CHR 0x27 # r" by (simp add: show_command_def quoted_def)
  then have "\<exists>r. show_script sc = CHR 0x27 # r" using sc p by (cases cs) (auto simp: show_script_def)
  then show ?thesis using that by blast
qed

lemma execute_show:
  assumes "sc \<noteq> []" and "list_all (stages_ok True) sc"
  shows "execute (show_script sc) env = run_commands (map argv (concat sc)) env"
    and "ShellHistory.trim (show_script sc) \<noteq> []"
proof -
  obtain r where r: "show_script sc = CHR 0x27 # r" using show_script_quote [OF assms] .
  have "\<not> ShellHistory.is_space (CHR 0x27)" by code_simp
  then obtain q where q: "ShellHistory.trim (show_script sc) = CHR 0x27 # q" unfolding r using trim_Cons by blast
  show "execute (show_script sc) env = run_commands (map argv (concat sc)) env"
    by (simp add: execute_def Let_def q parse_show_script [OF assms] run_script_argv)
  show "ShellHistory.trim (show_script sc) \<noteq> []" by (simp add: q)
qed

definition printable :: "char \<Rightarrow> bool" where
  "printable c \<longleftrightarrow> (let n = of_char c :: nat in 32 \<le> n \<and> n < 127)"

lemma unat_of_char: "unat (of_char c :: u8) = of_char c"
proof -
  have "(of_char c :: u8) = of_nat (of_char c)" by (simp only: of_nat_of_char)
  then have "unat (of_char c :: u8) = of_char c mod 2 ^ 8" by (simp only: unat_of_nat take_bit_eq_mod len_bit0 len_num1) simp
  then show ?thesis using nat_of_char_less_256 [of c] by simp
qed

lemma printable_byte:
  assumes "32 \<le> (x :: u8)" and "x < 127"
  shows "b < 32 \<Longrightarrow> x \<noteq> b" and "x \<noteq> 0x7F" and "\<not> 0x7F \<le> x" and "\<not> x < 0x20" and "x < 0x80"
proof -
  show "b < 32 \<Longrightarrow> x \<noteq> b" using assms(1) by (metis leD)
  show "x \<noteq> 0x7F" "\<not> 0x7F \<le> x" "\<not> x < 0x20" using assms by (auto simp: not_le not_less)
  show "x < 0x80" using assms(2) by (simp add: word_less_nat_alt)
qed

lemma read_printable:
  assumes "\<And>b. b < 0x80 \<Longrightarrow> decode [b] = Some [unat b]" and "printable c"
  shows "read_key decode [of_char c] = KChar (of_char c)"
proof -
  let ?b = "of_char c :: u8"
  have w: "32 \<le> ?b" "?b < 127"
    using assms(2) by (simp_all add: printable_def Let_def word_le_nat_alt word_less_nat_alt unat_of_char)
  note b = printable_byte [OF w]
  have ne: "[?b] \<noteq> [k]" if "k < 32" for k using b(1) [OF that] by simp
  have "decode [?b] = Some [of_char c]" using assms(1) [OF b(5)] by (simp only: unat_of_char)
  then show ?thesis unfolding read_key_def using b(2-4) ne
    by (simp del: of_char_eq_iff add: word_less_nat_alt)
qed

lemma fold_edit_chars: "fold (edit uni) (map KChar cs) (l, r) = (l @ cs, r)"
  by (induction cs arbitrary: l) simp_all

lemma to_ascii_of_char: "to_ascii (map of_char cs) = cs"
  by (induction cs) (simp_all add: to_ascii_def)

text \<open>
  C27. From the keyboard to the commands. When the shell waits at an empty line and the text of a
  script is typed, one read for each printable byte, and ended with Enter, then the shell returns and what
  is asked of the system is exactly the script's commands, in order, one after another, with the words that were
  quoted; the line is empty again and the text is in the history. Nothing of the script's redirections, pipes
  and background marks, which the parser records, has an effect.
\<close>

theorem typed_script_runs:
  assumes "\<And>b. b < 0x80 \<Longrightarrow> decode [b] = Some [unat b]" and "editor_ok d s" and "sl_buf s = []"
    and "sc \<noteq> []" and "list_all (stages_ok True) sc" and "list_all printable (show_script sc)"
    and "run_commands (map argv (concat sc)) env = Ret (es, env')"
  shows "\<exists>s'. shell_run d ms (map (read_key decode) (map (\<lambda>c. [of_char c]) (show_script sc) @ [[0x0D]])) (s, w, env) =
      Ret (Some (es, s', w, env')) \<and>
    sl_buf s' = [] \<and> sl_cursor s' = 0 \<and> sl_history s' = history_push (show_script sc) (sl_history s)"
proof -
  let ?t = "show_script sc"
  have keys: "map (read_key decode) (map (\<lambda>c. [of_char c]) ?t) = map KChar (map of_char ?t)"
    using read_printable [OF assms(1)] assms(6) by (simp add: list_all_iff)
  have cr: "read_key decode [0x0D] = KEnter" by (simp add: read_key_def)
  have plain: "list_all (plain_key (ae_uni d)) (map KChar (map of_char ?t))"
    using assms(6) by (auto simp: list_all_iff plain_key_def safe_char_def printable_def Let_def)
  obtain s1 where s1: "editor_ok d s1" "sides s1 = fold (edit (ae_uni d)) (map KChar (map of_char ?t)) (sides s)"
    "sl_history s1 = sl_history s"
    "\<forall>more. shell_run d ms (map KChar (map of_char ?t) @ more) (s, w, env) = shell_run d ms more (s1, w, env)"
    using shell_run_plain [OF assms(2) plain] by blast
  have "sides s = ([], [])" using assms(2,3) by (simp add: sides_def editor_ok_def cursor_ok_def)
  then have "sides s1 = (map of_char ?t, [])" using s1(2) by (simp only: fold_edit_chars append_Nil)
  then have "sl_buf s1 = map of_char ?t" by (metis append_Nil2 append_take_drop_id fst_conv sides_def snd_conv)
  then have line: "to_ascii (sl_buf s1) = ?t" by (simp add: to_ascii_of_char)
  note ex = execute_show [OF assms(4,5)]
  have "ExitProcess \<notin> set es" using run_commands_no_exit [OF assms(7)] .
  then have enter: "shell_run d ms [KEnter] (s1, w, env) =
      Ret (Some (es, reset (s1\<lparr>sl_history := history_push ?t (sl_history s)\<rparr>), w, env'))"
    using ex(2) by (simp add: bind_run_def done_run_def line ex(1) assms(7) s1(3) Let_def)
  have "shell_run d ms (map (read_key decode) (map (\<lambda>c. [of_char c]) ?t @ [[0x0D]])) (s, w, env) =
      shell_run d ms (map KChar (map of_char ?t) @ [KEnter]) (s, w, env)"
    by (simp only: map_append keys list.map cr)
  also have "\<dots> = shell_run d ms [KEnter] (s1, w, env)" using s1(4) by blast
  finally show ?thesis unfolding enter by (simp add: reset_def)
qed

text \<open>The file name with a blank and a separator stays one word; the output file and the pipe are forgotten.\<close>

lemma typed_script_runs_witness:
  "\<exists>s'. shell_run demo_env 0 (map (read_key (\<lambda>bs. Some (map unat bs))) (map (\<lambda>c. [of_char c])
      (show_script [[\<lparr>argv = [''ls'', ''a; b''], stdin = Inherit, stdout = Pipe, stderr = Inherit, bg = False\<rparr>,
         \<lparr>argv = [''wc''], stdin = Pipe, stdout = File ''out'', stderr = Inherit, bg = False\<rparr>]]) @ [[0x0D]])) (demo_shell, (), \<lambda>_. None) =
      Ret (Some ([RunProgram ''ls'' [''a; b''], RunProgram ''wc'' []], s', (), \<lambda>_. None)) \<and>
    sl_buf s' = [] \<and> sl_cursor s' = 0 \<and>
    sl_history s' = history_push (show_script [[\<lparr>argv = [''ls'', ''a; b''], stdin = Inherit, stdout = Pipe, stderr = Inherit, bg = False\<rparr>,
         \<lparr>argv = [''wc''], stdin = Pipe, stdout = File ''out'', stderr = Inherit, bg = False\<rparr>]]) (sl_history demo_shell)"
proof (rule typed_script_runs [OF _ demo_editor_ok])
  show "sl_buf demo_shell = []" by (simp add: demo_shell_def)
qed (simp_all add: stage_ok_def word_ok_def target_ok_def ends_word_def show_script_def show_command_def quoted_def
    printable_def run_command_def)

section \<open>The Tab key\<close>

lemma rfind_last:
  "list_all (\<lambda>c. \<not> p c) tok \<Longrightarrow> rfind p tok = None"
  "list_all (\<lambda>c. \<not> p c) tok \<Longrightarrow> p c \<Longrightarrow> rfind p (pre @ c # tok) = Some (str_len pre)"
proof -
  assume a: "list_all (\<lambda>c. \<not> p c) tok"
  then have tw: "takeWhile (\<lambda>c. \<not> p c) (rev tok) = rev tok" by (simp add: takeWhile_eq_all_conv list_all_iff)
  show "rfind p tok = None" by (simp add: rfind_def Let_def tw)
  assume c: "p c"
  have "takeWhile (\<lambda>c. \<not> p c) (rev (pre @ c # tok)) = rev tok"
    using a c takeWhile_append2 [of "rev tok" "\<lambda>c. \<not> p c" "c # rev pre"] by (auto simp: list_all_iff)
  then show "rfind p (pre @ c # tok) = Some (str_len pre)" by (simp add: rfind_def Let_def butlast_append)
qed

lemma current_token_len_eq:
  assumes "list_all (shell_token_char uni) tok"
  shows "current_token_len uni tok = 0"
    and "\<not> shell_token_char uni c \<Longrightarrow> c < 128 \<Longrightarrow> current_token_len uni (pre @ c # tok) = str_len tok"
  using rfind_last [of "\<lambda>c. \<not> shell_token_char uni c" tok] assms
  by (simp_all add: current_token_len_def str_len_def utf8_len_def)

lemma slice_from_own [simp]: "slice_from (str_len tok) (tok @ rest) = Ret rest"
  using slice_from_skip [of tok 0 rest] by simp

text \<open>
  What Tab puts in when the engine has one answer. Behind an ASCII character that cannot be part of a
  token, the rest of the answer is added to what is typed. When the whole line is one token its length is taken to be
  zero, and the whole answer is added behind it, so what was typed stands there twice.
\<close>

lemma tab_applies_completion:
  assumes "sl_cursor s = length (sl_buf s)" and "sl_ghost s = None" and "list_all (shell_token_char (ae_uni d)) tok"
    and "engine_complete d ms (tab_request (sl_buf s)) (sl_ai s, w) = Ret (Some (Inr [x], ai, w1))"
    and "cs_text x = tok @ rest"
  shows "sl_buf s = pre @ c # tok \<Longrightarrow> \<not> shell_token_char (ae_uni d) c \<Longrightarrow> c < 128 \<Longrightarrow>
      \<exists>s'. handle d ms KTab (s, w) = Ret (Some (ActContinue, s', w1)) \<and> sl_buf s' = pre @ c # tok @ rest \<and>
        sl_cursor s' = length (sl_buf s')"
    and "sl_buf s = tok \<Longrightarrow>
      \<exists>s'. handle d ms KTab (s, w) = Ret (Some (ActContinue, s', w1)) \<and> sl_buf s' = tok @ tok @ rest \<and>
        sl_cursor s' = length (sl_buf s')"
proof -
  have tab: "\<exists>s'. handle d ms KTab (s, w) = Ret (Some (ActContinue, s', w1)) \<and> sl_buf s' = sl_buf s @ suf \<and>
      sl_cursor s' = length (sl_buf s')"
    if "slice_from (current_token_len (ae_uni d) (sl_buf s)) (tok @ rest) = Ret suf" for suf
    using assms that
    by (simp add: do_tab_complete_def bind_run_def done_run_def Let_def insert_at_cursor_def insert_chars_eq)
  show "sl_buf s = pre @ c # tok \<Longrightarrow> \<not> shell_token_char (ae_uni d) c \<Longrightarrow> c < 128 \<Longrightarrow>
      \<exists>s'. handle d ms KTab (s, w) = Ret (Some (ActContinue, s', w1)) \<and> sl_buf s' = pre @ c # tok @ rest \<and>
        sl_cursor s' = length (sl_buf s')"
    using tab [of rest] current_token_len_eq(2) [OF assms(3), of c pre] by simp
  show "sl_buf s = tok \<Longrightarrow>
      \<exists>s'. handle d ms KTab (s, w) = Ret (Some (ActContinue, s', w1)) \<and> sl_buf s' = tok @ tok @ rest \<and>
        sl_cursor s' = length (sl_buf s')"
    using tab [of "tok @ rest"] current_token_len_eq(1) [OF assms(3)] by simp
qed

section \<open>Syntax highlighting\<close>

text \<open>The escape sequences; \<open>num\<close> is what \<open>parse::<f64>\<close> accepts.\<close>

definition csi :: "string \<Rightarrow> rstr" where
  "csi s = 27 # 91 # lit s"

definition shell_keywords :: "rstr list" where
  "shell_keywords = map lit [''if'', ''then'', ''else'', ''fi'', ''for'', ''do'', ''done'', ''while'',
     ''case'', ''esac'', ''function'', ''in'', ''select'', ''until'']"

definition shell_builtins :: "rstr list" where
  "shell_builtins = map lit [''echo'', ''cd'', ''export'', ''source'', ''alias'', ''unalias'',
     ''set'', ''unset'', ''read'', ''exec'', ''eval'', ''exit'', ''return'', ''shift'', ''type'', ''which'']"

definition token_style :: "(rstr \<Rightarrow> bool) \<Rightarrow> bool \<Rightarrow> rstr \<Rightarrow> rstr list" where
  "token_style num first tok =
     (if tok \<in> set shell_keywords then [csi ''1m'', csi ''33m'']
      else if first \<and> tok \<in> set shell_builtins then [csi ''1m'', csi ''32m'']
      else if first then [csi ''1m'']
      else if prefix (lit ''-'') tok then [csi ''36m'']
      else if num tok then [csi ''35m'']
      else [])"

definition flush_tok :: "(rstr \<Rightarrow> bool) \<Rightarrow> bool \<Rightarrow> rstr \<Rightarrow> rstr" where
  "flush_tok num first tok =
     (if tok = [] then []
      else case token_style num first tok of
        [] \<Rightarrow> tok
      | st \<Rightarrow> concat st @ tok @ csi ''0m'')"

text \<open>The characters up to and with the first \<open>q\<close>, and the rest.\<close>

fun up_to :: "nat \<Rightarrow> rstr \<Rightarrow> rstr \<times> rstr" where
  "up_to q [] = ([], [])"
| "up_to q (c # cs) = (if c = q then ([c], cs) else case up_to q cs of (a, r) \<Rightarrow> (c # a, r))"

lemma up_to_append: "fst (up_to q cs) @ snd (up_to q cs) = cs"
  by (induction cs) (auto split: prod.split)

lemma length_up_to: "length (snd (up_to q cs)) \<le> length cs"
  by (induction cs) (auto split: prod.split)

definition var_char :: "(nat \<Rightarrow> bool) \<Rightarrow> nat \<Rightarrow> bool" where
  "var_char uni c \<longleftrightarrow> is_alphanumeric uni c \<or> c = 95"

function highlight_from :: "(rstr \<Rightarrow> bool) \<Rightarrow> (nat \<Rightarrow> bool) \<Rightarrow> bool \<Rightarrow> rstr \<Rightarrow> rstr \<Rightarrow> rstr" where
  "highlight_from num uni first tok [] = flush_tok num first tok"
| "highlight_from num uni first tok (ch # cs) =
     (let out = flush_tok num first tok; first' = (first \<and> tok = [])
      in if ch = 35 then out @ csi ''90m'' @ ch # cs @ csi ''0m''
      else if ch = 34 \<or> ch = 39 then
        out @ csi ''33m'' @ ch # fst (up_to ch cs) @ csi ''0m'' @ highlight_from num uni first' [] (snd (up_to ch cs))
      else if ch = 36 then
        out @ csi ''35m'' @ ch # takeWhile (var_char uni) cs @ csi ''0m'' @
          highlight_from num uni first' [] (dropWhile (var_char uni) cs)
      else if ch \<in> set (lit ''|><;&'') then out @ csi ''31m'' @ ch # csi ''0m'' @ highlight_from num uni True [] cs
      else if ch = 32 \<or> ch = 9 then out @ ch # highlight_from num uni first' [] cs
      else highlight_from num uni first (tok @ [ch]) cs)"
  by pat_completeness auto

termination
  by (relation "measure (\<lambda>(_, _, _, _, cs). length cs)")
    (auto simp: le_imp_less_Suc length_up_to length_dropWhile_le)

definition syntax_highlight :: "(rstr \<Rightarrow> bool) \<Rightarrow> (nat \<Rightarrow> bool) \<Rightarrow> rstr \<Rightarrow> rstr" where
  "syntax_highlight num uni line = highlight_from num uni True [] line"

text \<open>What a terminal shows: an escape sequence, up to its final \<open>m\<close>, shows nothing.\<close>

fun shown :: "bool \<Rightarrow> rstr \<Rightarrow> rstr" where
  "shown esc [] = []"
| "shown True (c # cs) = shown (c \<noteq> 109) cs"
| "shown False (c # cs) = (if c = 27 then shown True cs else c # shown False cs)"

lemma shown_plain: "27 \<notin> set a \<Longrightarrow> shown False (a @ b) = a @ shown False b"
  by (induction a) auto

lemma shown_csi:
  "shown False (csi ''0m'' @ b) = shown False b" "shown False (csi ''1m'' @ b) = shown False b"
  "shown False (csi ''31m'' @ b) = shown False b" "shown False (csi ''32m'' @ b) = shown False b"
  "shown False (csi ''33m'' @ b) = shown False b" "shown False (csi ''35m'' @ b) = shown False b"
  "shown False (csi ''36m'' @ b) = shown False b" "shown False (csi ''90m'' @ b) = shown False b"
  by (simp_all add: csi_def lit_def)

lemma shown_flush:
  assumes "27 \<notin> set tok"
  shows "shown False (flush_tok num first tok @ b) = tok @ shown False b"
  using assms by (simp add: flush_tok_def token_style_def shown_csi shown_plain)

text \<open>Highlighting only adds colour: without the escape sequences, the line is what it was.\<close>

lemma shown_highlight:
  assumes "27 \<notin> set tok" and "27 \<notin> set line"
  shows "shown False (highlight_from num uni first tok line) = tok @ line"
  using assms
proof (induction num uni first tok line rule: highlight_from.induct)
  case (1 num uni first tok)
  then show ?case using shown_flush [of tok num first "[]"] by simp
next
  case (2 num uni first tok ch cs)
  note sh = shown_flush [OF 2(6)] shown_csi shown_plain Let_def
  have cs: "ch \<noteq> 27" "27 \<notin> set cs" "27 \<notin> set (tok @ [ch])" using 2(6,7) by auto
  have up: "27 \<notin> set (fst (up_to ch cs))" "27 \<notin> set (snd (up_to ch cs))"
    using cs(2) up_to_append [of ch cs] by (metis Un_iff set_append)+
  have var: "27 \<notin> set (takeWhile (var_char uni) cs)" "27 \<notin> set (dropWhile (var_char uni) cs)"
    using cs(2) by (auto dest: set_takeWhileD set_dropWhileD)
  consider "ch = 35" | "ch \<noteq> 35" "ch = 34 \<or> ch = 39" | "ch = 36" |
    "ch \<notin> {34, 35, 36, 39}" "ch \<in> set (lit ''|><;&'')" |
    "ch \<notin> {34, 35, 36, 39}" "ch \<notin> set (lit ''|><;&'')" "ch = 32 \<or> ch = 9" |
    "ch \<notin> {34, 35, 36, 39}" "ch \<notin> set (lit ''|><;&'')" "\<not> (ch = 32 \<or> ch = 9)"
    by blast
  then show ?case
  proof cases
    case 1
    then show ?thesis using sh(2) [of "[]"] by (simp add: sh cs)
  next
    case 2
    have "shown False (highlight_from num uni (first \<and> tok = []) [] (snd (up_to ch cs))) = snd (up_to ch cs)"
      using "2.IH"(1) [OF refl refl 2] up(2) by simp
    then show ?thesis using 2 cs(1) up(1) up_to_append [of ch cs] by (simp add: sh)
  next
    case 3
    have "shown False (highlight_from num uni (first \<and> tok = []) [] (dropWhile (var_char uni) cs)) = dropWhile (var_char uni) cs"
      using "2.IH"(2) [OF refl refl] 3 var(2) by simp
    then show ?thesis using 3 var(1) by (simp add: sh)
  next
    case 4
    have "shown False (highlight_from num uni True [] cs) = cs" using "2.IH"(3) [OF refl refl] 4 cs(2) by simp
    then show ?thesis using 4 cs(1) by (simp add: sh)
  next
    case 5
    have "shown False (highlight_from num uni (first \<and> tok = []) [] cs) = cs" using "2.IH"(4) [OF refl refl] 5 cs(2) by simp
    then show ?thesis using 5 cs(1) by (simp add: sh)
  next
    case 6
    have "shown False (highlight_from num uni first (tok @ [ch]) cs) = tok @ ch # cs"
      using "2.IH"(5) [OF refl refl] 6 cs(2,3) by simp
    then show ?thesis using 6 by (simp add: Let_def)
  qed
qed

text \<open>The line is what the terminal shows, whatever its syntax.\<close>

lemma syntax_highlight_shows: "27 \<notin> set line \<Longrightarrow> shown False (syntax_highlight num uni line) = line"
  by (simp add: syntax_highlight_def shown_highlight)

section \<open>Going through the history\<close>

text \<open>Up from the line being typed shows the newest entry; Down then brings the typed line back.\<close>

lemma up_down_restores:
  assumes "sl_hist_idx s = None" and "history_len (sl_history s) \<noteq> 0"
  shows "sl_buf (hist_prev s) = lit (last (h_entries (sl_history s)))"
    and "sl_buf (hist_next (hist_prev s)) = sl_buf s" and "sl_hist_idx (hist_next (hist_prev s)) = None"
proof -
  let ?n = "history_len (sl_history s)"
  have n: "?n \<le> Suc (?n - Suc 0)" by simp
  have e: "h_entries (sl_history s) \<noteq> []" using assms(2) by (auto simp: history_len_def)
  then have get: "history_get (?n - 1) (sl_history s) = Some (last (h_entries (sl_history s)))"
    by (simp add: history_get_def history_len_def last_conv_nth)
  have p: "hist_prev s = set_line (lit (last (h_entries (sl_history s)))) (s\<lparr>sl_hist_saved := sl_buf s, sl_hist_idx := Some (?n - 1)\<rparr>)"
    using assms get by (simp add: hist_prev_def show_entry_def Let_def)
  show "sl_buf (hist_prev s) = lit (last (h_entries (sl_history s)))" by (simp add: p set_line_def)
  show "sl_buf (hist_next (hist_prev s)) = sl_buf s" "sl_hist_idx (hist_next (hist_prev s)) = None"
    by (simp_all add: p hist_next_def set_line_def n)
qed

end
