(* ===== verification/KShell.thy ===== *)
theory KShell
  imports AiOnline Backends
begin

text \<open>
  The early-boot shell of the kernel (\<open>kernel/src/kshell/mod.rs\<close>): the sorted table of completions with its
  binary search, the edited line with a byte cursor, its history, and the built-in commands. The
  language model behind it has been removed from \<open>kernel/src/ipc/mod.rs\<close>; the stub that is left answers every request
  with the empty string.
\<close>

section \<open>The table of completions\<close>

definition KERNEL_COMPLETIONS :: "rstr list" where
  "KERNEL_COMPLETIONS = map lit [
     ''cat'', ''cd'', ''chmod'', ''chown'', ''clear'', ''cp'',
     ''dmesg'', ''echo'', ''exit'', ''find'', ''grep'', ''help'', ''history'', ''kill'',
     ''less'', ''ln'', ''ls'', ''ls -la'', ''ls -lh'', ''man'', ''mkdir'', ''mount'', ''mv'',
     ''npkg'', ''npkg install'', ''npkg list'', ''npkg remove'', ''npkg update'',
     ''ping'', ''ps'', ''reboot'', ''rm'', ''rmdir'', ''shutdown'', ''sleep'', ''stat'',
     ''tail'', ''top'', ''touch'', ''umount'', ''uname'', ''which'']"

text \<open>\<open>partition_point\<close> on the elements from \<open>base\<close> to \<open>base + n\<close>.\<close>

function partition_from :: "('a \<Rightarrow> bool) \<Rightarrow> 'a list \<Rightarrow> nat \<Rightarrow> nat \<Rightarrow> nat" where
  "partition_from p xs base n =
     (if n = 0 then base
      else
        let half = n div 2
        in if p (xs ! (base + half)) then partition_from p xs (base + half + 1) (n - half - 1)
           else partition_from p xs base half)"
  by pat_completeness auto

termination
  by (relation "measure (\<lambda>(_, _, _, n). n)") auto

declare partition_from.simps [simp del]

definition partition_point :: "('a \<Rightarrow> bool) \<Rightarrow> 'a list \<Rightarrow> nat" where
  "partition_point p xs = partition_from p xs 0 (length xs)"

text \<open>The loop over the table from there: it ends at the first that does not match, or with eight.\<close>

fun matches_from :: "rstr \<Rightarrow> rstr list \<Rightarrow> rstr list \<Rightarrow> rstr list" where
  "matches_from pre [] results = results"
| "matches_from pre (s # ss) results =
     (if prefix pre s then
        let results1 = results @ [s]
        in if 8 \<le> length results1 then results1 else matches_from pre ss results1
      else results)"

definition trie_complete :: "rstr \<Rightarrow> rstr list" where
  "trie_complete pre =
     (let pos = partition_point (\<lambda>s. s < pre) KERNEL_COMPLETIONS
      in matches_from pre (drop pos KERNEL_COMPLETIONS) [])"

section \<open>The search finds what the definition asks for\<close>

lemma partition_from_eq:
  assumes "base + n \<le> length xs" and "\<And>i j. i \<le> j \<Longrightarrow> j < length xs \<Longrightarrow> p (xs ! j) \<Longrightarrow> p (xs ! i)"
    and "\<forall>i < base. p (xs ! i)" and "\<forall>i. base + n \<le> i \<and> i < length xs \<longrightarrow> \<not> p (xs ! i)"
  shows "partition_from p xs base n = length (takeWhile p xs)"
  using assms
proof (induction p xs base n rule: partition_from.induct)
  case (1 p xs base n)
  show ?case
  proof (cases "n = 0")
    case True
    have "takeWhile p xs = take base xs"
    proof (cases "base < length xs")
      case t: True
      show ?thesis by (rule takeWhile_eq_take_P_nth) (use True "1.prems" t in auto)
    next
      case False
      then show ?thesis using "1.prems" True by (auto simp: takeWhile_eq_all_conv set_conv_nth)
    qed
    then show ?thesis using True "1.prems"(1) by (simp add: partition_from.simps min_def)
  next
    case False
    let ?h = "n div 2"
    have h: "?h < n" using False by simp
    show ?thesis
    proof (cases "p (xs ! (base + ?h))")
      case True
      have "partition_from p xs (base + ?h + 1) (n - ?h - 1) = length (takeWhile p xs)"
      proof (rule "1.IH"(1) [OF False refl True _ "1.prems"(2)])
        show "\<forall>i < base + ?h + 1. p (xs ! i)"
          using "1.prems"(1,2) True h by (metis Suc_eq_plus1 less_Suc_eq_le order_less_le_trans nat_add_left_cancel_less)
      qed (use "1.prems"(1,4) h in auto)
      then show ?thesis using False True by (simp add: partition_from.simps [of p xs base n] Let_def)
    next
      case f: False
      have "partition_from p xs base ?h = length (takeWhile p xs)"
      proof (rule "1.IH"(2) [OF False refl f _ "1.prems"(2,3)])
        show "\<forall>i. base + ?h \<le> i \<and> i < length xs \<longrightarrow> \<not> p (xs ! i)" using "1.prems"(2) f by blast
      qed (use "1.prems"(1) h in auto)
      then show ?thesis using False f by (simp add: partition_from.simps [of p xs base n] Let_def)
    qed
  qed
qed

lemma partition_point_sorted:
  fixes xs :: "'a :: linorder list"
  assumes "sorted xs"
  shows "partition_point (\<lambda>x. x < y) xs = length (takeWhile (\<lambda>x. x < y) xs)"
  unfolding partition_point_def
proof (rule partition_from_eq)
  show "xs ! i < y" if "i \<le> j" "j < length xs" "xs ! j < y" for i j
    using sorted_nth_mono [OF assms that(1,2)] that(3) by (rule order_le_less_trans)
qed auto

lemma matches_from_eq:
  "length results < 8 \<Longrightarrow> matches_from pre xs results = take 8 (results @ takeWhile (prefix pre) xs)"
proof (induction xs arbitrary: results)
  case (Cons s ss)
  show ?case
  proof (cases "length results = 7")
    case True
    then show ?thesis by simp
  next
    case False
    then have "length (results @ [s]) < 8" using Cons.prems by simp
    then show ?thesis using Cons.IH [of "results @ [s]"] Cons.prems by (simp add: Let_def)
  qed
qed simp

lemma prefix_not_less: "prefix pre s \<Longrightarrow> \<not> s < (pre :: rstr)"
proof (induction pre arbitrary: s)
  case (Cons a pre)
  then show ?case by (cases s) auto
qed simp

text \<open>What lies between a word and one of its continuations begins with the word.\<close>

lemma prefix_between:
  fixes pre :: rstr
  assumes "pre \<le> y" and "y \<le> z" and "prefix pre z"
  shows "prefix pre y"
  using assms
proof (induction pre arbitrary: y z)
  case (Cons a pre)
  obtain z' where z: "z = a # z'" "prefix pre z'" using Cons.prems(3) by (cases z) auto
  obtain b y' where y: "y = b # y'" using Cons.prems(1) by (cases y) auto
  then have "b = a \<and> pre \<le> y' \<and> y' \<le> z'" using Cons.prems(1,2) z by auto
  then show ?case using Cons.IH z(2) y by auto
qed simp

lemma filter_run:
  fixes pre :: rstr
  assumes "sorted xs"
  shows "filter (prefix pre) xs = takeWhile (prefix pre) (dropWhile (\<lambda>s. s < pre) xs)"
  using assms
proof (induction xs)
  case (Cons x xs)
  show ?case
  proof (cases "x < pre")
    case True
    then show ?thesis using Cons prefix_not_less by auto
  next
    case False
    then have ge: "pre \<le> y" if "y \<in> set (x # xs)" for y using that Cons.prems by auto
    have none: "dropWhile (\<lambda>s. s < pre) xs = xs" using ge by (cases xs) (auto simp: not_less)
    show ?thesis
    proof (cases "prefix pre x")
      case True
      then show ?thesis using False Cons none by simp
    next
      case no: False
      have "\<not> prefix pre y" if "y \<in> set xs" for y
        using prefix_between [of pre x y] ge [of x] Cons.prems that no by auto
      then show ?thesis using False no by (simp add: filter_False)
    qed
  qed
qed simp

lemma KERNEL_COMPLETIONS_sorted: "sorted KERNEL_COMPLETIONS"
  by code_simp

section \<open>The edited line\<close>

record kshell =
  ks_buf :: rstr
  ks_cursor :: nat
  ks_history :: "rstr list"
  ks_hist_idx :: "nat option"
  ks_ghost :: "rstr option"
  ks_ai_ready :: bool

definition kshell_new :: kshell where
  "kshell_new = \<lparr>ks_buf = [], ks_cursor = 0, ks_history = [], ks_hist_idx = None, ks_ghost = None, ks_ai_ready = False\<rparr>"

text \<open>\<open>ipc::get_ai_completion\<close>.\<close>

definition get_ai_completion :: "rstr \<Rightarrow> rstr \<Rightarrow> nat \<Rightarrow> rstr" where
  "get_ai_completion pre lang max_tokens = []"

definition probe_ai :: "kshell \<Rightarrow> kshell" where
  "probe_ai k = k\<lparr>ks_ai_ready := get_ai_completion (lit ''echo '') (lit ''shell'') 1 \<noteq> []\<rparr>"

text \<open>The characters before and from a byte position, which panics inside a character and behind the end.\<close>

fun split_bytes :: "nat \<Rightarrow> rstr \<Rightarrow> (rstr \<times> rstr) outcome" where
  "split_bytes k [] = (if k = 0 then Ret ([], []) else Panic ''byte index out of range'')"
| "split_bytes k (c # cs) =
     (if k = 0 then Ret ([], c # cs)
      else if k < utf8_len c then Panic ''byte index is not a char boundary''
      else bind_outcome (split_bytes (k - utf8_len c) cs) (\<lambda>(a, b). Ret (c # a, b)))"

definition set_buf :: "rstr \<Rightarrow> kshell \<Rightarrow> kshell" where
  "set_buf l k = k\<lparr>ks_buf := l, ks_cursor := str_len l\<rparr>"

definition tab_complete :: "kshell \<Rightarrow> (rstr list \<times> kshell) outcome" where
  "tab_complete k =
     (let line = ks_buf k
      in case trie_complete line of
        [hit] \<Rightarrow> Ret ([], set_buf hit k)
      | hit # hits \<Rightarrow> Ret (hit # hits, k)
      | [] \<Rightarrow>
          let completion = get_ai_completion line (lit ''shell'') 32
          in if ks_ai_ready k \<and> completion \<noteq> [] then
               let token_start = (case rfind (\<lambda>c. c = 32 \<or> c = 47) line of None \<Rightarrow> 0 | Some i \<Rightarrow> i + 1)
               in bind_outcome (slice_from token_start line) (\<lambda>tok.
                    bind_outcome
                      (if prefix tok completion then slice_from (str_len line - token_start) completion else Ret completion)
                      (\<lambda>suffix. Ret ([], set_buf (line @ suffix) k)))
             else Ret ([], k))"

definition update_ghost :: "kshell \<Rightarrow> kshell" where
  "update_ghost k =
     (if \<not> ks_ai_ready k then k
      else let pred = get_ai_completion (ks_buf k) (lit ''shell'') 1
           in k\<lparr>ks_ghost := if pred = [] then None else Some pred\<rparr>)"

definition insert_char :: "nat \<Rightarrow> kshell \<Rightarrow> kshell outcome" where
  "insert_char ch k =
     bind_outcome (split_bytes (ks_cursor k) (ks_buf k)) (\<lambda>(a, b).
       Ret (k\<lparr>ks_ghost := None, ks_buf := a @ ch # b, ks_cursor := ks_cursor k + utf8_len ch\<rparr>))"

text \<open>The position of the last character before the cursor is the end of what stands before that one.\<close>

definition kbackspace :: "kshell \<Rightarrow> kshell outcome" where
  "kbackspace k =
     (let k1 = k\<lparr>ks_ghost := None\<rparr>
      in if 0 < ks_cursor k1 then
           bind_outcome (split_bytes (ks_cursor k1) (ks_buf k1)) (\<lambda>(a, b).
             Ret (k1\<lparr>ks_buf := butlast a @ b, ks_cursor := str_len (butlast a)\<rparr>))
         else Ret k1)"

definition kaccept_ghost :: "kshell \<Rightarrow> kshell" where
  "kaccept_ghost k =
     (case ks_ghost k of None \<Rightarrow> k | Some g \<Rightarrow> set_buf (ks_buf k @ g) (k\<lparr>ks_ghost := None\<rparr>))"

definition commit :: "kshell \<Rightarrow> rstr \<times> kshell" where
  "commit k =
     (let line = ks_buf k
      in (line, k\<lparr>ks_buf := [], ks_cursor := 0, ks_ghost := None,
           ks_history := (if AiOnline.trim line \<noteq> [] then ks_history k @ [line] else ks_history k), ks_hist_idx := None\<rparr>))"

definition history_at :: "nat \<Rightarrow> kshell \<Rightarrow> kshell outcome" where
  "history_at i k =
     (if i < length (ks_history k) then Ret (set_buf (ks_history k ! i) k) else Panic ''index out of bounds'')"

definition khist_prev :: "kshell \<Rightarrow> kshell outcome" where
  "khist_prev k =
     (if ks_history k = [] then Ret k
      else
        let idx = (case ks_hist_idx k of None \<Rightarrow> length (ks_history k) - 1 | Some i \<Rightarrow> i - 1)
        in history_at idx (k\<lparr>ks_hist_idx := Some idx\<rparr>))"

definition khist_next :: "kshell \<Rightarrow> kshell outcome" where
  "khist_next k =
     (case ks_hist_idx k of
        None \<Rightarrow> Ret k
      | Some idx \<Rightarrow>
          if idx + 1 < length (ks_history k) then history_at (idx + 1) (k\<lparr>ks_hist_idx := Some (idx + 1)\<rparr>)
          else Ret (k\<lparr>ks_hist_idx := None, ks_buf := [], ks_cursor := 0\<rparr>))"

text \<open>\<open>?? query\<close>, and the advice after a failed command.\<close>

definition maybe_ai_query :: "kshell \<Rightarrow> rstr option outcome" where
  "maybe_ai_query k =
     (let line = AiOnline.trim (ks_buf k)
      in if \<not> prefix (lit ''??'') line then Ret None
         else bind_outcome (slice_from 2 line) (\<lambda>rest.
           let query = AiOnline.trim rest
           in if query = [] then Ret None
              else
                let answer = get_ai_completion (lit ''Explain this shell command briefly (1-2 lines): '' @ query) (lit ''shell'') 80
                in Ret (if answer = [] then None else Some answer)))"

definition show_int :: "int \<Rightarrow> string" where
  "show_int n = (if n < 0 then CHR ''-'' # decimal (nat (- n)) else decimal (nat n))"

definition ai_suggest_fix :: "rstr \<Rightarrow> int \<Rightarrow> kshell \<Rightarrow> rstr option" where
  "ai_suggest_fix failed_cmd exit_code k =
     (if \<not> ks_ai_ready k then None
      else
        let suggestion = get_ai_completion
              (lit ''The shell command `'' @ failed_cmd @ lit ''` failed with exit code '' @ lit (show_int exit_code) @
               lit ''. Give a one-sentence explanation and the corrected command.'') (lit ''shell'') 60
        in if suggestion = [] then None else Some suggestion)"

section \<open>Built-in commands\<close>

text \<open>The first word of a line, as \<open>split_whitespace\<close> gives it.\<close>

definition first_word :: "rstr \<Rightarrow> rstr option" where
  "first_word line =
     (let w = takeWhile (\<lambda>c. \<not> is_whitespace c) (dropWhile is_whitespace line) in if w = [] then None else Some w)"

text \<open>Output, exit code, and whether the keyboard controller is told to reset the machine.\<close>

definition exec_builtin :: "bool \<Rightarrow> u64 \<Rightarrow> rstr \<Rightarrow> rstr \<times> int \<times> bool" where
  "exec_builtin ai_channel free line =
     (case first_word line of
        None \<Rightarrow> ([], 0, False)
      | Some cmd \<Rightarrow>
          if cmd = lit ''help'' then
            (lit ''Noxisa Kernel Shell '' @ 0x2014 # lit '' built-ins:'' @ 10 # lit ''help, clear, reboot, dmesg, meminfo, ps, version'' @
              10 # lit ''Tab: AI completion    ??: AI explanation'', 0, False)
          else if cmd = lit ''version'' then
            (lit ''Noxisa v0.1 '' @ 0x2014 # lit '' kernel shell (AI '' @ (if ai_channel then lit ''online'' else lit ''offline'') @ lit '')'', 0, False)
          else if cmd = lit ''meminfo'' then
            (lit ''Free: '' @ lit (decimal (unat (free * 4096 div (1024 * 1024)))) @ lit '' MiB'', 0, False)
          else if cmd = lit ''clear'' then (27 # lit ''[2J'' @ 27 # lit ''[H'', 0, False)
          else if cmd = lit ''reboot'' then ([], 0, True)
          else (lit ''kshell: '' @ cmd @ lit '': command not found'' @ 10 # lit ''(hint: full shell launches after init)'', 127, False))"

section \<open>The editor keeps its cursor\<close>

text \<open>
  The cursor is the byte length of what stands before it; the entry shown exists; the removed language model has left
  neither a suggestion nor a mark that it is there.
\<close>

definition kshell_ok :: "kshell \<Rightarrow> bool" where
  "kshell_ok k \<longleftrightarrow> (\<exists>a b. ks_buf k = a @ b \<and> ks_cursor k = str_len a) \<and>
     (\<forall>i. ks_hist_idx k = Some i \<longrightarrow> i < length (ks_history k)) \<and> \<not> ks_ai_ready k \<and> ks_ghost k = None"

lemma utf8_len_pos [simp]: "0 < utf8_len c"
  by (simp add: utf8_len_def)

lemma str_len_simps [simp]:
  "str_len [] = 0" "str_len (c # cs) = utf8_len c + str_len cs" "str_len (a @ b) = str_len a + str_len b"
  by (simp_all add: str_len_def)

lemma split_bytes_at [simp]: "split_bytes (str_len a) (a @ b) = Ret (a, b)"
proof (induction a)
  case Nil
  then show ?case by (cases b) simp_all
next
  case (Cons c a)
  have "0 < utf8_len c" by simp
  then show ?case using Cons by simp
qed

datatype kshell_op = OpTab | OpInsert nat | OpBackspace | OpGhost | OpAccept | OpCommit | OpPrev | OpNext | OpProbe | OpQuery

fun kshell_step :: "kshell_op \<Rightarrow> kshell \<Rightarrow> kshell outcome" where
  "kshell_step OpTab k = bind_outcome (tab_complete k) (\<lambda>(_, k1). Ret k1)"
| "kshell_step (OpInsert c) k = insert_char c k"
| "kshell_step OpBackspace k = kbackspace k"
| "kshell_step OpGhost k = Ret (update_ghost k)"
| "kshell_step OpAccept k = Ret (kaccept_ghost k)"
| "kshell_step OpCommit k = Ret (snd (commit k))"
| "kshell_step OpPrev k = khist_prev k"
| "kshell_step OpNext k = khist_next k"
| "kshell_step OpProbe k = Ret (probe_ai k)"
| "kshell_step OpQuery k = bind_outcome (maybe_ai_query k) (\<lambda>_. Ret k)"

lemma kshell_ok_set_buf:
  assumes "\<forall>i. ks_hist_idx k = Some i \<longrightarrow> i < length (ks_history k)" and "\<not> ks_ai_ready k" and "ks_ghost k = None"
  shows "kshell_ok (set_buf l k)"
proof -
  have "ks_buf (set_buf l k) = l @ [] \<and> ks_cursor (set_buf l k) = str_len l" by (simp add: set_buf_def)
  then show ?thesis using assms by (auto simp: kshell_ok_def set_buf_def)
qed

lemma slice_query: "prefix (lit ''??'') line \<Longrightarrow> \<exists>rest. slice_from 2 line = Ret rest"
  by (auto simp: prefix_def lit_def utf8_len_def)

lemma kshell_step_ok:
  assumes "kshell_ok k"
  shows "\<exists>k'. kshell_step op k = Ret k' \<and> kshell_ok k'"
proof -
  obtain a b where ab: "ks_buf k = a @ b" "ks_cursor k = str_len a" using assms by (auto simp: kshell_ok_def)
  have h: "\<forall>i. ks_hist_idx k = Some i \<longrightarrow> i < length (ks_history k)" "\<not> ks_ai_ready k" "ks_ghost k = None"
    using assms by (simp_all add: kshell_ok_def)
  show ?thesis
  proof (cases op)
    case OpTab
    then show ?thesis using kshell_ok_set_buf [OF h] assms h(2)
      by (auto simp: tab_complete_def Let_def split: list.split)
  next
    case (OpInsert c)
    have "\<exists>a' b'. a @ c # b = a' @ b' \<and> str_len a + utf8_len c = str_len a'"
      by (intro exI [of _ "a @ [c]"] exI [of _ b]) simp
    then show ?thesis using OpInsert ab h by (auto simp: insert_char_def kshell_ok_def)
  next
    case OpBackspace
    show ?thesis
    proof (cases "ks_cursor k = 0")
      case True
      then show ?thesis using OpBackspace assms by (auto simp: kbackspace_def Let_def kshell_ok_def)
    next
      case False
      have "kbackspace k = Ret (k\<lparr>ks_ghost := None, ks_buf := butlast a @ b, ks_cursor := str_len (butlast a)\<rparr>)"
        using False ab by (simp add: kbackspace_def Let_def)
      then show ?thesis using OpBackspace h by (auto simp: kshell_ok_def)
    qed
  next
    case OpCommit
    then show ?thesis using h by (auto simp: commit_def kshell_ok_def Let_def)
  next
    case OpPrev
    show ?thesis
    proof (cases "ks_history k = []")
      case False
      let ?i = "case ks_hist_idx k of None \<Rightarrow> length (ks_history k) - 1 | Some i \<Rightarrow> i - 1"
      have i: "?i < length (ks_history k)" using False h(1) by (auto split: option.split)
      then have "kshell_ok (set_buf (ks_history k ! ?i) (k\<lparr>ks_hist_idx := Some ?i\<rparr>))"
        using h by (intro kshell_ok_set_buf) simp_all
      moreover have "khist_prev k = Ret (set_buf (ks_history k ! ?i) (k\<lparr>ks_hist_idx := Some ?i\<rparr>))"
        using False i by (simp add: khist_prev_def history_at_def Let_def)
      ultimately show ?thesis using OpPrev by simp
    qed (use OpPrev assms in \<open>simp add: khist_prev_def\<close>)
  next
    case OpNext
    show ?thesis
    proof (cases "ks_hist_idx k")
      case (Some i)
      show ?thesis
      proof (cases "i + 1 < length (ks_history k)")
        case True
        then have "kshell_ok (set_buf (ks_history k ! (i + 1)) (k\<lparr>ks_hist_idx := Some (i + 1)\<rparr>))"
          using h by (intro kshell_ok_set_buf) simp_all
        then show ?thesis using OpNext Some True by (simp add: khist_next_def history_at_def)
      next
        case False
        then show ?thesis using OpNext Some h by (auto simp: khist_next_def kshell_ok_def)
      qed
    qed (use OpNext assms in \<open>simp add: khist_next_def\<close>)
  next
    case OpQuery
    then show ?thesis using assms slice_query [of "AiOnline.trim (ks_buf k)"]
      by (auto simp: maybe_ai_query_def Let_def)
  qed (use assms h in \<open>simp_all add: update_ghost_def kaccept_ghost_def probe_ai_def get_ai_completion_def kshell_ok_def\<close>)
qed

lemma kshell_steps_ok:
  assumes "kshell_ok k"
  shows "\<exists>k'. fold (\<lambda>op m. bind_outcome m (kshell_step op)) ops (Ret k) = Ret k' \<and> kshell_ok k'"
  using assms
proof (induction ops arbitrary: k)
  case (Cons op ops)
  obtain k1 where "kshell_step op k = Ret k1" "kshell_ok k1" using kshell_step_ok [OF Cons.prems] by blast
  then show ?case using Cons.IH by simp
qed simp

text \<open>
  The early-boot shell never panics. From its start, whatever is typed, erased, completed, committed and recalled, in
  any order and with characters of any length, every operation returns and the cursor stands between two
  characters of the line. Since the model behind it is gone, no suggestion ever appears.
\<close>

theorem kshell_never_panics:
  "\<exists>k'. fold (\<lambda>op m. bind_outcome m (kshell_step op)) ops (Ret kshell_new) = Ret k' \<and> kshell_ok k'"
  by (rule kshell_steps_ok) (simp add: kshell_ok_def kshell_new_def)

text \<open>
  C36. The binary search agrees with the definition: what the shell offers for a prefix are the words of the
  table that begin with it, in order, at most eight.
\<close>

theorem kernel_completions_complete:
  "trie_complete pre = take 8 (filter (prefix pre) KERNEL_COMPLETIONS)"
proof -
  have "drop (length (takeWhile (\<lambda>s. s < pre) KERNEL_COMPLETIONS)) KERNEL_COMPLETIONS =
      dropWhile (\<lambda>s. s < pre) KERNEL_COMPLETIONS"
    by (simp add: dropWhile_eq_drop)
  then show ?thesis
    by (simp add: trie_complete_def partition_point_sorted KERNEL_COMPLETIONS_sorted matches_from_eq
        filter_run)
qed

end
