(* ===== verification/Boot.thy ===== *)
theory Boot
  imports Elf
begin

text \<open>
  The UEFI bootloader (\<open>bootloader/src/main.rs\<close>): the memory map it hands over, the kernel image it loads and
  the page tables it builds. The firmware is an argument: its memory descriptors, what allocating pages answers, and the bytes
  around the file. During boot, physical and virtual addresses agree, so memory is indexed by physical address.
  The walk of the tables is the processor's, with the rule that an entry with a reserved bit faults.
\<close>

section \<open>The memory map\<close>

datatype uefi_type =
  Conventional | AcpiReclaim | AcpiNonVolatile | Unusable | LoaderCode | LoaderData | OtherType

record uefi_desc =
  ud_type :: uefi_type
  ud_start :: u64
  ud_pages :: u64

record boot_region =
  br_base :: u64
  br_length :: u64
  br_kind :: u32

definition kind_of :: "uefi_type \<Rightarrow> u32" where
  "kind_of ty = (case ty of
     Conventional \<Rightarrow> 0 | AcpiReclaim \<Rightarrow> 2 | AcpiNonVolatile \<Rightarrow> 3 | Unusable \<Rightarrow> 4 |
     LoaderCode \<Rightarrow> 5 | LoaderData \<Rightarrow> 5 | OtherType \<Rightarrow> 1)"

text \<open>The loop stops at 256 regions.\<close>

fun fill_regions :: "uefi_desc list \<Rightarrow> boot_region list \<Rightarrow> boot_region list" where
  "fill_regions [] rs = rs"
| "fill_regions (d # ds) rs =
     (if 256 \<le> length rs then rs
      else fill_regions ds (rs @ [\<lparr>br_base = ud_start d, br_length = ud_pages d * 4096, br_kind = kind_of (ud_type d)\<rparr>]))"

definition memory_map :: "uefi_desc list \<Rightarrow> boot_region list" where
  "memory_map ds = fill_regions ds []"

section \<open>The kernel image\<close>

text \<open>
  A slice of the file, which panics when it is not inside; and the words in it. Offsets are \<open>usize\<close> in a release
  build, so they wrap.
\<close>

definition slice :: "u8 list \<Rightarrow> u64 \<Rightarrow> nat \<Rightarrow> u8 list outcome" where
  "slice bs off n =
     (if unat off + n \<le> length bs then Ret (take n (drop (unat off) bs)) else Panic ''slice index out of range'')"

definition slice_rest :: "u8 list \<Rightarrow> u64 \<Rightarrow> u8 list outcome" where
  "slice_rest bs off = (if unat off \<le> length bs then Ret (drop (unat off) bs) else Panic ''slice index out of range'')"

definition word_in :: "u8 list \<Rightarrow> u64 \<Rightarrow> nat \<Rightarrow> ('a::len word) outcome" where
  "word_in bs off n = bind_outcome (slice bs off n) (\<lambda>x. Ret (from_le x))"

text \<open>\<open>alloc\<close> is \<open>allocate_pages\<close>: a wanted address or none, a number of pages, and the state of the firmware.\<close>

type_synonym 'f firmware = "u64 option \<Rightarrow> u64 \<Rightarrow> 'f \<Rightarrow> u64 option \<times> 'f"

definition boot_segment ::
  "'f firmware \<Rightarrow> u8 list \<Rightarrow> around \<Rightarrow> u8 list \<Rightarrow> u64 \<times> memory \<times> 'f \<Rightarrow> (u64 \<times> memory \<times> 'f) outcome" where
  "boot_segment alloc elf around ph em =
     (case em of (e, m, f) \<Rightarrow>
        bind_outcome (word_in ph 8 8) (\<lambda>off. bind_outcome (word_in ph 16 8) (\<lambda>vaddr.
        bind_outcome (word_in ph 24 8) (\<lambda>paddr. bind_outcome (word_in ph 32 8) (\<lambda>filesz.
        bind_outcome (word_in ph 40 8) (\<lambda>memsz.
          let pages = (memsz + 4095) div 4096
          in bind_outcome
               (if paddr \<noteq> 0 then
                  (case alloc (Some paddr) pages f of (Some a, f1) \<Rightarrow> Ret (a, f1) | (None, f1) \<Rightarrow> Ret (paddr, f1))
                else case alloc None pages f of
                  (Some a, f1) \<Rightarrow> Ret (a, f1)
                | (None, _) \<Rightarrow> Panic ''Failed to allocate pages for ELF segment'')
               (\<lambda>(phys, f1).
                 let m1 = copy_bytes elf around off phys (unat filesz) m;
                     m2 = (if memsz > filesz then zero_bytes m1 (phys + filesz) (unat (memsz - filesz)) else m1)
                 in Ret (max e (vaddr + memsz), m2, f1))))))))"

fun boot_segments ::
  "'f firmware \<Rightarrow> u8 list \<Rightarrow> around \<Rightarrow> u64 \<Rightarrow> u64 \<Rightarrow> nat list \<Rightarrow>
     u64 \<times> memory \<times> 'f \<Rightarrow> (u64 \<times> memory \<times> 'f) outcome" where
  "boot_segments alloc elf around phoff phentsz [] em = Ret em"
| "boot_segments alloc elf around phoff phentsz (i # is) em =
     bind_outcome (slice_rest elf (phoff + of_nat i * phentsz)) (\<lambda>ph.
       bind_outcome (word_in ph 0 4) (\<lambda>ty.
         if (ty :: u32) \<noteq> 1 then boot_segments alloc elf around phoff phentsz is em
         else bind_outcome (boot_segment alloc elf around ph em) (boot_segments alloc elf around phoff phentsz is)))"

definition parse_elf :: "'f firmware \<Rightarrow> u8 list \<Rightarrow> around \<Rightarrow> memory \<times> 'f \<Rightarrow> (u64 \<times> u64 \<times> memory \<times> 'f) outcome" where
  "parse_elf alloc elf around mf =
     bind_outcome (slice elf 0 4) (\<lambda>magic.
       if magic \<noteq> [0x7F, 0x45, 0x4C, 0x46] then Panic ''Not an ELF binary''
       else if length elf < 6 then Panic ''index out of bounds''
       else if elf ! 4 \<noteq> 2 then Panic ''Not ELF64''
       else if elf ! 5 \<noteq> 1 then Panic ''Not little-endian ELF''
       else bind_outcome (word_in elf 24 8) (\<lambda>entry. bind_outcome (word_in elf 32 8) (\<lambda>phoff.
         bind_outcome (word_in elf 54 2) (\<lambda>phentsz. bind_outcome (word_in elf 56 2) (\<lambda>phnum.
           bind_outcome (boot_segments alloc elf around phoff (ucast (phentsz :: u16)) [0..<unat (phnum :: u16)] (0, mf))
             (\<lambda>(e, mf1). Ret (entry, e, mf1)))))))"

section \<open>The page tables\<close>

definition HHDM_BASE :: u64 where "HHDM_BASE = 0xFFFF800000000000"
definition BOOT_PRESENT :: u64 where "BOOT_PRESENT = push_bit 0 1"
definition BOOT_WRITABLE :: u64 where "BOOT_WRITABLE = push_bit 1 1"
definition BOOT_HUGE :: u64 where "BOOT_HUGE = push_bit 7 1"
definition PAGE_2M :: u64 where "PAGE_2M = 2 * 1024 * 1024"

lemmas boot_flag_defs = BOOT_PRESENT_def BOOT_WRITABLE_def BOOT_HUGE_def

definition write_entry :: "u64 \<Rightarrow> nat \<Rightarrow> u64 \<Rightarrow> memory \<Rightarrow> memory" where
  "write_entry table index value m = store64 m (entry_addr table index) value"

definition alloc_table :: "u64 \<Rightarrow> nat \<Rightarrow> u64" where
  "alloc_table base offset = base + of_nat offset * 4096"

definition link :: "u64 \<Rightarrow> u64" where
  "link t = t OR BOOT_PRESENT OR BOOT_WRITABLE"

definition huge :: "u64 \<Rightarrow> u64" where
  "huge p = p OR BOOT_PRESENT OR BOOT_WRITABLE OR BOOT_HUGE"

definition identity_gib :: "u64 \<Rightarrow> u64 \<Rightarrow> nat \<Rightarrow> memory \<Rightarrow> memory" where
  "identity_gib pt hhdm gib m =
     (let pd = alloc_table pt (2 + gib);
          m1 = write_entry (alloc_table pt 1) gib (link pd) m;
          m2 = fold (\<lambda>mb2. write_entry pd mb2 (huge (of_nat gib * 1024 * 1024 * 1024 + of_nat mb2 * PAGE_2M))) [0..<512] m1;
          idx = unat (drop_bit 30 hhdm AND 0x1FF) + gib
      in write_entry (alloc_table pt 6) (unat (of_nat idx AND (0x1FF :: u64))) (link pd) m2)"

definition build_page_tables :: "u64 \<Rightarrow> u64 \<Rightarrow> memory \<Rightarrow> memory" where
  "build_page_tables pt hhdm m =
     (let pml4 = alloc_table pt 0;
          m1 = write_entry pml4 0 (link (alloc_table pt 1)) m;
          m2 = write_entry pml4 (unat (drop_bit 39 hhdm AND 0x1FF)) (link (alloc_table pt 6)) m1;
          m3 = write_entry pml4 511 (link (alloc_table pt 8)) m2;
          m4 = fold (identity_gib pt hhdm) [0..<4] m3;
          m5 = write_entry (alloc_table pt 8) 510 (link (alloc_table pt 9)) m4
      in fold (\<lambda>mb2. write_entry (alloc_table pt 9) mb2 (huge (0x00100000 + of_nat mb2 * PAGE_2M))) [0..<64] m5)"

section \<open>The hand-over\<close>

record boot_framebuffer =
  bf_phys :: u64
  bf_width :: u32
  bf_height :: u32
  bf_pitch :: u32
  bf_bpp :: u8

text \<open>The mode's resolution and stride, and the address of its memory.\<close>

definition setup_graphics :: "u64 \<Rightarrow> u64 \<Rightarrow> u64 \<Rightarrow> u64 \<Rightarrow> boot_framebuffer" where
  "setup_graphics addr w h stride =
     \<lparr>bf_phys = addr, bf_width = ucast w, bf_height = ucast h, bf_pitch = ucast (stride * 4), bf_bpp = 32\<rparr>"

record boot_info =
  bi_magic :: u64
  bi_hhdm_offset :: u64
  bi_framebuffer :: boot_framebuffer
  bi_map :: "boot_region list"

definition NEXUS_MAGIC :: u64 where "NEXUS_MAGIC = 0x4E4558554E455855"

text \<open>What the kernel is entered with: the address that is called, the tables, memory, and the structure it is given.\<close>

record handoff =
  ho_entry :: u64
  ho_cr3 :: u64
  ho_mem :: memory
  ho_info :: boot_info

definition boot_main ::
  "'f firmware \<Rightarrow> boot_framebuffer \<Rightarrow> u8 list \<Rightarrow> around \<Rightarrow> uefi_desc list \<Rightarrow> memory \<times> 'f \<Rightarrow> handoff outcome" where
  "boot_main alloc fb elf around descs mf =
     bind_outcome (parse_elf alloc elf around mf) (\<lambda>(entry, _, m1, f1).
       case alloc None 16 f1 of
         (None, _) \<Rightarrow> Panic ''Failed to allocate page table pages''
       | (Some pt, f2) \<Rightarrow>
           let m2 = zero_bytes m1 pt (16 * 4096)
           in (case alloc None 1 f2 of
                 (None, _) \<Rightarrow> Panic ''Failed to allocate BootInfo page''
               | (Some _, _) \<Rightarrow>
                   Ret \<lparr>ho_entry = entry, ho_cr3 = pt, ho_mem = build_page_tables pt HHDM_BASE m2,
                        ho_info = \<lparr>bi_magic = NEXUS_MAGIC, bi_hhdm_offset = HHDM_BASE, bi_framebuffer = fb,
                                   bi_map = memory_map descs\<rparr>\<rparr>))"

section \<open>The processor's walk\<close>

definition table_index :: "nat \<Rightarrow> u64 \<Rightarrow> nat" where
  "table_index k va = unat (drop_bit k va AND 0x1FF)"

text \<open>
  An entry that is not present faults, and so does an entry of a large page with one of the address bits below the
  page size set. The address of the next table, or of the page, is in bits 12 to 51.
\<close>

definition translate :: "memory \<Rightarrow> u64 \<Rightarrow> u64 \<Rightarrow> u64 option" where
  "translate m cr3 va =
     (let e4 = load64 m (entry_addr cr3 (table_index 39 va))
      in if \<not> bit e4 0 then None
      else let e3 = load64 m (entry_addr (e4 AND ADDR_MASK) (table_index 30 va))
      in if \<not> bit e3 0 then None
      else if bit e3 7 then
        if e3 AND 0x3FFFE000 \<noteq> 0 then None else Some (e3 AND 0x000FFFFFC0000000 OR va AND 0x3FFFFFFF)
      else let e2 = load64 m (entry_addr (e3 AND ADDR_MASK) (table_index 21 va))
      in if \<not> bit e2 0 then None
      else if bit e2 7 then
        if e2 AND 0x1FE000 \<noteq> 0 then None else Some (e2 AND 0x000FFFFFFFE00000 OR va AND 0x1FFFFF)
      else let e1 = load64 m (entry_addr (e2 AND ADDR_MASK) (table_index 12 va))
      in if \<not> bit e1 0 then None else Some (e1 AND ADDR_MASK OR va AND 0xFFF))"

section \<open>What the tables hold\<close>

definition tables_ok :: "u64 \<Rightarrow> memory \<Rightarrow> bool" where
  "tables_ok pt m \<longleftrightarrow> page_aligned pt \<and> unat pt + 65536 \<le> 2 ^ 52 \<and> (\<forall>k < 16. page_zero m (alloc_table pt k))"

lemma unat_alloc_table:
  assumes "unat pt + 65536 \<le> 2 ^ 52" and "k < 16"
  shows "unat (alloc_table pt k) = unat pt + 4096 * k"
proof -
  have "unat (of_nat (4096 * k) :: u64) = 4096 * k" by (rule unat_u64_of_nat) (use assms(2) in simp)
  then have "unat (pt + of_nat (4096 * k)) = unat pt + 4096 * k"
    using assms by (subst unat_add_no_wrap) simp_all
  then show ?thesis by (simp add: alloc_table_def mult.commute)
qed

lemma alloc_table_aligned:
  assumes "page_aligned pt" and "unat pt + 65536 \<le> 2 ^ 52" and "k < 16"
  shows "page_aligned (alloc_table pt k)"
  using assms by (simp add: page_aligned_dvd unat_alloc_table)

lemma alloc_table_inj:
  assumes "unat pt + 65536 \<le> 2 ^ 52" and "j < 16" and "k < 16"
  shows "alloc_table pt j = alloc_table pt k \<longleftrightarrow> j = k"
proof
  assume "alloc_table pt j = alloc_table pt k"
  then have "unat (alloc_table pt j) = unat (alloc_table pt k)" by simp
  then show "j = k" by (simp add: unat_alloc_table [OF assms(1,2)] unat_alloc_table [OF assms(1,3)])
qed simp

lemma load_write_entry:
  assumes "page_aligned t" "page_aligned u" "i < 512" "j < 512"
  shows "load64 (write_entry u j v m) (entry_addr t i) = (if t = u \<and> i = j then v else load64 m (entry_addr t i))"
  unfolding write_entry_def by (rule load_store_entry [OF assms])

lemma load_fill:
  assumes "page_aligned t" "page_aligned u" "i < 512" "n \<le> 512"
  shows "load64 (fold (\<lambda>j. write_entry u j (f j)) [0..<n] m) (entry_addr t i) =
    (if t = u \<and> i < n then f i else load64 m (entry_addr t i))"
  using assms(4)
proof (induction n)
  case (Suc n)
  have "load64 (fold (\<lambda>j. write_entry u j (f j)) [0..<Suc n] m) (entry_addr t i) =
      (if t = u \<and> i = n then f n else load64 (fold (\<lambda>j. write_entry u j (f j)) [0..<n] m) (entry_addr t i))"
    using load_write_entry [OF assms(1,2,3), of n] Suc.prems by simp
  then show ?case using Suc by auto
qed simp

lemma hhdm_index: "unat (drop_bit 39 HHDM_BASE AND 0x1FF) = 256" "unat (drop_bit 30 HHDM_BASE AND 0x1FF) = 0"
  unfolding HHDM_BASE_def by code_simp+

text \<open>One GiB: the entry in both directories, and the 512 large pages.\<close>

lemma load_identity_gib:
  assumes "page_aligned pt" "unat pt + 65536 \<le> 2 ^ 52" "k < 16" "i < 512" "g < 4"
  shows "load64 (identity_gib pt HHDM_BASE g m) (entry_addr (alloc_table pt k) i) =
    (if (k = 1 \<or> k = 6) \<and> i = g then link (alloc_table pt (2 + g))
     else if k = 2 + g then huge (of_nat g * 1024 * 1024 * 1024 + of_nat i * PAGE_2M)
     else load64 m (entry_addr (alloc_table pt k) i))"
proof -
  note al = alloc_table_aligned [OF assms(1,2)]
  note inj = alloc_table_inj [OF assms(2)]
  have g: "2 + g < 16" "g < 512" using assms(5) by simp_all
  have "unat (of_nat g AND (0x1FF :: u64)) = g"
  proof -
    have m: "(0x1FF :: u64) = mask 9" by (simp add: mask_eq_exp_minus_1)
    have "unat (of_nat g :: u64) = g" by (rule unat_u64_of_nat) (use assms(5) in simp)
    then show ?thesis unfolding m using g(2) by (simp add: unat_and_mask)
  qed
  then have h: "identity_gib pt HHDM_BASE g m =
      write_entry (alloc_table pt 6) g (link (alloc_table pt (2 + g)))
        (fold (\<lambda>mb2. write_entry (alloc_table pt (2 + g)) mb2 (huge (of_nat g * 1024 * 1024 * 1024 + of_nat mb2 * PAGE_2M)))
          [0..<512] (write_entry (alloc_table pt 1) g (link (alloc_table pt (2 + g))) m))"
    by (simp add: identity_gib_def Let_def hhdm_index)
  have six: "(6 :: nat) < 16" and one: "(1 :: nat) < 16" by simp_all
  show ?thesis
    unfolding h load_write_entry [OF al [OF assms(3)] al [OF six] assms(4) g(2)]
      load_fill [OF al [OF assms(3)] al [OF g(1)] assms(4) order.refl]
      load_write_entry [OF al [OF assms(3)] al [OF one] assms(4) g(2)]
      inj [OF assms(3) six] inj [OF assms(3) g(1)] inj [OF assms(3) one]
    using assms(4,5) by auto
qed

lemma load_gibs:
  assumes "page_aligned pt" "unat pt + 65536 \<le> 2 ^ 52" "k < 16" "i < 512" "n \<le> 4"
  shows "load64 (fold (identity_gib pt HHDM_BASE) [0..<n] m) (entry_addr (alloc_table pt k) i) =
    (if (k = 1 \<or> k = 6) \<and> i < n then link (alloc_table pt (2 + i))
     else if 2 \<le> k \<and> k < 2 + n then huge (of_nat (k - 2) * 1024 * 1024 * 1024 + of_nat i * PAGE_2M)
     else load64 m (entry_addr (alloc_table pt k) i))"
  using assms(5)
proof (induction n)
  case (Suc n)
  then have n: "n < 4" by simp
  have "load64 (fold (identity_gib pt HHDM_BASE) [0..<Suc n] m) (entry_addr (alloc_table pt k) i) =
    (if (k = 1 \<or> k = 6) \<and> i = n then link (alloc_table pt (2 + n))
     else if k = 2 + n then huge (of_nat n * 1024 * 1024 * 1024 + of_nat i * PAGE_2M)
     else load64 (fold (identity_gib pt HHDM_BASE) [0..<n] m) (entry_addr (alloc_table pt k) i))"
    using load_identity_gib [OF assms(1-4) n] by simp
  then show ?case using Suc.IH n by auto
qed auto

text \<open>All entries of the ten tables.\<close>

definition boot_entry :: "u64 \<Rightarrow> nat \<Rightarrow> nat \<Rightarrow> u64" where
  "boot_entry pt k i =
     (if k = 0 then (if i = 0 then link (alloc_table pt 1) else if i = 256 then link (alloc_table pt 6)
        else if i = 511 then link (alloc_table pt 8) else 0)
      else if k = 1 \<or> k = 6 then (if i < 4 then link (alloc_table pt (2 + i)) else 0)
      else if 2 \<le> k \<and> k < 6 then huge (of_nat (k - 2) * 1024 * 1024 * 1024 + of_nat i * PAGE_2M)
      else if k = 8 then (if i = 510 then link (alloc_table pt 9) else 0)
      else if k = 9 then (if i < 64 then huge (0x00100000 + of_nat i * PAGE_2M) else 0)
      else 0)"

lemma load_build:
  assumes "tables_ok pt m" and "k < 10" and "i < 512"
  shows "load64 (build_page_tables pt HHDM_BASE m) (entry_addr (alloc_table pt k) i) = boot_entry pt k i"
proof -
  have a: "page_aligned pt" "unat pt + 65536 \<le> 2 ^ 52" using assms(1) by (simp_all add: tables_ok_def)
  note al = alloc_table_aligned [OF a]
  note inj = alloc_table_inj [OF a(2)]
  have k: "k < 16" using assms(2) by simp
  have c: "(0 :: nat) < 16" "(8 :: nat) < 16" "(9 :: nat) < 16" by simp_all
  have n: "(0 :: nat) < 512" "(256 :: nat) < 512" "(511 :: nat) < 512" "(510 :: nat) < 512" "(64 :: nat) \<le> 512" by simp_all
  have z: "load64 m (entry_addr (alloc_table pt k) i) = 0"
    using load_page_zero [OF al [OF k] assms(3)] assms(1) k by (simp add: tables_ok_def)
  note wr = load_write_entry [OF al [OF k] _ assms(3)]
  have e: "load64 (build_page_tables pt HHDM_BASE m) (entry_addr (alloc_table pt k) i) =
    (if k = 9 \<and> i < 64 then huge (0x00100000 + of_nat i * PAGE_2M)
     else if k = 8 \<and> i = 510 then link (alloc_table pt 9)
     else if (k = 1 \<or> k = 6) \<and> i < 4 then link (alloc_table pt (2 + i))
     else if 2 \<le> k \<and> k < 2 + 4 then huge (of_nat (k - 2) * 1024 * 1024 * 1024 + of_nat i * PAGE_2M)
     else if k = 0 \<and> i = 511 then link (alloc_table pt 8)
     else if k = 0 \<and> i = 256 then link (alloc_table pt 6)
     else if k = 0 \<and> i = 0 then link (alloc_table pt 1) else 0)"
    unfolding build_page_tables_def Let_def hhdm_index
      load_fill [OF al [OF k] al [OF c(3)] assms(3) n(5)] wr [OF al [OF c(2)] n(4)]
      load_gibs [OF a k assms(3) order.refl] wr [OF al [OF c(1)] n(1)] wr [OF al [OF c(1)] n(2)] wr [OF al [OF c(1)] n(3)]
      inj [OF k c(1)] inj [OF k c(2)] inj [OF k c(3)] z
    by (rule refl)
  show ?thesis
  proof (cases "k \<in> {0, 1, 6, 8, 9}")
    case True
    then show ?thesis unfolding e by (elim insertE emptyE) (simp_all add: boot_entry_def)
  next
    case False
    then show ?thesis unfolding e by (simp add: boot_entry_def)
  qed
qed

section \<open>Where an address leads\<close>

lemma bit_below:
  fixes x :: u64
  assumes "unat x < 2 ^ k" and "bit x n"
  shows "n < k"
proof -
  have "take_bit k (unat x) = unat x" by (rule take_bit_nat_eq_self [OF assms(1)])
  moreover have "bit (unat x) n" using assms(2) by (simp add: bit_unsigned_iff)
  ultimately show ?thesis by (metis bit_take_bit_iff)
qed

lemma bit_aligned:
  fixes x :: u64
  assumes "2 ^ k dvd unat x" and "bit x n"
  shows "k \<le> n"
proof (rule ccontr)
  assume "\<not> k \<le> n"
  then have "bit (take_bit k (unat x)) n" using assms(2) by (simp add: bit_take_bit_iff bit_unsigned_iff)
  moreover have "take_bit k (unat x) = 0" using assms(1) by (simp add: take_bit_eq_mod)
  ultimately show False by simp
qed

lemma bit_addr_mask: "bit ADDR_MASK n \<longleftrightarrow> 12 \<le> n \<and> n < 52"
proof -
  have "ADDR_MASK = push_bit 12 (mask 40)" by (simp add: ADDR_MASK_def mask_eq_exp_minus_1 push_bit_eq_mult)
  then have "bit ADDR_MASK n \<longleftrightarrow> bit (push_bit 12 (mask 40) :: u64) n" by (rule arg_cong)
  then show ?thesis by (auto simp: bit_simps)
qed

lemma bit_boot_flags [simp]:
  "bit BOOT_PRESENT n \<longleftrightarrow> n = 0" "bit BOOT_WRITABLE n \<longleftrightarrow> n = 1" "bit BOOT_HUGE n \<longleftrightarrow> n = 7"
  unfolding boot_flag_defs by (simp_all only: bit_push_bit_iff bit_1_iff possible_bit_word) auto

lemma link_parts:
  assumes "page_aligned t" and "unat t < 2 ^ 52"
  shows "bit (link t) 0" and "\<not> bit (link t) 7" and "link t AND ADDR_MASK = t"
proof -
  have "2 ^ 12 dvd unat t" using assms(1) by (simp add: page_aligned_dvd)
  note b = bit_aligned [OF this] bit_below [OF assms(2)]
  show "bit (link t) 0" by (simp add: link_def bit_simps)
  show "\<not> bit (link t) 7" using b(1) [of 7] by (auto simp: link_def bit_simps)
  show "link t AND ADDR_MASK = t"
    by (rule bit_word_eqI) (use b in \<open>auto simp: link_def bit_simps bit_addr_mask\<close>)
qed

lemma huge_parts:
  assumes "2 ^ 21 dvd unat p" and "unat p < 2 ^ 52"
  shows "bit (huge p) 0" and "bit (huge p) 7" and "huge p AND 0x1FE000 = 0" and "huge p AND 0x000FFFFFFFE00000 = p"
proof -
  note b = bit_aligned [OF assms(1)] bit_below [OF assms(2)]
  have r: "(0x1FE000 :: u64) = push_bit 13 (mask 8)" "(0x000FFFFFFFE00000 :: u64) = push_bit 21 (mask 31)"
    by (simp_all add: mask_eq_exp_minus_1 push_bit_eq_mult)
  show "bit (huge p) 0" "bit (huge p) 7" by (simp_all add: huge_def bit_simps)
  show "huge p AND 0x1FE000 = 0" unfolding r
    by (rule bit_word_eqI) (auto simp: huge_def bit_simps dest: b(1))
  show "huge p AND 0x000FFFFFFFE00000 = p" unfolding r
  proof (rule bit_word_eqI)
    fix n assume "n < LENGTH(64)"
    show "bit (huge p AND push_bit 21 (mask 31)) n = bit p n"
    proof (cases "bit p n")
      case True
      then have "21 \<le> n" "n < 52" using b by blast+
      then have "21 \<le> n" "n - 21 < 31" "n < 64" by linarith+
      then show ?thesis using True by (simp add: huge_def bit_simps)
    qed (auto simp: huge_def bit_simps)
  qed
qed

lemma table_index_eq: "table_index k va = unat va div 2 ^ k mod 512"
proof -
  have m: "(0x1FF :: u64) = mask 9" by (simp add: mask_eq_exp_minus_1)
  have "unat (drop_bit k va) = unat va div 2 ^ k" by (simp only: unat_drop_bit_eq) (simp only: drop_bit_eq_div)
  then show ?thesis unfolding table_index_def m by (simp add: unat_and_mask)
qed

lemma table_index_less: "table_index k va < 512"
  by (simp add: table_index_eq)

definition gib_page :: "nat \<Rightarrow> nat \<Rightarrow> u64" where
  "gib_page g b = of_nat g * 1024 * 1024 * 1024 + of_nat b * PAGE_2M"

lemma unat_gib_page:
  assumes "g < 4" and "b < 512"
  shows "unat (gib_page g b) = 2 ^ 30 * g + 2 ^ 21 * b"
proof -
  have "gib_page g b = of_nat (2 ^ 30 * g + 2 ^ 21 * b)" by (simp add: gib_page_def PAGE_2M_def)
  moreover have "2 ^ 30 * g + 2 ^ 21 * b < 18446744073709551616" using assms by simp
  ultimately show ?thesis using unat_u64_of_nat by metis
qed

text \<open>The first steps of a walk.\<close>

lemma first_step:
  assumes "tables_ok pt m" and "table_index 39 va = i"
  shows "load64 (build_page_tables pt HHDM_BASE m) (entry_addr pt (table_index 39 va)) = boot_entry pt 0 i"
proof -
  have "alloc_table pt 0 = pt" by (simp add: alloc_table_def)
  then show ?thesis using load_build [OF assms(1), of 0 "table_index 39 va"] table_index_less [of 39 va] assms(2) by simp
qed

lemma link_table:
  assumes "tables_ok pt m" and "k < 16"
  shows "bit (link (alloc_table pt k)) 0" "\<not> bit (link (alloc_table pt k)) 7"
    "link (alloc_table pt k) AND ADDR_MASK = alloc_table pt k"
proof -
  have a: "page_aligned pt" "unat pt + 65536 \<le> 2 ^ 52" using assms(1) by (simp_all add: tables_ok_def)
  have "unat (alloc_table pt k) < 2 ^ 52" using unat_alloc_table [OF a(2) assms(2)] a(2) assms(2) by simp
  note link_parts [OF alloc_table_aligned [OF a assms(2)] this]
  then show "bit (link (alloc_table pt k)) 0" "\<not> bit (link (alloc_table pt k)) 7"
    "link (alloc_table pt k) AND ADDR_MASK = alloc_table pt k" .
qed

lemma walk_low:
  assumes "tables_ok pt m" and "table_index 39 va \<in> {0, 256}"
  shows "translate (build_page_tables pt HHDM_BASE m) pt va =
    (if table_index 30 va < 4
     then Some (gib_page (table_index 30 va) (table_index 21 va) OR va AND 0x1FFFFF) else None)"
proof -
  define k where "k = (if table_index 39 va = 0 then 1 else 6 :: nat)"
  have k: "k = 1 \<or> k = 6" "k < 10" "k < 16" by (simp_all add: k_def)
  note l = link_table [OF assms(1)]
  have e4: "load64 (build_page_tables pt HHDM_BASE m) (entry_addr pt (table_index 39 va)) = link (alloc_table pt k)"
    using first_step [OF assms(1) refl] assms(2) by (auto simp: boot_entry_def k_def)
  let ?g = "table_index 30 va" and ?b = "table_index 21 va"
  have e3: "load64 (build_page_tables pt HHDM_BASE m) (entry_addr (alloc_table pt k) ?g) =
      (if ?g < 4 then link (alloc_table pt (2 + ?g)) else 0)"
    using load_build [OF assms(1) k(2) table_index_less] k(1) by (auto simp: boot_entry_def)
  show ?thesis
  proof (cases "?g < 4")
    case False
    then show ?thesis by (simp add: translate_def e4 l [OF k(3)] e3)
  next
    case True
    define q where "q = 2 + ?g"
    have t: "q < 10" "q < 16" "2 \<le> q" "q < 6" "q - 2 = ?g" using True by (simp_all add: q_def)
    have e2: "load64 (build_page_tables pt HHDM_BASE m) (entry_addr (alloc_table pt q) ?b) = huge (gib_page ?g ?b)"
      using load_build [OF assms(1) t(1) table_index_less] t by (simp add: boot_entry_def gib_page_def)
    have u: "unat (gib_page ?g ?b) = 2 ^ 30 * ?g + 2 ^ 21 * ?b" by (rule unat_gib_page [OF True table_index_less])
    have "2 ^ 21 dvd 2 ^ 30 * ?g + 2 ^ 21 * ?b" by (intro dvd_add dvd_mult2 le_imp_power_dvd) simp_all
    then have "2 ^ 21 dvd unat (gib_page ?g ?b)" unfolding u .
    moreover have "unat (gib_page ?g ?b) < 2 ^ 52" unfolding u using True table_index_less [of 21 va] by simp
    ultimately have h: "bit (huge (gib_page ?g ?b)) 0" "bit (huge (gib_page ?g ?b)) 7"
      "huge (gib_page ?g ?b) AND 0x1FE000 = 0" "huge (gib_page ?g ?b) AND 0x000FFFFFFFE00000 = gib_page ?g ?b"
      by (rule huge_parts)+
    have e3': "load64 (build_page_tables pt HHDM_BASE m) (entry_addr (alloc_table pt k) ?g) = link (alloc_table pt q)"
      using e3 True by (simp only: q_def if_True)
    show ?thesis using True by (simp add: translate_def Let_def e4 l [OF k(3)] e3' l [OF t(2)] e2 h)
  qed
qed

lemma walk_kernel:
  assumes "tables_ok pt m" and "table_index 39 va = 511" and "table_index 30 va = 510"
  shows "translate (build_page_tables pt HHDM_BASE m) pt va = None"
proof -
  note l = link_table [OF assms(1)]
  let ?b = "table_index 21 va"
  have e4: "load64 (build_page_tables pt HHDM_BASE m) (entry_addr pt (table_index 39 va)) = link (alloc_table pt 8)"
    using first_step [OF assms(1,2)] by (simp add: boot_entry_def)
  have e3: "load64 (build_page_tables pt HHDM_BASE m) (entry_addr (alloc_table pt 8) (table_index 30 va)) = link (alloc_table pt 9)"
    using load_build [OF assms(1), of 8 "table_index 30 va"] assms(3) by (simp add: boot_entry_def)
  have e2: "load64 (build_page_tables pt HHDM_BASE m) (entry_addr (alloc_table pt 9) ?b) =
      (if ?b < 64 then huge (0x00100000 + of_nat ?b * PAGE_2M) else 0)"
    using load_build [OF assms(1) _ table_index_less, of 9] by (simp add: boot_entry_def)
  have bad: "bit (huge (0x00100000 + of_nat ?b * PAGE_2M)) 7 \<and> huge (0x00100000 + of_nat ?b * PAGE_2M) AND 0x1FE000 \<noteq> 0" if "?b < 64"
  proof -
    let ?p = "0x00100000 + of_nat ?b * PAGE_2M :: u64"
    have "?p = of_nat (2 ^ 20 * (2 * ?b + 1))" by (simp add: PAGE_2M_def algebra_simps)
    moreover have "2 ^ 20 * (2 * ?b + 1) < 18446744073709551616" using that by simp
    ultimately have "unat ?p = 2 ^ 20 * (2 * ?b + 1)" using unat_u64_of_nat by metis
    then have "bit (unat ?p) 20" by (simp add: bit_iff_odd)
    then have "bit ?p 20" by (simp add: bit_unsigned_iff)
    moreover have "(0x1FE000 :: u64) = push_bit 13 (mask 8)" by (simp add: mask_eq_exp_minus_1 push_bit_eq_mult)
    then have "bit (0x1FE000 :: u64) 20" by (simp add: bit_simps)
    ultimately have "bit (huge ?p AND 0x1FE000) 20" by (simp add: huge_def bit_simps)
    then have "huge ?p AND 0x1FE000 \<noteq> 0" by (metis bit_0_eq bot_apply bot_bool_def)
    then show ?thesis by (simp add: huge_def bit_simps)
  qed
  show ?thesis using bad by (simp add: translate_def Let_def e4 e3 e2 l)
qed

lemma unat_hhdm:
  assumes "unat p < 2 ^ 32"
  shows "unat (HHDM_BASE + p) = 2 ^ 47 * 131071 + unat p"
proof -
  have "unat HHDM_BASE = 2 ^ 47 * 131071" by (simp add: HHDM_BASE_def)
  then show ?thesis using assms by (subst unat_add_no_wrap) simp_all
qed

lemma page_of_address:
  assumes "unat p < 2 ^ 32"
  shows "gib_page (unat p div 2 ^ 30) (unat p div 2 ^ 21 mod 512) OR p AND 0x1FFFFF = p"
proof -
  let ?g = "unat p div 2 ^ 30" and ?b = "unat p div 2 ^ 21 mod 512"
  have "unat p div 2 ^ 21 div 512 = ?g" by (simp add: div_mult2_eq [symmetric])
  then have "unat p div 2 ^ 21 = 512 * ?g + ?b" by (metis mult_div_mod_eq)
  then have "2 ^ 30 * ?g + 2 ^ 21 * ?b = 2 ^ 21 * (unat p div 2 ^ 21)" by simp
  moreover have "?g < 4" using assms by simp
  ultimately have "unat (gib_page ?g ?b) = 2 ^ 21 * (unat p div 2 ^ 21)" using unat_gib_page [of ?g ?b] by simp
  moreover have "2 ^ 21 * (unat p div 2 ^ 21) = unat p - unat p mod 2 ^ 21" by (simp add: minus_mod_eq_mult_div)
  moreover have m: "(0x1FFFFF :: u64) = mask 21" by (simp add: mask_eq_exp_minus_1)
  have "unat (p - (p AND 0x1FFFFF)) = unat p - unat p mod 2 ^ 21"
    unfolding m by (simp add: unat_sub word_and_le1 word_and_le2 unat_and_mask)
  ultimately have g: "gib_page ?g ?b = p - (p AND 0x1FFFFF)" by (metis word_unat_eq_iff)
  have "(p AND NOT 0x1FFFFF) + (p AND 0x1FFFFF) = (p AND NOT 0x1FFFFF) OR (p AND 0x1FFFFF)"
    by (rule disjunctive_add_eq_or) (simp add: bit_eq_iff bit_simps)
  moreover have d: "(p AND NOT 0x1FFFFF) OR (p AND 0x1FFFFF) = p" by (auto simp: bit_eq_iff bit_simps)
  ultimately have "gib_page ?g ?b = p AND NOT 0x1FFFFF" unfolding g by (metis add_diff_cancel_right')
  then show ?thesis using d by simp
qed

lemma hhdm_low: "HHDM_BASE + p AND 0x1FFFFF = p AND 0x1FFFFF" if "unat p < 2 ^ 32"
proof -
  have m: "(0x1FFFFF :: u64) = mask 21" by (simp add: mask_eq_exp_minus_1)
  have d: "2 ^ 47 * 131071 + unat p = unat p + (2 ^ 26 * 131071) * 2 ^ 21" by simp
  have "unat (HHDM_BASE + p AND 0x1FFFFF) = unat (p AND 0x1FFFFF)"
    unfolding m unat_and_mask unat_hhdm [OF that] d by (rule mod_mult_self1)
  then show ?thesis by (simp only: word_unat_eq_iff)
qed

lemma walk_address:
  assumes "tables_ok pt m" and "unat p < 2 ^ 32"
  shows "translate (build_page_tables pt HHDM_BASE m) pt p = Some p"
    and "translate (build_page_tables pt HHDM_BASE m) pt (HHDM_BASE + p) = Some p"
proof -
  have g: "unat p div 2 ^ 30 < 4" using assms(2) by simp
  have i: "table_index 39 p = 0" "table_index 30 p = unat p div 2 ^ 30" "table_index 21 p = unat p div 2 ^ 21 mod 512"
    using assms(2) by (simp_all add: table_index_eq)
  show "translate (build_page_tables pt HHDM_BASE m) pt p = Some p"
    using walk_low [OF assms(1), of p] g page_of_address [OF assms(2)] by (simp only: i) simp
  have "2 ^ 47 * 131071 + unat p = unat p + (2 ^ 8 * 131071) * 2 ^ 39"
    "2 ^ 47 * 131071 + unat p = unat p + (2 ^ 8 * 131071 * 512) * 2 ^ 30"
    "2 ^ 47 * 131071 + unat p = unat p + (2 ^ 17 * 131071 * 512) * 2 ^ 21" by simp_all
  note d = this
  have h39: "table_index 39 (HHDM_BASE + p) = 256"
    unfolding table_index_eq unat_hhdm [OF assms(2)] d(1) using assms(2) by (subst div_mult_self1) (simp, simp)
  have h30: "table_index 30 (HHDM_BASE + p) = unat p div 2 ^ 30"
    unfolding table_index_eq unat_hhdm [OF assms(2)] d(2) using g
    by (subst div_mult_self1) (simp, simp only: mod_mult_self3, simp)
  have h21: "table_index 21 (HHDM_BASE + p) = unat p div 2 ^ 21 mod 512"
    unfolding table_index_eq unat_hhdm [OF assms(2)] d(3)
    by (subst div_mult_self1) (simp, simp only: mod_mult_self3)
  show "translate (build_page_tables pt HHDM_BASE m) pt (HHDM_BASE + p) = Some p"
    using walk_low [OF assms(1), of "HHDM_BASE + p"] g page_of_address [OF assms(2)]
    by (simp only: h39 h30 h21 hhdm_low [OF assms(2)]) simp
qed

lemma walk_beyond:
  assumes "tables_ok pt m" and "2 ^ 32 \<le> unat va" and "unat va < 2 ^ 47"
  shows "translate (build_page_tables pt HHDM_BASE m) pt va = None"
proof (cases "table_index 39 va = 0")
  case True
  then have "unat va div 2 ^ 39 = 0" using assms(3) by (simp add: table_index_eq)
  then have "unat va < 2 ^ 39" by simp
  then have "table_index 30 va = unat va div 2 ^ 30" by (simp add: table_index_eq)
  then have "\<not> table_index 30 va < 4" using assms(2) by simp
  then show ?thesis using walk_low [OF assms(1), of va] True by simp
next
  case False
  have "table_index 39 va < 256" using assms(3) by (simp add: table_index_eq)
  then show ?thesis using first_step [OF assms(1) refl, of va] False by (simp add: translate_def boot_entry_def)
qed

lemma kernel_window:
  assumes "unat off < 2 ^ 27"
  shows "table_index 39 (0xFFFFFFFF80000000 + off) = 511" and "table_index 30 (0xFFFFFFFF80000000 + off) = 510"
proof -
  have u: "unat (0xFFFFFFFF80000000 + off) = 18446744071562067968 + unat off" using assms by (subst unat_add_no_wrap) simp_all
  have d: "18446744071562067968 + unat off = (547608330240 + unat off) + 33554431 * 2 ^ 39"
    "18446744071562067968 + unat off = unat off + 17179869182 * 2 ^ 30" by simp_all
  show "table_index 39 (0xFFFFFFFF80000000 + off) = 511"
    unfolding table_index_eq u d(1) using assms by (subst div_mult_self1) (simp, simp)
  show "table_index 30 (0xFFFFFFFF80000000 + off) = 510"
    unfolding table_index_eq u d(2) using assms by (subst div_mult_self1) (simp, simp)
qed

text \<open>
  C7. What the bootloader's page tables map. Every address below 4 GiB is reached at itself and in the direct
  map, and nothing else of the lower half is mapped. The kernel window, for which 128 MiB are
  entered, is not mapped at all: its large pages begin at 1 MiB, which is not a multiple of their
  size, so the processor faults on a reserved bit at the first instruction of the kernel.
\<close>

theorem boot_tables_map:
  assumes "tables_ok pt m"
  shows "(unat p < 2 ^ 32 \<longrightarrow>
      translate (build_page_tables pt HHDM_BASE m) pt p = Some p \<and>
      translate (build_page_tables pt HHDM_BASE m) pt (HHDM_BASE + p) = Some p) \<and>
    (2 ^ 32 \<le> unat p \<and> unat p < 2 ^ 47 \<longrightarrow> translate (build_page_tables pt HHDM_BASE m) pt p = None) \<and>
    (unat p < 2 ^ 27 \<longrightarrow> translate (build_page_tables pt HHDM_BASE m) pt (0xFFFFFFFF80000000 + p) = None)"
  using walk_address [OF assms] walk_beyond [OF assms] walk_kernel [OF assms kernel_window] by simp

text \<open>Tables at 1 MiB in zeroed memory; the direct map reaches the address 0x12345678, the kernel window is dead.\<close>

lemma boot_tables_map_witness:
  "translate (build_page_tables 0x100000 HHDM_BASE (\<lambda>_. 0)) 0x100000 (HHDM_BASE + 0x12345678) = Some 0x12345678 \<and>
   translate (build_page_tables 0x100000 HHDM_BASE (\<lambda>_. 0)) 0x100000 0xFFFFFFFF80000000 = None"
proof -
  have "tables_ok 0x100000 (\<lambda>_. 0)" by (simp add: tables_ok_def page_aligned_dvd page_zero_def)
  from boot_tables_map [OF this, where p = "0x12345678"] boot_tables_map [OF this, where p = 0] show ?thesis by simp
qed

section \<open>The image and the map\<close>

lemma fill_regions_eq:
  "length rs \<le> 256 \<Longrightarrow> fill_regions ds rs =
     take 256 (rs @ map (\<lambda>d. \<lparr>br_base = ud_start d, br_length = ud_pages d * 4096, br_kind = kind_of (ud_type d)\<rparr>) ds)"
  by (induction ds rs rule: fill_regions.induct) auto

text \<open>The first 256 descriptors are handed over, in order; a usable region behind them is lost.\<close>

lemma memory_map_eq:
  "memory_map ds =
     take 256 (map (\<lambda>d. \<lparr>br_base = ud_start d, br_length = ud_pages d * 4096, br_kind = kind_of (ud_type d)\<rparr>) ds)"
  by (simp add: memory_map_def fill_regions_eq)

text \<open>
  A loaded segment holds the bytes of the file and then zeros, and nothing else has changed, wherever the firmware
  put it. When the firmware refuses the address the file asks for, the segment is written there all the same.
\<close>

lemma boot_segment_image:
  fixes off vaddr paddr filesz memsz :: u64
  assumes "word_in ph 8 8 = Ret off" "word_in ph 16 8 = Ret vaddr" "word_in ph 24 8 = Ret paddr"
    "word_in ph 32 8 = Ret filesz" "word_in ph 40 8 = Ret memsz"
    and "paddr \<noteq> 0" and "filesz \<le> memsz" and "unat off + unat filesz \<le> length elf" and "length elf < 2 ^ 64"
  shows "\<exists>m'. boot_segment alloc elf around ph (e, m, f) =
      Ret (max e (vaddr + memsz), m', snd (alloc (Some paddr) ((memsz + 4095) div 4096) f)) \<and>
    (\<forall>x. m' x =
      (let phys = (case fst (alloc (Some paddr) ((memsz + 4095) div 4096) f) of Some a \<Rightarrow> a | None \<Rightarrow> paddr);
           i = unat (x - phys)
       in if i < unat filesz then elf ! (unat off + i) else if i < unat memsz then 0 else m x))"
proof -
  let ?phys = "case fst (alloc (Some paddr) ((memsz + 4095) div 4096) f) of Some a \<Rightarrow> a | None \<Rightarrow> paddr"
  let ?m1 = "copy_bytes elf around off ?phys (unat filesz) m"
  let ?m2 = "if memsz > filesz then zero_bytes ?m1 (?phys + filesz) (unat (memsz - filesz)) else ?m1"
  have le: "unat filesz \<le> unat memsz" using assms(7) by (simp add: word_le_nat_alt)
  have byte: "byte_at elf around (off + of_nat i) = elf ! (unat off + i)" if "i < unat filesz" for i
  proof -
    have "i < 18446744073709551616" using that unat_u64_less [of filesz] by linarith
    then have "unat (off + of_nat i) = unat off + i"
      using that assms(8,9) unat_u64_of_nat [of i] by (subst unat_add_no_wrap) simp_all
    then show ?thesis using that assms(8) by (simp add: byte_at_def)
  qed
  have m1: "?m1 x = (if unat (x - ?phys) < unat filesz then elf ! (unat off + unat (x - ?phys)) else m x)" for x
    using byte [of "unat (x - ?phys)"] by (simp add: copy_bytes_def write_bytes_def bytes_at_def)
  have "?m2 x = (if unat (x - ?phys) < unat filesz then elf ! (unat off + unat (x - ?phys))
      else if unat (x - ?phys) < unat memsz then 0 else m x)" for x
  proof (cases "memsz > filesz")
    case True
    have "unat (x - (?phys + filesz)) < unat (memsz - filesz) \<longleftrightarrow>
        \<not> unat (x - ?phys) < unat filesz \<and> unat (x - ?phys) < unat memsz"
      using unat_u64_diff [of "x - ?phys" filesz] unat_u64_diff [of memsz filesz] le
        unat_u64_less [of memsz] unat_u64_less [of "x - ?phys"] by (auto simp: diff_diff_eq)
    then show ?thesis using True m1 by (auto simp: zero_bytes_def)
  next
    case False
    then have "memsz = filesz" using assms(7) by simp
    then show ?thesis using m1 by simp
  qed
  moreover have "boot_segment alloc elf around ph (e, m, f) =
      Ret (max e (vaddr + memsz), ?m2, snd (alloc (Some paddr) ((memsz + 4095) div 4096) f))"
    using assms(1-6) by (simp add: boot_segment_def Let_def split: option.split prod.split)
  ultimately show ?thesis by (intro exI [of _ ?m2]) (simp add: Let_def)
qed

section \<open>The first instruction of the kernel\<close>

lemma tables_ok_zeroed:
  assumes "page_aligned pt" and "unat pt + 65536 \<le> 2 ^ 52"
  shows "tables_ok pt (zero_bytes m pt (16 * 4096))"
proof -
  have "zero_bytes m pt (16 * 4096) x = 0" if "k < 16" "page_base x = alloc_table pt k" for k x
  proof -
    have "unat x div 4096 * 4096 = unat pt + 4096 * k"
      using unat_page_base [of x] unat_alloc_table [OF assms(2) that(1)] that(2) by simp
    then have b: "unat pt + 4096 * k \<le> unat x" "unat x < unat pt + 4096 * k + 4096" by linarith+
    have "unat (x - pt) = unat x - unat pt" using b(1) by (simp add: unat_u64_diff)
    then have "unat (x - pt) < 65536" using b(2) that(1) by linarith
    then show ?thesis by (simp add: zero_bytes_def)
  qed
  then show ?thesis using assms by (simp add: tables_ok_def page_zero_def)
qed

text \<open>
  The bootloader cannot start a kernel that is linked where its tables are made for. Whatever the firmware, the file
  and the memory are, when it hands over with an entry point in the 128 MiB from 0xFFFFFFFF80000000
  and page tables where the firmware can put them, the entry point is not mapped, although all memory below 4 GiB is.
\<close>

theorem kernel_entry_unmapped:
  assumes "boot_main alloc fb elf around descs mf = Ret h"
    and "page_aligned (ho_cr3 h)" and "unat (ho_cr3 h) + 65536 \<le> 2 ^ 52"
    and "ho_entry h = 0xFFFFFFFF80000000 + off" and "unat off < 2 ^ 27"
  shows "translate (ho_mem h) (ho_cr3 h) (ho_entry h) = None \<and>
    (unat p < 2 ^ 32 \<longrightarrow> translate (ho_mem h) (ho_cr3 h) p = Some p)"
proof -
  obtain entry e m f1 where p: "parse_elf alloc elf around mf = Ret (entry, e, m, f1)"
    using assms(1) by (auto simp: boot_main_def)
  obtain a f2 where a: "alloc None 16 f1 = (a, f2)" by (cases "alloc None 16 f1")
  obtain b f3 where b: "alloc None 1 f2 = (b, f3)" by (cases "alloc None 1 f2")
  have "ho_mem h = build_page_tables (ho_cr3 h) HHDM_BASE (zero_bytes m (ho_cr3 h) (16 * 4096))"
    using assms(1) by (cases a; cases b) (auto simp: boot_main_def p a b Let_def)
  then show ?thesis
    using walk_kernel [OF tables_ok_zeroed [OF assms(2,3), of m] kernel_window [OF assms(5)]]
      walk_address(1) [OF tables_ok_zeroed [OF assms(2,3), of m], of p] assms(4) by simp
qed

text \<open>A file without segments whose entry point is the start of the window.\<close>

definition demo_kernel :: "u8 list" where
  "demo_kernel = [0x7F, 0x45, 0x4C, 0x46, 2, 1] @ replicate 18 0 @ [0, 0, 0, 0x80, 0xFF, 0xFF, 0xFF, 0xFF] @ replicate 32 0"

definition demo_firmware :: "unit firmware" where
  "demo_firmware wanted pages f = (Some 0x100000, ())"

lemma kernel_entry_unmapped_witness:
  "\<exists>h. boot_main demo_firmware (setup_graphics 0xE0000000 800 600 800) demo_kernel (\<lambda>_. 0) [] (\<lambda>_. 0, ()) = Ret h \<and>
     ho_entry h = 0xFFFFFFFF80000000 \<and> translate (ho_mem h) (ho_cr3 h) (ho_entry h) = None"
proof -
  have w: "word_in demo_kernel 24 8 = Ret (0xFFFFFFFF80000000 :: u64)" "word_in demo_kernel 32 8 = Ret (0 :: u64)"
    "word_in demo_kernel 54 2 = Ret (0 :: u16)" "word_in demo_kernel 56 2 = Ret (0 :: u16)"
    "slice demo_kernel 0 4 = Ret [0x7F, 0x45, 0x4C, 0x46]" "demo_kernel ! 4 = 2" "demo_kernel ! 5 = 1" "length demo_kernel = 64"
    by code_simp+
  obtain h where h: "boot_main demo_firmware (setup_graphics 0xE0000000 800 600 800) demo_kernel (\<lambda>_. 0) [] (\<lambda>_. 0, ()) = Ret h"
    "ho_entry h = 0xFFFFFFFF80000000" "ho_cr3 h = 0x100000"
    by (simp add: boot_main_def parse_elf_def w demo_firmware_def Let_def)
  have "page_aligned (ho_cr3 h)" "unat (ho_cr3 h) + 65536 \<le> 2 ^ 52" by (simp_all add: h(3) page_aligned_dvd)
  from kernel_entry_unmapped [OF h(1) this, of 0] h show ?thesis by auto
qed

end
