(* ===== verification/Initrd.thy ===== *)
theory Initrd
  imports Elf
begin

text \<open>
  The programs embedded in the kernel image (\<open>kernel/src/fs/initrd.rs\<close>), byte for byte, cut where
  the files have their parts: the ELF header, the program headers, the code, the notes, the frame
  information, the symbol tables with their names, and the section headers; the stretches between them
  are zeros. The lemmas decode the headers and say which bytes a program finds where after loading.
\<close>

definition hello_ehdr :: "u8 list" where
  "hello_ehdr = [
     0x7F, 0x45, 0x4C, 0x46, 2, 1, 1, 0, 0, 0, 0, 0, 0, 0, 0, 0,
     2, 0, 0x3E, 0, 1, 0, 0, 0, 0, 0, 0x40, 0, 0, 0, 0, 0,
     0x40, 0, 0, 0, 0, 0, 0, 0, 0x78, 0x21, 0, 0, 0, 0, 0, 0,
     0, 0, 0, 0, 0x40, 0, 0x38, 0, 7, 0, 0x40, 0, 9, 0, 8, 0]"

definition hello_phdrs :: "u8 list" where
  "hello_phdrs = [
     1, 0, 0, 0, 4, 0, 0, 0, 0, 0, 0, 0, 0, 0, 0, 0,
     0, 0xF0, 0x3F, 0, 0, 0, 0, 0, 0, 0xF0, 0x3F, 0, 0, 0, 0, 0,
     0xC8, 1, 0, 0, 0, 0, 0, 0, 0xC8, 1, 0, 0, 0, 0, 0, 0,
     0, 0x10, 0, 0, 0, 0, 0, 0, 1, 0, 0, 0, 5, 0, 0, 0,
     0, 0x10, 0, 0, 0, 0, 0, 0, 0, 0, 0x40, 0, 0, 0, 0, 0,
     0, 0, 0x40, 0, 0, 0, 0, 0, 0x0C, 2, 0, 0, 0, 0, 0, 0,
     0x0C, 2, 0, 0, 0, 0, 0, 0, 0, 0x10, 0, 0, 0, 0, 0, 0,
     1, 0, 0, 0, 4, 0, 0, 0, 0, 0x20, 0, 0, 0, 0, 0, 0,
     0, 0x10, 0x40, 0, 0, 0, 0, 0, 0, 0x10, 0x40, 0, 0, 0, 0, 0,
     0x38, 0, 0, 0, 0, 0, 0, 0, 0x38, 0, 0, 0, 0, 0, 0, 0,
     0, 0x10, 0, 0, 0, 0, 0, 0, 4, 0, 0, 0, 4, 0, 0, 0,
     0xC8, 0x11, 0, 0, 0, 0, 0, 0, 0xC8, 1, 0x40, 0, 0, 0, 0, 0,
     0xC8, 1, 0x40, 0, 0, 0, 0, 0, 0x20, 0, 0, 0, 0, 0, 0, 0,
     0x20, 0, 0, 0, 0, 0, 0, 0, 8, 0, 0, 0, 0, 0, 0, 0,
     4, 0, 0, 0, 4, 0, 0, 0, 0xE8, 0x11, 0, 0, 0, 0, 0, 0,
     0xE8, 1, 0x40, 0, 0, 0, 0, 0, 0xE8, 1, 0x40, 0, 0, 0, 0, 0,
     0x24, 0, 0, 0, 0, 0, 0, 0, 0x24, 0, 0, 0, 0, 0, 0, 0,
     4, 0, 0, 0, 0, 0, 0, 0, 0x53, 0xE5, 0x74, 0x64, 4, 0, 0, 0,
     0xC8, 0x11, 0, 0, 0, 0, 0, 0, 0xC8, 1, 0x40, 0, 0, 0, 0, 0,
     0xC8, 1, 0x40, 0, 0, 0, 0, 0, 0x20, 0, 0, 0, 0, 0, 0, 0,
     0x20, 0, 0, 0, 0, 0, 0, 0, 8, 0, 0, 0, 0, 0, 0, 0,
     0x51, 0xE5, 0x74, 0x64, 6] @ replicate 43 0 @ [
     0x10, 0, 0, 0, 0, 0, 0, 0]"

definition hello_gap :: "u8 list" where
  "hello_gap = replicate 3640 0"

definition hello_code :: "u8 list" where
  "hello_code = [
     0xF3, 0x0F, 0x1E, 0xFA, 0x55, 0x48, 0x89, 0xE5, 0x48, 0xB8, 0x48, 0x65, 0x6C, 0x6C, 0x6F, 0x20,
     0x66, 0x72, 0x48, 0xBA, 0x6F, 0x6D, 0x20, 0x4E, 0x65, 0x78, 0x75, 0x73, 0x48, 0x89, 0x45, 0xE0,
     0x48, 0x89, 0x55, 0xE8, 0x48, 0xB8, 0x73, 0x4F, 0x53, 0x20, 0x75, 0x73, 0x65, 0x72, 0x48, 0xBA,
     0x73, 0x70, 0x61, 0x63, 0x65, 0x21, 0x0A, 0, 0x48, 0x89, 0x45, 0xEF, 0x48, 0x89, 0x55, 0xF7,
     0x48, 0x8D, 0x4D, 0xE0, 0x48, 0xC7, 0xC0, 1, 0, 0, 0, 0x48, 0xC7, 0xC7, 1, 0,
     0, 0, 0x48, 0x89, 0xCE, 0x48, 0xC7, 0xC2, 0x1E, 0, 0, 0, 0x0F, 5, 0x48, 0xC7,
     0xC0, 0x3C, 0, 0, 0, 0x48, 0x31, 0xFF, 0x0F, 5, 0x90, 0x5D, 0xC3]"

definition hello_code_gap :: "u8 list" where
  "hello_code_gap = replicate 347 0"

definition hello_notes :: "u8 list" where
  "hello_notes = [
     4, 0, 0, 0, 0x10, 0, 0, 0, 5, 0, 0, 0, 0x47, 0x4E, 0x55, 0,
     2, 0, 0, 0xC0, 4, 0, 0, 0, 3, 0, 0, 0, 0, 0, 0, 0,
     4, 0, 0, 0, 0x14, 0, 0, 0, 3, 0, 0, 0, 0x47, 0x4E, 0x55, 0,
     0x47, 0x82, 0xC7, 0xBA, 0x8B, 0xE0, 0xB8, 0xBD, 0xB3, 0xB8, 0x99, 0x9F, 0x81, 0x9D, 0x91, 0x33,
     0xF4, 0x93, 0x1A, 0x4A]"

definition hello_notes_gap :: "u8 list" where
  "hello_notes_gap = replicate 3572 0"

definition hello_frame :: "u8 list" where
  "hello_frame = [
     0x14, 0, 0, 0, 0, 0, 0, 0, 1, 0x7A, 0x52, 0, 1, 0x78, 0x10, 1,
     0x1B, 0x0C, 7, 8, 0x90, 1, 0, 0, 0x1C, 0, 0, 0, 0x1C, 0, 0, 0,
     0xE0, 0xEF, 0xFF, 0xFF, 0x6D, 0, 0, 0, 0, 0x45, 0x0E, 0x10, 0x86, 2, 0x43, 0x0D,
     6, 2, 0x64, 0x0C, 7, 8, 0, 0]"

definition hello_symbols :: "u8 list" where
  "hello_symbols = [
     0x47, 0x43, 0x43, 0x3A, 0x20, 0x28, 0x55, 0x62, 0x75, 0x6E, 0x74, 0x75, 0x20, 0x31, 0x33, 0x2E,
     0x33, 0x2E, 0x30, 0x2D, 0x36, 0x75, 0x62, 0x75, 0x6E, 0x74, 0x75, 0x32, 0x7E, 0x32, 0x34, 0x2E,
     0x30, 0x34, 0x2E, 0x31, 0x29, 0x20, 0x31, 0x33, 0x2E, 0x33, 0x2E, 0x30, 0, 0, 0, 0,
     0, 0, 0, 0, 0, 0, 0, 0, 0, 0, 0, 0, 0, 0, 0, 0,
     0, 0, 0, 0, 0, 0, 0, 0, 1, 0, 0, 0, 4, 0, 0xF1, 0xFF,
     0, 0, 0, 0, 0, 0, 0, 0, 0, 0, 0, 0, 0, 0, 0, 0,
     0x0E, 0, 0, 0, 0x12, 0, 1, 0, 0, 0, 0x40, 0, 0, 0, 0, 0,
     0x6D, 0, 0, 0, 0, 0, 0, 0, 9, 0, 0, 0, 0x10, 0, 4, 0,
     0, 0x20, 0x40, 0, 0, 0, 0, 0, 0, 0, 0, 0, 0, 0, 0, 0,
     0x15, 0, 0, 0, 0x10, 0, 4, 0, 0, 0x20, 0x40, 0, 0, 0, 0, 0,
     0, 0, 0, 0, 0, 0, 0, 0, 0x1C, 0, 0, 0, 0x10, 0, 4, 0,
     0, 0x20, 0x40, 0, 0, 0, 0, 0, 0, 0, 0, 0, 0, 0, 0, 0,
     0, 0x68, 0x65, 0x6C, 0x6C, 0x6F, 0x2E, 0x63, 0, 0x5F, 0x5F, 0x62, 0x73, 0x73, 0x5F, 0x73,
     0x74, 0x61, 0x72, 0x74, 0, 0x5F, 0x65, 0x64, 0x61, 0x74, 0x61, 0, 0x5F, 0x65, 0x6E, 0x64,
     0, 0, 0x2E, 0x73, 0x79, 0x6D, 0x74, 0x61, 0x62, 0, 0x2E, 0x73, 0x74, 0x72, 0x74, 0x61,
     0x62, 0, 0x2E, 0x73, 0x68, 0x73, 0x74, 0x72, 0x74, 0x61, 0x62, 0, 0x2E, 0x74, 0x65, 0x78,
     0x74, 0, 0x2E, 0x6E, 0x6F, 0x74, 0x65, 0x2E, 0x67, 0x6E, 0x75, 0x2E, 0x70, 0x72, 0x6F, 0x70,
     0x65, 0x72, 0x74, 0x79, 0, 0x2E, 0x6E, 0x6F, 0x74, 0x65, 0x2E, 0x67, 0x6E, 0x75, 0x2E, 0x62,
     0x75, 0x69, 0x6C, 0x64, 0x2D, 0x69, 0x64, 0, 0x2E, 0x65, 0x68, 0x5F, 0x66, 0x72, 0x61, 0x6D,
     0x65, 0, 0x2E, 0x63, 0x6F, 0x6D, 0x6D, 0x65, 0x6E, 0x74, 0, 0, 0, 0, 0, 0]"

definition hello_shdrs :: "u8 list" where
  "hello_shdrs = replicate 64 0 @ [
     0x1B, 0, 0, 0, 1, 0, 0, 0, 6, 0, 0, 0, 0, 0, 0, 0,
     0, 0, 0x40, 0, 0, 0, 0, 0, 0, 0x10, 0, 0, 0, 0, 0, 0,
     0x6D, 0, 0, 0, 0, 0, 0, 0, 0, 0, 0, 0, 0, 0, 0, 0,
     1, 0, 0, 0, 0, 0, 0, 0, 0, 0, 0, 0, 0, 0, 0, 0,
     0x21, 0, 0, 0, 7, 0, 0, 0, 2, 0, 0, 0, 0, 0, 0, 0,
     0xC8, 1, 0x40, 0, 0, 0, 0, 0, 0xC8, 0x11, 0, 0, 0, 0, 0, 0,
     0x20, 0, 0, 0, 0, 0, 0, 0, 0, 0, 0, 0, 0, 0, 0, 0,
     8, 0, 0, 0, 0, 0, 0, 0, 0, 0, 0, 0, 0, 0, 0, 0,
     0x34, 0, 0, 0, 7, 0, 0, 0, 2, 0, 0, 0, 0, 0, 0, 0,
     0xE8, 1, 0x40, 0, 0, 0, 0, 0, 0xE8, 0x11, 0, 0, 0, 0, 0, 0,
     0x24, 0, 0, 0, 0, 0, 0, 0, 0, 0, 0, 0, 0, 0, 0, 0,
     4, 0, 0, 0, 0, 0, 0, 0, 0, 0, 0, 0, 0, 0, 0, 0,
     0x47, 0, 0, 0, 1, 0, 0, 0, 2, 0, 0, 0, 0, 0, 0, 0,
     0, 0x10, 0x40, 0, 0, 0, 0, 0, 0, 0x20, 0, 0, 0, 0, 0, 0,
     0x38, 0, 0, 0, 0, 0, 0, 0, 0, 0, 0, 0, 0, 0, 0, 0,
     8, 0, 0, 0, 0, 0, 0, 0, 0, 0, 0, 0, 0, 0, 0, 0,
     0x51, 0, 0, 0, 1, 0, 0, 0, 0x30, 0, 0, 0, 0, 0, 0, 0,
     0, 0, 0, 0, 0, 0, 0, 0, 0x38, 0x20, 0, 0, 0, 0, 0, 0,
     0x2D, 0, 0, 0, 0, 0, 0, 0, 0, 0, 0, 0, 0, 0, 0, 0,
     1, 0, 0, 0, 0, 0, 0, 0, 1, 0, 0, 0, 0, 0, 0, 0,
     1, 0, 0, 0, 2, 0, 0, 0, 0, 0, 0, 0, 0, 0, 0, 0,
     0, 0, 0, 0, 0, 0, 0, 0, 0x68, 0x20, 0, 0, 0, 0, 0, 0,
     0x90, 0, 0, 0, 0, 0, 0, 0, 7, 0, 0, 0, 2, 0, 0, 0,
     8, 0, 0, 0, 0, 0, 0, 0, 0x18, 0, 0, 0, 0, 0, 0, 0,
     9, 0, 0, 0, 3, 0, 0, 0, 0, 0, 0, 0, 0, 0, 0, 0,
     0, 0, 0, 0, 0, 0, 0, 0, 0xF8, 0x20, 0, 0, 0, 0, 0, 0,
     0x21, 0, 0, 0, 0, 0, 0, 0, 0, 0, 0, 0, 0, 0, 0, 0,
     1, 0, 0, 0, 0, 0, 0, 0, 0, 0, 0, 0, 0, 0, 0, 0,
     0x11, 0, 0, 0, 3, 0, 0, 0, 0, 0, 0, 0, 0, 0, 0, 0,
     0, 0, 0, 0, 0, 0, 0, 0, 0x19, 0x21, 0, 0, 0, 0, 0, 0,
     0x5A, 0, 0, 0, 0, 0, 0, 0, 0, 0, 0, 0, 0, 0, 0, 0,
     1, 0, 0, 0, 0, 0, 0, 0, 0, 0, 0, 0, 0, 0, 0, 0]"

definition HELLO_ELF :: "u8 list" where
  "HELLO_ELF = hello_ehdr @
     hello_phdrs @
     hello_gap @
     hello_code @
     hello_code_gap @
     hello_notes @
     hello_notes_gap @
     hello_frame @
     hello_symbols @
     hello_shdrs"

definition drawtest_ehdr :: "u8 list" where
  "drawtest_ehdr = [
     0x7F, 0x45, 0x4C, 0x46, 2, 1, 1, 0, 0, 0, 0, 0, 0, 0, 0, 0,
     2, 0, 0x3E, 0, 1, 0, 0, 0, 0, 0, 0x40, 0, 0, 0, 0, 0,
     0x40, 0, 0, 0, 0, 0, 0, 0, 0x78, 0x21, 0, 0, 0, 0, 0, 0,
     0, 0, 0, 0, 0x40, 0, 0x38, 0, 7, 0, 0x40, 0, 9, 0, 8, 0]"

definition drawtest_phdrs :: "u8 list" where
  "drawtest_phdrs = [
     1, 0, 0, 0, 4, 0, 0, 0, 0, 0, 0, 0, 0, 0, 0, 0,
     0, 0xF0, 0x3F, 0, 0, 0, 0, 0, 0, 0xF0, 0x3F, 0, 0, 0, 0, 0,
     0xC8, 1, 0, 0, 0, 0, 0, 0, 0xC8, 1, 0, 0, 0, 0, 0, 0,
     0, 0x10, 0, 0, 0, 0, 0, 0, 1, 0, 0, 0, 5, 0, 0, 0,
     0, 0x10, 0, 0, 0, 0, 0, 0, 0, 0, 0x40, 0, 0, 0, 0, 0,
     0, 0, 0x40, 0, 0, 0, 0, 0, 0x0C, 2, 0, 0, 0, 0, 0, 0,
     0x0C, 2, 0, 0, 0, 0, 0, 0, 0, 0x10, 0, 0, 0, 0, 0, 0,
     1, 0, 0, 0, 4, 0, 0, 0, 0, 0x20, 0, 0, 0, 0, 0, 0,
     0, 0x10, 0x40, 0, 0, 0, 0, 0, 0, 0x10, 0x40, 0, 0, 0, 0, 0,
     0x38, 0, 0, 0, 0, 0, 0, 0, 0x38, 0, 0, 0, 0, 0, 0, 0,
     0, 0x10, 0, 0, 0, 0, 0, 0, 4, 0, 0, 0, 4, 0, 0, 0,
     0xC8, 0x11, 0, 0, 0, 0, 0, 0, 0xC8, 1, 0x40, 0, 0, 0, 0, 0,
     0xC8, 1, 0x40, 0, 0, 0, 0, 0, 0x20, 0, 0, 0, 0, 0, 0, 0,
     0x20, 0, 0, 0, 0, 0, 0, 0, 8, 0, 0, 0, 0, 0, 0, 0,
     4, 0, 0, 0, 4, 0, 0, 0, 0xE8, 0x11, 0, 0, 0, 0, 0, 0,
     0xE8, 1, 0x40, 0, 0, 0, 0, 0, 0xE8, 1, 0x40, 0, 0, 0, 0, 0,
     0x24, 0, 0, 0, 0, 0, 0, 0, 0x24, 0, 0, 0, 0, 0, 0, 0,
     4, 0, 0, 0, 0, 0, 0, 0, 0x53, 0xE5, 0x74, 0x64, 4, 0, 0, 0,
     0xC8, 0x11, 0, 0, 0, 0, 0, 0, 0xC8, 1, 0x40, 0, 0, 0, 0, 0,
     0xC8, 1, 0x40, 0, 0, 0, 0, 0, 0x20, 0, 0, 0, 0, 0, 0, 0,
     0x20, 0, 0, 0, 0, 0, 0, 0, 8, 0, 0, 0, 0, 0, 0, 0,
     0x51, 0xE5, 0x74, 0x64, 6] @ replicate 43 0 @ [
     0x10, 0, 0, 0, 0, 0, 0, 0]"

definition drawtest_gap :: "u8 list" where
  "drawtest_gap = replicate 3640 0"

definition drawtest_code :: "u8 list" where
  "drawtest_code = [
     0xF3, 0x0F, 0x1E, 0xFA, 0x55, 0x48, 0x89, 0xE5, 0x48, 0xC7, 0xC0, 2, 0, 0, 0, 0x0F,
     5, 0x48, 0xC7, 0xC0, 0x3C, 0, 0, 0, 0x48, 0x31, 0xFF, 0x0F, 5, 0x90, 0x5D, 0xC3]"

definition drawtest_code_gap :: "u8 list" where
  "drawtest_code_gap = replicate 424 0"

definition drawtest_notes :: "u8 list" where
  "drawtest_notes = [
     4, 0, 0, 0, 0x10, 0, 0, 0, 5, 0, 0, 0, 0x47, 0x4E, 0x55, 0,
     2, 0, 0, 0xC0, 4, 0, 0, 0, 3, 0, 0, 0, 0, 0, 0, 0,
     4, 0, 0, 0, 0x14, 0, 0, 0, 3, 0, 0, 0, 0x47, 0x4E, 0x55, 0,
     0x86, 0xF7, 0x4A, 0xD0, 0x55, 0x5F, 0x0E, 0xA2, 0xA9, 0x7A, 0xA0, 0xB9, 0x84, 0x21, 0xFF, 0xE1,
     0x50, 0x0B, 0x83, 0xFC]"

definition drawtest_notes_gap :: "u8 list" where
  "drawtest_notes_gap = replicate 3572 0"

definition drawtest_frame :: "u8 list" where
  "drawtest_frame = [
     0x14, 0, 0, 0, 0, 0, 0, 0, 1, 0x7A, 0x52, 0, 1, 0x78, 0x10, 1,
     0x1B, 0x0C, 7, 8, 0x90, 1, 0, 0, 0x1C, 0, 0, 0, 0x1C, 0, 0, 0,
     0xE0, 0xEF, 0xFF, 0xFF, 0x20, 0, 0, 0, 0, 0x45, 0x0E, 0x10, 0x86, 2, 0x43, 0x0D,
     6, 0x57, 0x0C, 7, 8, 0, 0, 0]"

definition drawtest_symbols :: "u8 list" where
  "drawtest_symbols = [
     0x47, 0x43, 0x43, 0x3A, 0x20, 0x28, 0x55, 0x62, 0x75, 0x6E, 0x74, 0x75, 0x20, 0x31, 0x33, 0x2E,
     0x33, 0x2E, 0x30, 0x2D, 0x36, 0x75, 0x62, 0x75, 0x6E, 0x74, 0x75, 0x32, 0x7E, 0x32, 0x34, 0x2E,
     0x30, 0x34, 0x2E, 0x31, 0x29, 0x20, 0x31, 0x33, 0x2E, 0x33, 0x2E, 0x30, 0, 0, 0, 0,
     0, 0, 0, 0, 0, 0, 0, 0, 0, 0, 0, 0, 0, 0, 0, 0,
     0, 0, 0, 0, 0, 0, 0, 0, 1, 0, 0, 0, 4, 0, 0xF1, 0xFF,
     0, 0, 0, 0, 0, 0, 0, 0, 0, 0, 0, 0, 0, 0, 0, 0,
     0x11, 0, 0, 0, 0x12, 0, 1, 0, 0, 0, 0x40, 0, 0, 0, 0, 0,
     0x20, 0, 0, 0, 0, 0, 0, 0, 0x0C, 0, 0, 0, 0x10, 0, 4, 0,
     0, 0x20, 0x40, 0, 0, 0, 0, 0, 0, 0, 0, 0, 0, 0, 0, 0,
     0x18, 0, 0, 0, 0x10, 0, 4, 0, 0, 0x20, 0x40, 0, 0, 0, 0, 0,
     0, 0, 0, 0, 0, 0, 0, 0, 0x1F, 0, 0, 0, 0x10, 0, 4, 0,
     0, 0x20, 0x40, 0, 0, 0, 0, 0, 0, 0, 0, 0, 0, 0, 0, 0,
     0, 0x64, 0x72, 0x61, 0x77, 0x74, 0x65, 0x73, 0x74, 0x2E, 0x63, 0, 0x5F, 0x5F, 0x62, 0x73,
     0x73, 0x5F, 0x73, 0x74, 0x61, 0x72, 0x74, 0, 0x5F, 0x65, 0x64, 0x61, 0x74, 0x61, 0, 0x5F,
     0x65, 0x6E, 0x64, 0, 0, 0x2E, 0x73, 0x79, 0x6D, 0x74, 0x61, 0x62, 0, 0x2E, 0x73, 0x74,
     0x72, 0x74, 0x61, 0x62, 0, 0x2E, 0x73, 0x68, 0x73, 0x74, 0x72, 0x74, 0x61, 0x62, 0, 0x2E,
     0x74, 0x65, 0x78, 0x74, 0, 0x2E, 0x6E, 0x6F, 0x74, 0x65, 0x2E, 0x67, 0x6E, 0x75, 0x2E, 0x70,
     0x72, 0x6F, 0x70, 0x65, 0x72, 0x74, 0x79, 0, 0x2E, 0x6E, 0x6F, 0x74, 0x65, 0x2E, 0x67, 0x6E,
     0x75, 0x2E, 0x62, 0x75, 0x69, 0x6C, 0x64, 0x2D, 0x69, 0x64, 0, 0x2E, 0x65, 0x68, 0x5F, 0x66,
     0x72, 0x61, 0x6D, 0x65, 0, 0x2E, 0x63, 0x6F, 0x6D, 0x6D, 0x65, 0x6E, 0x74, 0, 0, 0]"

definition drawtest_shdrs :: "u8 list" where
  "drawtest_shdrs = replicate 64 0 @ [
     0x1B, 0, 0, 0, 1, 0, 0, 0, 6, 0, 0, 0, 0, 0, 0, 0,
     0, 0, 0x40, 0, 0, 0, 0, 0, 0, 0x10, 0, 0, 0, 0, 0, 0,
     0x20, 0, 0, 0, 0, 0, 0, 0, 0, 0, 0, 0, 0, 0, 0, 0,
     1, 0, 0, 0, 0, 0, 0, 0, 0, 0, 0, 0, 0, 0, 0, 0,
     0x21, 0, 0, 0, 7, 0, 0, 0, 2, 0, 0, 0, 0, 0, 0, 0,
     0xC8, 1, 0x40, 0, 0, 0, 0, 0, 0xC8, 0x11, 0, 0, 0, 0, 0, 0,
     0x20, 0, 0, 0, 0, 0, 0, 0, 0, 0, 0, 0, 0, 0, 0, 0,
     8, 0, 0, 0, 0, 0, 0, 0, 0, 0, 0, 0, 0, 0, 0, 0,
     0x34, 0, 0, 0, 7, 0, 0, 0, 2, 0, 0, 0, 0, 0, 0, 0,
     0xE8, 1, 0x40, 0, 0, 0, 0, 0, 0xE8, 0x11, 0, 0, 0, 0, 0, 0,
     0x24, 0, 0, 0, 0, 0, 0, 0, 0, 0, 0, 0, 0, 0, 0, 0,
     4, 0, 0, 0, 0, 0, 0, 0, 0, 0, 0, 0, 0, 0, 0, 0,
     0x47, 0, 0, 0, 1, 0, 0, 0, 2, 0, 0, 0, 0, 0, 0, 0,
     0, 0x10, 0x40, 0, 0, 0, 0, 0, 0, 0x20, 0, 0, 0, 0, 0, 0,
     0x38, 0, 0, 0, 0, 0, 0, 0, 0, 0, 0, 0, 0, 0, 0, 0,
     8, 0, 0, 0, 0, 0, 0, 0, 0, 0, 0, 0, 0, 0, 0, 0,
     0x51, 0, 0, 0, 1, 0, 0, 0, 0x30, 0, 0, 0, 0, 0, 0, 0,
     0, 0, 0, 0, 0, 0, 0, 0, 0x38, 0x20, 0, 0, 0, 0, 0, 0,
     0x2D, 0, 0, 0, 0, 0, 0, 0, 0, 0, 0, 0, 0, 0, 0, 0,
     1, 0, 0, 0, 0, 0, 0, 0, 1, 0, 0, 0, 0, 0, 0, 0,
     1, 0, 0, 0, 2, 0, 0, 0, 0, 0, 0, 0, 0, 0, 0, 0,
     0, 0, 0, 0, 0, 0, 0, 0, 0x68, 0x20, 0, 0, 0, 0, 0, 0,
     0x90, 0, 0, 0, 0, 0, 0, 0, 7, 0, 0, 0, 2, 0, 0, 0,
     8, 0, 0, 0, 0, 0, 0, 0, 0x18, 0, 0, 0, 0, 0, 0, 0,
     9, 0, 0, 0, 3, 0, 0, 0, 0, 0, 0, 0, 0, 0, 0, 0,
     0, 0, 0, 0, 0, 0, 0, 0, 0xF8, 0x20, 0, 0, 0, 0, 0, 0,
     0x24, 0, 0, 0, 0, 0, 0, 0, 0, 0, 0, 0, 0, 0, 0, 0,
     1, 0, 0, 0, 0, 0, 0, 0, 0, 0, 0, 0, 0, 0, 0, 0,
     0x11, 0, 0, 0, 3, 0, 0, 0, 0, 0, 0, 0, 0, 0, 0, 0,
     0, 0, 0, 0, 0, 0, 0, 0, 0x1C, 0x21, 0, 0, 0, 0, 0, 0,
     0x5A, 0, 0, 0, 0, 0, 0, 0, 0, 0, 0, 0, 0, 0, 0, 0,
     1, 0, 0, 0, 0, 0, 0, 0, 0, 0, 0, 0, 0, 0, 0, 0]"

definition DRAWTEST_ELF :: "u8 list" where
  "DRAWTEST_ELF = drawtest_ehdr @
     drawtest_phdrs @
     drawtest_gap @
     drawtest_code @
     drawtest_code_gap @
     drawtest_notes @
     drawtest_notes_gap @
     drawtest_frame @
     drawtest_symbols @
     drawtest_shdrs"

section \<open>The headers\<close>

lemma program_lengths [simp]:
  "length hello_ehdr = 64" "length hello_phdrs = 392" "length hello_code = 109" "length hello_code_gap = 347"
  "length hello_notes = 68" "length hello_frame = 56" "length hello_symbols = 320" "length hello_shdrs = 576"
  "length drawtest_code = 32" "length drawtest_code_gap = 424"
  "length drawtest_notes = 68" "length drawtest_frame = 56" "length drawtest_symbols = 320" "length drawtest_shdrs = 576"
  by (simp_all add: hello_ehdr_def hello_phdrs_def hello_code_def hello_code_gap_def hello_notes_def hello_frame_def
      hello_symbols_def hello_shdrs_def drawtest_code_def drawtest_code_gap_def drawtest_notes_def
      drawtest_frame_def drawtest_symbols_def drawtest_shdrs_def)

lemma same_headers: "drawtest_ehdr = hello_ehdr" "drawtest_phdrs = hello_phdrs"
  by (simp_all only: drawtest_ehdr_def hello_ehdr_def drawtest_phdrs_def hello_phdrs_def)

lemma bytes_at_front:
  assumes "unat off + n \<le> length h" and "length (h @ rest) < 2 ^ 64"
  shows "bytes_at (h @ rest) a off n = take n (drop (unat off) h)"
proof (rule nth_equalityI)
  show "length (bytes_at (h @ rest) a off n) = length (take n (drop (unat off) h))"
    using assms(1) by (simp add: bytes_at_def)
  fix i assume "i < length (bytes_at (h @ rest) a off n)"
  then have i: "i < n" by (simp add: bytes_at_def)
  have "unat (off + of_nat i) = unat off + i"
    using i assms by (simp add: unat_word_ariths unat_of_nat)
  then show "bytes_at (h @ rest) a off n ! i = take n (drop (unat off) h) ! i"
    using i assms(1) by (simp add: bytes_at_def byte_at_def nth_append)
qed

text \<open>Both programs were linked with the same layout; these are the headers, and they are read from inside the file.\<close>

definition program_hdr :: elf64_header where
  "program_hdr = \<lparr>h_magic = [0x7F, 0x45, 0x4C, 0x46], h_class = 2, h_type = 2, h_machine = 0x3E,
     h_entry = 0x400000, h_phoff = 64, h_phentsize = 56, h_phnum = 7\<rparr>"

definition program_phdrs :: "elf64_phdr list" where
  "program_phdrs =
    [\<lparr>p_type = 1, p_flags = 4, p_offset = 0, p_vaddr = 0x3FF000, p_filesz = 0x1C8, p_memsz = 0x1C8\<rparr>,
     \<lparr>p_type = 1, p_flags = 5, p_offset = 0x1000, p_vaddr = 0x400000, p_filesz = 0x20C, p_memsz = 0x20C\<rparr>,
     \<lparr>p_type = 1, p_flags = 4, p_offset = 0x2000, p_vaddr = 0x401000, p_filesz = 0x38, p_memsz = 0x38\<rparr>,
     \<lparr>p_type = 4, p_flags = 4, p_offset = 0x11C8, p_vaddr = 0x4001C8, p_filesz = 0x20, p_memsz = 0x20\<rparr>,
     \<lparr>p_type = 4, p_flags = 4, p_offset = 0x11E8, p_vaddr = 0x4001E8, p_filesz = 0x24, p_memsz = 0x24\<rparr>,
     \<lparr>p_type = 0x6474E553, p_flags = 4, p_offset = 0x11C8, p_vaddr = 0x4001C8, p_filesz = 0x20, p_memsz = 0x20\<rparr>,
     \<lparr>p_type = 0x6474E551, p_flags = 6, p_offset = 0, p_vaddr = 0, p_filesz = 0, p_memsz = 0\<rparr>]"

definition program_file :: "u8 list \<Rightarrow> bool" where
  "program_file data \<longleftrightarrow> length data = 9144 \<and> take 456 data = hello_ehdr @ hello_phdrs"

lemma program_fileE:
  assumes "program_file data"
  obtains rest where "data = (hello_ehdr @ hello_phdrs) @ rest" "length rest = 8688"
proof -
  have "take 456 data @ drop 456 data = data" by (rule append_take_drop_id)
  then have "data = (hello_ehdr @ hello_phdrs) @ drop 456 data" using assms unfolding program_file_def by metis
  then show thesis using that assms by (simp add: program_file_def)
qed

lemma program_bytes:
  assumes "program_file data" and "unat off + n \<le> 456"
  shows "bytes_at data a off n = take n (drop (unat off) (hello_ehdr @ hello_phdrs))"
  using assms(1)
proof (rule program_fileE)
  fix rest assume r: "data = (hello_ehdr @ hello_phdrs) @ rest" "length rest = 8688"
  show ?thesis unfolding r(1) by (rule bytes_at_front) (use assms(2) r(2) in simp_all)
qed

lemma byte_at_bytes: "byte_at data a off = hd (bytes_at data a off 1)"
  by (simp add: bytes_at_def)

lemma program_header: "program_file data \<Longrightarrow> check_header data a = Inr program_hdr"
proof -
  assume p: "program_file data"
  have "from_le [2, 0 :: u8] = (2 :: u16)" "from_le [0x3E, 0 :: u8] = (0x3E :: u16)"
    "from_le [0, 0, 0x40, 0, 0, 0, 0, 0 :: u8] = (0x400000 :: u64)" "from_le [0x40, 0, 0, 0, 0, 0, 0, 0 :: u8] = (64 :: u64)"
    "from_le [0x38, 0 :: u8] = (56 :: u16)" "from_le [7, 0 :: u8] = (7 :: u16)"
    by code_simp+
  then show ?thesis using p
    by (simp add: check_header_def read_header_def program_bytes byte_at_bytes program_hdr_def program_file_def
        hello_ehdr_def Let_def)
qed

definition phdr_of :: "u8 list \<Rightarrow> elf64_phdr" where
  "phdr_of b =
     \<lparr>p_type = from_le (take 4 b), p_flags = from_le (take 4 (drop 4 b)), p_offset = from_le (take 8 (drop 8 b)),
      p_vaddr = from_le (take 8 (drop 16 b)), p_filesz = from_le (take 8 (drop 32 b)),
      p_memsz = from_le (take 8 (drop 40 b))\<rparr>"

lemma program_phdrs_decode:
  "map (\<lambda>k. phdr_of (drop k (hello_ehdr @ hello_phdrs))) [64, 120, 176, 232, 288, 344, 400] = program_phdrs"
  by code_simp

lemma program_phdr_off:
  assumes "program_file data" and "unat off + 56 \<le> 456"
  shows "read_phdr data a off = phdr_of (drop (unat off) (hello_ehdr @ hello_phdrs))"
proof -
  have "unat (off + of_nat k) = unat off + k" if "k < 56" for k :: nat
    using that assms(2) by (simp add: unat_word_ariths unat_of_nat)
  from this [of 4] this [of 8] this [of 16] this [of 32] this [of 40]
  have u: "unat (off + 4) = unat off + 4" "unat (off + 8) = unat off + 8" "unat (off + 16) = unat off + 16"
    "unat (off + 32) = unat off + 32" "unat (off + 40) = unat off + 40" by simp_all
  note [simp del] = drop_append take_append
  show ?thesis using assms
    by (simp add: read_phdr_def phdr_of_def program_bytes u add.commute)
qed

lemma program_phdr:
  assumes "program_file data"
  shows "map (phdr_at data a (h_phoff program_hdr) (ucast (h_phentsize program_hdr))) [0..<unat (h_phnum program_hdr)] =
    program_phdrs"
proof -
  have n: "[0..<unat (h_phnum program_hdr)] = [0, 1, 2, 3, 4, 5, 6]" by (simp add: program_hdr_def upt_rec)
  have "phdr_at data a 64 56 i = phdr_of (drop (64 + 56 * i) (hello_ehdr @ hello_phdrs))" if "i < 7" for i
  proof -
    have "unat (64 + of_nat i * 56 :: u64) = 64 + 56 * i"
      using that by (simp add: unat_word_ariths unat_of_nat)
    then show ?thesis using program_phdr_off [OF assms, of "64 + of_nat i * 56" a] that by (simp add: phdr_at_def)
  qed
  note p = this [of 0] this [of 1] this [of 2] this [of 3] this [of 4] this [of 5] this [of 6]
  show ?thesis unfolding program_phdrs_decode [symmetric] n
    using p by (simp add: program_hdr_def del: drop_append)
qed

section \<open>The segments\<close>

lemma program_loadable: "filter loadable program_phdrs = take 3 program_phdrs"
  by (simp add: program_phdrs_def loadable_def)

lemma program_pages: "map seg_pages (take 3 program_phdrs) = [[0x3FF000], [0x400000], [0x401000]]"
proof -
  have "page_base 0x3FF000 = (0x3FF000 :: u64)" "page_base 0x4001C7 = (0x400000 :: u64)"
    "page_base 0x400000 = (0x400000 :: u64)" "page_base 0x40120B = (0x401000 :: u64)"
    "page_base 0x401000 = (0x401000 :: u64)" "page_base 0x402037 = (0x402000 :: u64)"
    by (simp_all add: page_base_def)
  then show ?thesis
    by (simp add: program_phdrs_def seg_pages_def PAGE_SIZE_def page_range_def step_range_def upt_rec)
qed

lemma program_seg_pages:
  "ph \<in> set (filter loadable program_phdrs) \<Longrightarrow> \<exists>v \<in> {0x3FF000, 0x400000, 0x401000}. seg_pages ph = [v]"
proof -
  assume "ph \<in> set (filter loadable program_phdrs)"
  then have "seg_pages ph \<in> set (map seg_pages (take 3 program_phdrs))" by (simp only: program_loadable set_map image_eqI)
  then show ?thesis unfolding program_pages by auto
qed

lemma program_page_set:
  "\<Union> (set ` seg_pages ` set (filter loadable program_phdrs)) = {0x3FF000, 0x400000, 0x401000}"
proof -
  have "seg_pages ` set (filter loadable program_phdrs) = set (map seg_pages (take 3 program_phdrs))"
    by (simp only: program_loadable set_map)
  then show ?thesis unfolding program_pages by auto
qed

lemma program_needed: "pages_needed program_phdrs = 3"
proof -
  have "pages_needed program_phdrs = sum_list (map length (map seg_pages (take 3 program_phdrs)))"
    by (simp only: pages_needed_def program_loadable map_map comp_def)
  then show ?thesis by (simp only: program_pages) simp
qed

lemma program_segment_ok:
  "length data = 9144 \<Longrightarrow> ph \<in> set program_phdrs \<Longrightarrow> segment_ok data ph"
  by (auto simp: program_phdrs_def segment_ok_def data_len_def)

lemma program_headers_ok:
  assumes "program_file data"
  shows "headers_ok data a (h_phoff program_hdr) (ucast (h_phentsize program_hdr)) [0..<unat (h_phnum program_hdr)]"
proof -
  have l: "length data = 9144" using assms by (simp add: program_file_def)
  have "phdr_at data a (h_phoff program_hdr) (ucast (h_phentsize program_hdr)) i \<in> set program_phdrs"
    if "i \<in> set [0..<unat (h_phnum program_hdr)]" for i
    unfolding program_phdr [OF assms, of a, symmetric] using that by simp
  moreover have "h_phoff program_hdr + of_nat i * ucast (h_phentsize program_hdr) + ucast (h_phentsize program_hdr) \<le> data_len data"
    if "i \<in> set [0..<unat (h_phnum program_hdr)]" for i
  proof -
    have "i < 7" using that by (simp add: program_hdr_def)
    then have "unat (64 + of_nat i * 56 + 56 :: u64) = 120 + i * 56"
      by (simp add: unat_word_ariths unat_of_nat)
    then show ?thesis using \<open>i < 7\<close> by (simp add: program_hdr_def word_le_nat_alt data_len_def l unat_of_nat)
  qed
  ultimately show ?thesis unfolding headers_ok_def using program_segment_ok [OF l] by blast
qed

text \<open>What a loaded program finds in its code page.\<close>

lemma program_image_code:
  assumes "length data = 9144" and "i < 0x20C"
  shows "elf_image data a program_phdrs (0x400000 + of_nat i) = data ! (0x1000 + i)"
proof -
  have i: "unat (of_nat i :: u64) = i" using assms(2) by (simp add: unat_of_nat)
  have n: "\<not> unat (of_nat i - 0x1000 :: u64) < 0x38"
    using assms(2) by (simp add: unat_sub_if_size i word_size)
  have "unat (0x1000 + of_nat i :: u64) = 0x1000 + i" using assms(2) by (simp add: unat_word_ariths unat_of_nat)
  then show ?thesis using assms n i
    by (simp add: elf_image_def program_loadable) (simp add: program_phdrs_def segment_image_def byte_at_def)
qed

lemma hello_is_program: "program_file HELLO_ELF"
  by (simp add: program_file_def HELLO_ELF_def hello_gap_def hello_notes_gap_def)

lemma drawtest_is_program: "program_file DRAWTEST_ELF"
  by (simp add: program_file_def DRAWTEST_ELF_def drawtest_gap_def drawtest_notes_gap_def same_headers)

text \<open>The code and the zeros behind it.\<close>

definition code_text :: "u8 list \<Rightarrow> u8 list" where
  "code_text code = code @ replicate 16 0"

lemma code_text_nth: "i < length code + 16 \<Longrightarrow> code_text code ! i = (if i < length code then code ! i else 0)"
  by (simp add: code_text_def nth_append)

lemma hello_code_at: "i < 125 \<Longrightarrow> HELLO_ELF ! (0x1000 + i) = code_text hello_code ! i"
  by (auto simp: code_text_nth HELLO_ELF_def hello_gap_def hello_code_gap_def nth_append)

lemma drawtest_code_at: "i < 48 \<Longrightarrow> DRAWTEST_ELF ! (0x1000 + i) = code_text drawtest_code ! i"
  by (auto simp: code_text_nth DRAWTEST_ELF_def drawtest_gap_def drawtest_code_gap_def nth_append same_headers)

end
