(* ===== verification/UserMode.thy ===== *)
theory UserMode
  imports Initrd Lifecycle Syscalls
begin

text \<open>
  The embedded programs running. A user-mode processor fetches instructions through the page tables that
  \<open>spawn_program\<close> built, executes those the two programs are made of, and enters
  \<open>syscall_handler\<close> (\<open>kernel/src/main.rs\<close>) on \<open>syscall\<close>; \<open>jump_to_userspace\<close> and
  \<open>isolated_trampoline\<close> start it. The processor's instructions are those of its manual, for the
  encodings that occur; the flags are not modelled, the value a system call saves of them is an argument, as
  are the registers a call may leave anything in. The theorems follow the programs from \<open>spawn_program\<close> to
  their exit.
\<close>

section \<open>Instructions\<close>

text \<open>Registers have their encoding as number: 0 is \<open>rax\<close>, 1 \<open>rcx\<close>, 2 \<open>rdx\<close>, 4 \<open>rsp\<close>, 5 \<open>rbp\<close>, 6 \<open>rsi\<close>, 7 \<open>rdi\<close>.\<close>

datatype instr =
    Endbr
  | Push nat
  | MovReg nat nat
  | MovImm nat u64
  | StoreReg nat u64 nat
  | LeaReg nat nat u64
  | XorReg nat nat
  | SyscallIns

text \<open>Behind the prefix \<open>48\<close>: the operation, the byte with mode and registers, and the operands.\<close>

definition decode_modrm :: "u8 \<Rightarrow> u8 \<Rightarrow> u8 list \<Rightarrow> (instr \<times> nat) option" where
  "decode_modrm op modrm r =
     (let md = unat (drop_bit 6 modrm); reg = unat (drop_bit 3 modrm AND 7); rm = unat (modrm AND 7)
      in if md = 3 then
           if op = 0x89 then Some (MovReg rm reg, 3)
           else if op = 0x31 then Some (XorReg rm reg, 3)
           else if op = 0xC7 \<and> reg = 0 \<and> 4 \<le> length r then Some (MovImm rm (scast (from_le (take 4 r) :: u32)), 7)
           else None
         else if md = 1 \<and> rm \<noteq> 4 \<and> r \<noteq> [] then
           if op = 0x89 then Some (StoreReg rm (scast (hd r)) reg, 4)
           else if op = 0x8D then Some (LeaReg reg rm (scast (hd r)), 4)
           else None
         else None)"

definition decode :: "u8 list \<Rightarrow> (instr \<times> nat) option" where
  "decode bs =
     (if take 4 bs = [0xF3, 0x0F, 0x1E, 0xFA] then Some (Endbr, 4)
      else if take 2 bs = [0x0F, 0x05] then Some (SyscallIns, 2)
      else case bs of
        [] \<Rightarrow> None
      | b # r \<Rightarrow>
          if 0x50 \<le> b \<and> b < 0x58 then Some (Push (unat (b AND 7)), 1)
          else if b \<noteq> 0x48 then None
          else case r of
            [] \<Rightarrow> None
          | op # r1 \<Rightarrow>
              if 0xB8 \<le> op \<and> op < 0xC0 then
                if 8 \<le> length r1 then Some (MovImm (unat (op AND 7)) (from_le (take 8 r1)), 10) else None
              else case r1 of [] \<Rightarrow> None | modrm # r2 \<Rightarrow> decode_modrm op modrm r2)"

section \<open>Memory\<close>

text \<open>An access faults outside the lower half, where nothing is mapped, and against the permissions of the page.\<close>

definition user_frame :: "memory \<Rightarrow> u64 \<Rightarrow> u64 \<Rightarrow> (u64 \<times> bool \<times> bool) option" where
  "user_frame m cr3 v = (if v < 0x800000000000 then user_walk m cr3 v else None)"

fun fetch_code :: "nat \<Rightarrow> memory \<Rightarrow> u64 \<Rightarrow> u64 \<Rightarrow> u8 list" where
  "fetch_code 0 m cr3 v = []"
| "fetch_code (Suc n) m cr3 v =
     (case user_frame m cr3 v of
        Some (f, _, True) \<Rightarrow> m (f + page_off v) # fetch_code n m cr3 (v + 1)
      | _ \<Rightarrow> [])"

fun user_store :: "u8 list \<Rightarrow> u64 \<Rightarrow> u64 \<Rightarrow> memory \<Rightarrow> memory option" where
  "user_store [] cr3 v m = Some m"
| "user_store (b # bs) cr3 v m =
     (case user_frame m cr3 v of
        Some (f, True, _) \<Rightarrow> user_store bs cr3 (v + 1) (m(f + page_off v := b))
      | _ \<Rightarrow> None)"

text \<open>What the kernel reads at a user address while the caller's tables are loaded; \<open>other\<close> is what its own pages show.\<close>

definition caller_view :: "memory \<Rightarrow> memory \<Rightarrow> u64 \<Rightarrow> memory" where
  "caller_view other m cr3 v =
     (case user_frame m cr3 v of Some (f, _, _) \<Rightarrow> m (f + page_off v) | None \<Rightarrow> other v)"

section \<open>Execution\<close>

record ucpu =
  uc_reg :: "nat \<Rightarrow> u64"
  uc_rip :: u64

definition set_reg :: "nat \<Rightarrow> u64 \<Rightarrow> ucpu \<Rightarrow> ucpu" where
  "set_reg r v c = c\<lparr>uc_reg := (uc_reg c)(r := v)\<rparr>"

definition uexec :: "instr \<Rightarrow> u64 \<Rightarrow> ucpu \<Rightarrow> memory \<Rightarrow> (ucpu \<times> memory) option" where
  "uexec ins cr3 c m =
     (let reg = uc_reg c in
      case ins of
        Endbr \<Rightarrow> Some (c, m)
      | Push r \<Rightarrow> map_option (\<lambda>m'. (set_reg 4 (reg 4 - 8) c, m')) (user_store (le_bytes 8 (reg r)) cr3 (reg 4 - 8) m)
      | MovReg d s \<Rightarrow> Some (set_reg d (reg s) c, m)
      | MovImm d v \<Rightarrow> Some (set_reg d v c, m)
      | StoreReg b d s \<Rightarrow> map_option (Pair c) (user_store (le_bytes 8 (reg s)) cr3 (reg b + d) m)
      | LeaReg d b v \<Rightarrow> Some (set_reg d (reg b + v) c, m)
      | XorReg d s \<Rightarrow> Some (set_reg d (reg d XOR reg s) c, m)
      | SyscallIns \<Rightarrow> Some (c, m))"

text \<open>The state \<open>isolated_trampoline\<close> enters user mode with.\<close>

definition jump_to_userspace :: "u64 \<Rightarrow> u64 \<Rightarrow> (nat \<Rightarrow> u64) \<Rightarrow> ucpu" where
  "jump_to_userspace entry ustack_top regs = \<lparr>uc_reg = regs(4 := ustack_top), uc_rip = entry\<rparr>"

text \<open>
  A system call without preemption. The handler saves three registers, of which \<open>sysretq\<close> uses two; those that
  a called function may overwrite come back with whatever it left in them, \<open>left\<close>. What the called
  functions leave on the kernel stack, \<open>frames\<close>, may depend on the call.
\<close>

definition user_regs_at :: "u64 \<Rightarrow> ucpu \<Rightarrow> user_regs" where
  "user_regs_at flags c =
     \<lparr>ur_rax = uc_reg c 0, ur_rcx = uc_rip c, ur_r11 = flags, ur_rdx = uc_reg c 2, ur_rsi = uc_reg c 6,
      ur_rsp = uc_reg c 4\<rparr>"

definition after_sysret :: "(nat \<Rightarrow> u64) \<Rightarrow> sysret \<Rightarrow> ucpu \<Rightarrow> ucpu" where
  "after_sysret left sr c =
     \<lparr>uc_reg = (\<lambda>r. if r = 0 then sr_rax sr else if r = 1 then sr_rip sr else if r = 4 then sr_rsp sr
         else if r = 11 then sr_r11 sr else if r \<in> {2, 6, 7, 8, 9, 10} then left r else uc_reg c r),
      uc_rip = sr_rip sr\<rparr>"

datatype user_end = Exits sys "(pid \<times> sched) outcome" | Faults ucpu memory sys | Running ucpu memory sys

fun user_run :: "(nat \<Rightarrow> u64) \<Rightarrow> (user_regs \<Rightarrow> u64 list) \<Rightarrow> u64 \<Rightarrow> memory \<Rightarrow> u64 \<Rightarrow> nat \<Rightarrow> ucpu \<Rightarrow> memory \<Rightarrow> sys \<Rightarrow> user_end" where
  "user_run left frames flags other cr3 0 c m y = Running c m y"
| "user_run left frames flags other cr3 (Suc n) c m y =
     (case decode (fetch_code 15 m cr3 (uc_rip c)) of
        None \<Rightarrow> Faults c m y
      | Some (ins, len) \<Rightarrow>
          let c1 = c\<lparr>uc_rip := uc_rip c + of_nat len\<rparr> in
          if ins = SyscallIns then
            let y1 = y\<lparr>y_mem := caller_view other m cr3\<rparr> in
            case syscall_handler (frames (user_regs_at flags c1)) id (user_regs_at flags c1) y1 of
              Exited r \<Rightarrow> Exits y1 r
            | Derailed y2 \<Rightarrow> Faults c m y2
            | Resumed sr y2 \<Rightarrow> user_run left frames flags other cr3 n (after_sysret left sr c1) m y2
          else case uexec ins cr3 c1 m of
              None \<Rightarrow> Faults c m y
            | Some (c2, m2) \<Rightarrow> user_run left frames flags other cr3 n c2 m2 y)"

section \<open>What the programs are\<close>


definition drawtest_program :: "(nat \<times> instr \<times> nat) list" where
  "drawtest_program =
    [(0, Endbr, 4), (4, Push 5, 1), (5, MovReg 5 4, 3), (8, MovImm 0 2, 7), (15, SyscallIns, 2),
     (17, MovImm 0 60, 7), (24, XorReg 7 7, 3), (27, SyscallIns, 2)]"


lemma drawtest_decodes:
  "map (\<lambda>(i, _). decode (take 15 (drop i (code_text drawtest_code)))) drawtest_program =
     map (\<lambda>(_, r). Some r) drawtest_program"
  by code_simp

section \<open>The address space of a program\<close>

lemma idx_bits:
  assumes "unat (drop_bit s a AND 0x1FF) = unat (drop_bit s b AND 0x1FF :: u64)" and "s \<le> k" and "k < s + 9" and "s + 9 \<le> 64"
  shows "bit (a :: u64) k = bit b k"
proof -
  have m: "(0x1FF :: u64) = mask 9" by (simp add: mask_eq_exp_minus_1)
  have "drop_bit s a AND mask 9 = drop_bit s b AND mask 9" using assms(1) unfolding m by (simp only: word_unat_eq_iff)
  then have "bit (drop_bit s a AND mask 9) (k - s) = bit (drop_bit s b AND mask 9) (k - s)" by simp
  moreover have "k - s < 9" "k - s < 64" using assms(2-4) by linarith+
  ultimately show ?thesis using assms(2) by (simp add: bit_simps)
qed

lemma high_bit_clear: "unat (a :: u64) < 2 ^ 47 \<Longrightarrow> 47 \<le> k \<Longrightarrow> \<not> bit a k"
proof -
  assume a: "unat a < 2 ^ 47" and k: "47 \<le> k"
  have "unat a < 2 ^ k" using a power_increasing [OF k, of "2 :: nat"] by linarith
  then have "\<not> bit (unat a) k" by (metis bit_take_bit_iff less_irrefl take_bit_nat_eq_self)
  then show ?thesis by (simp add: bit_unsigned_iff)
qed

lemma bit_page_base: "bit (page_base a) k \<longleftrightarrow> 12 \<le> k \<and> bit a k"
  unfolding page_base_def mask_12 by (auto simp: bit_simps dest: bit_imp_le_length)

lemma indices_page:
  assumes "unat a < 2 ^ 47" "unat b < 2 ^ 47"
  shows "indices a = indices b \<longleftrightarrow> page_base a = page_base b"
proof
  assume i: "indices a = indices b"
  show "page_base a = page_base b"
  proof (rule bit_word_eqI)
    fix k assume "k < LENGTH(64)"
    consider "k < 12" | "12 \<le> k" "k < 21" | "21 \<le> k" "k < 30" | "30 \<le> k" "k < 39" | "39 \<le> k" "k < 48" | "48 \<le> k"
      by linarith
    then show "bit (page_base a) k = bit (page_base b) k"
      using i high_bit_clear [OF assms(1), of k] high_bit_clear [OF assms(2), of k]
      by cases (auto simp: bit_page_base indices_def pml4_idx_def pdpt_idx_def pd_idx_def pt_idx_def
          dest: idx_bits [of 12] idx_bits [of 21] idx_bits [of 30] idx_bits [of 39])
  qed
next
  assume p: "page_base a = page_base b"
  have b: "bit a k = bit b k" if "12 \<le> k" for k
    using p bit_page_base that by metis
  have "drop_bit s a = drop_bit s b" if "12 \<le> s" for s
    by (rule bit_word_eqI) (use that in \<open>simp add: bit_simps b\<close>)
  then show "indices a = indices b" by (simp add: indices_def pml4_idx_def pdpt_idx_def pd_idx_def pt_idx_def)
qed

definition keeps :: "u64 \<Rightarrow> memory \<Rightarrow> memory \<Rightarrow> bool" where
  "keeps stack m0 m \<longleftrightarrow> (\<forall>x. page_base x \<noteq> stack \<longrightarrow> m x = m0 x)"

text \<open>
  \<open>loaded text cr3 stack m\<close>: as long as only the stack page is written, the text can be fetched at the
  program's address and the stack page, at its own physical address, and only it, can be written.
\<close>

definition loaded :: "u8 list \<Rightarrow> u64 \<Rightarrow> u64 \<Rightarrow> memory \<Rightarrow> bool" where
  "loaded text cr3 stack m0 \<longleftrightarrow> page_aligned stack \<and>
     (\<forall>m i. keeps stack m0 m \<longrightarrow> i < length text \<longrightarrow>
        (\<exists>f w. user_frame m cr3 (0x400000 + of_nat i) = Some (f, w, True) \<and>
           m (f + page_off (0x400000 + of_nat i)) = text ! i)) \<and>
     (\<forall>m k. keeps stack m0 m \<longrightarrow> k < 4096 \<longrightarrow>
        (\<exists>x. user_frame m cr3 (stack + of_nat k) = Some (stack, True, x))) \<and>
     (\<forall>m v f x. keeps stack m0 m \<longrightarrow> user_frame m cr3 v = Some (f, True, x) \<longrightarrow> f = stack)"

lemma page_base_text: "i < 0x20C \<Longrightarrow> page_base (0x400000 + of_nat i) = 0x400000"
  by (rule in_page_offset) (simp_all add: page_aligned_dvd unat_of_nat)

lemma filter_the_one: "distinct xs \<Longrightarrow> a \<in> set xs \<Longrightarrow> filter (\<lambda>r. r = a) xs = [a]"
  by (induction xs) (auto simp: filter_empty_conv)

lemma filter_last: "filter P xs = [r] \<Longrightarrow> filter P (rev xs) = [r]"
  by (simp add: rev_filter [symmetric])

lemma requested_page:
  assumes "pages_ok pages" and "(page_base v, f, w, x) \<in> set pages"
    and "\<And>u. u \<in> page_addrs pages \<Longrightarrow> unat u < 2 ^ 47" and "unat v < 2 ^ 47" and "unat stack < 2 ^ 47"
    and "page_base stack \<noteq> page_base v"
  shows "requested (pages @ [stack_request stack]) v = Some (f AND ADDR_MASK, w, x)"
proof -
  let ?P = "\<lambda>(v', _). indices v' = indices v"
  have al: "page_base u = u" if "u \<in> page_addrs pages" for u
    using that assms(1) page_aligned_base by (fastforce simp: page_addrs_def pages_ok_def)
  have P: "?P r \<longleftrightarrow> fst r = page_base v" if "r \<in> set pages" for r
  proof -
    have "fst r \<in> page_addrs pages" using that by (simp add: page_addrs_def)
    from indices_page [OF assms(3) [OF this] assms(4)] al [OF this] show ?thesis
      by (simp add: case_prod_beta)
  qed
  have "inj_on fst (set pages)" and d: "distinct pages" using assms(1) by (auto simp: pages_ok_def distinct_map)
  have u: "r = (page_base v, f, w, x)" if "r \<in> set pages" "fst r = page_base v" for r
    by (rule inj_onD [OF \<open>inj_on fst (set pages)\<close> _ that(1) assms(2)]) (simp add: that(2))
  have "filter ?P pages = filter (\<lambda>r. r = (page_base v, f, w, x)) pages"
  proof (rule filter_cong [OF refl])
    fix r assume r: "r \<in> set pages"
    show "?P r \<longleftrightarrow> r = (page_base v, f, w, x)" unfolding P [OF r] using u [OF r] by (metis fst_conv)
  qed
  also have "\<dots> = [(page_base v, f, w, x)]"
    using d assms(2) by (rule filter_the_one)
  finally have "filter ?P (rev pages) = [(page_base v, f, w, x)]" by (rule filter_last)
  moreover have "indices stack \<noteq> indices v" using indices_page [OF assms(5,4)] assms(6) by simp
  ultimately show ?thesis by (simp add: requested_def stack_request_def)
qed

lemma requested_stack:
  "requested (pages @ [stack_request stack]) v = Some (stack AND ADDR_MASK, True, False)" if "indices v = indices stack"
  using that by (simp add: requested_def stack_request_def)

lemma addr_mask_frame: "page_aligned f \<Longrightarrow> unat f < 2 ^ 47 \<Longrightarrow> f AND ADDR_MASK = f"
  by (rule frame_and_mask) simp_all

lemma code_page_exec: "from_segment program_phdrs (0x400000, f, w, x) \<Longrightarrow> x"
proof -
  assume "from_segment program_phdrs (0x400000, f, w, x)"
  then obtain ph where ph: "ph \<in> set (take 3 program_phdrs)" "0x400000 \<in> set (seg_pages ph)" "x \<longleftrightarrow> p_flags ph AND 1 \<noteq> 0"
    unfolding from_segment_def program_loadable [symmetric] by auto
  let ?a = "program_phdrs ! 0" and ?b = "program_phdrs ! 1" and ?c = "program_phdrs ! 2"
  have t: "take 3 program_phdrs = [?a, ?b, ?c]" by (simp add: program_phdrs_def)
  have "seg_pages ?a = [0x3FF000]" "seg_pages ?c = [0x401000]" using program_pages unfolding t by simp_all
  then have "ph = ?b" using ph(1,2) unfolding t by auto
  then show x using ph(3) by (simp add: program_phdrs_def)
qed

lemma code_pages_read_only: "\<not> from_segment program_phdrs (v, f, True, x)"
proof
  assume "from_segment program_phdrs (v, f, True, x)"
  then obtain ph where "ph \<in> set (take 3 program_phdrs)" "p_flags ph AND 2 \<noteq> 0"
    unfolding from_segment_def program_loadable [symmetric] by auto
  then show False by (auto simp: program_phdrs_def)
qed

lemma stack_room: "page_aligned stack \<Longrightarrow> unat stack < 2 ^ 47 \<Longrightarrow> k < 4096 \<Longrightarrow> unat (stack + of_nat k) < 2 ^ 47"
proof -
  assume s: "page_aligned stack" "unat stack < 2 ^ 47" "k < 4096"
  then obtain q where "unat stack = 4096 * q" by (auto simp: page_aligned_dvd elim: dvdE)
  then show ?thesis using s(2,3) by (simp add: unat_word_ariths unat_of_nat)
qed

lemma program_loaded:
  assumes pt: "program_task data a program_phdrs 0x400000 cs mach t"
    and len: "length data = 9144" and src: "\<And>i. i < length text \<Longrightarrow> data ! (0x1000 + i) = text ! i" "length text \<le> 0x20C"
    and stk: "t_user_stack_top t \<notin> {0x400000, 0x401000, 0x402000}"
  shows "\<exists>stack. t_user_stack_top t = stack + 4096 \<and> loaded text (t_cr3 t) stack (m_mem mach)"
proof -
  let ?m0 = "m_mem mach"
  obtain pages stack where s: "t_user_stack_top t = stack + 4096" "page_aligned stack"
    "\<forall>f \<in> insert stack (page_frames pages). unat f < 2 ^ 47" "stack \<notin> page_frames pages" and ok: "pages_ok pages"
    and pa: "page_addrs pages = {0x3FF000, 0x400000, 0x401000}" and fs: "\<forall>r \<in> set pages. from_segment program_phdrs r"
    and img: "view pages ?m0 = elf_image data a program_phdrs"
    and walk: "\<forall>m v. (\<forall>x. page_base x \<notin> insert stack (page_frames pages) \<longrightarrow> m x = ?m0 x) \<longrightarrow> pml4_idx v < 256 \<longrightarrow>
      user_walk m (t_cr3 t) v = requested (pages @ [stack_request stack]) v"
    by (rule program_taskE [OF pt, unfolded program_page_set]) (rule that)
  have st: "stack \<notin> {0x3FF000, 0x400000, 0x401000}" using stk unfolding s(1) by auto
  have sb: "page_base stack = stack" using s(2) by (simp add: page_aligned_base)
  have frame: "user_frame m (t_cr3 t) v = requested (pages @ [stack_request stack]) v"
    if "keeps stack ?m0 m" "unat v < 2 ^ 47" for m v
  proof -
    have "v < 0x800000000000" using that(2) by (simp add: word_less_nat_alt)
    moreover have "\<forall>x. page_base x \<notin> insert stack (page_frames pages) \<longrightarrow> m x = ?m0 x" using that(1) by (simp add: keeps_def)
    ultimately show ?thesis using walk pml4_idx_below [OF that(2)] unfolding user_frame_def by presburger
  qed
  have "\<exists>f w. user_frame m (t_cr3 t) (0x400000 + of_nat i) = Some (f, w, True) \<and>
      m (f + page_off (0x400000 + of_nat i)) = text ! i" if m: "keeps stack ?m0 m" and i: "i < length text" for m i
  proof -
    let ?v = "0x400000 + of_nat i :: u64"
    have i2: "i < 0x20C" using i src(2) by simp
    have b: "page_base ?v = 0x400000" by (rule page_base_text [OF i2])
    have v: "unat ?v < 2 ^ 47" using i2 by (simp add: unat_word_ariths unat_of_nat)
    have "0x400000 \<in> page_addrs pages" using pa by simp
    then obtain f where f: "page_frame pages 0x400000 = Some f" using page_frame_None by fastforce
    then obtain w x where r: "(0x400000, f, w, x) \<in> set pages" and fp: "f \<in> page_frames pages" using page_frame_Some by blast
    have x: "x" using fs r code_page_exec by blast
    have fl: "page_aligned f" "unat f < 2 ^ 47" using ok r fp s(3) by (auto simp: pages_ok_def)
    have "requested (pages @ [stack_request stack]) ?v = Some (f AND ADDR_MASK, w, x)"
    proof (rule requested_page [OF ok])
      show "(page_base ?v, f, w, x) \<in> set pages" using r b by simp
      show "unat u < 2 ^ 47" if "u \<in> page_addrs pages" for u using that unfolding pa by auto
      show "page_base stack \<noteq> page_base ?v" using st sb b by simp
    qed (use v s(3) in auto)
    then have fr: "user_frame m (t_cr3 t) ?v = Some (f, w, True)"
      using frame [OF m v] addr_mask_frame [OF fl] x by simp
    have "page_base (f + page_off ?v) = f" by (rule in_page_offset [OF fl(1)]) (simp add: unat_page_off)
    then have "page_base (f + page_off ?v) \<noteq> stack" using s(4) fp by auto
    then have "m (f + page_off ?v) = ?m0 (f + page_off ?v)" using m unfolding keeps_def by blast
    also have "\<dots> = view pages ?m0 ?v" by (simp add: view_def b f)
    also have "\<dots> = data ! (0x1000 + i)" unfolding img by (rule program_image_code [OF len i2])
    finally show ?thesis using fr src(1) [OF i] by simp
  qed
  moreover have "\<exists>x. user_frame m (t_cr3 t) (stack + of_nat k) = Some (stack, True, x)"
    if m: "keeps stack ?m0 m" and k: "k < 4096" for m k
  proof -
    have k2: "unat (of_nat k :: u64) < 4096" using k by (simp add: unat_of_nat)
    have b: "page_base (stack + of_nat k) = stack" by (rule in_page_offset [OF s(2) k2])
    have v: "unat (stack + of_nat k) < 2 ^ 47" using stack_room [OF s(2) _ k] s(3) by simp
    have "indices (stack + of_nat k) = indices stack" using indices_page [OF v] s(3) b sb by simp
    from requested_stack [OF this] frame [OF m v] have "user_frame m (t_cr3 t) (stack + of_nat k) = Some (stack, True, False)"
      using addr_mask_frame [OF s(2)] s(3) by simp
    then show ?thesis by blast
  qed
  moreover have "f = stack" if m: "keeps stack ?m0 m" and v: "user_frame m (t_cr3 t) v = Some (f, True, x)" for m v f x
  proof -
    have "v < 0x800000000000" using v by (simp add: user_frame_def split: if_splits)
    then have "requested (pages @ [stack_request stack]) v = Some (f, True, x)"
      using frame [OF m, of v] v by (simp add: word_less_nat_alt)
    then obtain v' p' where r: "(v', p', True, x) \<in> set (pages @ [stack_request stack])" "f = p' AND ADDR_MASK"
      by (rule requested_SomeE)
    have "(v', p', True, x) \<notin> set pages" using fs code_pages_read_only by blast
    then have "p' = stack" using r(1) by (simp add: stack_request_def)
    then show ?thesis using r(2) addr_mask_frame [OF s(2)] s(3) by simp
  qed
  ultimately show ?thesis using s(1,2) unfolding loaded_def by blast
qed

section \<open>Running straight through\<close>

lemma keeps_refl [simp]: "keeps stack m m"
  by (simp add: keeps_def)

lemma fetch_text:
  assumes "loaded code cr3 stack m0" and "keeps stack m0 m"
  shows "i + n \<le> length code \<Longrightarrow> fetch_code n m cr3 (0x400000 + of_nat i) = take n (drop i code)"
proof (induction n arbitrary: i)
  case (Suc n)
  then have "i < length code" by simp
  then obtain f w where f: "user_frame m cr3 (0x400000 + of_nat i) = Some (f, w, True)"
    "m (f + page_off (0x400000 + of_nat i)) = code ! i"
    using assms unfolding loaded_def by blast
  have s: "0x400000 + of_nat i + 1 = (0x400000 + of_nat (Suc i) :: u64)" by simp
  have "fetch_code n m cr3 (0x400000 + of_nat i + 1) = take n (drop (Suc i) code)"
    unfolding s by (rule Suc.IH) (use Suc.prems in simp)
  then show ?case using f \<open>i < length code\<close> by (simp add: Cons_nth_drop_Suc [symmetric])
qed simp

lemma write_bytes_Cons:
  assumes "length bs < 2 ^ 64"
  shows "write_bytes (m(a := b)) (a + 1) bs = write_bytes m a (b # bs)"
proof
  fix x :: u64
  show "write_bytes (m(a := b)) (a + 1) bs x = write_bytes m a (b # bs) x"
  proof (cases "x = a")
    case True
    have "x - (a + 1) = 0 - 1" using True by simp
    then have "\<not> unat (x - (a + 1)) < length bs" using assms by (simp only: unat_u64_diff) simp
    then show ?thesis using True by (simp add: write_bytes_def)
  next
    case False
    then have "x - a \<noteq> 0" by simp
    moreover have "x - (a + 1) = x - a - 1" by simp
    ultimately have "unat (x - a) = Suc (unat (x - (a + 1)))" using unat_minus_one by (metis Suc_pred gr0I unat_0_iff minus_nat.simps(1) One_nat_def)
    then show ?thesis using False by (simp add: write_bytes_def)
  qed
qed

lemma keeps_poke: "keeps stack m0 m \<Longrightarrow> page_base x = stack \<Longrightarrow> keeps stack m0 (m(x := b))"
  by (auto simp: keeps_def)

lemma store_stack:
  assumes "loaded code cr3 stack m0" 
  shows "keeps stack m0 m \<Longrightarrow> k + length bs \<le> 4096 \<Longrightarrow>
    user_store bs cr3 (stack + of_nat k) m = Some (write_bytes m (stack + of_nat k) bs)"
proof (induction bs arbitrary: k m)
  case Nil
  then show ?case by (simp add: write_bytes_def)
next
  case (Cons b bs)
  then have k: "k < 4096" by simp
  then have k2: "unat (of_nat k :: u64) < 4096" by (simp add: unat_of_nat)
  have al: "page_aligned stack" using assms by (simp add: loaded_def)
  obtain x where x: "user_frame m cr3 (stack + of_nat k) = Some (stack, True, x)"
    using assms Cons.prems(1) k unfolding loaded_def by blast
  have o: "page_off (stack + of_nat k) = of_nat k" "page_base (stack + of_nat k) = stack"
    by (rule in_page_offset [OF al k2])+
  have s: "stack + of_nat (Suc k) = stack + of_nat k + 1" by simp
  have "user_store bs cr3 (stack + of_nat (Suc k)) (m(stack + of_nat k := b)) =
      Some (write_bytes (m(stack + of_nat k := b)) (stack + of_nat (Suc k)) bs)"
    by (rule Cons.IH [OF keeps_poke [OF Cons.prems(1) o(2)]]) (use Cons.prems in simp)
  moreover have "length bs < 2 ^ 64" using Cons.prems(2) by simp
  ultimately show ?case using x o(1) write_bytes_Cons [of bs m "stack + of_nat k" b] unfolding s
    by (simp only: user_store.simps option.case prod.case bool.case)
qed

lemma store_keeps:
  assumes "loaded code cr3 stack m0"
  shows "user_store bs cr3 v m = Some m' \<Longrightarrow> keeps stack m0 m \<Longrightarrow> keeps stack m0 m'"
proof (induction bs arbitrary: v m)
  case (Cons b bs)
  obtain f x where f: "user_frame m cr3 v = Some (f, True, x)"
    and s: "user_store bs cr3 (v + 1) (m(f + page_off v := b)) = Some m'"
    using Cons.prems(1) by (auto split: option.splits bool.splits)
  have "f = stack" using assms f Cons.prems(2) unfolding loaded_def by blast
  moreover have "page_aligned stack" using assms by (simp add: loaded_def)
  ultimately have "page_base (f + page_off v) = stack" using in_page_offset(1) unat_page_off by simp
  from Cons.IH [OF s keeps_poke [OF Cons.prems(2) this]] show ?case .
qed simp

lemma uexec_keeps:
  assumes "loaded code cr3 stack m0" "uexec ins cr3 c m = Some (c', m')" "keeps stack m0 m"
  shows "keeps stack m0 m'"
  using assms(2,3) store_keeps [OF assms(1)] by (auto simp: uexec_def Let_def split: instr.splits)

fun exec_block :: "(nat \<times> instr \<times> nat) list \<Rightarrow> u64 \<Rightarrow> ucpu \<Rightarrow> memory \<Rightarrow> (ucpu \<times> memory) option" where
  "exec_block [] cr3 c m = Some (c, m)"
| "exec_block ((i, ins, len) # r) cr3 c m =
     (case uexec ins cr3 (c\<lparr>uc_rip := 0x400000 + of_nat (i + len)\<rparr>) m of
        None \<Rightarrow> None
      | Some (c2, m2) \<Rightarrow> exec_block r cr3 c2 m2)"

text \<open>The offsets of a block are those at which its instructions follow each other.\<close>

fun block_at :: "nat \<Rightarrow> (nat \<times> instr \<times> nat) list \<Rightarrow> bool" where
  "block_at k [] = True"
| "block_at k ((i, ins, len) # r) \<longleftrightarrow> i = k \<and> ins \<noteq> SyscallIns \<and> block_at (i + len) r"

definition decoded :: "u8 list \<Rightarrow> (nat \<times> instr \<times> nat) \<Rightarrow> bool" where
  "decoded code = (\<lambda>(i, ins, len). i + 15 \<le> length code \<and> decode (take 15 (drop i code)) = Some (ins, len))"

lemma uexec_rip: "uexec ins cr3 c m = Some (c', m') \<Longrightarrow> uc_rip c' = uc_rip c"
  by (auto simp: uexec_def set_reg_def Let_def split: instr.splits)

lemma run_block:
  assumes L: "loaded code cr3 stack m0"
  shows "keeps stack m0 m \<Longrightarrow> block_at k is \<Longrightarrow> list_all (decoded code) is \<Longrightarrow> uc_rip c = 0x400000 + of_nat k \<Longrightarrow>
    exec_block is cr3 c m = Some (c', m') \<Longrightarrow>
    user_run left frames flags other cr3 (length is + n) c m y = user_run left frames flags other cr3 n c' m' y \<and> keeps stack m0 m'"
proof (induction "is" arbitrary: k c m)
  case (Cons a r)
  obtain i ins len where a: "a = (i, ins, len)" by (cases a)
  have i: "i = k" "ins \<noteq> SyscallIns" "block_at (k + len) r" using Cons.prems(2) by (auto simp: a)
  have d: "k + 15 \<le> length code" "decode (take 15 (drop k code)) = Some (ins, len)" "list_all (decoded code) r"
    using Cons.prems(3) i(1) by (auto simp: a decoded_def)
  let ?c = "c\<lparr>uc_rip := 0x400000 + of_nat (k + len)\<rparr>"
  obtain c2 m2 where e: "uexec ins cr3 ?c m = Some (c2, m2)" "exec_block r cr3 c2 m2 = Some (c', m')"
    using Cons.prems(5) by (auto simp: a i(1) split: option.splits)
  have rip: "uc_rip c + of_nat len = 0x400000 + of_nat (k + len)" using Cons.prems(4) by simp
  have f: "fetch_code 15 m cr3 (uc_rip c) = take 15 (drop k code)"
    using fetch_text [OF L Cons.prems(1) d(1)] Cons.prems(4) by simp
  have "user_run left frames flags other cr3 (length (a # r) + n) c m y = user_run left frames flags other cr3 (length r + n) c2 m2 y"
    using i(2) e(1) by (simp add: f d(2) rip Let_def del: fetch_code.simps)
  moreover have "uc_rip c2 = 0x400000 + of_nat (k + len)" using uexec_rip [OF e(1)] by simp
  ultimately show ?case
    using Cons.IH [OF uexec_keeps [OF L e(1) Cons.prems(1)] i(3) d(3) _ e(2)] by simp
qed simp

lemma run_syscall:
  assumes "loaded code cr3 stack m0" "keeps stack m0 m" "decoded code (i, SyscallIns, 2)" "uc_rip c = 0x400000 + of_nat i"
    and "c1 = c\<lparr>uc_rip := 0x400000 + of_nat (i + 2)\<rparr>" and "y1 = y\<lparr>y_mem := caller_view other m cr3\<rparr>"
  shows "user_run left frames flags other cr3 (Suc n) c m y =
    (case syscall_handler (frames (user_regs_at flags c1)) id (user_regs_at flags c1) y1 of
       Exited r \<Rightarrow> Exits y1 r
     | Derailed y2 \<Rightarrow> Faults c m y2
     | Resumed sr y2 \<Rightarrow> user_run left frames flags other cr3 n (after_sysret left sr c1) m y2)"
proof -
  have d: "i + 15 \<le> length code" "decode (take 15 (drop i code)) = Some (SyscallIns, 2)"
    using assms(3) by (auto simp: decoded_def)
  have f: "fetch_code 15 m cr3 (uc_rip c) = take 15 (drop i code)" using fetch_text [OF assms(1,2) d(1)] assms(4) by simp
  have e: "c\<lparr>uc_rip := uc_rip c + of_nat 2\<rparr> = c1" using assms(4,5) by simp
  show ?thesis
    unfolding user_run.simps f d(2) option.case prod.case Let_def e assms(6) [symmetric] simp_thms if_True
    by (rule TrueI)
qed

section \<open>Memory of the stack page\<close>

lemma store_at:
  assumes "loaded code cr3 stack m0" "keeps stack m0 m" "unat d + length bs \<le> 4096"
  shows "user_store bs cr3 (d + stack) m = Some (write_bytes m (d + stack) bs)"
  using store_stack [OF assms(1,2), of "unat d" bs] assms(3) by (simp add: add.commute)

lemma keeps_write:
  assumes "loaded code cr3 stack m0" "keeps stack m0 m" "unat d + length bs \<le> 4096"
  shows "keeps stack m0 (write_bytes m (d + stack) bs)"
  using store_keeps [OF assms(1) store_at [OF assms] assms(2)] .



section \<open>The programs\<close>








lemma drawtest_decoded: "list_all (decoded (code_text drawtest_code)) drawtest_program"
proof -
  have "list_all (\<lambda>(i, _). i + 15 \<le> 48) drawtest_program" by (simp add: drawtest_program_def)
  then show ?thesis using drawtest_decodes by (auto simp: list_all_iff decoded_def code_text_def)
qed


lemma drawtest_run:
  assumes L: "loaded (code_text drawtest_code) cr3 stack m" and fr: "\<And>r. length (frames r) \<le> 1021"
  shows "\<exists>y'. user_run left frames flags other cr3 (8 + n) (jump_to_userspace 0x400000 (stack + 4096) regs) m y =
      Exits y' (exit_commit (y_sched y)) \<and>
    y_rects y' = y_rects y @ (if bit (caps (y_sched y)) 1 then [(20, 20, 100, 100, 0x00FF00)] else []) \<and>
    y_serial y' = y_serial y \<and>
    (audit_ok (y_log y) \<longrightarrow> y_log y' = cap_event ''draw'' (bit (caps (y_sched y)) 1) ''CAP_DRAW'' y)"
proof -
  let ?code = "code_text drawtest_code" and ?c0 = "jump_to_userspace 0x400000 (stack + 4096) regs"
    and ?run = "user_run left frames flags other cr3" and ?b1 = "take 4 drawtest_program"
    and ?b2 = "[(17, MovImm 0 60, 7), (24, XorReg 7 7, 3)]"
  let ?c1 = "\<lparr>uc_reg = regs(4 := 4088 + stack, 5 := 4088 + stack, 0 := 2), uc_rip = 0x40000F\<rparr>"
    and ?m1 = "write_bytes m (4088 + stack) (le_bytes 8 (regs 5))"
  have d: "list_all (decoded ?code) ?b1" "decoded ?code (15, SyscallIns, 2)"
    "list_all (decoded ?code) ?b2" "decoded ?code (27, SyscallIns, 2)"
    using drawtest_decoded by (simp_all add: drawtest_program_def)
  have b: "block_at 0 ?b1" "length ?b1 = 4" by (simp_all add: drawtest_program_def)
  have k0: "keeps stack m m" by simp
  have m1: "keeps stack m ?m1" by (rule keeps_write [OF L k0]) simp
  have e1: "exec_block ?b1 cr3 ?c0 m = Some (?c1, ?m1)"
    by (simp add: drawtest_program_def jump_to_userspace_def uexec_def set_reg_def store_at [OF L])
  have r0: "uc_rip ?c0 = 0x400000 + of_nat 0" by (simp add: jump_to_userspace_def)
  have s1: "?run (4 + (4 + n)) ?c0 m y = ?run (4 + n) ?c1 ?m1 y"
    using run_block [OF L k0 b(1) d(1) r0 e1, where left = left and frames = frames and flags = flags and other = other and n = "4 + n" and y = y]
    unfolding b(2) by (rule conjunct1)
  let ?c2 = "?c1\<lparr>uc_rip := 0x400011\<rparr>" and ?y1 = "y\<lparr>y_mem := caller_view other ?m1 cr3\<rparr>"
  let ?u = "user_regs_at flags ?c2" and ?sr = "\<lparr>sr_rax = 0, sr_r11 = flags, sr_rip = 0x400011, sr_rsp = 4088 + stack\<rparr>"
  have "ur_rax ?u = 2" by (simp add: user_regs_at_def)
  from handler_draw [OF this fr [of ?u], of ?y1] obtain y2 where h: "syscall_handler (frames ?u) id ?u ?y1 = Resumed ?sr y2"
    and y2: "y_rects y2 = y_rects y @ (if bit (caps (y_sched y)) 1 then [(20, 20, 100, 100, 0x00FF00)] else [])"
      "y_serial y2 = y_serial y" "y_sched y2 = y_sched y"
      "audit_ok (y_log y) \<longrightarrow> y_log y2 = cap_event ''draw'' (bit (caps (y_sched y)) 1) ''CAP_DRAW'' y"
    by (auto simp: user_regs_at_def cap_event_def split: if_splits)
  let ?c3 = "after_sysret left ?sr ?c2"
  have s2: "?run (Suc (3 + n)) ?c1 ?m1 y = ?run (3 + n) ?c3 ?m1 y2"
    by (rule trans [OF run_syscall [OF L m1 d(2), of ?c1 ?c2 ?y1]]) (simp_all only: h syscall_result.case, simp_all)
  let ?c4 = "\<lparr>uc_reg = (uc_reg ?c3)(0 := 60, 7 := 0), uc_rip = 0x40001B\<rparr>"
  have b2: "block_at 17 ?b2" "length ?b2 = 2" and rip: "uc_rip ?c3 = 0x400000 + of_nat 17"
    by (simp_all add: after_sysret_def)
  have e2: "exec_block ?b2 cr3 ?c3 ?m1 = Some (?c4, ?m1)" by (simp add: uexec_def set_reg_def)
  have s3: "?run (2 + (1 + n)) ?c3 ?m1 y2 = ?run (1 + n) ?c4 ?m1 y2"
    using run_block [OF L m1 b2(1) d(3) rip e2, where left = left and frames = frames and flags = flags and other = other and n = "1 + n" and y = y2]
    unfolding b2(2) by (rule conjunct1)
  let ?y3 = "y2\<lparr>y_mem := caller_view other ?m1 cr3\<rparr>"
  have s4: "?run (Suc n) ?c4 ?m1 y2 = Exits ?y3 (exit_commit (y_sched y))"
    by (rule trans [OF run_syscall [OF L m1 d(4), of ?c4 "?c4\<lparr>uc_rip := 0x40001D\<rparr>" ?y3]])
      (simp_all add: handler_exit user_regs_at_def y2(3))
  have n: "8 + n = 4 + (4 + n)" "4 + n = Suc (3 + n)" "3 + n = 2 + (1 + n)" "1 + n = Suc n" by simp_all
  have "?run (8 + n) ?c0 m y = Exits ?y3 (exit_commit (y_sched y))"
    unfolding n(1) s1 unfolding n(2) s2 unfolding n(3) s3 unfolding n(4) by (rule s4)
  then show ?thesis using y2 by auto
qed

section \<open>From the file to the exit\<close>

lemma spawn_embedded:
  assumes "program_file data" and "kernel_owns R k" and "page_aligned hhdm" and "unat (s_next_pid (k_sched k)) < 2 ^ 32"
    and "\<not> grantable (m_pmm (k_mach k)) (k_cr3 k AND ADDR_MASK)"
    and "17 \<le> avail (k_mach k)" and "21 \<le> spare (k_mach k)"
  shows "\<exists>pid t k'. spawn_program hhdm tramp around name data cs k = Ret (Inr pid, k') \<and>
    task (k_sched k') pid = Some t \<and> program_task data around program_phdrs 0x400000 cs (k_mach k') t \<and>
    grantable (m_pmm (k_mach k)) (t_user_stack_top t - 4096)"
proof -
  have low: "\<forall>ph \<in> set program_phdrs. loadable ph \<longrightarrow> (\<forall>v \<in> set (seg_pages ph). pml4_idx v < 256)"
  proof (intro ballI impI)
    fix ph v assume "ph \<in> set program_phdrs" "loadable ph" "v \<in> set (seg_pages ph)"
    then have "v \<in> {0x3FF000, 0x400000, 0x401000}" using program_seg_pages [of ph] by auto
    then show "pml4_idx v < 256" by (auto simp: pml4_idx_def)
  qed
  have e: "h_entry program_hdr = 0x400000" by (simp add: program_hdr_def)
  have "4 * pages_needed program_phdrs + 5 \<le> avail (k_mach k)" "4 * pages_needed program_phdrs + 9 \<le> spare (k_mach k)"
    using assms(6,7) by (simp_all add: program_needed)
  from spawn_program_spec [OF assms(2-5) program_header [OF assms(1)] program_headers_ok [OF assms(1)]
      program_phdr [OF assms(1), of around, symmetric] low this, of tramp name cs]
  show ?thesis unfolding e by fastforce
qed

lemma stack_elsewhere:
  assumes "\<forall>f \<in> {0x3FF000, 0x400000, 0x401000}. \<not> grantable p f" and "grantable p (tp - 4096)"
  shows "tp \<notin> {0x400000, 0x401000, 0x402000 :: u64}"
proof
  assume "tp \<in> {0x400000, 0x401000, 0x402000}"
  then have "tp - 4096 \<in> {0x3FF000, 0x400000, 0x401000}" by auto
  then show False using assms by blast
qed






text \<open>
  The second program asks to draw: the rectangle appears exactly when the task may draw, the decision is logged,
  and it ends in the exit either way.
\<close>

theorem drawtest_from_file_to_exit:
  assumes "kernel_owns R k" and "page_aligned hhdm" and "unat (s_next_pid (k_sched k)) < 2 ^ 32"
    and "\<not> grantable (m_pmm (k_mach k)) (k_cr3 k AND ADDR_MASK)"
    and "\<forall>f \<in> {0x3FF000, 0x400000, 0x401000}. \<not> grantable (m_pmm (k_mach k)) f"
    and "17 \<le> avail (k_mach k)" and "21 \<le> spare (k_mach k)"
  shows "\<exists>pid t k'. spawn_program hhdm tramp around ''drawtest'' DRAWTEST_ELF cs k = Ret (Inr pid, k') \<and>
    task (k_sched k') pid = Some t \<and> t_caps t = cs \<and>
    (\<forall>left frames flags other regs n y. (\<forall>r. length (frames r) \<le> 1021) \<longrightarrow> (\<exists>y'.
       user_run left frames flags other (t_cr3 t) (8 + n) (jump_to_userspace (t_user_entry t) (t_user_stack_top t) regs) (m_mem (k_mach k')) y =
         Exits y' (exit_commit (y_sched y)) \<and>
       y_rects y' = y_rects y @ (if bit (caps (y_sched y)) 1 then [(20, 20, 100, 100, 0x00FF00)] else []) \<and>
       y_serial y' = y_serial y \<and>
       (audit_ok (y_log y) \<longrightarrow> y_log y' = cap_event ''draw'' (bit (caps (y_sched y)) 1) ''CAP_DRAW'' y)))"
proof -
  obtain pid t k' where s: "spawn_program hhdm tramp around ''drawtest'' DRAWTEST_ELF cs k = Ret (Inr pid, k')"
    "task (k_sched k') pid = Some t" and p: "program_task DRAWTEST_ELF around program_phdrs 0x400000 cs (k_mach k') t"
    and g: "grantable (m_pmm (k_mach k)) (t_user_stack_top t - 4096)"
    using spawn_embedded [OF drawtest_is_program assms(1-4,6,7)] by blast
  have len: "length DRAWTEST_ELF = 9144" using drawtest_is_program by (simp add: program_file_def)
  have "\<And>i. i < length (code_text drawtest_code) \<Longrightarrow> DRAWTEST_ELF ! (0x1000 + i) = code_text drawtest_code ! i"
    and "length (code_text drawtest_code) \<le> 0x20C"
    using drawtest_code_at by (simp_all add: code_text_def)
  from program_loaded [OF p len this stack_elsewhere [OF assms(5) g]] obtain stack where
    l: "t_user_stack_top t = stack + 4096" "loaded (code_text drawtest_code) (t_cr3 t) stack (m_mem (k_mach k'))" by blast
  have e: "t_user_entry t = 0x400000" and c: "t_caps t = cs" using p by (auto simp: program_task_def)
  show ?thesis by (intro exI [of _ pid] exI [of _ t] exI [of _ k'] conjI allI impI s c)
    (unfold e l(1), rule drawtest_run [OF l(2)], blast)
qed

text \<open>
  The stack is mapped at its own physical address. When the allocator hands out the frame at 0x400000 for it, the
  stack hides the code of the program, and the first instruction faults.
\<close>

theorem stack_frame_hides_code:
  assumes "program_task data a program_phdrs 0x400000 cs mach t" and "t_user_stack_top t = 0x401000"
  shows "user_run left frames flags other (t_cr3 t) (Suc n) (jump_to_userspace (t_user_entry t) (t_user_stack_top t) regs) (m_mem mach) y =
    Faults (jump_to_userspace (t_user_entry t) (t_user_stack_top t) regs) (m_mem mach) y"
proof -
  obtain pages stack where s: "t_user_stack_top t = stack + 4096"
    and w: "\<forall>m v. (\<forall>x. page_base x \<notin> insert stack (page_frames pages) \<longrightarrow> m x = m_mem mach x) \<longrightarrow> pml4_idx v < 256 \<longrightarrow>
      user_walk m (t_cr3 t) v = requested (pages @ [stack_request stack]) v"
    by (rule program_taskE [OF assms(1)]) (rule that)
  have "stack + 4096 - 4096 = 0x401000 - 4096" using s assms(2) by simp
  then have st: "stack = 0x400000" by simp
  have "pml4_idx 0x400000 < 256" by (simp add: pml4_idx_def)
  with w have "user_walk (m_mem mach) (t_cr3 t) 0x400000 = requested (pages @ [stack_request stack]) 0x400000"
    by (elim allE [of _ "m_mem mach"] allE [of _ "0x400000"]) (rule mp, erule mp, simp_all)
  also have "\<dots> = Some (0x400000 AND ADDR_MASK, True, False)"
    using requested_stack [of "0x400000" stack pages] unfolding st by simp
  finally have "fetch_code 15 (m_mem mach) (t_cr3 t) 0x400000 = []"
    by (simp add: numeral_eq_Suc user_frame_def)
  moreover have "t_user_entry t = 0x400000" using assms(1) by (simp add: program_task_def)
  ultimately show ?thesis by (simp add: jump_to_userspace_def decode_def del: fetch_code.simps)
qed

end
