(* ===== verification/Spec2Isabelle.thy ===== *)
theory Spec2Isabelle
  imports Paging AuditLog Elf Runqueue Sched Lifecycle Procs Backends Vfs Ring Ipc Capabilities Seccomp Mac Namespaces Hardening Keyboard Pci Nvme NvmeQueues ShellParser ShellHistory Heap Hal Fault Syscalls HardwareSec CompletionTrie AiOnline AiEngine Compositor Config ShellLine KShell Boot Initrd UserMode
begin

text \<open>
  Verification library of the Noxisa system: its kernel (\<open>kernel/\<close>), the UEFI bootloader
  (\<open>bootloader/\<close>), the user shell (\<open>shell/\<close>), the completion engine (\<open>ai_engine/\<close>), the window manager
  (\<open>compositor/\<close>) and the configuration engine (\<open>config_engine/\<close>). Every definition is executable and keeps the
  name of what it models; a property carries its number and an English statement in the text before it.

  How the parts interact. The bootloader or Limine hands the kernel a memory map, from which the frame
  allocator is fed. Page tables, program images, kernel stacks and NVMe queues are made of its frames. The
  scheduler owns the tasks; \<open>spawn_program\<close> loads an ELF file into fresh frames, builds an address space for it
  and queues a task, and \<open>reap\<close> gives everything back. A task enters the kernel by a system call or a timer
  interrupt. Files, channels and system calls check the identity or the capabilities of the current task and
  write every decision to the audit log. The user shell is a separate program and uses the completion engine.

  Conventions. Rust integers are words of their width, so arithmetic wraps where the source's does; a
  panic is the value \<open>Panic\<close> of the type \<open>outcome\<close> (theory Prelude), a \<open>Result\<close> is a sum and an \<open>Option\<close> an option;
  \<open>Vec\<close>s of pairs are association lists. Physical memory is a function from addresses to bytes
  (theory Machine). State is passed explicitly, one record per component; locks are not modelled, and the
  races that matter are explicit sequences of steps. What the kernel only reaches through hardware or a
  third-party library is an argument: the NVMe controller and the clock, the PCI configuration space, the
  inner heap allocator, the Lua interpreter, the HTTP client, the firmware's page allocator, the terminal.

  Theories, with the code they model and what their lemmas show.
  Prelude, Interfaces: shared types, lemmas and the contracts several components meet, as locales that are
  interpreted in the components (per-process tables, queues, frame allocators).
  Pmm (\<open>memory/pmm.rs\<close>): bump pointer and free list; exclusive ownership, scrubbing, exact counting, boot.
  Machine, Paging (\<open>memory/paging.rs\<close>): walks, isolated tables, teardown; an address space maps exactly what was
  requested, never writable and executable at once unless that was requested.
  Elf (\<open>fs/elf.rs\<close>): header checks and both loaders; the loaded image byte for byte, the errors, and two defects.
  Initrd, UserMode (\<open>fs/initrd.rs\<close>, \<open>jump_to_userspace\<close> in \<open>main.rs\<close>): the embedded programs, and a user-mode
  processor for the instructions they use, which follows them from \<open>spawn_program\<close> to their exit.
  Runqueue, Sched, Procs, Lifecycle (\<open>scheduler/mod.rs\<close>): run queue, tasks, switch, exit, descriptors, spawn and
  reap; the invariant of the queue, round robin, what a task owns, the register swap and its window.
  Vfs, Backends (\<open>fs/vfs.rs\<close>, \<open>fs/tmpfs.rs\<close>, \<open>fs/procfs.rs\<close>): mounts, permissions, descriptors, the two file
  systems; denials change nothing but the log, writes are read back, owners survive.
  Ring, Ipc (\<open>ipc/mod.rs\<close>): the byte ring refines a bounded queue, channels deny by default, racing senders.
  AuditLog (\<open>audit.rs\<close>, \<open>drivers/pit.rs\<close>), Capabilities, Seccomp, Mac, Namespaces, Hardening, HardwareSec
  (\<open>security/\<close>): the log keeps the last 256 events; drops are irreversible, filters form a chain, untrusted
  processes are confined, namespaces are fresh, canaries differ.
  Syscalls, Heap (\<open>main.rs\<close>): the capability gate and what preemption does in it, down to the frames on
  the shared kernel stack; canaries of the hardened heap over any inner allocator that keeps its contract.
  Fault (\<open>fault/mod.rs\<close>): watchdog, known problems and lock records; the module is not part of the kernel build.
  Pci, Keyboard, Nvme, NvmeQueues (\<open>drivers/\<close>), Hal (\<open>hal/\<close>): bus scan, scancodes, controller bring-up and command
  queues, block transfers; every command returns with what its completion says,
  and a timed-out one shifts the later ones when the controller completes in order.
  KShell (\<open>kshell/mod.rs\<close>): the early-boot shell never panics, its search offers what a filter would.
  Boot (\<open>bootloader/src/main.rs\<close>): memory map, image and page tables; what the tables map and what they miss.
  ShellParser, ShellHistory, ShellLine (\<open>shell/src/\<close>): the printed form of a script is parsed back, the
  line editor implements a pair of strings, and a typed script runs its commands in order.
  CompletionTrie, AiOnline, AiEngine (\<open>ai_engine/src/\<close>): the trie is well formed and implements a finite map,
  completion offers what is stored in rank order, the best of it while not too much matches, breakers open
  after three failures, the pipeline answers without a local model.
  Compositor (\<open>compositor/src/main.rs\<close>): tiling covers the screen without overlap, focus and numbers.
  Config (\<open>config_engine/src/lib.rs\<close>): settings, registered functions and hot reload.

  Bounds and fuel. Loops of the source are structural recursion or have a termination measure. Polling loops of
  the NVMe driver stop at a deadline of the clock that is an argument; a clock that keeps passing the deadlines is enough.
  The processor of UserMode takes a number of instructions: 20 are enough for one embedded program, 8 for the other, and
  more change nothing. Addresses of usable memory are below \<open>2 ^ 47\<close>, pids below \<open>2 ^ 32\<close>, and the properties name the
  free frames they need.

  Not modelled: the firmware and boot protocol calls, the start-up sequence of \<open>main.rs\<close> that calls the
  modelled operations once, its diagnostic console commands, which print results of operations
  modelled here, the set-up of descriptor tables and interrupt controllers, serial and framebuffer
  output, the trait wrappers around them in \<open>hal/\<close>, the terminal mode and drawing of both shells, and the SDK, whose
  operations return constants or print, and which declares its modules twice. The processor's flags and caches are not modelled.
\<close>

end
